(* ===== verification/MOS_Prelude.thy ===== *)
theory MOS_Prelude
  imports Main "HOL-Library.Word"
begin

text \<open>
  Shared vocabulary of the MayteraOS development: the C integer types, the search
  \<open>for (i = 0; i < N; i++) if (P(a[i])) ...\<close> that every fixed kernel table uses, counting
  lemmas for tables updated at one slot, ring buffers read as lists, and the interface
  \<open>data_refinement\<close> (a concrete machine simulated by an abstract one).
\<close>

section \<open>C types\<close>

type_synonym u8 = "8 word"
type_synonym u32 = "32 word"
type_synonym u64 = "64 word"

text \<open>A kernel pointer: the address of an object in a store, \<open>None\<close> being \<open>NULL\<close>.\<close>

type_synonym ptr = nat

section \<open>Searching a fixed table\<close>

text \<open>The index of the first element that satisfies \<open>P\<close>: the loop that scans a table from
  slot 0 and stops at the first hit.\<close>

primrec find_idx :: "('a \<Rightarrow> bool) \<Rightarrow> 'a list \<Rightarrow> nat option" where
  "find_idx P [] = None"
| "find_idx P (x # xs) = (if P x then Some 0 else map_option Suc (find_idx P xs))"

text \<open>Ring buffers: the \<open>n\<close> elements of \<open>buf\<close> that start at \<open>pos\<close> and wrap around.\<close>

definition ring_contents :: "'a list \<Rightarrow> nat \<Rightarrow> nat \<Rightarrow> 'a list" where
  "ring_contents buf pos n = map (\<lambda>i. buf ! ((pos + i) mod length buf)) [0..<n]"

named_theorems table_simps \<open>rewriting facts on fixed tables\<close>

lemma find_idx_Some_iff:
  "find_idx P xs = Some i \<longleftrightarrow> i < length xs \<and> P (xs ! i) \<and> (\<forall>j<i. \<not> P (xs ! j))"
proof (induction xs arbitrary: i)
  case Nil
  then show ?case by simp
next
  case (Cons x xs)
  show ?case
  proof (cases i)
    case 0
    then show ?thesis by auto
  next
    case (Suc k)
    then show ?thesis using Cons.IH by (auto simp: less_Suc_eq_0_disj)
  qed
qed

lemma find_idx_SomeD:
  assumes "find_idx P xs = Some i"
  shows "i < length xs" and "P (xs ! i)" and "\<And>j. j < i \<Longrightarrow> \<not> P (xs ! j)"
  using assms by (auto simp: find_idx_Some_iff)

lemma find_idx_None_iff: "find_idx P xs = None \<longleftrightarrow> (\<forall>x\<in>set xs. \<not> P x)"
  by (induction xs) auto

lemma find_idx_None_nth: "find_idx P xs = None \<Longrightarrow> i < length xs \<Longrightarrow> \<not> P (xs ! i)"
  by (auto simp: find_idx_None_iff)

section \<open>Tables updated at one slot\<close>

lemma count_list_update:
  "i < length xs \<Longrightarrow>
     count_list (xs[i := v]) a + (if xs ! i = a then 1 else 0)
       = count_list xs a + (if v = a then 1 else 0)"
proof (induction xs arbitrary: i)
  case Nil
  then show ?case by simp
next
  case (Cons x xs)
  then show ?case by (cases i) (fastforce split: if_splits)+
qed

lemma sum_list_map_update:
  fixes f :: "'a \<Rightarrow> nat"
  shows "i < length xs \<Longrightarrow>
     sum_list (map f (xs[i := v])) + f (xs ! i) = sum_list (map f xs) + f v"
proof (induction xs arbitrary: i)
  case Nil
  then show ?case by simp
next
  case (Cons x xs)
  then show ?case by (cases i) auto
qed

lemma nth_le_sum_list_map:
  fixes f :: "'a \<Rightarrow> nat"
  shows "i < length xs \<Longrightarrow> f (xs ! i) \<le> sum_list (map f xs)"
proof (induction xs arbitrary: i)
  case Nil
  then show ?case by simp
next
  case (Cons x xs)
  then show ?case by (cases i) (auto intro: trans_le_add2)
qed

section \<open>Ring buffers as lists\<close>

lemma length_ring_contents [simp]: "length (ring_contents buf pos n) = n"
  by (simp add: ring_contents_def)

lemma ring_contents_0 [simp]: "ring_contents buf pos 0 = []"
  by (simp add: ring_contents_def)

lemma ring_contents_nth:
  "i < n \<Longrightarrow> ring_contents buf pos n ! i = buf ! ((pos + i) mod length buf)"
  by (simp add: ring_contents_def)

lemma ring_contents_Suc:
  "ring_contents buf pos (Suc n)
     = buf ! (pos mod length buf) # ring_contents buf ((pos + 1) mod length buf) n"
  by (rule nth_equalityI)
    (auto simp: ring_contents_def nth_Cons mod_simps simp del: upt_Suc split: nat.splits)

lemma ring_contents_snoc:
  "ring_contents buf pos (Suc n)
     = ring_contents buf pos n @ [buf ! ((pos + n) mod length buf)]"
  by (simp add: ring_contents_def)

text \<open>The slot after the last element is outside the window while the ring is not full.\<close>

lemma ring_slot_outside:
  fixes n :: nat
  assumes "n < L" and "i < n"
  shows "(pos + n) mod L \<noteq> (pos + i) mod L"
proof
  assume "(pos + n) mod L = (pos + i) mod L"
  then have "(n - i) mod L = 0"
    using \<open>i < n\<close> by (simp add: mod_eq_dvd_iff_nat)
  then show False using assms by simp
qed

lemma ring_contents_put:
  assumes "n < length buf"
  shows "ring_contents (buf[(pos + n) mod length buf := x]) pos (Suc n)
           = ring_contents buf pos n @ [x]"
proof -
  have pos: "(pos + n) mod length buf < length buf"
    using assms by (intro mod_less_divisor) linarith
  have "ring_contents (buf[(pos + n) mod length buf := x]) pos n = ring_contents buf pos n"
    using assms by (auto intro!: nth_equalityI
        simp: ring_contents_nth ring_slot_outside)
  then show ?thesis using pos by (simp add: ring_contents_snoc)
qed

section \<open>The page allocator as its clients see it\<close>

text \<open>The page frames of a run of \<open>n\<close> pages at physical address \<open>a\<close>, and a table of runs that
  are pairwise disjoint and all inside the set \<open>U\<close> of allocated frames.\<close>

definition region_pages :: "u64 \<Rightarrow> u64 \<Rightarrow> nat set" where
  "region_pages a n = {unat a div 4096 ..< unat a div 4096 + unat n}"

definition owned_ok :: "nat set \<Rightarrow> ('i \<rightharpoonup> u64 \<times> u64) \<Rightarrow> bool" where
  "owned_ok U R \<longleftrightarrow>
     (\<forall>i a n. R i = Some (a, n) \<longrightarrow> region_pages a n \<subseteq> U) \<and>
     (\<forall>i j a n b k. i \<noteq> j \<longrightarrow> R i = Some (a, n) \<longrightarrow> R j = Some (b, k) \<longrightarrow>
        region_pages a n \<inter> region_pages b k = {})"

text \<open>
  The contract of \<open>pmm_alloc_pages\<close> and \<open>pmm_free_pages\<close>: an allocation always returns; address
  0 is the failure, which changes no frame; a success hands out frames that were not allocated.
\<close>

locale page_allocator =
  fixes inv :: "'m \<Rightarrow> bool"
    and used :: "'m \<Rightarrow> nat set"
    and alloc :: "'m \<Rightarrow> u64 \<Rightarrow> (u64 \<times> 'm) option"
    and free :: "'m \<Rightarrow> u64 \<Rightarrow> u64 \<Rightarrow> 'm"
  assumes alloc_returns: "inv m \<Longrightarrow> \<exists>a m'. alloc m n = Some (a, m')"
    and alloc_inv: "inv m \<Longrightarrow> alloc m n = Some (a, m') \<Longrightarrow> inv m'"
    and alloc_fail: "inv m \<Longrightarrow> alloc m n = Some (0, m') \<Longrightarrow> used m' = used m"
    and alloc_fresh: "inv m \<Longrightarrow> alloc m n = Some (a, m') \<Longrightarrow> a \<noteq> 0 \<Longrightarrow>
          region_pages a n \<inter> used m = {}"
    and alloc_used: "inv m \<Longrightarrow> alloc m n = Some (a, m') \<Longrightarrow> a \<noteq> 0 \<Longrightarrow>
          used m' = used m \<union> region_pages a n"
    and free_inv: "inv m \<Longrightarrow> region_pages a n \<subseteq> used m \<Longrightarrow> inv (free m a n)"
    and free_used: "inv m \<Longrightarrow> region_pages a n \<subseteq> used m \<Longrightarrow>
          used (free m a n) = used m - region_pages a n"
begin

lemma owned_alloc:
  assumes "inv m" and "owned_ok (used m) R" and "alloc m n = Some (a, m')" and "a \<noteq> 0"
    and "R i = None"
  shows "owned_ok (used m') (R(i \<mapsto> (a, n)))"
  using assms(2,5) alloc_fresh [OF assms(1,3,4)] alloc_used [OF assms(1,3,4)]
  unfolding owned_ok_def fun_upd_apply
  by (smt (verit, ccfv_SIG) Int_Un_distrib Int_commute Un_upper2 disjoint_iff le_supI1
      option.inject prod.inject subset_iff)

lemma owned_fail:
  assumes "inv m" and "owned_ok (used m) R" and "alloc m n = Some (0, m')"
  shows "owned_ok (used m') R"
  using assms(2) alloc_fail [OF assms(1,3)] by simp

lemma owned_free:
  assumes "inv m" and "owned_ok (used m) R" and "R i = Some (a, n)"
  shows "owned_ok (used (free m a n)) (R(i := None))" and "inv (free m a n)"
proof -
  have sub: "region_pages a n \<subseteq> used m"
    using assms(2,3) by (auto simp: owned_ok_def)
  show "inv (free m a n)" using free_inv [OF assms(1) sub] .
  have disj: "region_pages b k \<inter> region_pages a n = {}"
    if "j \<noteq> i" and "R j = Some (b, k)" for j b k
    using assms(2,3) that unfolding owned_ok_def by blast
  have in_used: "region_pages b k \<subseteq> used m" if "R j = Some (b, k)" for j b k
    using assms(2) that unfolding owned_ok_def by blast
  show "owned_ok (used (free m a n)) (R(i := None))"
    unfolding owned_ok_def free_used [OF assms(1) sub]
  proof (intro conjI allI impI)
    fix j b k
    assume "(R(i := None)) j = Some (b, k)"
    then have "j \<noteq> i" and "R j = Some (b, k)" by (auto split: if_splits)
    then show "region_pages b k \<subseteq> used m - region_pages a n"
      using in_used disj by blast
  next
    fix j j' b k b' k'
    assume "j \<noteq> j'" and "(R(i := None)) j = Some (b, k)" and "(R(i := None)) j' = Some (b', k')"
    then show "region_pages b k \<inter> region_pages b' k' = {}"
      using assms(2) unfolding owned_ok_def by (auto split: if_splits)
  qed
qed

end

section \<open>Simulation of a concrete machine by an abstract one\<close>

text \<open>
  \<open>cstep\<close> is one operation of the code's model, \<open>astep\<close> the same operation of the
  specification, \<open>abs\<close> what the concrete state stands for. A component that provides the two
  laws gets, for every sequence of operations, the same outputs as its specification.
\<close>

primrec run_ops :: "('s \<Rightarrow> 'op \<Rightarrow> 'out \<times> 's) \<Rightarrow> 's \<Rightarrow> 'op list \<Rightarrow> 'out list \<times> 's" where
  "run_ops step s [] = ([], s)"
| "run_ops step s (x # xs) =
     (let (o1, s1) = step s x; (os, s2) = run_ops step s1 xs in (o1 # os, s2))"

locale data_refinement =
  fixes inv :: "'c \<Rightarrow> bool"
    and abs :: "'c \<Rightarrow> 'a"
    and cstep :: "'c \<Rightarrow> 'op \<Rightarrow> 'out \<times> 'c"
    and astep :: "'a \<Rightarrow> 'op \<Rightarrow> 'out \<times> 'a"
  assumes step_inv: "inv c \<Longrightarrow> inv (snd (cstep c x))"
    and step_sim: "inv c \<Longrightarrow> astep (abs c) x = (fst (cstep c x), abs (snd (cstep c x)))"
begin

lemma run_inv: "inv c \<Longrightarrow> inv (snd (run_ops cstep c xs))"
  by (induction xs arbitrary: c) (auto simp: Let_def split_beta dest: step_inv)

lemma run_sim:
  "inv c \<Longrightarrow> run_ops astep (abs c) xs
     = (fst (run_ops cstep c xs), abs (snd (run_ops cstep c xs)))"
  by (induction xs arbitrary: c) (auto simp: Let_def split_beta step_sim step_inv)

end

end
