(* ===== verification/Pmm.thy ===== *)
theory Pmm
  imports MOS_Prelude
begin

unbundle bit_operations_syntax

text \<open>
  The physical memory manager, \<open>kernel/mm/pmm.c\<close>: the page-frame bitmap, its counters, boot
  initialisation from the firmware memory map, next-fit single page allocation, first-fit
  contiguous allocation, freeing, reservation and the low-water ladder.

  Addresses, sizes and counters are \<open>u64\<close> words, so they wrap as in C. Page numbers are \<open>nat\<close>:
  each is a quotient of a \<open>u64\<close> by 4096 and therefore below \<open>2 ^ 52\<close>; the only sums of a page
  number with a caller's number (in \<open>pmm_alloc_pages\<close>) are taken modulo \<open>2 ^ 64\<close>. The spinlock
  makes every operation atomic, so an operation is one state transformer; the log lines and the
  heap-shadow detector, which only print, are left out.
\<close>

section \<open>State\<close>

record memory_map_entry =
  mm_base :: u64
  mm_length :: u64
  mm_type :: u32
  mm_attributes :: u32

definition MEMORY_TYPE_USABLE :: u32 where "MEMORY_TYPE_USABLE = 1"
definition MEMORY_TYPE_BOOTLOADER :: u32 where "MEMORY_TYPE_BOOTLOADER = 6"

definition PMM_MAX_PAGES :: nat where "PMM_MAX_PAGES = 16777216"
definition PMM_PAGE_SIZE :: nat where "PMM_PAGE_SIZE = 4096"
definition PMM_IDENTITY_MAP_LIMIT :: nat where "PMM_IDENTITY_MAP_LIMIT = 524288"

record pmm =
  page_bitmap :: "nat \<Rightarrow> u8"
  total_pages :: u64
  free_pages :: u64
  used_pages :: u64
  g_pmm_double_free :: u64
  memory_start :: nat
  memory_end :: nat
  alloc_hint :: nat
  g_pmm_low_next :: u64
  g_mmap :: "memory_map_entry list"
  g_phys_limit :: u64

text \<open>The static initial values: everything zero until \<open>pmm_init\<close> runs.\<close>

definition pmm_boot :: pmm where
  "pmm_boot = \<lparr>page_bitmap = (\<lambda>_. 0), total_pages = 0, free_pages = 0, used_pages = 0,
     g_pmm_double_free = 0, memory_start = 0, memory_end = 0, alloc_hint = 0,
     g_pmm_low_next = 0, g_mmap = [], g_phys_limit = 0\<rparr>"

section \<open>The bitmap\<close>

definition bitmap_set :: "(nat \<Rightarrow> u8) \<Rightarrow> nat \<Rightarrow> (nat \<Rightarrow> u8)" where
  "bitmap_set bm page =
     (if page < PMM_MAX_PAGES
      then bm(page div 8 := bm (page div 8) OR push_bit (page mod 8) 1) else bm)"

definition bitmap_clear :: "(nat \<Rightarrow> u8) \<Rightarrow> nat \<Rightarrow> (nat \<Rightarrow> u8)" where
  "bitmap_clear bm page =
     (if page < PMM_MAX_PAGES
      then bm(page div 8 := bm (page div 8) AND NOT (push_bit (page mod 8) 1)) else bm)"

text \<open>Out of range is used.\<close>

definition bitmap_test :: "(nat \<Rightarrow> u8) \<Rightarrow> nat \<Rightarrow> bool" where
  "bitmap_test bm page =
     (if page \<ge> PMM_MAX_PAGES then True
      else drop_bit (page mod 8) (bm (page div 8)) AND 1 \<noteq> 0)"

section \<open>Boot initialisation\<close>

text \<open>One firmware entry clipped as \<open>pmm_init\<close> clips it (\<open>None\<close>: the \<open>continue\<close> paths): type,
  the legacy first megabyte, the 64 GB reach of the bitmap, then whole pages.\<close>

definition entry_pages :: "memory_map_entry \<Rightarrow> (nat \<times> nat) option" where
  "entry_pages e =
     (if mm_type e \<noteq> MEMORY_TYPE_USABLE \<and> mm_type e \<noteq> MEMORY_TYPE_BOOTLOADER then None
      else
        let low = mm_base e < 0x100000 in
        if low \<and> mm_base e + mm_length e \<le> 0x100000 then None
        else
          let len = (if low then mm_length e - (0x100000 - mm_base e) else mm_length e);
              base = (if low then 0x100000 else mm_base e);
              top = of_nat (PMM_MAX_PAGES * PMM_PAGE_SIZE)
          in if base \<ge> top then None
          else
            let len = (if base + len > top then top - base else len);
                start_page = (base + of_nat PMM_PAGE_SIZE - 1) div of_nat PMM_PAGE_SIZE;
                end_page = (base + len) div of_nat PMM_PAGE_SIZE
            in if end_page \<le> start_page then None
               else Some (unat start_page, unat end_page))"

definition free_one :: "pmm \<Rightarrow> nat \<Rightarrow> pmm" where
  "free_one s page =
     s\<lparr>page_bitmap := bitmap_clear (page_bitmap s) page, free_pages := free_pages s + 1\<rparr>"

definition add_entry :: "pmm \<Rightarrow> memory_map_entry \<Rightarrow> pmm" where
  "add_entry s e =
     (case entry_pages e of
        None \<Rightarrow> s
      | Some (start_page, end_page) \<Rightarrow>
          let s1 = fold (\<lambda>page s. free_one s page) [start_page..<end_page] s in
          s1\<lparr>memory_start := (if memory_start s1 = 0 \<or> start_page < memory_start s1
                              then start_page else memory_start s1),
             memory_end := (if end_page > memory_end s1 then end_page else memory_end s1)\<rparr>)"

text \<open>\<open>if (!bitmap_test(page)) { bitmap_set(page); free_pages--; used_pages++; }\<close>, the body of
  every reservation loop. The identity-limit loop does not count the page as used.\<close>

definition reserve_one :: "pmm \<Rightarrow> nat \<Rightarrow> pmm" where
  "reserve_one s page =
     (if bitmap_test (page_bitmap s) page then s
      else s\<lparr>page_bitmap := bitmap_set (page_bitmap s) page,
             free_pages := free_pages s - 1, used_pages := used_pages s + 1\<rparr>)"

definition drop_one :: "pmm \<Rightarrow> nat \<Rightarrow> pmm" where
  "drop_one s page =
     (if bitmap_test (page_bitmap s) page then s
      else s\<lparr>page_bitmap := bitmap_set (page_bitmap s) page, free_pages := free_pages s - 1\<rparr>)"

definition reserve_range :: "nat \<Rightarrow> nat \<Rightarrow> pmm \<Rightarrow> pmm" where
  "reserve_range a b s = fold (\<lambda>page s. reserve_one s page) [a..<b] s"

text \<open>Addresses the linker fixes.\<close>

record link_syms =
  text_start :: nat
  rodata_end :: nat
  data_start :: nat
  kernel_end :: nat
  bitmap_addr :: nat

definition page_of :: "nat \<Rightarrow> nat" where "page_of a = a div PMM_PAGE_SIZE"
definition page_up :: "nat \<Rightarrow> nat" where "page_up a = (a + PMM_PAGE_SIZE - 1) div PMM_PAGE_SIZE"

definition limit_identity :: "pmm \<Rightarrow> pmm" where
  "limit_identity s =
     (if memory_end s > PMM_IDENTITY_MAP_LIMIT
      then (fold (\<lambda>page s. drop_one s page) [PMM_IDENTITY_MAP_LIMIT..<memory_end s] s)
             \<lparr>memory_end := PMM_IDENTITY_MAP_LIMIT\<rparr>
      else s)"

definition reserve_kernel :: "link_syms \<Rightarrow> pmm \<Rightarrow> pmm" where
  "reserve_kernel l s =
     (let s1 = reserve_range (page_of 0x100000) (page_of 0x400000) s;
          ktxt_end = page_up (rodata_end l);
          s2 = reserve_range (page_of (text_start l)) ktxt_end s1;
          s3 = (if page_of (data_start l) > ktxt_end
                then reserve_range (page_of (data_start l)) (page_up (kernel_end l)) s2 else s2)
      in reserve_range (page_of (bitmap_addr l))
           (page_up (bitmap_addr l + PMM_MAX_PAGES div 8)) s3)"

definition pmm_init :: "link_syms \<Rightarrow> memory_map_entry list \<Rightarrow> pmm \<Rightarrow> pmm" where
  "pmm_init l entries s =
     (let s0 = s\<lparr>page_bitmap := (\<lambda>_. 0xFF), g_mmap := entries,
                 g_phys_limit := fold (\<lambda>e lim. max lim (mm_base e + mm_length e)) entries
                                   (g_phys_limit s)\<rparr>;
          s1 = limit_identity (fold (\<lambda>e s. add_entry s e) entries s0)
      in reserve_kernel l (s1\<lparr>total_pages := free_pages s1\<rparr>))"

section \<open>Low-water reports\<close>

text \<open>The result's first component says whether the anomaly line was written.\<close>

definition pmm_lowwater_check :: "pmm \<Rightarrow> bool \<times> pmm" where
  "pmm_lowwater_check s =
     (let total = total_pages s in
      if total = 0 then (False, s)
      else
        let s = (if g_pmm_low_next s = 0 then s\<lparr>g_pmm_low_next := total div 2\<rparr> else s) in
        if g_pmm_low_next s = 0 then (False, s)
        else if free_pages s > g_pmm_low_next s then (False, s)
        else
          let at = g_pmm_low_next s;
              nxt = (if at = total div 2 then total div 4
                     else if at = total div 4 then total div 10
                     else if at = total div 10 then total div 20
                     else if at = total div 20 then total div 100
                     else 0xFFFFFFFFFFFFFFFF)
          in (True, s\<lparr>g_pmm_low_next := nxt\<rparr>))"

section \<open>Allocation\<close>

definition page_addr :: "nat \<Rightarrow> u64" where "page_addr page = of_nat (page * PMM_PAGE_SIZE)"

definition pmm_span :: "pmm \<Rightarrow> nat" where
  "pmm_span s = (memory_end s + 2 ^ 64 - memory_start s) mod 2 ^ 64"

definition scan_page :: "pmm \<Rightarrow> nat \<Rightarrow> nat \<Rightarrow> nat" where
  "scan_page s start n =
     (let page = (start + n) mod 2 ^ 64 in
      if page \<ge> memory_end s then (page + 2 ^ 64 - pmm_span s) mod 2 ^ 64 else page)"

definition scan_start :: "pmm \<Rightarrow> nat" where
  "scan_start s =
     (if alloc_hint s < memory_start s \<or> alloc_hint s \<ge> memory_end s
      then memory_start s else alloc_hint s)"

definition take_page :: "pmm \<Rightarrow> nat \<Rightarrow> pmm" where
  "take_page s page =
     s\<lparr>page_bitmap := bitmap_set (page_bitmap s) page,
       free_pages := free_pages s - 1, used_pages := used_pages s + 1,
       alloc_hint := (if page + 1 < memory_end s then page + 1 else memory_start s)\<rparr>"

definition pmm_alloc_page :: "pmm \<Rightarrow> u64 \<times> pmm" where
  "pmm_alloc_page s =
     (case List.find (\<lambda>n. \<not> bitmap_test (page_bitmap s) (scan_page s (scan_start s) n))
             [0..<pmm_span s] of
        None \<Rightarrow> (0, s)
      | Some n \<Rightarrow>
          let page = scan_page s (scan_start s) n in
          (page_addr page, snd (pmm_lowwater_check (take_page s page))))"

text \<open>The inner loop of \<open>pmm_alloc_pages\<close>: the first \<open>i < count\<close> whose page is used, if any.
  The page number is a \<open>u64\<close> sum.\<close>

function run_used :: "(nat \<Rightarrow> u8) \<Rightarrow> nat \<Rightarrow> nat \<Rightarrow> nat \<Rightarrow> nat option" where
  "run_used bm start_page count i =
     (if i \<ge> count then None
      else if bitmap_test bm ((start_page + i) mod 2 ^ 64) then Some i
      else run_used bm start_page count (Suc i))"
  by pat_completeness auto
termination
  by (relation "measure (\<lambda>(bm, s, c, i). c - i)") auto

declare run_used.simps [simp del]

text \<open>The outer loop, with \<open>u64\<close> sums. \<open>None\<close> is "does not return", \<open>Some None\<close> the failure
  exit, \<open>Some (Some p)\<close> a free run that starts at page \<open>p\<close>.\<close>

partial_function (option) find_run ::
    "(nat \<Rightarrow> u8) \<Rightarrow> nat \<Rightarrow> nat \<Rightarrow> nat \<Rightarrow> nat option option" where
  "find_run bm mem_end count start_page =
     (if (start_page + count) mod 2 ^ 64 \<le> mem_end then
        (case run_used bm start_page count 0 of
           None \<Rightarrow> Some (Some start_page)
         | Some i \<Rightarrow> find_run bm mem_end count ((start_page + i + 1) mod 2 ^ 64))
      else Some None)"

definition pmm_alloc_pages :: "pmm \<Rightarrow> u64 \<Rightarrow> (u64 \<times> pmm) option" where
  "pmm_alloc_pages s count =
     (if count = 0 then Some (0, s)
      else if count = 1 then Some (pmm_alloc_page s)
      else
        (case find_run (page_bitmap s) (memory_end s) (unat count) (memory_start s) of
           None \<Rightarrow> None
         | Some None \<Rightarrow> Some (0, s)
         | Some (Some p) \<Rightarrow>
             Some (page_addr p,
               s\<lparr>page_bitmap := fold (\<lambda>i bm. bitmap_set bm (p + i)) [0..<unat count] (page_bitmap s),
                 free_pages := free_pages s - count, used_pages := used_pages s + count\<rparr>)))"

section \<open>Freeing and reserving\<close>

definition pmm_free_page :: "pmm \<Rightarrow> u64 \<Rightarrow> pmm" where
  "pmm_free_page s phys_addr =
     (let page = unat (phys_addr div of_nat PMM_PAGE_SIZE) in
      if page < memory_start s \<or> page \<ge> memory_end s then s
      else if \<not> bitmap_test (page_bitmap s) page
        then s\<lparr>g_pmm_double_free := g_pmm_double_free s + 1\<rparr>
      else s\<lparr>page_bitmap := bitmap_clear (page_bitmap s) page,
             free_pages := free_pages s + 1, used_pages := used_pages s - 1\<rparr>)"

definition pmm_free_pages :: "pmm \<Rightarrow> u64 \<Rightarrow> u64 \<Rightarrow> pmm" where
  "pmm_free_pages s phys_addr count =
     fold (\<lambda>i s. pmm_free_page s (phys_addr + of_nat i * of_nat PMM_PAGE_SIZE)) [0..<unat count] s"

definition pmm_reserve_page :: "pmm \<Rightarrow> u64 \<Rightarrow> int \<times> pmm" where
  "pmm_reserve_page s phys_addr =
     (let page = unat (phys_addr div of_nat PMM_PAGE_SIZE) in
      if page < memory_start s \<or> page \<ge> memory_end s then (-1, s)
      else if bitmap_test (page_bitmap s) page then (0, s)
      else (1, reserve_one s page))"

definition pmm_page_is_free :: "pmm \<Rightarrow> u64 \<Rightarrow> bool" where
  "pmm_page_is_free s phys_addr =
     (let page = unat (phys_addr div of_nat PMM_PAGE_SIZE) in
      if page < memory_start s \<or> page \<ge> memory_end s then False
      else \<not> bitmap_test (page_bitmap s) page)"

definition pmm_managed_range :: "pmm \<Rightarrow> u64 \<times> u64" where
  "pmm_managed_range s = (page_addr (memory_start s), page_addr (memory_end s))"

definition entry_covers :: "u64 \<Rightarrow> memory_map_entry \<Rightarrow> bool" where
  "entry_covers a e \<longleftrightarrow> mm_base e \<le> a \<and> a < mm_base e + mm_length e"

text \<open>The type, and the index, base and length written through the out-pointers on a hit.\<close>

definition pmm_mmap_type_of :: "pmm \<Rightarrow> u64 \<Rightarrow> u32 \<times> (nat \<times> u64 \<times> u64) option" where
  "pmm_mmap_type_of s phys_addr =
     (case find_idx (entry_covers phys_addr) (g_mmap s) of
        None \<Rightarrow> (0, None)
      | Some i \<Rightarrow> let e = g_mmap s ! i in (mm_type e, Some (i, mm_base e, mm_length e)))"

section \<open>Frames and the invariant\<close>

definition window :: "pmm \<Rightarrow> nat set" where
  "window s = {memory_start s ..< memory_end s}"

definition free_frames :: "pmm \<Rightarrow> nat set" where
  "free_frames s = {p \<in> window s. \<not> bitmap_test (page_bitmap s) p}"

definition used_frames :: "pmm \<Rightarrow> nat set" where
  "used_frames s = {p \<in> window s. bitmap_test (page_bitmap s) p}"

text \<open>The window lies inside the bitmap and never holds frame 0 (whose address would be the
  failure value), the free counter is exactly the number of clear bits in the window, and the
  two counters add up to the total.\<close>

definition pmm_inv :: "pmm \<Rightarrow> bool" where
  "pmm_inv s \<longleftrightarrow>
     memory_start s \<le> memory_end s \<and> memory_end s \<le> PMM_MAX_PAGES \<and>
     (0 < memory_start s \<or> memory_end s = 0) \<and>
     unat (free_pages s) = card (free_frames s) \<and>
     free_pages s + used_pages s = total_pages s"

section \<open>Bitmap lemmas\<close>

lemma bitmap_test_bit:
  "bitmap_test bm p \<longleftrightarrow> p \<ge> PMM_MAX_PAGES \<or> bit (bm (p div 8)) (p mod 8)"
  by (simp add: bitmap_test_def bit_iff_odd_drop_bit and_one_eq odd_iff_mod_2_eq_one)

lemma byte_set_bit:
  fixes b :: u8
  assumes "k < 8" and "j < 8"
  shows "bit (b OR 2 ^ k) j \<longleftrightarrow> bit b j \<or> j = k"
  using assms by (auto simp: bit_simps)

lemma byte_clear_bit:
  fixes b :: u8
  assumes "k < 8" and "j < 8"
  shows "bit (b AND NOT (2 ^ k)) j \<longleftrightarrow> bit b j \<and> j \<noteq> k"
  using assms by (auto simp: bit_simps)

lemma same_page_iff: "(p::nat) = q \<longleftrightarrow> p div 8 = q div 8 \<and> p mod 8 = q mod 8"
  by (metis mult_div_mod_eq)

lemma bitmap_test_set [table_simps]:
  "bitmap_test (bitmap_set bm p) q \<longleftrightarrow> bitmap_test bm q \<or> q = p"
  using same_page_iff [of q p]
  by (cases "q = p") (auto simp: bitmap_test_bit bitmap_set_def byte_set_bit)

lemma bitmap_test_clear [table_simps]:
  "bitmap_test (bitmap_clear bm p) q \<longleftrightarrow> bitmap_test bm q \<and> (q \<noteq> p \<or> PMM_MAX_PAGES \<le> q)"
  using same_page_iff [of q p]
  by (cases "q = p") (auto simp: bitmap_test_bit bitmap_clear_def byte_clear_bit)

lemma bitmap_test_fold_set:
  "bitmap_test (fold (\<lambda>i bm. bitmap_set bm (p + i)) [0..<n] bm) q
     \<longleftrightarrow> bitmap_test bm q \<or> q \<in> {p ..< p + n}"
  by (induction n) (auto simp: table_simps)

section \<open>Frame lemmas\<close>

lemma window_le: "pmm_inv s \<Longrightarrow> p \<in> window s \<Longrightarrow> p < PMM_MAX_PAGES \<and> 0 < p"
  by (auto simp: pmm_inv_def window_def)

lemma pmm_inv_bounds: "pmm_inv s \<Longrightarrow> memory_start s \<le> memory_end s"
  "pmm_inv s \<Longrightarrow> memory_end s < 2 ^ 63"
  by (auto simp: pmm_inv_def PMM_MAX_PAGES_def)

lemma finite_free_frames [simp]: "finite (free_frames s)"
  by (simp add: free_frames_def window_def)

lemma frames_disjoint: "free_frames s \<inter> used_frames s = {}"
  by (auto simp: free_frames_def used_frames_def)

lemma frames_window: "free_frames s \<union> used_frames s = window s"
  by (auto simp: free_frames_def used_frames_def)

lemma used_frames_diff: "used_frames s = window s - free_frames s"
  by (auto simp: free_frames_def used_frames_def)

lemma lowwater_frame [simp]:
  "page_bitmap (snd (pmm_lowwater_check s)) = page_bitmap s"
  "memory_start (snd (pmm_lowwater_check s)) = memory_start s"
  "memory_end (snd (pmm_lowwater_check s)) = memory_end s"
  "free_pages (snd (pmm_lowwater_check s)) = free_pages s"
  "used_pages (snd (pmm_lowwater_check s)) = used_pages s"
  "total_pages (snd (pmm_lowwater_check s)) = total_pages s"
  "alloc_hint (snd (pmm_lowwater_check s)) = alloc_hint s"
  "g_pmm_double_free (snd (pmm_lowwater_check s)) = g_pmm_double_free s"
  by (simp_all add: pmm_lowwater_check_def Let_def)

lemma lowwater_frames [simp]:
  "window (snd (pmm_lowwater_check s)) = window s"
  "free_frames (snd (pmm_lowwater_check s)) = free_frames s"
  "used_frames (snd (pmm_lowwater_check s)) = used_frames s"
  by (simp_all add: window_def free_frames_def used_frames_def)

lemma lowwater_inv [simp]: "pmm_inv (snd (pmm_lowwater_check s)) = pmm_inv s"
  by (simp add: pmm_inv_def)

text \<open>An operation that removes a set of \<open>n\<close> free frames, or adds used ones, and moves the
  counters by \<open>n\<close> keeps the invariant.\<close>

lemma pmm_inv_take:
  assumes "pmm_inv s" and "P \<subseteq> free_frames s" and "card P = unat n"
    and "memory_start t = memory_start s" and "memory_end t = memory_end s"
    and "free_frames t = free_frames s - P"
    and "free_pages t = free_pages s - n" and "used_pages t = used_pages s + n"
    and "total_pages t = total_pages s"
  shows "pmm_inv t"
proof -
  have "unat n \<le> card (free_frames s)"
    using assms(2,3) by (metis card_mono finite_free_frames)
  then have "n \<le> free_pages s"
    using assms(1) by (simp add: pmm_inv_def word_le_nat_alt)
  then have "unat (free_pages t) = card (free_frames t)"
    using assms(1,2,3,6,7) finite_subset [OF assms(2)]
    by (simp add: pmm_inv_def unat_sub card_Diff_subset)
  then show ?thesis using assms by (simp add: pmm_inv_def)
qed

lemma pmm_inv_give:
  assumes "pmm_inv s" and "p \<in> used_frames s"
    and "memory_start t = memory_start s" and "memory_end t = memory_end s"
    and "free_frames t = insert p (free_frames s)"
    and "free_pages t = free_pages s + 1" and "used_pages t = used_pages s - 1"
    and "total_pages t = total_pages s"
  shows "pmm_inv t"
proof -
  have "p \<notin> free_frames s" using assms(2) frames_disjoint by blast
  then have card: "card (free_frames t) = Suc (card (free_frames s))"
    using assms(5) by simp
  have "card (free_frames t) \<le> card (window s)"
    using assms(2,5) frames_window [of s] by (intro card_mono) (auto simp: window_def used_frames_def)
  also have "\<dots> \<le> PMM_MAX_PAGES"
    using assms(1) by (auto simp: window_def pmm_inv_def)
  finally have "unat (free_pages s) < 2 ^ 64 - 1"
    using card assms(1) by (simp add: pmm_inv_def PMM_MAX_PAGES_def)
  then have "unat (free_pages s + 1) = Suc (unat (free_pages s))"
    by (simp add: unat_word_ariths)
  then show ?thesis using assms card by (simp add: pmm_inv_def)
qed

lemma page_addr_unat: "p < PMM_MAX_PAGES \<Longrightarrow> unat (page_addr p) = p * 4096"
  by (simp add: page_addr_def PMM_PAGE_SIZE_def PMM_MAX_PAGES_def unat_of_nat del: of_nat_mult)

lemma page_addr_neq_0: "p < PMM_MAX_PAGES \<Longrightarrow> 0 < p \<Longrightarrow> page_addr p \<noteq> 0"
  using page_addr_unat [of p] by (metis mult_is_0 not_less0 rel_simps(76) unat_0)

lemma region_pages_page_addr:
  "p < PMM_MAX_PAGES \<Longrightarrow> region_pages (page_addr p) n = {p ..< p + unat n}"
  by (simp add: region_pages_def page_addr_unat)

section \<open>Single page allocation\<close>

lemma scan_start_window:
  "memory_start s < memory_end s \<Longrightarrow> scan_start s \<in> window s"
  by (auto simp: scan_start_def window_def)

lemma pmm_span_eq:
  "memory_start s \<le> memory_end s \<Longrightarrow> memory_end s < 2 ^ 64 \<Longrightarrow>
     pmm_span s = memory_end s - memory_start s"
  by (simp add: pmm_span_def mod_if)

lemma scan_page_eq:
  assumes "memory_start s \<le> memory_end s" and "memory_end s < 2 ^ 63"
    and "memory_start s \<le> start" and "start < memory_end s" and "n < memory_end s - memory_start s"
  shows "scan_page s start n =
     (if start + n \<ge> memory_end s then start + n - (memory_end s - memory_start s) else start + n)"
proof -
  have "(start + n) mod 2 ^ 64 = start + n" using assms by simp
  moreover have "(start + n + 2 ^ 64 - (memory_end s - memory_start s)) mod 2 ^ 64
      = start + n - (memory_end s - memory_start s)" if "start + n \<ge> memory_end s"
  proof -
    have "start + n + 2 ^ 64 - (memory_end s - memory_start s)
        = start + n - (memory_end s - memory_start s) + 2 ^ 64" using that assms by linarith
    moreover have "start + n - (memory_end s - memory_start s) < 2 ^ 64" using assms by simp
    ultimately show ?thesis by (metis mod_add_self2 mod_less)
  qed
  ultimately show ?thesis using assms by (simp add: scan_page_def pmm_span_eq)
qed

text \<open>The rotated scan visits exactly the window.\<close>

lemma scan_covers_window:
  assumes "memory_start s \<le> memory_end s" and "memory_end s < 2 ^ 63"
  shows "scan_page s (scan_start s) ` {0..<pmm_span s} = window s"
proof (cases "memory_start s < memory_end s")
  case False
  then show ?thesis using assms by (simp add: window_def pmm_span_eq)
next
  case True
  let ?st = "scan_start s" and ?span = "memory_end s - memory_start s"
  have st: "memory_start s \<le> ?st" "?st < memory_end s"
    using scan_start_window [OF True] by (auto simp: window_def)
  have span: "pmm_span s = ?span" using assms by (intro pmm_span_eq) auto
  note scan = scan_page_eq [OF assms st]
  show ?thesis unfolding span
  proof (intro equalityI subsetI)
    fix p assume "p \<in> scan_page s ?st ` {0..<?span}"
    then show "p \<in> window s" using st by (auto simp: scan window_def)
  next
    fix p assume p: "p \<in> window s"
    show "p \<in> scan_page s ?st ` {0..<?span}"
    proof (cases "?st \<le> p")
      case True
      then have n: "p - ?st < ?span" using p st by (auto simp: window_def)
      then have "p = scan_page s ?st (p - ?st)"
        using True p st scan [OF n] by (auto simp: window_def)
      with n show ?thesis by auto
    next
      case False
      then have n: "p + ?span - ?st < ?span" using p st by (auto simp: window_def)
      then have "p = scan_page s ?st (p + ?span - ?st)"
        using False p st scan [OF n] by (auto simp: window_def)
      with n show ?thesis by auto
    qed
  qed
qed

lemma alloc_page_cases:
  assumes "memory_start s \<le> memory_end s" and "memory_end s < 2 ^ 63"
  obtains (fail) "free_frames s = {}" and "pmm_alloc_page s = (0, s)"
  | (ok) p where "p \<in> free_frames s"
      and "pmm_alloc_page s = (page_addr p, snd (pmm_lowwater_check (take_page s p)))"
proof (cases "List.find (\<lambda>n. \<not> bitmap_test (page_bitmap s) (scan_page s (scan_start s) n))
             [0..<pmm_span s]")
  case None
  then have "\<forall>p \<in> window s. bitmap_test (page_bitmap s) p"
    unfolding scan_covers_window [OF assms, symmetric] by (auto simp: find_None_iff)
  then have "free_frames s = {}" by (auto simp: free_frames_def)
  with None show ?thesis by (intro fail) (simp_all add: pmm_alloc_page_def)
next
  case (Some n)
  then have n: "n < pmm_span s"
    "\<not> bitmap_test (page_bitmap s) (scan_page s (scan_start s) n)"
    by (auto simp: find_Some_iff)
  then have "scan_page s (scan_start s) n \<in> free_frames s"
    using scan_covers_window [OF assms] by (auto simp: free_frames_def)
  with Some show ?thesis by (intro ok) (simp_all add: pmm_alloc_page_def Let_def)
qed

lemma take_page_frames:
  "free_frames (take_page s p) = free_frames s - {p}"
  "window (take_page s p) = window s"
  by (auto simp: free_frames_def window_def take_page_def table_simps)

lemma take_page_inv:
  assumes "pmm_inv s" and "p \<in> free_frames s"
  shows "pmm_inv (take_page s p)"
  by (rule pmm_inv_take [OF assms(1), of "{p}" 1])
    (use assms in \<open>simp_all add: take_page_frames, simp_all add: take_page_def\<close>)

section \<open>Contiguous allocation\<close>

lemma run_used_None:
  "run_used bm sp count i = None \<longleftrightarrow>
     (\<forall>j. i \<le> j \<longrightarrow> j < count \<longrightarrow> \<not> bitmap_test bm ((sp + j) mod 2 ^ 64))"
proof (induction bm sp count i rule: run_used.induct)
  case (1 bm sp count i)
  show ?case
  proof (cases "i < count \<and> \<not> bitmap_test bm ((sp + i) mod 2 ^ 64)")
    case True
    with "1.IH" show ?thesis
      by (auto simp: run_used.simps [of bm sp count i] not_le Suc_le_eq
          intro: le_neq_implies_less)
  next
    case False
    then show ?thesis by (auto simp: run_used.simps [of bm sp count i])
  qed
qed

lemma run_used_Some:
  "run_used bm sp count i = Some k \<Longrightarrow>
     i \<le> k \<and> k < count \<and> bitmap_test bm ((sp + k) mod 2 ^ 64) \<and>
     (\<forall>j. i \<le> j \<longrightarrow> j < k \<longrightarrow> \<not> bitmap_test bm ((sp + j) mod 2 ^ 64))"
proof (induction bm sp count i rule: run_used.induct)
  case (1 bm sp count i)
  show ?case
  proof (cases "i < count \<and> \<not> bitmap_test bm ((sp + i) mod 2 ^ 64)")
    case True
    with "1.prems" have "run_used bm sp count (Suc i) = Some k"
      by (simp add: run_used.simps [of bm sp count i])
    with "1.IH" True show ?thesis by (auto simp: Suc_le_eq) (metis le_neq_implies_less)
  next
    case False
    with "1.prems" show ?thesis
      by (auto simp: run_used.simps [of bm sp count i] split: if_splits)
  qed
qed

text \<open>A run of \<open>count\<close> clear bits at \<open>p\<close> that fits below \<open>mem_end\<close>.\<close>

definition clear_run :: "(nat \<Rightarrow> u8) \<Rightarrow> nat \<Rightarrow> nat \<Rightarrow> nat \<Rightarrow> bool" where
  "clear_run bm mem_end count p \<longleftrightarrow>
     p + count \<le> mem_end \<and> (\<forall>j<count. \<not> bitmap_test bm (p + j))"

text \<open>\<open>r\<close> is the lowest such run at or above \<open>sp\<close>, \<open>None\<close> when there is none.\<close>

definition first_clear_run ::
    "(nat \<Rightarrow> u8) \<Rightarrow> nat \<Rightarrow> nat \<Rightarrow> nat \<Rightarrow> nat option \<Rightarrow> bool" where
  "first_clear_run bm mem_end count sp r \<longleftrightarrow>
     (case r of
        None \<Rightarrow> \<forall>p\<ge>sp. \<not> clear_run bm mem_end count p
      | Some p \<Rightarrow> sp \<le> p \<and> clear_run bm mem_end count p \<and>
                  (\<forall>q. sp \<le> q \<longrightarrow> q < p \<longrightarrow> \<not> clear_run bm mem_end count q))"

lemma first_clear_run_skip:
  assumes "first_clear_run bm mem_end count sp' r" and "sp \<le> sp'"
    and "\<And>q. sp \<le> q \<Longrightarrow> q < sp' \<Longrightarrow> \<not> clear_run bm mem_end count q"
  shows "first_clear_run bm mem_end count sp r"
  using assms unfolding first_clear_run_def
  by (cases r) (auto simp: not_less [symmetric])

lemma find_run_first_fit:
  assumes "mem_end \<le> PMM_MAX_PAGES" and "0 < count" and "sp + count < 2 ^ 64"
  shows "\<exists>r. find_run bm mem_end count sp = Some r \<and> first_clear_run bm mem_end count sp r"
  using assms(3)
proof (induction "mem_end + 1 - sp" arbitrary: sp rule: less_induct)
  case less
  note no_wrap = less.prems
  show ?case
  proof (cases "sp + count \<le> mem_end")
    case False
    then show ?thesis using no_wrap
      by (subst find_run.simps) (auto simp: clear_run_def first_clear_run_def)
  next
    case True
    have sum_mod: "(sp + j) mod 2 ^ 64 = sp + j" if "j < count" for j
      using that no_wrap by simp
    show ?thesis
    proof (cases "run_used bm sp count 0")
      case None
      then have "clear_run bm mem_end count sp"
        using True sum_mod by (auto simp: run_used_None clear_run_def)
      then show ?thesis using None True no_wrap
        by (subst find_run.simps) (auto simp: first_clear_run_def)
    next
      case (Some i)
      then have i: "i < count" "bitmap_test bm (sp + i)"
        using run_used_Some [OF Some] sum_mod by auto
      let ?sp = "sp + i + 1"
      have nw: "?sp mod 2 ^ 64 = ?sp" and "?sp + count < 2 ^ 64"
        using i True no_wrap assms(1) by (simp_all add: PMM_MAX_PAGES_def)
      have skip: "\<not> clear_run bm mem_end count q" if "sp \<le> q" "q < ?sp" for q
      proof -
        have "sp + i - q < count" and "q + (sp + i - q) = sp + i" using that i by auto
        then show ?thesis using i(2) unfolding clear_run_def by metis
      qed
      have "\<exists>r. find_run bm mem_end count ?sp = Some r \<and>
          first_clear_run bm mem_end count ?sp r"
        using True \<open>0 < count\<close> \<open>?sp + count < 2 ^ 64\<close> by (intro less.hyps) auto
      moreover have "find_run bm mem_end count sp = find_run bm mem_end count ?sp"
        using True Some no_wrap nw by (subst find_run.simps) simp
      ultimately show ?thesis
        using skip first_clear_run_skip [of bm mem_end count ?sp _ sp] by fastforce
    qed
  qed
qed

text \<open>A count so large that \<open>start_page + count\<close> wraps passes the loop guard, but every such run
  meets a page above the bitmap, so the loop ends with the failure exit.\<close>

lemma find_run_wraps:
  assumes "mem_end \<le> PMM_MAX_PAGES" and "count < 2 ^ 64" and "2 ^ 64 - count \<le> PMM_MAX_PAGES"
    and "2 ^ 64 \<le> sp + count" and "sp \<le> 4 * PMM_MAX_PAGES"
  shows "find_run bm mem_end count sp = Some None"
  using assms(4,5)
proof (induction "4 * PMM_MAX_PAGES + 1 - sp" arbitrary: sp rule: less_induct)
  case less
  note wrap = less.prems
  have wrapped: "(sp + count) mod 2 ^ 64 = sp + count - 2 ^ 64"
    using wrap assms(2) by (simp add: PMM_MAX_PAGES_def mod_if)
  show ?case
  proof (cases "sp + count - 2 ^ 64 \<le> mem_end")
    case False
    then show ?thesis using wrapped by (subst find_run.simps) simp
  next
    case True
    then have sp: "sp \<le> 2 * PMM_MAX_PAGES" using assms(1,3) by linarith
    define k where "k = PMM_MAX_PAGES - sp"
    have "bitmap_test bm ((sp + k) mod 2 ^ 64)" and "k < count"
      using sp assms(3) by (auto simp: k_def bitmap_test_bit PMM_MAX_PAGES_def)
    then obtain i where i: "run_used bm sp count 0 = Some i"
      using run_used_None [of bm sp count 0] by (cases "run_used bm sp count 0") auto
    have "i \<le> k"
      using run_used_Some [OF i] \<open>bitmap_test bm ((sp + k) mod 2 ^ 64)\<close> by (meson not_le zero_le)
    then have nxt: "sp + i + 1 \<le> 4 * PMM_MAX_PAGES" and "(sp + i + 1) mod 2 ^ 64 = sp + i + 1"
      using sp by (auto simp: k_def PMM_MAX_PAGES_def)
    then have "find_run bm mem_end count sp = find_run bm mem_end count (sp + i + 1)"
      using True i wrapped by (subst find_run.simps) simp
    also have "\<dots> = Some None"
      using nxt wrap by (intro less.hyps) auto
    finally show ?thesis .
  qed
qed

lemma find_run_returns:
  assumes "pmm_inv s" and "0 < count" and "count < 2 ^ 64"
  shows "\<exists>r. find_run (page_bitmap s) (memory_end s) count (memory_start s) = Some r \<and>
     first_clear_run (page_bitmap s) (memory_end s) count (memory_start s) r"
proof -
  have bounds: "memory_end s \<le> PMM_MAX_PAGES" "memory_start s \<le> memory_end s"
    using assms(1) by (auto simp: pmm_inv_def)
  show ?thesis
  proof (cases "memory_start s + count < 2 ^ 64")
    case True
    then show ?thesis using find_run_first_fit [OF bounds(1) assms(2)] by blast
  next
    case False
    then have "find_run (page_bitmap s) (memory_end s) count (memory_start s) = Some None"
      using bounds assms(3) by (intro find_run_wraps) auto
    moreover have "\<not> clear_run (page_bitmap s) (memory_end s) count p"
      if "memory_start s \<le> p" for p
      using that False bounds by (auto simp: clear_run_def PMM_MAX_PAGES_def)
    ultimately show ?thesis by (auto simp: first_clear_run_def)
  qed
qed

lemma clear_run_free_frames:
  assumes "memory_start s \<le> p"
  shows "clear_run (page_bitmap s) (memory_end s) n p \<and> 0 < n \<longleftrightarrow>
           0 < n \<and> {p ..< p + n} \<subseteq> free_frames s"
proof -
  have "(\<forall>j<n. \<not> bitmap_test bm (p + j)) \<longleftrightarrow> (\<forall>q\<in>{p..<p + n}. \<not> bitmap_test bm q)" for bm
    by (metis atLeastLessThan_iff le_add1 le_add_diff_inverse nat_add_left_cancel_less)
  moreover have "0 < n \<Longrightarrow> {p ..< p + n} \<subseteq> window s \<longleftrightarrow> p + n \<le> memory_end s"
    using assms by (auto simp: window_def)
  ultimately show ?thesis by (auto simp: clear_run_def free_frames_def)
qed

text \<open>The exits of \<open>pmm_alloc_pages\<close> for two or more pages.\<close>

lemma alloc_pages_cases:
  assumes "pmm_inv s" and "1 < unat n"
  obtains (fail) "pmm_alloc_pages s n = Some (0, s)"
      and "\<And>p. \<not> {p ..< p + unat n} \<subseteq> free_frames s"
  | (ok) p t where "pmm_alloc_pages s n = Some (page_addr p, t)"
      and "{p ..< p + unat n} \<subseteq> free_frames s"
      and "\<And>q. q < p \<Longrightarrow> \<not> {q ..< q + unat n} \<subseteq> free_frames s"
      and "free_frames t = free_frames s - {p ..< p + unat n}"
      and "window t = window s" and "pmm_inv t" and "p < PMM_MAX_PAGES" and "0 < p"
proof -
  have n: "n \<noteq> 0" "n \<noteq> 1" "0 < unat n" "unat n < 2 ^ 64"
    using assms(2) unsigned_less [of n] by auto
  have below: "\<not> {q ..< q + unat n} \<subseteq> free_frames s" if "q < memory_start s" for q
    using that n(3) by (auto simp: free_frames_def window_def subset_iff intro!: exI [of _ q])
  obtain r where r: "find_run (page_bitmap s) (memory_end s) (unat n) (memory_start s) = Some r"
    and first: "first_clear_run (page_bitmap s) (memory_end s) (unat n) (memory_start s) r"
    using find_run_returns [OF assms(1) n(3,4)] by blast
  have run: "clear_run (page_bitmap s) (memory_end s) (unat n) q \<longleftrightarrow>
      {q ..< q + unat n} \<subseteq> free_frames s" if "memory_start s \<le> q" for q
    using clear_run_free_frames [OF that, of "unat n"] n(3) by blast
  show thesis
  proof (cases r)
    case None
    then have "\<not> {p ..< p + unat n} \<subseteq> free_frames s" for p
      using first run below by (cases "memory_start s \<le> p") (auto simp: first_clear_run_def)
    with None r n show thesis by (intro fail) (simp_all add: pmm_alloc_pages_def)
  next
    case (Some p)
    then have p: "memory_start s \<le> p" and sub: "{p ..< p + unat n} \<subseteq> free_frames s"
      using first run by (auto simp: first_clear_run_def)
    have least: "\<not> {q ..< q + unat n} \<subseteq> free_frames s" if "q < p" for q
      using Some first run that below
      by (cases "memory_start s \<le> q") (auto simp: first_clear_run_def)
    let ?t = "s\<lparr>page_bitmap := fold (\<lambda>i bm. bitmap_set bm (p + i)) [0..<unat n] (page_bitmap s),
                 free_pages := free_pages s - n, used_pages := used_pages s + n\<rparr>"
    have frames: "free_frames ?t = free_frames s - {p ..< p + unat n}" "window ?t = window s"
      by (auto simp: free_frames_def window_def bitmap_test_fold_set)
    have "pmm_inv ?t"
      by (rule pmm_inv_take [OF assms(1) sub, of n]) (simp_all add: frames)
    moreover have "p \<in> free_frames s" using sub n(3) by (auto simp: subset_iff)
    then have "p \<in> window s" by (simp add: free_frames_def)
    ultimately show thesis
      using Some r n sub least frames window_le [OF assms(1)]
      by (intro ok [of p ?t]) (simp_all add: pmm_alloc_pages_def)
  qed
qed

section \<open>Freeing and reserving: lemmas\<close>

lemma unat_div_page: "unat (a div of_nat PMM_PAGE_SIZE) = unat a div 4096" for a :: u64
  by (simp add: PMM_PAGE_SIZE_def unat_div)

lemma free_page_used:
  assumes "pmm_inv s" and "unat a div 4096 \<in> used_frames s"
  shows "used_frames (pmm_free_page s a) = used_frames s - {unat a div 4096}"
    and "free_frames (pmm_free_page s a) = insert (unat a div 4096) (free_frames s)"
    and "window (pmm_free_page s a) = window s"
    and "pmm_inv (pmm_free_page s a)"
proof -
  let ?p = "unat a div 4096"
  have p: "memory_start s \<le> ?p" "?p < memory_end s" "bitmap_test (page_bitmap s) ?p"
    using assms(2) by (auto simp: used_frames_def window_def)
  have max: "?p < PMM_MAX_PAGES" using p assms(1) by (auto simp: pmm_inv_def)
  have eq: "pmm_free_page s a = s\<lparr>page_bitmap := bitmap_clear (page_bitmap s) ?p,
      free_pages := free_pages s + 1, used_pages := used_pages s - 1\<rparr>"
    using p by (simp add: pmm_free_page_def unat_div_page Let_def)
  show free: "free_frames (pmm_free_page s a) = insert ?p (free_frames s)"
    using p max unfolding eq by (auto simp: free_frames_def window_def table_simps)
  show "used_frames (pmm_free_page s a) = used_frames s - {?p}"
    using max unfolding eq by (auto simp: used_frames_def window_def table_simps)
  show "window (pmm_free_page s a) = window s"
    unfolding eq by (simp add: window_def)
  show "pmm_inv (pmm_free_page s a)"
    by (rule pmm_inv_give [OF assms]) (simp_all add: free, simp_all add: eq)
qed

text \<open>Freeing a page outside the window, or one that is already free, changes no frame.\<close>

lemma free_page_not_used:
  assumes "unat a div 4096 \<notin> used_frames s"
  shows "free_frames (pmm_free_page s a) = free_frames s"
    and "used_frames (pmm_free_page s a) = used_frames s"
    and "pmm_inv (pmm_free_page s a) = pmm_inv s"
    and "window (pmm_free_page s a) = window s"
  using assms
  by (auto simp: pmm_free_page_def unat_div_page Let_def used_frames_def free_frames_def
      window_def pmm_inv_def)

lemma region_step_addr:
  fixes a :: u64
  assumes "unat a div 4096 + i < PMM_MAX_PAGES"
  shows "unat (a + of_nat i * of_nat PMM_PAGE_SIZE) div 4096 = unat a div 4096 + i"
proof -
  have small: "unat a + i * 4096 < 2 ^ 64" and i: "i * 4096 < 2 ^ 64"
    using assms by (auto simp: PMM_MAX_PAGES_def)
  have "unat (of_nat i * of_nat PMM_PAGE_SIZE :: u64) = i * 4096"
    using i by (simp add: PMM_PAGE_SIZE_def unat_word_ariths unat_of_nat)
  then have "unat (a + of_nat i * of_nat PMM_PAGE_SIZE) = unat a + i * 4096"
    using small by (simp add: unat_word_ariths)
  then show ?thesis by simp
qed

lemma free_pages_fold:
  assumes "pmm_inv s" and "{unat a div 4096 ..< unat a div 4096 + k} \<subseteq> used_frames s"
  defines "t \<equiv> fold (\<lambda>i s. pmm_free_page s (a + of_nat i * of_nat PMM_PAGE_SIZE)) [0..<k] s"
  shows "pmm_inv t \<and> used_frames t = used_frames s - {unat a div 4096 ..< unat a div 4096 + k}
           \<and> window t = window s"
  using assms(2) unfolding t_def
proof (induction k)
  case 0
  then show ?case using assms(1) by simp
next
  case (Suc k)
  let ?p = "unat a div 4096 + k"
  let ?t = "fold (\<lambda>i s. pmm_free_page s (a + of_nat i * of_nat PMM_PAGE_SIZE)) [0..<k] s"
  have IH: "pmm_inv ?t" "used_frames ?t = used_frames s - {unat a div 4096 ..< ?p}"
      "window ?t = window s"
    using Suc by (auto simp: subset_iff)
  have "?p \<in> used_frames s" using Suc.prems by (auto simp: subset_iff)
  then have p: "?p \<in> used_frames ?t" and "?p < PMM_MAX_PAGES"
    using IH window_le [OF assms(1)] by (auto simp: used_frames_def)
  then have "unat (a + of_nat k * of_nat PMM_PAGE_SIZE) div 4096 = ?p"
    by (intro region_step_addr)
  with free_page_used [OF IH(1), of "a + of_nat k * of_nat PMM_PAGE_SIZE"] p IH show ?case
    by (auto simp: less_Suc_eq)
qed

lemma free_pages_used:
  assumes "pmm_inv s" and "region_pages a n \<subseteq> used_frames s"
  shows "pmm_inv (pmm_free_pages s a n)"
    and "used_frames (pmm_free_pages s a n) = used_frames s - region_pages a n"
    and "window (pmm_free_pages s a n) = window s"
  using free_pages_fold [OF assms(1), of a "unat n"] assms(2)
  by (auto simp: pmm_free_pages_def region_pages_def)

text \<open>One result for every count, as the clients use it.\<close>

lemma alloc_any_cases:
  assumes "pmm_inv s"
  obtains (fail) "pmm_alloc_pages s n = Some (0, s)"
  | (ok) p t where "pmm_alloc_pages s n = Some (page_addr p, t)" and "page_addr p \<noteq> 0"
      and "region_pages (page_addr p) n = {p ..< p + unat n}"
      and "{p ..< p + unat n} \<subseteq> free_frames s"
      and "free_frames t = free_frames s - {p ..< p + unat n}"
      and "window t = window s" and "pmm_inv t"
proof -
  consider "n = 0" | "n = 1" | "1 < unat n"
    using unat_eq_zero [of n] by (metis One_nat_def gr0I less_one linorder_neqE_nat unat_1 word_unat_eq_iff)
  then show thesis
  proof cases
    case 1
    then show thesis by (intro fail) (simp add: pmm_alloc_pages_def)
  next
    case 2
    from pmm_inv_bounds [OF assms] show thesis
    proof (cases rule: alloc_page_cases)
      case fail
      with 2 show thesis by (intro that(1)) (simp add: pmm_alloc_pages_def)
    next
      case (ok p)
      then have "p < PMM_MAX_PAGES" "0 < p"
        using window_le [OF assms, of p] by (auto simp: free_frames_def)
      with ok 2 show thesis
        by (intro that(2) [of p "snd (pmm_lowwater_check (take_page s p))"])
          (auto simp: pmm_alloc_pages_def page_addr_neq_0 region_pages_page_addr
            take_page_frames take_page_inv [OF assms])
    qed
  next
    case 3
    with assms show thesis
    proof (cases rule: alloc_pages_cases)
      case fail
      then show thesis by (intro that(1))
    next
      case (ok p t)
      then show thesis
        by (intro that(2) [of p t]) (simp_all add: page_addr_neq_0 region_pages_page_addr)
    qed
  qed
qed

interpretation pmm_pages: page_allocator pmm_inv used_frames pmm_alloc_pages pmm_free_pages
proof (unfold_locales, goal_cases)
  case (1 m n)
  then show ?case by (cases rule: alloc_any_cases [of m n]) auto
next
  case (2 m n a m')
  show ?case by (rule alloc_any_cases [OF 2(1), of n]) (use 2 in auto)
next
  case (3 m n m')
  then show ?case by (cases rule: alloc_any_cases [of m n]) auto
next
  case (4 m n a m')
  then show ?case using frames_disjoint [of m] by (cases rule: alloc_any_cases [of m n]) auto
next
  case (5 m n a m')
  then show ?case
    by (cases rule: alloc_any_cases [of m n]) (auto simp: used_frames_diff free_frames_def)
next
  case (6 m a n)
  then show ?case by (rule free_pages_used)
next
  case (7 m a n)
  then show ?case by (rule free_pages_used)
qed

section \<open>Boot initialisation: lemmas\<close>

lemma entry_pages_bounds:
  assumes "entry_pages e = Some (a, b)"
  shows "256 \<le> a" and "a < b" and "b \<le> PMM_MAX_PAGES"
proof -
  define base where "base = (if mm_base e < 0x100000 then 0x100000 else mm_base e)"
  define top :: u64 where "top = of_nat (PMM_MAX_PAGES * PMM_PAGE_SIZE)"
  define len0 where
    "len0 = (if mm_base e < 0x100000 then mm_length e - (0x100000 - mm_base e) else mm_length e)"
  define len where "len = (if base + len0 > top then top - base else len0)"
  have base: "base < top" and
    a: "a = unat ((base + of_nat PMM_PAGE_SIZE - 1) div of_nat PMM_PAGE_SIZE)" and
    b: "b = unat ((base + len) div of_nat PMM_PAGE_SIZE)" and
    lt: "\<not> (base + len) div of_nat PMM_PAGE_SIZE
            \<le> (base + of_nat PMM_PAGE_SIZE - 1) div of_nat PMM_PAGE_SIZE"
    using assms unfolding entry_pages_def Let_def base_def [symmetric] len0_def [symmetric]
      top_def [symmetric] len_def [symmetric]
    by (simp_all split: if_splits)
  have len: "base + len \<le> top" by (auto simp: len_def not_less)
  have top: "unat top = 68719476736"
    by (simp add: top_def PMM_MAX_PAGES_def PMM_PAGE_SIZE_def)
  then have ub: "unat base < 68719476736" "unat (base + len) \<le> 68719476736"
    using base len by (auto simp: word_less_nat_alt word_le_nat_alt)
  have lb: "1048576 \<le> unat base"
    by (auto simp: base_def word_less_nat_alt not_less)
  have "base + of_nat PMM_PAGE_SIZE - 1 = base + 4095" by (simp add: PMM_PAGE_SIZE_def)
  moreover have "unat (base + 4095) = unat base + 4095" using ub by (simp add: unat_word_ariths)
  ultimately have "unat (base + of_nat PMM_PAGE_SIZE - 1) = unat base + 4095" by metis
  then show "256 \<le> a" using lb by (simp add: a unat_div_page)
  show "a < b" using lt by (simp add: a b word_le_nat_alt not_le)
  show "b \<le> PMM_MAX_PAGES" using ub(2) by (simp add: b unat_div_page PMM_MAX_PAGES_def)
qed

text \<open>The state while the map is read: the clear bits are exactly the frames \<open>U\<close> released so far.\<close>

definition released :: "nat set \<Rightarrow> pmm \<Rightarrow> bool" where
  "released U s \<longleftrightarrow>
     (\<forall>p. bitmap_test (page_bitmap s) p \<longleftrightarrow> p \<notin> U) \<and> U \<subseteq> {0<..<PMM_MAX_PAGES} \<and>
     unat (free_pages s) = card U \<and> used_pages s = 0 \<and>
     (U = {} \<longrightarrow> memory_start s = 0 \<and> memory_end s = 0) \<and>
     (U \<noteq> {} \<longrightarrow> memory_start s \<in> U \<and> U \<subseteq> {memory_start s ..< memory_end s} \<and>
        memory_end s \<le> PMM_MAX_PAGES)"

lemma releasedD:
  assumes "released U s"
  shows "U \<subseteq> {0<..<PMM_MAX_PAGES}" and "unat (free_pages s) = card U" and "used_pages s = 0"
    and "bitmap_test (page_bitmap s) p \<longleftrightarrow> p \<notin> U"
    and "U = {} \<Longrightarrow> memory_start s = 0" and "U = {} \<Longrightarrow> memory_end s = 0"
    and "U \<noteq> {} \<Longrightarrow> memory_start s \<in> U"
    and "U \<noteq> {} \<Longrightarrow> U \<subseteq> {memory_start s ..< memory_end s}"
    and "memory_end s \<le> PMM_MAX_PAGES"
  using assms unfolding released_def by (cases "U = {}"; simp)+

lemma released_order:
  assumes "released U s"
  shows "memory_start s \<le> memory_end s" and "0 < memory_start s \<or> memory_end s = 0"
proof -
  note r = releasedD [OF assms]
  show "memory_start s \<le> memory_end s"
  proof (cases "U = {}")
    case False
    then have "memory_start s \<in> {memory_start s ..< memory_end s}" using r(7,8) by blast
    then show ?thesis by simp
  qed (simp add: r)
  show "0 < memory_start s \<or> memory_end s = 0"
  proof (cases "U = {}")
    case False
    then have "memory_start s \<in> {0<..<PMM_MAX_PAGES}" using r(1,7) by blast
    then show ?thesis by simp
  qed (simp add: r)
qed

lemma released_finite: "released U s \<Longrightarrow> finite U"
  by (auto simp: released_def intro: finite_subset)

lemma released_card: "released U s \<Longrightarrow> card U < PMM_MAX_PAGES"
proof -
  assume "released U s"
  then have "U \<subseteq> {0<..<PMM_MAX_PAGES}" by (simp add: released_def)
  then have "card U \<le> card {0<..<PMM_MAX_PAGES}" by (intro card_mono) auto
  then show ?thesis by (simp add: PMM_MAX_PAGES_def)
qed

text \<open>Releasing the pages of one entry, one by one.\<close>

lemma fold_free_one:
  fixes s :: pmm
  assumes "b \<le> PMM_MAX_PAGES" and "a \<le> b"
  defines "t \<equiv> fold (\<lambda>page s. free_one s page) [a..<b] s"
  shows "(\<forall>p. bitmap_test (page_bitmap t) p \<longleftrightarrow>
            bitmap_test (page_bitmap s) p \<and> p \<notin> {a..<b})
      \<and> free_pages t = free_pages s + of_nat (b - a)
      \<and> used_pages t = used_pages s \<and> total_pages t = total_pages s
      \<and> memory_start t = memory_start s \<and> memory_end t = memory_end s"
  using assms(1,2) unfolding t_def
proof (induction "b - a" arbitrary: b)
  case 0
  then show ?case by simp
next
  case (Suc k)
  then obtain c where c: "b = Suc c" "a \<le> c" "k = c - a" by (cases b) auto
  have IH: "(\<forall>p. bitmap_test (page_bitmap (fold (\<lambda>page s. free_one s page) [a..<c] s)) p \<longleftrightarrow>
            bitmap_test (page_bitmap s) p \<and> p \<notin> {a..<c})
      \<and> free_pages (fold (\<lambda>page s. free_one s page) [a..<c] s) = free_pages s + of_nat (c - a)
      \<and> used_pages (fold (\<lambda>page s. free_one s page) [a..<c] s) = used_pages s
      \<and> total_pages (fold (\<lambda>page s. free_one s page) [a..<c] s) = total_pages s
      \<and> memory_start (fold (\<lambda>page s. free_one s page) [a..<c] s) = memory_start s
      \<and> memory_end (fold (\<lambda>page s. free_one s page) [a..<c] s) = memory_end s"
    using Suc c by (intro Suc.hyps(1)) auto
  have "c < PMM_MAX_PAGES" using Suc.prems c by simp
  then show ?case using IH c
    by (auto simp: free_one_def table_simps Suc_diff_le less_Suc_eq add_ac)
qed

lemma add_entry_released:
  assumes U: "released U s" and disj: "\<And>a b. entry_pages e = Some (a, b) \<Longrightarrow> U \<inter> {a..<b} = {}"
  shows "released (U \<union> (case entry_pages e of None \<Rightarrow> {} | Some (a, b) \<Rightarrow> {a..<b})) (add_entry s e)"
proof (cases "entry_pages e")
  case None
  then show ?thesis using U by (simp add: add_entry_def)
next
  case (Some ab)
  obtain a b where ab: "entry_pages e = Some (a, b)" using Some by (cases ab) auto
  note bnd = entry_pages_bounds [OF ab]
  let ?t = "fold (\<lambda>page s. free_one s page) [a..<b] s"
  note f = fold_free_one [OF bnd(3) less_imp_le [OF bnd(2)], of s]
  have new: "U \<union> {a..<b} \<subseteq> {0<..<PMM_MAX_PAGES}"
    using releasedD(1) [OF U] bnd by (fastforce simp: subset_iff)
  have card: "card (U \<union> {a..<b}) = card U + (b - a)"
    using disj [OF ab] released_finite [OF U] by (simp add: card_Un_disjoint)
  moreover have "card (U \<union> {a..<b}) \<le> card {0<..<PMM_MAX_PAGES}"
    using new by (intro card_mono) auto
  ultimately have small: "card U + (b - a) < 2 ^ 64" by (simp add: PMM_MAX_PAGES_def)
  then have free: "unat (free_pages s + of_nat (b - a)) = card U + (b - a)"
    using U by (simp add: released_def unat_word_ariths unat_of_nat del: of_nat_diff)
  let ?t' = "add_entry s e"
  have ms: "memory_start ?t' = (if memory_start s = 0 \<or> a < memory_start s then a else memory_start s)"
    and me: "memory_end ?t' = (if b > memory_end s then b else memory_end s)"
    and bm: "page_bitmap ?t' = page_bitmap ?t"
    and cnt: "free_pages ?t' = free_pages s + of_nat (b - a)" "used_pages ?t' = used_pages s"
    using f by (simp_all add: add_entry_def ab Let_def)
  have "memory_start ?t' \<in> U \<union> {a..<b}"
    using U bnd by (cases "U = {}") (auto simp: ms released_def)
  moreover have "U \<union> {a..<b} \<subseteq> {memory_start ?t' ..< memory_end ?t'}"
  proof (cases "U = {}")
    case True
    then show ?thesis by (simp add: ms me releasedD [OF U] bnd)
  next
    case False
    then have "memory_start s \<noteq> 0" using releasedD(1,7) [OF U] by auto
    with releasedD(8) [OF U False] show ?thesis by (fastforce simp: ms me subset_iff)
  qed
  moreover have "memory_end ?t' \<le> PMM_MAX_PAGES"
    using releasedD(9) [OF U] bnd by (simp add: me)
  moreover have "bitmap_test (page_bitmap ?t') p \<longleftrightarrow> p \<notin> U \<union> {a..<b}" for p
    using U f by (simp add: bm released_def)
  moreover have "unat (free_pages ?t') = card (U \<union> {a..<b})" "used_pages ?t' = 0"
    using free card U by (simp_all add: cnt released_def del: of_nat_diff)
  ultimately show ?thesis using new bnd by (simp add: ab released_def)
qed

text \<open>The ranges of the usable entries, and that no two overlap.\<close>

definition entry_set :: "memory_map_entry \<Rightarrow> nat set" where
  "entry_set e = (case entry_pages e of None \<Rightarrow> {} | Some (a, b) \<Rightarrow> {a..<b})"

primrec disjoint_map :: "memory_map_entry list \<Rightarrow> bool" where
  "disjoint_map [] = True"
| "disjoint_map (e # es) =
     (list_all (\<lambda>f. case (entry_pages e, entry_pages f) of
         (Some (a, b), Some (c, d)) \<Rightarrow> b \<le> c \<or> d \<le> a | _ \<Rightarrow> True) es \<and> disjoint_map es)"

lemma disjoint_map_sets:
  assumes "disjoint_map (e # es)"
  shows "entry_set e \<inter> (\<Union>f\<in>set es. entry_set f) = {}"
  using assms by (fastforce simp: entry_set_def list_all_iff split: option.splits prod.splits)

lemma add_entries_released:
  assumes "released U s" and "disjoint_map es" and "U \<inter> (\<Union>e\<in>set es. entry_set e) = {}"
  shows "released (U \<union> (\<Union>e\<in>set es. entry_set e)) (fold (\<lambda>e s. add_entry s e) es s)"
  using assms
proof (induction es arbitrary: U s)
  case Nil
  then show ?case by simp
next
  case (Cons e es)
  have "released (U \<union> entry_set e) (add_entry s e)"
    unfolding entry_set_def by (rule add_entry_released [OF Cons.prems(1)])
      (use Cons.prems(3) in \<open>auto simp: entry_set_def split: option.splits\<close>)
  moreover have "(U \<union> entry_set e) \<inter> (\<Union>f\<in>set es. entry_set f) = {}"
    using Cons.prems(3) disjoint_map_sets [OF Cons.prems(2)] by auto
  ultimately have "released (U \<union> entry_set e \<union> (\<Union>f\<in>set es. entry_set f))
      (fold (\<lambda>e s. add_entry s e) es (add_entry s e))"
    using Cons.prems(2) by (intro Cons.IH) auto
  then show ?case by (simp add: Un_assoc)
qed

text \<open>Reserving loops: \<open>clear_set\<close> is what the bitmap leaves free, inside the window or not.\<close>

definition clear_set :: "pmm \<Rightarrow> nat set" where
  "clear_set s = {p. \<not> bitmap_test (page_bitmap s) p}"

lemma clear_set_bound: "clear_set s \<subseteq> {..<PMM_MAX_PAGES}"
  by (auto simp: clear_set_def bitmap_test_def split: if_splits)

lemma finite_clear_set [simp]: "finite (clear_set s)"
  by (rule finite_subset [OF clear_set_bound]) simp

definition counted :: "pmm \<Rightarrow> bool" where
  "counted s \<longleftrightarrow> unat (free_pages s) = card (clear_set s)"

lemma drop_one_frame [simp]:
  "clear_set (drop_one s p) = clear_set s - {p}"
  "memory_start (drop_one s p) = memory_start s" "memory_end (drop_one s p) = memory_end s"
  "used_pages (drop_one s p) = used_pages s"
  by (auto simp: drop_one_def clear_set_def table_simps)

lemma counted_drop_one:
  assumes "counted s"
  shows "counted (drop_one s p)"
proof (cases "p \<in> clear_set s")
  case True
  then have pos: "0 < card (clear_set s)" by (auto simp: card_gt_0_iff)
  then have "free_pages s \<noteq> 0" using assms unfolding counted_def by (metis less_irrefl unat_0)
  then have "unat (free_pages s - 1) = card (clear_set s) - 1"
    using assms by (simp add: counted_def unat_minus_one)
  then show ?thesis using True by (simp add: counted_def card_Diff_singleton)
      (simp add: drop_one_def clear_set_def)
next
  case False
  then show ?thesis using assms by (simp add: drop_one_def clear_set_def)
qed

lemma fold_drop_one:
  "clear_set (fold (\<lambda>page s. drop_one s page) ps s) = clear_set s - set ps"
  "memory_start (fold (\<lambda>page s. drop_one s page) ps s) = memory_start s"
  "used_pages (fold (\<lambda>page s. drop_one s page) ps s) = used_pages s"
  "counted s \<Longrightarrow> counted (fold (\<lambda>page s. drop_one s page) ps s)"
  by (induction ps arbitrary: s) (auto simp: counted_drop_one)

lemma limit_identity_counted:
  assumes "released U s" and "memory_start s < PMM_IDENTITY_MAP_LIMIT"
  defines "t \<equiv> limit_identity s"
  shows "counted t" and "clear_set t = U \<inter> {..<PMM_IDENTITY_MAP_LIMIT}"
    and "clear_set t \<subseteq> window t" and "used_pages t = 0"
    and "memory_start t \<le> memory_end t" and "memory_end t \<le> PMM_MAX_PAGES"
    and "0 < memory_start t \<or> memory_end t = 0"
proof -
  have cs: "clear_set s = U" using assms(1) by (auto simp: released_def clear_set_def)
  then have cnt: "counted s" using assms(1) by (simp add: released_def counted_def)
  have sub: "U \<subseteq> window s"
    using assms(1) by (cases "U = {}") (auto simp: released_def window_def)
  show "counted t"
    using fold_drop_one(4) [OF cnt] cnt by (simp add: t_def limit_identity_def counted_def clear_set_def)
  have ct: "clear_set t = (if memory_end s > PMM_IDENTITY_MAP_LIMIT
      then U - {PMM_IDENTITY_MAP_LIMIT..<memory_end s} else U)"
    using fold_drop_one(1) [of "[PMM_IDENTITY_MAP_LIMIT..<memory_end s]" s] cs
    by (simp add: t_def limit_identity_def clear_set_def)
  show eq: "clear_set t = U \<inter> {..<PMM_IDENTITY_MAP_LIMIT}"
    using sub unfolding ct by (auto simp: window_def)
  show "clear_set t \<subseteq> window t"
    unfolding eq using sub by (auto simp: t_def limit_identity_def window_def fold_drop_one)
  show "used_pages t = 0"
    using assms(1) by (simp add: t_def limit_identity_def fold_drop_one released_def)
  from released_order [OF assms(1)] releasedD(9) [OF assms(1)]
  show "memory_start t \<le> memory_end t" and "memory_end t \<le> PMM_MAX_PAGES"
    and "0 < memory_start t \<or> memory_end t = 0"
    using assms(2) by (auto simp: t_def limit_identity_def fold_drop_one PMM_MAX_PAGES_def
        PMM_IDENTITY_MAP_LIMIT_def)
qed

lemma reserve_one_inv:
  assumes "pmm_inv s" and "clear_set s \<subseteq> window s"
  shows "pmm_inv (reserve_one s p)" and "clear_set (reserve_one s p) = clear_set s - {p}"
    and "window (reserve_one s p) = window s"
proof -
  show cs: "clear_set (reserve_one s p) = clear_set s - {p}"
    and w: "window (reserve_one s p) = window s"
    by (auto simp: reserve_one_def clear_set_def window_def table_simps)
  have ff: "free_frames s = clear_set s"
    using assms(2) by (auto simp: free_frames_def clear_set_def)
  show "pmm_inv (reserve_one s p)"
  proof (cases "p \<in> clear_set s")
    case True
    then have eq: "reserve_one s p = s\<lparr>page_bitmap := bitmap_set (page_bitmap s) p,
        free_pages := free_pages s - 1, used_pages := used_pages s + 1\<rparr>"
      by (simp add: reserve_one_def clear_set_def)
    have "free_frames (reserve_one s p) = free_frames s - {p}"
      by (auto simp: eq free_frames_def window_def table_simps)
    then show ?thesis
      using True ff by (intro pmm_inv_take [OF assms(1), of "{p}" 1]) (simp_all add: eq)
  next
    case False
    then show ?thesis using assms(1) by (simp add: reserve_one_def clear_set_def)
  qed
qed

lemma reserve_range_inv:
  assumes "pmm_inv s" and "clear_set s \<subseteq> window s"
  shows "pmm_inv (reserve_range a b s)"
    and "clear_set (reserve_range a b s) = clear_set s - {a..<b}"
    and "window (reserve_range a b s) = window s"
proof -
  have "pmm_inv (fold (\<lambda>page s. reserve_one s page) ps s) \<and>
      clear_set (fold (\<lambda>page s. reserve_one s page) ps s) = clear_set s - set ps \<and>
      window (fold (\<lambda>page s. reserve_one s page) ps s) = window s" for ps
    using assms
  proof (induction ps arbitrary: s)
    case Nil
    then show ?case by simp
  next
    case (Cons p ps)
    from reserve_one_inv [OF Cons.prems] Cons.prems
    have "clear_set (reserve_one s p) \<subseteq> window (reserve_one s p)" by auto
    from Cons.IH [OF reserve_one_inv(1) [OF Cons.prems] this] reserve_one_inv [OF Cons.prems]
    show ?case by auto
  qed
  from this [of "[a..<b]"] show "pmm_inv (reserve_range a b s)"
    and "clear_set (reserve_range a b s) = clear_set s - {a..<b}"
    and "window (reserve_range a b s) = window s"
    by (simp_all add: reserve_range_def)
qed

text \<open>The frames \<open>pmm_init\<close> reserves: the legacy kernel region, the kernel image, the bitmap.\<close>

definition kernel_pages :: "link_syms \<Rightarrow> nat set" where
  "kernel_pages l =
     {page_of 0x100000 ..< page_of 0x400000} \<union> {page_of (text_start l) ..< page_up (rodata_end l)} \<union>
     (if page_of (data_start l) > page_up (rodata_end l)
      then {page_of (data_start l) ..< page_up (kernel_end l)} else {}) \<union>
     {page_of (bitmap_addr l) ..< page_up (bitmap_addr l + PMM_MAX_PAGES div 8)}"

lemma reserve_kernel_inv:
  assumes "pmm_inv s" and "clear_set s \<subseteq> window s"
  shows "pmm_inv (reserve_kernel l s) \<and> clear_set (reserve_kernel l s) = clear_set s - kernel_pages l
     \<and> window (reserve_kernel l s) = window s"
proof -
  define ok where "ok X t \<longleftrightarrow> pmm_inv t \<and> clear_set t = clear_set s - X \<and> window t = window s" for X t
  have step: "ok (X \<union> {a..<b}) (reserve_range a b t)" if "ok X t" for X a b t
    using reserve_range_inv [of t a b] that assms(2) unfolding ok_def by blast
  have step_if: "ok (X \<union> (if c then {a..<b} else {})) (if c then reserve_range a b t else t)"
    if "ok X t" for X a b t c
    using step [OF that] that by simp
  have "ok {} s" using assms(1) by (simp add: ok_def)
  then have "ok ({} \<union> kernel_pages l) (reserve_kernel l s)"
    unfolding reserve_kernel_def Let_def kernel_pages_def Un_assoc [symmetric]
    by (intro step step_if)
  then show ?thesis by (simp add: ok_def)
qed

text \<open>The frames the machine offers to the allocator: usable, below the identity-mapped limit.\<close>

definition usable_frames :: "memory_map_entry list \<Rightarrow> nat set" where
  "usable_frames es = (\<Union>e\<in>set es. entry_set e)"

lemma released_boot: "released {} (s\<lparr>page_bitmap := (\<lambda>_. 0xFF)\<rparr>)"
  if "free_pages s = 0" "used_pages s = 0" "memory_start s = 0" "memory_end s = 0"
proof -
  have "bit (0xFF :: u8) (p mod 8)" for p
  proof -
    have "p mod 8 \<in> {0, 1, 2, 3, 4, 5, 6, 7}" by auto
    then show ?thesis by (auto simp: bit_simps)
  qed
  with that show ?thesis by (simp add: released_def bitmap_test_bit)
qed

lemma pmm_init_state:
  assumes disj: "disjoint_map es"
    and low: "usable_frames es = {} \<or> usable_frames es \<inter> {..<PMM_IDENTITY_MAP_LIMIT} \<noteq> {}"
  shows "pmm_inv (pmm_init l es pmm_boot)"
    and "free_frames (pmm_init l es pmm_boot)
           = usable_frames es \<inter> {..<PMM_IDENTITY_MAP_LIMIT} - kernel_pages l"
proof -
  define s0 where "s0 = pmm_boot\<lparr>page_bitmap := (\<lambda>_. 0xFF), g_mmap := es,
      g_phys_limit := fold (\<lambda>e lim. max lim (mm_base e + mm_length e)) es (g_phys_limit pmm_boot)\<rparr>"
  define s1 where "s1 = fold (\<lambda>e s. add_entry s e) es s0"
  define s2 where "s2 = (limit_identity s1)\<lparr>total_pages := free_pages (limit_identity s1)\<rparr>"
  have "released {} s0"
    using released_boot [of "s0\<lparr>page_bitmap := (\<lambda>_. 0)\<rparr>"] by (simp add: s0_def pmm_boot_def)
  then have r: "released (usable_frames es) s1"
    using add_entries_released [of "{}" s0 es] disj by (simp add: s1_def usable_frames_def)
  have "memory_start s1 < PMM_IDENTITY_MAP_LIMIT"
  proof (cases "usable_frames es = {}")
    case True
    then show ?thesis by (simp add: releasedD [OF r] PMM_IDENTITY_MAP_LIMIT_def)
  next
    case False
    then obtain p where "p \<in> usable_frames es" "p < PMM_IDENTITY_MAP_LIMIT" using low by auto
    moreover have "memory_start s1 \<le> p" using releasedD(8) [OF r False] calculation(1) by auto
    ultimately show ?thesis by simp
  qed
  note lim = limit_identity_counted [OF r this]
  have cs: "clear_set s2 = usable_frames es \<inter> {..<PMM_IDENTITY_MAP_LIMIT}"
    and win: "window s2 = window (limit_identity s1)"
    using lim(2) by (simp_all add: s2_def clear_set_def window_def)
  then have sub: "clear_set s2 \<subseteq> window s2" using lim(2,3) by simp
  then have ff: "free_frames s2 = clear_set s2" by (auto simp: free_frames_def clear_set_def)
  have "pmm_inv s2"
    using lim(1,2,4,5,6,7) ff cs by (simp add: pmm_inv_def counted_def s2_def)
  note k = reserve_kernel_inv [OF this sub, of l]
  have init: "pmm_init l es pmm_boot = reserve_kernel l s2"
    by (simp add: pmm_init_def Let_def s2_def s1_def s0_def)
  show "pmm_inv (pmm_init l es pmm_boot)" using k by (simp add: init)
  have "free_frames t = clear_set t" if "clear_set t \<subseteq> window t" for t
    using that by (auto simp: free_frames_def clear_set_def)
  then show "free_frames (pmm_init l es pmm_boot)
           = usable_frames es \<inter> {..<PMM_IDENTITY_MAP_LIMIT} - kernel_pages l"
    using k sub cs by (metis Diff_subset init subset_trans)
qed

section \<open>Properties\<close>

definition demo_map :: "memory_map_entry list" where
  "demo_map = [\<lparr>mm_base = 0x100000, mm_length = 0x800000, mm_type = 1, mm_attributes = 0\<rparr>]"

definition demo_syms :: link_syms where
  "demo_syms = \<lparr>text_start = 0x400000, rodata_end = 0x500000, data_start = 0x600000,
     kernel_end = 0x700000, bitmap_addr = 0x680000\<rparr>"

definition demo_pmm :: pmm where
  "demo_pmm = \<lparr>page_bitmap = (\<lambda>i. if i = 0 then 0x13 else 0xFF), total_pages = 5, free_pages = 5,
     used_pages = 0, g_pmm_double_free = 0, memory_start = 2, memory_end = 8, alloc_hint = 0,
     g_pmm_low_next = 0, g_mmap = [], g_phys_limit = 0\<rparr>"

lemma demo_frames: "free_frames demo_pmm = {2, 3, 5, 6, 7}" "used_frames demo_pmm = {4}"
proof -
  have w: "window demo_pmm = {2, 3, 4, 5, 6, 7}" by (auto simp: window_def demo_pmm_def)
  show "free_frames demo_pmm = {2, 3, 5, 6, 7}" and "used_frames demo_pmm = {4}"
    unfolding free_frames_def used_frames_def w
    by (auto simp: demo_pmm_def bitmap_test_bit PMM_MAX_PAGES_def bit_simps)
qed

lemma demo_inv: "pmm_inv demo_pmm"
  using demo_frames(1) by (simp add: pmm_inv_def) (simp add: demo_pmm_def PMM_MAX_PAGES_def)

lemma demo_usable: "entry_pages (hd demo_map) = Some (256, 2304)"
  by (simp add: demo_map_def entry_pages_def MEMORY_TYPE_USABLE_def PMM_MAX_PAGES_def
      PMM_PAGE_SIZE_def Let_def)

text \<open>C24: boot initialisation. From the static initial state, for a firmware map whose usable entries
  do not overlap and which has memory below the 2 GB identity limit (or none at all), \<open>pmm_init\<close>
  establishes the allocator invariant (window, counters and bitmap agree), and the frames it leaves
  free are exactly the usable ones below the limit, minus the legacy region, the kernel image and
  the bitmap.\<close>

theorem pmm_init_establishes:
  assumes "disjoint_map es"
    and "usable_frames es = {} \<or> usable_frames es \<inter> {..<PMM_IDENTITY_MAP_LIMIT} \<noteq> {}"
  shows "pmm_inv (pmm_init l es pmm_boot) \<and>
    free_frames (pmm_init l es pmm_boot)
      = usable_frames es \<inter> {..<PMM_IDENTITY_MAP_LIMIT} - kernel_pages l"
  using pmm_init_state [OF assms] by blast

theorem pmm_init_establishes_witness:
  "disjoint_map demo_map \<and> pmm_inv (pmm_init demo_syms demo_map pmm_boot) \<and>
   2303 \<in> free_frames (pmm_init demo_syms demo_map pmm_boot) \<and>
   1100 \<notin> free_frames (pmm_init demo_syms demo_map pmm_boot)"
proof -
  have d: "disjoint_map demo_map" by (simp add: demo_map_def)
  have u: "usable_frames demo_map = {256..<2304}"
    using demo_usable by (simp add: usable_frames_def entry_set_def demo_map_def)
  then have "256 \<in> usable_frames demo_map \<inter> {..<PMM_IDENTITY_MAP_LIMIT}"
    by (simp add: PMM_IDENTITY_MAP_LIMIT_def)
  then have "usable_frames demo_map = {} \<or> usable_frames demo_map \<inter> {..<PMM_IDENTITY_MAP_LIMIT} \<noteq> {}"
    by blast
  from pmm_init_establishes [OF d this, of demo_syms] d show ?thesis
    by (simp add: u kernel_pages_def demo_syms_def page_of_def page_up_def PMM_PAGE_SIZE_def
        PMM_MAX_PAGES_def PMM_IDENTITY_MAP_LIMIT_def)
qed

text \<open>C15: single page allocation. \<open>pmm_alloc_page\<close> fails (address 0, state unchanged) exactly when no
  frame of the window is free, wherever the rotating hint stands; otherwise it returns the address
  of a frame that was free, which becomes the only newly used frame, and the invariant is kept.\<close>

theorem pmm_alloc_page_spec:
  assumes "pmm_inv s"
  shows "if free_frames s = {} then pmm_alloc_page s = (0, s)
    else \<exists>p\<in>free_frames s. \<exists>t. pmm_alloc_page s = (page_addr p, t) \<and> page_addr p \<noteq> 0 \<and>
      free_frames t = free_frames s - {p} \<and> used_frames t = insert p (used_frames s) \<and> pmm_inv t"
  using pmm_inv_bounds [OF assms]
proof (cases rule: alloc_page_cases)
  case fail
  then show ?thesis by simp
next
  case (ok p)
  then have win: "p \<in> window s" by (auto simp: free_frames_def)
  let ?t = "snd (pmm_lowwater_check (take_page s p))"
  have "used_frames ?t = insert p (used_frames s)"
    using win by (auto simp: used_frames_diff take_page_frames)
  moreover have "page_addr p \<noteq> 0" using window_le [OF assms win] by (simp add: page_addr_neq_0)
  ultimately have "pmm_alloc_page s = (page_addr p, ?t) \<and> page_addr p \<noteq> 0 \<and>
      free_frames ?t = free_frames s - {p} \<and> used_frames ?t = insert p (used_frames s) \<and> pmm_inv ?t"
    using ok take_page_inv [OF assms ok(1)] by (simp add: take_page_frames)
  then show ?thesis using ok(1) by auto
qed

theorem pmm_alloc_page_spec_witness:
  "pmm_inv demo_pmm \<and> fst (pmm_alloc_page demo_pmm) \<noteq> 0 \<and> pmm_inv (snd (pmm_alloc_page demo_pmm))"
proof -
  have "free_frames demo_pmm \<noteq> {}" by (simp add: demo_frames)
  then obtain p t where "pmm_alloc_page demo_pmm = (page_addr p, t)" "page_addr p \<noteq> 0" "pmm_inv t"
    using pmm_alloc_page_spec [OF demo_inv] by metis
  then show ?thesis using demo_inv by simp
qed

text \<open>C7: contiguous allocation. For every count above one the search of \<open>pmm_alloc_pages\<close> returns
  (also when the page arithmetic wraps around 64 bits), and it is first fit: it takes the lowest run
  of that many free frames, and fails without a change exactly when there is none.\<close>

theorem pmm_alloc_pages_first_fit:
  assumes "pmm_inv s" and "1 < unat n"
  shows "\<exists>a t. pmm_alloc_pages s n = Some (a, t) \<and> pmm_inv t \<and>
    (if \<exists>p. {p ..< p + unat n} \<subseteq> free_frames s
     then let p = (LEAST p. {p ..< p + unat n} \<subseteq> free_frames s) in
       a = page_addr p \<and> a \<noteq> 0 \<and> free_frames t = free_frames s - {p ..< p + unat n}
     else a = 0 \<and> t = s)"
  using assms
proof (cases rule: alloc_pages_cases)
  case fail
  with assms(1) show ?thesis by auto
next
  case (ok p t)
  have "(LEAST p. {p ..< p + unat n} \<subseteq> free_frames s) = p"
    using ok(2,3) by (intro Least_equality) (auto simp: not_less [symmetric])
  with ok show ?thesis by (auto simp: Let_def page_addr_neq_0)
qed

theorem pmm_alloc_pages_first_fit_witness:
  "pmm_inv demo_pmm \<and> (\<exists>t. pmm_alloc_pages demo_pmm 3 = Some (0x5000, t) \<and> free_frames t = {2, 3})"
proof -
  have run: "{p ..< p + 3} \<subseteq> free_frames demo_pmm \<longleftrightarrow> p = 5" for p :: nat
  proof
    assume "{p ..< p + 3} \<subseteq> free_frames demo_pmm"
    then have "p + i \<in> {2, 3, 5, 6, 7}" if "i < 3" for i
      using that subsetD [of _ "free_frames demo_pmm" "p + i"] demo_frames(1) by fastforce
    from this [of 0] this [of 1] this [of 2] show "p = 5" by auto
  qed (auto simp: demo_frames)
  have least: "(LEAST p :: nat. p = 5) = 5" by (rule Least_equality) auto
  have "(1::nat) < unat (3 :: u64)" by simp
  from pmm_alloc_pages_first_fit [OF demo_inv this] obtain a t where
    at: "pmm_alloc_pages demo_pmm 3 = Some (a, t)" "a = page_addr 5"
      "free_frames t = free_frames demo_pmm - {5 ..< 8}"
    by (auto simp: run least Let_def)
  moreover have "page_addr 5 = 0x5000" by (simp add: page_addr_def PMM_PAGE_SIZE_def)
  moreover have "free_frames demo_pmm - {5 ..< 8} = {2, 3}" by (auto simp: demo_frames)
  ultimately show ?thesis using demo_inv by simp
qed

text \<open>C38: freeing what was allocated. A block obtained from \<open>pmm_alloc_pages\<close> (any count) and given
  back by \<open>pmm_free_pages\<close> with the same count leaves the set of allocated frames as it was, with
  the invariant, counters included.\<close>

theorem pmm_alloc_free_roundtrip:
  assumes "pmm_inv s" and "pmm_alloc_pages s n = Some (a, t)" and "a \<noteq> 0"
  shows "pmm_inv (pmm_free_pages t a n) \<and> used_frames (pmm_free_pages t a n) = used_frames s"
proof -
  note new = pmm_pages.alloc_used [OF assms] and fresh = pmm_pages.alloc_fresh [OF assms]
    and inv = pmm_pages.alloc_inv [OF assms(1,2)]
  have sub: "region_pages a n \<subseteq> used_frames t" by (simp add: new)
  show ?thesis
    using pmm_pages.free_inv [OF inv sub] pmm_pages.free_used [OF inv sub] new fresh by auto
qed

theorem pmm_alloc_free_roundtrip_witness:
  "\<exists>a t. pmm_alloc_pages demo_pmm 1 = Some (a, t) \<and> a \<noteq> 0 \<and>
     used_frames (pmm_free_pages t a 1) = used_frames demo_pmm"
proof (rule alloc_any_cases [OF demo_inv, of 1])
  assume "pmm_alloc_pages demo_pmm 1 = Some (0, demo_pmm)"
  then have "pmm_alloc_page demo_pmm = (0, demo_pmm)" by (simp add: pmm_alloc_pages_def)
  moreover have "\<exists>p t. pmm_alloc_page demo_pmm = (page_addr p, t) \<and> page_addr p \<noteq> 0"
    using alloc_page_cases [OF pmm_inv_bounds [OF demo_inv]]
    by (metis demo_frames(1) demo_inv free_frames_def insert_not_empty mem_Collect_eq page_addr_neq_0
        window_le)
  ultimately show ?thesis by auto
next
  fix p t
  assume "pmm_alloc_pages demo_pmm 1 = Some (page_addr p, t)" and "page_addr p \<noteq> 0"
  with pmm_alloc_free_roundtrip [OF demo_inv this] show ?thesis by blast
qed

text \<open>The three branches of \<open>pmm_free_page\<close>. A page outside the window changes nothing; a page
  that is already free only raises the double-free count; a used page becomes free, and the
  invariant is kept.\<close>

theorem pmm_free_page_branches:
  assumes "pmm_inv s"
  shows "let p = unat a div 4096 in
    if p \<notin> window s then pmm_free_page s a = s
    else if p \<in> free_frames s
      then pmm_free_page s a = s\<lparr>g_pmm_double_free := g_pmm_double_free s + 1\<rparr>
    else free_frames (pmm_free_page s a) = insert p (free_frames s) \<and>
      used_frames (pmm_free_page s a) = used_frames s - {p} \<and> pmm_inv (pmm_free_page s a)"
proof -
  let ?p = "unat a div 4096"
  have "?p \<in> used_frames s" if "?p \<in> window s" "?p \<notin> free_frames s"
    using that by (simp add: used_frames_diff)
  moreover have "pmm_free_page s a = s" if "?p \<notin> window s"
    using that by (auto simp: pmm_free_page_def unat_div_page window_def)
  moreover have "pmm_free_page s a = s\<lparr>g_pmm_double_free := g_pmm_double_free s + 1\<rparr>"
    if "?p \<in> free_frames s"
    using that by (auto simp: pmm_free_page_def unat_div_page free_frames_def window_def)
  ultimately show ?thesis
    using free_page_used [OF assms, of a] by (simp add: Let_def)
qed

theorem pmm_free_page_branches_witness:
  "pmm_inv demo_pmm \<and> free_frames (pmm_free_page demo_pmm 0x4000) = {2, 3, 4, 5, 6, 7} \<and>
   pmm_free_page demo_pmm 0x3000 = demo_pmm\<lparr>g_pmm_double_free := 1\<rparr>"
proof -
  have w: "window demo_pmm = {2, 3, 4, 5, 6, 7}" by (auto simp: window_def demo_pmm_def)
  have "g_pmm_double_free demo_pmm = 0" by (simp add: demo_pmm_def)
  then show ?thesis
    using demo_inv pmm_free_page_branches [OF demo_inv, of "0x4000"]
      pmm_free_page_branches [OF demo_inv, of "0x3000"]
    by (auto simp: w demo_frames)
qed

text \<open>A reserved frame is out of the pool. \<open>pmm_reserve_page\<close> answers 1 exactly for a frame that
  was free, which it then marks used with the invariant kept; in the other two cases (-1 outside the
  window, 0 already used) it changes nothing.\<close>

theorem pmm_reserve_page_spec:
  assumes "pmm_inv s" and "pmm_reserve_page s a = (r, t)"
  shows "if unat a div 4096 \<in> free_frames s
    then r = 1 \<and> free_frames t = free_frames s - {unat a div 4096} \<and>
         used_frames t = insert (unat a div 4096) (used_frames s) \<and> pmm_inv t \<and>
         \<not> pmm_page_is_free t a
    else t = s \<and> r = (if unat a div 4096 \<in> window s then 0 else -1)"
proof -
  let ?p = "unat a div 4096"
  show ?thesis
  proof (cases "?p \<in> free_frames s")
    case True
    then have p: "memory_start s \<le> ?p" "?p < memory_end s" "\<not> bitmap_test (page_bitmap s) ?p"
      by (auto simp: free_frames_def window_def)
    then have r: "r = 1" and t: "t = s\<lparr>page_bitmap := bitmap_set (page_bitmap s) ?p,
        free_pages := free_pages s - 1, used_pages := used_pages s + 1\<rparr>"
      using assms(2) by (auto simp: pmm_reserve_page_def unat_div_page Let_def reserve_one_def)
    have ff: "free_frames t = free_frames s - {?p}" and "window t = window s"
      by (auto simp: t free_frames_def window_def table_simps)
    moreover have "pmm_inv t"
      using True ff by (intro pmm_inv_take [OF assms(1), of "{?p}" 1]) (simp_all add: t)
    moreover have "\<not> pmm_page_is_free t a"
      by (simp add: pmm_page_is_free_def t Let_def unat_div_page table_simps)
    ultimately show ?thesis using True r p by (auto simp: used_frames_diff window_def)
  next
    case False
    then show ?thesis using assms(2)
      by (auto simp: pmm_reserve_page_def unat_div_page Let_def free_frames_def window_def
          split: if_splits)
  qed
qed

theorem pmm_reserve_page_spec_witness:
  "\<exists>t. pmm_reserve_page demo_pmm 0x5000 = (1, t) \<and> free_frames t = {2, 3, 6, 7} \<and> pmm_inv t"
proof -
  obtain r t where rt: "pmm_reserve_page demo_pmm 0x5000 = (r, t)" by fastforce
  have "{2, 3, 5, 6, 7} - {5} = {2, 3, 6, 7 :: nat}" by auto
  with pmm_reserve_page_spec [OF demo_inv rt] rt show ?thesis by (simp add: demo_frames)
qed

text \<open>The low-water ladder does not go silent. Once the 1% rung has reported, the next mark is the
  largest 64-bit value, which the test \<open>free_pages > g_pmm_low_next\<close> can never exceed, so every
  later check reports again and leaves the mark where it is: the ladder is not limited to five
  lines.\<close>

theorem pmm_lowwater_never_silent:
  assumes "100 \<le> total_pages s" and "g_pmm_low_next s = total_pages s div 100"
    and "free_pages s \<le> total_pages s div 100" and "total_pages s \<le> 0x1000000"
    and "t = snd (pmm_lowwater_check s)"
  shows "fst (pmm_lowwater_check s) \<and>
    (\<forall>f. pmm_lowwater_check (t\<lparr>free_pages := f\<rparr>) = (True, t\<lparr>free_pages := f\<rparr>))"
proof -
  let ?n = "unat (total_pages s)"
  have n: "100 \<le> ?n" "?n \<le> 16777216"
    using assms(1,4) by (simp_all add: word_le_nat_alt)
  have neq: "total_pages s div 100 \<noteq> total_pages s div k"
    if "k \<in> {2, 4, 10, 20}" for k :: u64
  proof -
    have "?n div 100 < ?n div 20" "?n div 20 \<le> ?n div 10" "?n div 10 \<le> ?n div 4"
      "?n div 4 \<le> ?n div 2" using n by linarith+
    with that have "unat (total_pages s div 100) \<noteq> unat (total_pages s div k)"
      by (auto simp: unat_div)
    then show ?thesis by auto
  qed
  have top: "total_pages s div k \<noteq> 0xFFFFFFFFFFFFFFFF" for k :: u64
  proof
    assume "total_pages s div k = 0xFFFFFFFFFFFFFFFF"
    then have "unat (total_pages s div k) = 18446744073709551615" by simp
    moreover have "unat (total_pages s div k) \<le> ?n" by (simp add: unat_div)
    ultimately show False using n by linarith
  qed
  have "unat (total_pages s div 100) \<noteq> 0" using n by (simp add: unat_div)
  then have nz: "total_pages s div 100 \<noteq> 0" "total_pages s \<noteq> 0" by auto
  have chk: "pmm_lowwater_check s = (True, s\<lparr>g_pmm_low_next := 0xFFFFFFFFFFFFFFFF\<rparr>)"
    using assms(2,3) nz neq by (simp add: pmm_lowwater_check_def Let_def not_less)
  have max: "\<not> f > (0xFFFFFFFFFFFFFFFF :: u64)" for f
  proof -
    have "unat f < 2 ^ 64" using unsigned_less [where w = f and 'a = nat] by simp
    then show ?thesis by (simp add: word_less_nat_alt)
  qed
  have "pmm_lowwater_check (t\<lparr>free_pages := f\<rparr>) = (True, t\<lparr>free_pages := f\<rparr>)" for f
  proof -
    have "total_pages (t\<lparr>free_pages := f\<rparr>) = total_pages s"
      and "g_pmm_low_next (t\<lparr>free_pages := f\<rparr>) = 0xFFFFFFFFFFFFFFFF"
      by (simp_all add: assms(5) chk)
    moreover have "0xFFFFFFFFFFFFFFFF \<noteq> total_pages s div k" for k :: u64
      using top [of k] by (rule not_sym)
    ultimately show ?thesis
      using nz(2) max [of f] unfolding pmm_lowwater_check_def Let_def by simp
  qed
  then show ?thesis by (simp add: chk)
qed

theorem pmm_lowwater_never_silent_witness:
  "fst (pmm_lowwater_check (demo_pmm\<lparr>total_pages := 1000, free_pages := 9, g_pmm_low_next := 10\<rparr>))"
  using pmm_lowwater_never_silent
    [of "demo_pmm\<lparr>total_pages := 1000, free_pages := 9, g_pmm_low_next := 10\<rparr>", OF _ _ _ _ refl]
  by simp

end
