(* ===== verification/Vmm.thy ===== *)
theory Vmm
  imports Pmm
begin

text \<open>
  Page tables of a user address space, after \<open>kernel/mm/vmm.c\<close>: the four-level tables in physical
  memory, mapping and unmapping one page, breaking a 2 MB page into 4 KB pages, and the read-only
  walks (physical address, raw leaf entry, effective rights), with punching and re-protecting of a
  range. Physical memory is a function from the address of an aligned 8-byte word to its value: the
  kernel reaches it through the identity map. Invalidating translation caches has no counterpart.
\<close>

unbundle bit_operations_syntax

section \<open>Entries and indices\<close>

definition VMM_FLAG_PRESENT :: u64 where "VMM_FLAG_PRESENT = 1"
definition VMM_FLAG_WRITABLE :: u64 where "VMM_FLAG_WRITABLE = 2"
definition VMM_FLAG_USER :: u64 where "VMM_FLAG_USER = 4"
definition VMM_FLAG_HUGE :: u64 where "VMM_FLAG_HUGE = 0x80"
definition VMM_FLAG_NX :: u64 where "VMM_FLAG_NX = 0x8000000000000000"
definition PTE_COW_FLAG :: u64 where "PTE_COW_FLAG = 0x200"
definition VMM_ADDR_MASK :: u64 where "VMM_ADDR_MASK = 0x000FFFFFFFFFF000"
definition VMM_PAGE_SIZE_4K :: u64 where "VMM_PAGE_SIZE_4K = 4096"

definition VMM_USER_RO :: u64 where "VMM_USER_RO = VMM_FLAG_PRESENT OR VMM_FLAG_USER"
definition VMM_USER_RW :: u64 where
  "VMM_USER_RW = VMM_FLAG_PRESENT OR VMM_FLAG_USER OR VMM_FLAG_WRITABLE OR VMM_FLAG_NX"

definition VMM_PML4_INDEX :: "u64 \<Rightarrow> nat" where "VMM_PML4_INDEX a = unat (drop_bit 39 a AND 0x1FF)"
definition VMM_PDPT_INDEX :: "u64 \<Rightarrow> nat" where "VMM_PDPT_INDEX a = unat (drop_bit 30 a AND 0x1FF)"
definition VMM_PD_INDEX :: "u64 \<Rightarrow> nat" where "VMM_PD_INDEX a = unat (drop_bit 21 a AND 0x1FF)"
definition VMM_PT_INDEX :: "u64 \<Rightarrow> nat" where "VMM_PT_INDEX a = unat (drop_bit 12 a AND 0x1FF)"
definition VMM_PAGE_OFFSET :: "u64 \<Rightarrow> u64" where "VMM_PAGE_OFFSET a = a AND 0xFFF"

text \<open>Physical memory, the page allocator and \<open>g_nx_enabled\<close>.\<close>

record vmm =
  phys :: "u64 \<Rightarrow> u64"
  frames :: pmm
  g_nx_enabled :: bool

text \<open>\<open>table[index]\<close> as an lvalue.\<close>

definition slot :: "u64 \<Rightarrow> nat \<Rightarrow> u64" where "slot table index = table + 8 * of_nat index"

definition entry :: "vmm \<Rightarrow> u64 \<Rightarrow> nat \<Rightarrow> u64" where "entry s table index = phys s (slot table index)"

definition set_entry :: "u64 \<Rightarrow> nat \<Rightarrow> u64 \<Rightarrow> vmm \<Rightarrow> vmm" where
  "set_entry table index v s = s\<lparr>phys := (phys s)(slot table index := v)\<rparr>"

definition present :: "u64 \<Rightarrow> bool" where "present e \<longleftrightarrow> e AND VMM_FLAG_PRESENT \<noteq> 0"
definition huge :: "u64 \<Rightarrow> bool" where "huge e \<longleftrightarrow> e AND VMM_FLAG_HUGE \<noteq> 0"

text \<open>\<open>memset(page, 0, 4096)\<close>.\<close>

definition clear_page :: "u64 \<Rightarrow> vmm \<Rightarrow> vmm" where
  "clear_page p s = s\<lparr>phys := (\<lambda>a. if a - p < 4096 then 0 else phys s a)\<rparr>"

section \<open>Mapping and unmapping\<close>

definition vmm_get_or_create_entry_in :: "u64 \<Rightarrow> nat \<Rightarrow> u64 \<Rightarrow> vmm \<Rightarrow> u64 option \<times> vmm" where
  "vmm_get_or_create_entry_in table index flags s =
     (if \<not> present (entry s table index) then
        (let (new_table, fr) = pmm_alloc_page (frames s); s1 = s\<lparr>frames := fr\<rparr> in
         if new_table = 0 then (None, s1)
         else
           let s2 = set_entry table index
                 (new_table OR VMM_FLAG_PRESENT OR VMM_FLAG_WRITABLE OR (flags AND VMM_FLAG_USER))
                 (clear_page new_table s1)
           in (Some (entry s2 table index AND VMM_ADDR_MASK), s2))
      else (Some (entry s table index AND VMM_ADDR_MASK), s))"

text \<open>Break the 2 MB page of \<open>pd[pd_idx]\<close> into 512 pages of 4 KB; \<open>user\<close> is the \<open>USER\<close> bit of the new
  table pointer. \<open>False\<close> when no table can be allocated.\<close>

definition split_huge :: "u64 \<Rightarrow> nat \<Rightarrow> u64 \<Rightarrow> vmm \<Rightarrow> bool \<times> vmm" where
  "split_huge pd pd_idx user s =
     (let huge_phys = entry s pd pd_idx AND VMM_ADDR_MASK;
          huge_flags = entry s pd pd_idx AND 0xFFF AND NOT VMM_FLAG_HUGE;
          (pt_phys, fr) = pmm_alloc_page (frames s); s1 = s\<lparr>frames := fr\<rparr>
      in if pt_phys = 0 then (False, s1)
      else
        let s2 = fold (\<lambda>j. set_entry pt_phys j
                    ((huge_phys + of_nat j * 4096) OR huge_flags OR VMM_FLAG_PRESENT)) [0..<512] s1
        in (True, set_entry pd pd_idx (pt_phys OR VMM_FLAG_PRESENT OR VMM_FLAG_WRITABLE OR user) s2))"

definition vmm_map_page_in :: "u64 \<Rightarrow> u64 \<Rightarrow> u64 \<Rightarrow> u64 \<Rightarrow> vmm \<Rightarrow> int \<times> vmm" where
  "vmm_map_page_in pml4_phys virt_addr phys_addr flags0 s =
     (let flags = (if g_nx_enabled s then flags0 else flags0 AND NOT VMM_FLAG_NX) in
      if pml4_phys = 0 then (-1, s)
      else
        let va = virt_addr AND NOT 0xFFF; pa = phys_addr AND NOT 0xFFF in
        case vmm_get_or_create_entry_in pml4_phys (VMM_PML4_INDEX va) flags s of
          (None, s1) \<Rightarrow> (-1, s1)
        | (Some pdpt, s1) \<Rightarrow>
        (case vmm_get_or_create_entry_in pdpt (VMM_PDPT_INDEX va) flags s1 of
          (None, s2) \<Rightarrow> (-1, s2)
        | (Some pd, s2) \<Rightarrow>
            let pd_idx = VMM_PD_INDEX va;
                (ok, s3) = (if huge (entry s2 pd pd_idx)
                            then split_huge pd pd_idx (flags AND VMM_FLAG_USER) s2 else (True, s2))
            in if \<not> ok then (-1, s3)
            else
        (case vmm_get_or_create_entry_in pd pd_idx flags s3 of
          (None, s4) \<Rightarrow> (-1, s4)
        | (Some pt, s4) \<Rightarrow>
            (0, set_entry pt (VMM_PT_INDEX va) (pa OR flags OR VMM_FLAG_PRESENT) s4))))"

definition vmm_unmap_page_in :: "u64 \<Rightarrow> u64 \<Rightarrow> vmm \<Rightarrow> vmm" where
  "vmm_unmap_page_in pml4_phys virt_addr s =
     (if pml4_phys = 0 then s
      else
        let va = virt_addr AND NOT 0xFFF;
            e4 = entry s pml4_phys (VMM_PML4_INDEX va) in
        if \<not> present e4 then s
        else
          let pdpt = e4 AND VMM_ADDR_MASK; e3 = entry s pdpt (VMM_PDPT_INDEX va) in
          if \<not> present e3 then s
          else
            let pd = e3 AND VMM_ADDR_MASK; e2 = entry s pd (VMM_PD_INDEX va) in
            if \<not> present e2 then s
            else if huge e2 then set_entry pd (VMM_PD_INDEX va) 0 s
            else set_entry (e2 AND VMM_ADDR_MASK) (VMM_PT_INDEX va) 0 s)"

section \<open>Walks\<close>

definition vmm_get_effective_flags_in :: "u64 \<Rightarrow> u64 \<Rightarrow> vmm \<Rightarrow> u64" where
  "vmm_get_effective_flags_in pml4_phys virt_addr s =
     (let user = VMM_FLAG_USER; write = VMM_FLAG_WRITABLE; nx = 0;
          e = entry s pml4_phys (VMM_PML4_INDEX virt_addr) in
      if pml4_phys = 0 then 0
      else if \<not> present e then 0
      else
        let user = user AND e; write = write AND e; nx = nx OR (e AND VMM_FLAG_NX);
            e = entry s (e AND VMM_ADDR_MASK) (VMM_PDPT_INDEX virt_addr) in
        if \<not> present e then 0
        else
          let user = user AND e; write = write AND e; nx = nx OR (e AND VMM_FLAG_NX) in
          if huge e then VMM_FLAG_PRESENT OR user OR write OR nx
          else
            let e = entry s (e AND VMM_ADDR_MASK) (VMM_PD_INDEX virt_addr) in
            if \<not> present e then 0
            else
              let user = user AND e; write = write AND e; nx = nx OR (e AND VMM_FLAG_NX) in
              if huge e then VMM_FLAG_PRESENT OR user OR write OR nx
              else
                let e = entry s (e AND VMM_ADDR_MASK) (VMM_PT_INDEX virt_addr) in
                if \<not> present e then 0
                else
                  let user = user AND e; write = write AND e; nx = nx OR (e AND VMM_FLAG_NX) in
                  VMM_FLAG_PRESENT OR user OR write OR nx)"

definition vmm_get_physical_in :: "u64 \<Rightarrow> u64 \<Rightarrow> vmm \<Rightarrow> u64" where
  "vmm_get_physical_in pml4_phys virt_addr s =
     (if pml4_phys = 0 then 0
      else
        let e4 = entry s pml4_phys (VMM_PML4_INDEX virt_addr) in
        if \<not> present e4 then 0
        else
          let e3 = entry s (e4 AND VMM_ADDR_MASK) (VMM_PDPT_INDEX virt_addr) in
          if \<not> present e3 then 0
          else if huge e3 then (e3 AND VMM_ADDR_MASK) OR (virt_addr AND 0x3FFFFFFF)
          else
            let e2 = entry s (e3 AND VMM_ADDR_MASK) (VMM_PD_INDEX virt_addr) in
            if \<not> present e2 then 0
            else if huge e2 then (e2 AND VMM_ADDR_MASK) OR (virt_addr AND 0x1FFFFF)
            else
              let e1 = entry s (e2 AND VMM_ADDR_MASK) (VMM_PT_INDEX virt_addr) in
              if \<not> present e1 then 0
              else (e1 AND VMM_ADDR_MASK) OR VMM_PAGE_OFFSET virt_addr)"

definition vmm_get_pte_in :: "u64 \<Rightarrow> u64 \<Rightarrow> vmm \<Rightarrow> u64" where
  "vmm_get_pte_in pml4_phys virt_addr s =
     (if pml4_phys = 0 then 0
      else
        let e4 = entry s pml4_phys (VMM_PML4_INDEX virt_addr) in
        if \<not> present e4 then 0
        else
          let e3 = entry s (e4 AND VMM_ADDR_MASK) (VMM_PDPT_INDEX virt_addr) in
          if \<not> present e3 then 0
          else if huge e3 then 0
          else
            let e2 = entry s (e3 AND VMM_ADDR_MASK) (VMM_PD_INDEX virt_addr) in
            if \<not> present e2 then 0
            else if huge e2 then 0
            else
              let e1 = entry s (e2 AND VMM_ADDR_MASK) (VMM_PT_INDEX virt_addr) in
              if \<not> present e1 then 0 else e1)"

section \<open>Ranges\<close>

text \<open>One page of the loop of \<open>vmm_punch_demand_range\<close>; \<open>False\<close> is the early return.\<close>

definition punch_page :: "u64 \<Rightarrow> u64 \<Rightarrow> vmm \<Rightarrow> bool \<times> vmm" where
  "punch_page pml4_phys va s =
     (let e4 = entry s pml4_phys (VMM_PML4_INDEX va) in
      if \<not> present e4 then (True, s)
      else
        let e3 = entry s (e4 AND VMM_ADDR_MASK) (VMM_PDPT_INDEX va) in
        if \<not> present e3 then (True, s)
        else if huge e3 then (True, s)
        else
          let pd = e3 AND VMM_ADDR_MASK; pd_idx = VMM_PD_INDEX va in
          if \<not> present (entry s pd pd_idx) then (True, s)
          else
            let (ok, s1) = (if huge (entry s pd pd_idx) then split_huge pd pd_idx VMM_FLAG_USER s
                            else (True, s))
            in if \<not> ok then (False, s1)
            else if \<not> present (entry s1 pd pd_idx) then (True, s1)
            else
              let pt = entry s1 pd pd_idx AND VMM_ADDR_MASK; e = entry s1 pt (VMM_PT_INDEX va) in
              if present e \<and> e AND VMM_FLAG_USER = 0
              then (True, set_entry pt (VMM_PT_INDEX va) 0 s1) else (True, s1))"

primrec punch_loop :: "nat \<Rightarrow> u64 \<Rightarrow> u64 \<Rightarrow> vmm \<Rightarrow> vmm" where
  "punch_loop 0 pml4_phys va s = s"
| "punch_loop (Suc n) pml4_phys va s =
     (case punch_page pml4_phys va s of
        (False, s1) \<Rightarrow> s1
      | (True, s1) \<Rightarrow> punch_loop n pml4_phys (va + VMM_PAGE_SIZE_4K) s1)"

text \<open>\<open>va\<close> and \<open>end\<close> are multiples of 4096 and \<open>va < end\<close>, so the loop runs \<open>(end - va) / 4096\<close> times.\<close>

definition vmm_punch_demand_range :: "u64 \<Rightarrow> u64 \<Rightarrow> u64 \<Rightarrow> vmm \<Rightarrow> vmm" where
  "vmm_punch_demand_range pml4_phys start len s =
     (if pml4_phys = 0 \<or> len = 0 then s
      else
        let va = start AND NOT (VMM_PAGE_SIZE_4K - 1);
            end_va = (start + len + VMM_PAGE_SIZE_4K - 1) AND NOT (VMM_PAGE_SIZE_4K - 1)
        in if end_va \<le> va then s
           else punch_loop (unat (end_va - va) div 4096) pml4_phys va s)"

definition protect_page :: "u64 \<Rightarrow> u64 \<Rightarrow> u64 \<Rightarrow> vmm \<Rightarrow> u64 \<times> vmm" where
  "protect_page pml4_phys page keep s =
     (let pte = vmm_get_pte_in pml4_phys page s in
      if pte AND VMM_FLAG_PRESENT = 0 then (0, s)
      else if pte AND VMM_FLAG_USER = 0 then (0, s)
      else
        let nf = VMM_FLAG_PRESENT OR VMM_FLAG_USER;
            nf = (if pte AND PTE_COW_FLAG \<noteq> 0 then nf OR PTE_COW_FLAG
                  else if keep AND VMM_FLAG_WRITABLE \<noteq> 0 then nf OR VMM_FLAG_WRITABLE else nf);
            nf = (if keep AND VMM_FLAG_NX \<noteq> 0 \<and> g_nx_enabled s then nf OR VMM_FLAG_NX else nf);
            changed = (if nf \<noteq> (pte AND (VMM_FLAG_PRESENT OR VMM_FLAG_USER OR VMM_FLAG_WRITABLE OR
                                          VMM_FLAG_NX OR PTE_COW_FLAG)) then 1 else 0)
        in (changed, snd (vmm_map_page_in pml4_phys page (pte AND VMM_ADDR_MASK) nf s)))"

primrec protect_loop :: "nat \<Rightarrow> u64 \<Rightarrow> u64 \<Rightarrow> u64 \<Rightarrow> u64 \<Rightarrow> vmm \<Rightarrow> u64 \<times> vmm" where
  "protect_loop 0 pml4_phys page keep changed s = (changed, s)"
| "protect_loop (Suc n) pml4_phys page keep changed s =
     (let (c, s1) = protect_page pml4_phys page keep s in
      protect_loop n pml4_phys (page + VMM_PAGE_SIZE_4K) keep (changed + c) s1)"

definition vmm_protect_user_range :: "u64 \<Rightarrow> u64 \<Rightarrow> u64 \<Rightarrow> u64 \<Rightarrow> vmm \<Rightarrow> u64 \<times> vmm" where
  "vmm_protect_user_range pml4_phys virt_addr count keep s =
     protect_loop (unat count) pml4_phys (virt_addr AND NOT 0xFFF) keep 0 s"

section \<open>Bits of entries\<close>

lemma present_bit: "present e \<longleftrightarrow> bit e 0"
  by (simp add: present_def VMM_FLAG_PRESENT_def and_one_eq bit_0 odd_iff_mod_2_eq_one)

lemma and_exp_bit: "e AND 2 ^ n \<noteq> 0 \<longleftrightarrow> bit e n" for e :: u64
  by (simp add: and_exp_eq_0_iff_not_bit)

lemma huge_bit: "huge e \<longleftrightarrow> bit e 7"
  using and_exp_bit [of e 7] by (simp add: huge_def VMM_FLAG_HUGE_def)

lemma flag_bits:
  "bit VMM_FLAG_PRESENT n \<longleftrightarrow> n = 0" "bit VMM_FLAG_WRITABLE n \<longleftrightarrow> n = 1"
  "bit VMM_FLAG_USER n \<longleftrightarrow> n = 2" "bit VMM_FLAG_HUGE n \<longleftrightarrow> n = 7"
  "bit PTE_COW_FLAG n \<longleftrightarrow> n = 9" "bit VMM_FLAG_NX n \<longleftrightarrow> n = 63"
proof -
  have eqs: "VMM_FLAG_PRESENT = 2 ^ 0" "VMM_FLAG_WRITABLE = 2 ^ 1" "VMM_FLAG_USER = 2 ^ 2"
    "VMM_FLAG_HUGE = 2 ^ 7" "PTE_COW_FLAG = 2 ^ 9" "VMM_FLAG_NX = 2 ^ 63"
    by (simp_all add: VMM_FLAG_PRESENT_def VMM_FLAG_WRITABLE_def VMM_FLAG_USER_def VMM_FLAG_HUGE_def
        PTE_COW_FLAG_def VMM_FLAG_NX_def)
  show "bit VMM_FLAG_PRESENT n \<longleftrightarrow> n = 0" "bit VMM_FLAG_WRITABLE n \<longleftrightarrow> n = 1"
    "bit VMM_FLAG_USER n \<longleftrightarrow> n = 2" "bit VMM_FLAG_HUGE n \<longleftrightarrow> n = 7"
    "bit PTE_COW_FLAG n \<longleftrightarrow> n = 9" "bit VMM_FLAG_NX n \<longleftrightarrow> n = 63"
    unfolding eqs bit_exp_iff by (auto simp: possible_bit_word)
qed

lemma bit_addr_mask: "bit VMM_ADDR_MASK n \<longleftrightarrow> 12 \<le> n \<and> n < 52"
proof -
  have eq: "VMM_ADDR_MASK = push_bit 12 (mask 40)"
    by (simp add: VMM_ADDR_MASK_def mask_eq_exp_minus_1)
  show ?thesis unfolding eq by (auto simp: bit_simps)
qed

lemma bit_and_addr: "bit (e AND VMM_ADDR_MASK) n \<longleftrightarrow> bit e n \<and> 12 \<le> n \<and> n < 52"
  by (simp add: bit_and_iff bit_addr_mask)

text \<open>A page-aligned physical address, which is what an entry can hold.\<close>

definition aligned :: "u64 \<Rightarrow> bool" where "aligned t \<longleftrightarrow> t AND VMM_ADDR_MASK = t"

lemma aligned_and [simp]: "aligned (e AND VMM_ADDR_MASK)"
  by (simp add: aligned_def)

lemma aligned_bitD: "aligned t \<Longrightarrow> bit t n \<Longrightarrow> 12 \<le> n \<and> n < 52"
  by (metis aligned_def bit_and_addr)

lemma aligned_unat:
  assumes "aligned t"
  shows "unat t = 4096 * (unat t div 4096)" and "unat t < 2 ^ 52"
proof -
  have "take_bit 12 t = 0" and "take_bit 52 t = t"
    using aligned_bitD [OF assms] by (auto intro!: bit_word_eqI simp: bit_simps) (meson not_less)
  then have lo: "take_bit 12 (unat t) = 0" and hi: "take_bit 52 (unat t) = unat t"
    by (metis unat_0 unsigned_take_bit_eq, metis unsigned_take_bit_eq)
  show "unat t = 4096 * (unat t div 4096)" using lo by (simp add: take_bit_eq_mod mod_0_imp_dvd)
  show "unat t < 2 ^ 52" using hi by (metis take_bit_nat_less_exp)
qed

lemma unat_slot:
  assumes "aligned t" and "i < 512"
  shows "unat (slot t i) = unat t + 8 * i"
proof -
  have "unat t + 8 * i < 2 ^ 64" using aligned_unat(2) [of t] assms by simp
  moreover have "unat (8 * of_nat i :: u64) = 8 * i"
    using assms(2) by (simp add: unat_word_ariths unat_of_nat)
  ultimately show ?thesis by (simp add: slot_def unat_word_ariths)
qed

lemma slot_page: "aligned t \<Longrightarrow> i < 512 \<Longrightarrow> unat (slot t i) div 4096 = unat t div 4096"
  using aligned_unat(1) [of t] by (simp add: unat_slot)

lemma slot_inj:
  assumes "aligned t" and "aligned t'" and "i < 512" and "i' < 512"
  shows "slot t i = slot t' i' \<longleftrightarrow> t = t' \<and> i = i'"
proof
  assume eq: "slot t i = slot t' i'"
  then have "unat t div 4096 = unat t' div 4096"
    using slot_page assms by metis
  then have "t = t'" using aligned_unat(1) assms(1,2) by (metis word_unat_eq_iff)
  then show "t = t' \<and> i = i'" using eq unat_slot assms by (metis add_left_cancel mult_cancel1 zero_neq_numeral)
qed simp

lemma unat_add_mod_64: "unat (a + b) = (unat a + unat b) mod 2 ^ 64" for a b :: u64
  by (simp add: unat_word_ariths)

lemma slot_in_page:
  assumes "aligned t" and "aligned p" and "i < 512"
  shows "slot t i - p < 4096 \<longleftrightarrow> t = p"
proof
  assume "t = p"
  then show "slot t i - p < 4096"
    using assms(3) by (simp add: slot_def word_less_nat_alt unat_word_ariths unat_of_nat)
next
  assume lt: "slot t i - p < 4096"
  have "unat (slot t i) = (unat (slot t i - p) + unat p) mod 2 ^ 64"
    by (metis (no_types) diff_add_cancel unat_add_mod_64)
  moreover have "unat (slot t i - p) < 4096" using lt by (simp add: word_less_nat_alt)
  moreover note aligned_unat [OF assms(2)]
  ultimately have "unat (slot t i) div 4096 = unat p div 4096" by simp
  then show "t = p"
    using slot_page [OF assms(1,3)] aligned_unat(1) assms(1,2) by (metis word_unat_eq_iff)
qed

text \<open>A table pointer built from a frame address.\<close>

lemma table_pointer:
  assumes "aligned a" and "\<And>n. bit user n \<Longrightarrow> n = 2"
  defines "v \<equiv> a OR VMM_FLAG_PRESENT OR VMM_FLAG_WRITABLE OR user"
  shows "present v" and "\<not> huge v" and "v AND VMM_ADDR_MASK = a"
proof -
  have bits: "bit v n \<longleftrightarrow> bit a n \<or> n = 0 \<or> n = 1 \<or> bit user n" for n
    by (simp add: v_def bit_or_iff flag_bits)
  show "present v" by (simp add: present_bit bits)
  show "\<not> huge v"
    using assms(2) [of 7] aligned_bitD [OF assms(1), of 7] by (auto simp: huge_bit bits)
  have "bit (v AND VMM_ADDR_MASK) n = bit a n" for n
    using assms(2) [of n] aligned_bitD [OF assms(1), of n] by (auto simp: bit_and_addr bits)
  then show "v AND VMM_ADDR_MASK = a" by (intro bit_word_eqI) simp
qed

definition pointers :: "u64 \<Rightarrow> u64 set" where
  "pointers user = {a OR VMM_FLAG_PRESENT OR VMM_FLAG_WRITABLE OR user | a. aligned a}"

lemma user_bit: "bit (flags AND VMM_FLAG_USER) n \<Longrightarrow> n = 2"
  by (simp add: bit_and_iff flag_bits)

section \<open>The tree of tables\<close>

text \<open>\<open>tab m r p\<close> is the table that the indices \<open>p\<close> lead to from the root \<open>r\<close>; \<open>pents\<close> the entries on the
  way; \<open>walk m r ix\<close> the entries from the root to the leaf that maps \<open>ix\<close>, and the indices that the leaf
  leaves unused (none for a 4 KB page).\<close>

fun tab :: "(u64 \<Rightarrow> u64) \<Rightarrow> u64 \<Rightarrow> nat list \<Rightarrow> u64 option" where
  "tab m t [] = Some t"
| "tab m t (i # is) =
     (if present (m (slot t i)) \<and> \<not> huge (m (slot t i))
      then tab m (m (slot t i) AND VMM_ADDR_MASK) is else None)"

fun pents :: "(u64 \<Rightarrow> u64) \<Rightarrow> u64 \<Rightarrow> nat list \<Rightarrow> u64 list" where
  "pents m t [] = []"
| "pents m t (i # is) = m (slot t i) # pents m (m (slot t i) AND VMM_ADDR_MASK) is"

fun walk :: "(u64 \<Rightarrow> u64) \<Rightarrow> u64 \<Rightarrow> nat list \<Rightarrow> (u64 list \<times> nat list) option" where
  "walk m t [] = None"
| "walk m t (i # is) =
     (let e = m (slot t i) in
      if \<not> present e then None
      else if is = [] \<or> huge e then Some ([e], is)
      else map_option (apfst (Cons e)) (walk m (e AND VMM_ADDR_MASK) is))"

definition path :: "nat \<Rightarrow> nat list \<Rightarrow> bool" where
  "path n p \<longleftrightarrow> length p \<le> n \<and> set p \<subseteq> {..<512}"

text \<open>A well-formed address space, \<open>F\<close> being the free frames: no table is reached by two paths, no table
  lies in a free frame, only present entries below the root are large pages.\<close>

definition pt_ok :: "(u64 \<Rightarrow> u64) \<Rightarrow> nat set \<Rightarrow> u64 \<Rightarrow> bool" where
  "pt_ok m F r \<longleftrightarrow> aligned r \<and>
     (\<forall>p q t. path 3 p \<longrightarrow> path 3 q \<longrightarrow> tab m r p = Some t \<longrightarrow> tab m r q = Some t \<longrightarrow> p = q) \<and>
     (\<forall>p t. path 3 p \<longrightarrow> tab m r p = Some t \<longrightarrow> unat t div 4096 \<notin> F) \<and>
     (\<forall>p t i. path 2 p \<longrightarrow> tab m r p = Some t \<longrightarrow> i < 512 \<longrightarrow> huge (m (slot t i)) \<longrightarrow>
        present (m (slot t i)) \<and> p \<noteq> [])"

lemma pt_okD:
  assumes "pt_ok m F r"
  shows "aligned r"
    and "\<And>p q t. path 3 p \<Longrightarrow> path 3 q \<Longrightarrow> tab m r p = Some t \<Longrightarrow> tab m r q = Some t \<Longrightarrow> p = q"
    and "\<And>p t. path 3 p \<Longrightarrow> tab m r p = Some t \<Longrightarrow> unat t div 4096 \<notin> F"
    and "\<And>p t i. path 2 p \<Longrightarrow> tab m r p = Some t \<Longrightarrow> i < 512 \<Longrightarrow> huge (m (slot t i)) \<Longrightarrow>
           present (m (slot t i)) \<and> p \<noteq> []"
  using assms unfolding pt_ok_def by blast+

lemma tab_aligned: "aligned r \<Longrightarrow> tab m r p = Some t \<Longrightarrow> aligned t"
proof (induction p arbitrary: r)
  case (Cons i p)
  then show ?case using Cons.IH [OF aligned_and] by (simp split: if_splits)
qed simp

lemma tab_append: "tab m r (p @ q) = Option.bind (tab m r p) (\<lambda>t. tab m t q)"
  by (induction p arbitrary: r) auto

lemma path_split: "path (Suc n) (p @ j # q) \<Longrightarrow> path n p \<and> j < 512"
  by (auto simp: path_def)

lemma path_mono: "path n p \<Longrightarrow> n \<le> k \<Longrightarrow> path k p"
  by (auto simp: path_def)

lemma walk_tab:
  assumes "tab m r p = Some t" and "q \<noteq> []"
  shows "walk m r (p @ q) = map_option (apfst (\<lambda>es. pents m r p @ es)) (walk m t q)"
  using assms(1)
proof (induction p arbitrary: r)
  case Nil
  then show ?case by (simp add: apfst_def map_prod_def option.map_id0 [unfolded id_def] case_prod_unfold)
next
  case (Cons i p)
  then show ?case
    using assms(2)
    by (auto simp: Let_def option.map_comp comp_def apfst_def map_prod_def case_prod_unfold
        split: if_splits)
qed

text \<open>Memory that agrees on the slots a path reads.\<close>

lemma walk_cong:
  assumes "\<And>q1 j q2 t. q = q1 @ j # q2 \<Longrightarrow> tab m r q1 = Some t \<Longrightarrow> m' (slot t j) = m (slot t j)"
  shows "tab m' r q = tab m r q" and "walk m' r q = walk m r q"
    and "tab m r q = Some u \<Longrightarrow> pents m' r q = pents m r q"
proof -
  have "tab m' r q = tab m r q \<and> walk m' r q = walk m r q
      \<and> (tab m r q = Some u \<longrightarrow> pents m' r q = pents m r q)"
    using assms
  proof (induction q arbitrary: r)
    case Nil
    then show ?case by simp
  next
    case (Cons i q)
    have e: "m' (slot r i) = m (slot r i)"
      using Cons.prems [of "[]" i q r] by simp
    show ?case
    proof (cases "present (m (slot r i)) \<and> \<not> huge (m (slot r i))")
      case False
      then show ?thesis using e by (auto simp: Let_def)
    next
      case True
      have "tab m' (m (slot r i) AND VMM_ADDR_MASK) q = tab m (m (slot r i) AND VMM_ADDR_MASK) q
        \<and> walk m' (m (slot r i) AND VMM_ADDR_MASK) q = walk m (m (slot r i) AND VMM_ADDR_MASK) q
        \<and> (tab m (m (slot r i) AND VMM_ADDR_MASK) q = Some u \<longrightarrow>
             pents m' (m (slot r i) AND VMM_ADDR_MASK) q = pents m (m (slot r i) AND VMM_ADDR_MASK) q)"
      proof (rule Cons.IH)
        fix q1 j q2 t
        assume "q = q1 @ j # q2" and "tab m (m (slot r i) AND VMM_ADDR_MASK) q1 = Some t"
        then show "m' (slot t j) = m (slot t j)"
          using Cons.prems [of "i # q1" j q2 t] True by simp
      qed
      then show ?thesis using e True by (auto simp: Let_def)
    qed
  qed
  then show "tab m' r q = tab m r q" and "walk m' r q = walk m r q"
    and "tab m r q = Some u \<Longrightarrow> pents m' r q = pents m r q" by blast+
qed

text \<open>Storing into one slot of a table changes only what lies below that slot.\<close>

lemma upd_elsewhere:
  assumes ok: "pt_ok m F r" and t: "tab m r p = Some t" and p: "path 3 p" and i: "i < 512"
    and q: "path 4 q" and not_below: "\<And>q2. q \<noteq> p @ i # q2"
  shows "tab (m(slot t i := v)) r q = tab m r q" and "walk (m(slot t i := v)) r q = walk m r q"
    and "tab m r q = Some u \<Longrightarrow> pents (m(slot t i := v)) r q = pents m r q"
proof -
  have agree: "(m(slot t i := v)) (slot t' j) = m (slot t' j)"
    if "q = q1 @ j # q2" and "tab m r q1 = Some t'" for q1 j q2 t'
  proof -
    have q1: "path 3 q1" and j: "j < 512" using path_split [of 3 q1 j q2] q that(1) by simp_all
    have "slot t' j \<noteq> slot t i"
    proof
      assume "slot t' j = slot t i"
      then have "t' = t" and "j = i"
        using slot_inj tab_aligned pt_okD(1) [OF ok] t that(2) i j by blast+
      then have "q1 = p" using pt_okD(2) [OF ok q1 p] that(2) t by simp
      then show False using not_below [of q2] that(1) \<open>j = i\<close> by simp
    qed
    then show ?thesis by simp
  qed
  show "tab (m(slot t i := v)) r q = tab m r q" and "walk (m(slot t i := v)) r q = walk m r q"
    and "tab m r q = Some u \<Longrightarrow> pents (m(slot t i := v)) r q = pents m r q"
    using walk_cong [of q m r "m(slot t i := v)"] agree by blast+
qed

lemma upd_path:
  assumes "pt_ok m F r" and "tab m r p = Some t" and "path 3 p" and "i < 512"
  shows "tab (m(slot t i := v)) r p = Some t" and "pents (m(slot t i := v)) r p = pents m r p"
  using upd_elsewhere [OF assms path_mono [OF assms(3)]] assms(2) by simp_all

lemma upd_below:
  fixes v :: u64
  assumes "pt_ok m F r" and "tab m r p = Some t" and "path 3 p" and "i < 512"
  defines "m' \<equiv> m(slot t i := v)"
  shows "tab m' r (p @ i # q) = (if present v \<and> \<not> huge v then tab m' (v AND VMM_ADDR_MASK) q else None)"
    and "walk m' r (p @ i # q) =
      (if \<not> present v then None
       else if q = [] \<or> huge v then Some (pents m r p @ [v], q)
       else map_option (apfst (\<lambda>es. pents m r p @ v # es)) (walk m' (v AND VMM_ADDR_MASK) q))"
proof -
  note path = upd_path [OF assms(1-4), of v, folded m'_def]
  have here: "m' (slot t i) = v" by (simp add: m'_def)
  show "tab m' r (p @ i # q) = (if present v \<and> \<not> huge v then tab m' (v AND VMM_ADDR_MASK) q else None)"
    by (simp add: tab_append path here)
  show "walk m' r (p @ i # q) =
      (if \<not> present v then None
       else if q = [] \<or> huge v then Some (pents m r p @ [v], q)
       else map_option (apfst (\<lambda>es. pents m r p @ v # es)) (walk m' (v AND VMM_ADDR_MASK) q))"
    using walk_tab [OF path(1), of "i # q"]
    by (auto simp: path here Let_def option.map_comp comp_def apfst_def map_prod_def case_prod_unfold)
qed

text \<open>Memory that agrees on every slot of every table of an address space.\<close>

lemma same_tables:
  assumes ok: "pt_ok m F r" and sub: "F' \<subseteq> F"
    and same: "\<And>q t i. path 3 q \<Longrightarrow> tab m r q = Some t \<Longrightarrow> i < 512 \<Longrightarrow> m' (slot t i) = m (slot t i)"
  shows "pt_ok m' F' r" and "\<And>q. path 4 q \<Longrightarrow> tab m' r q = tab m r q"
    and "\<And>q. path 4 q \<Longrightarrow> walk m' r q = walk m r q"
    and "\<And>q u. path 4 q \<Longrightarrow> tab m r q = Some u \<Longrightarrow> pents m' r q = pents m r q"
proof -
  have agree: "m' (slot t j) = m (slot t j)"
    if "path 4 q" "q = q1 @ j # q2" "tab m r q1 = Some t" for q q1 j q2 t
    using same [OF _ that(3)] path_split [of 3 q1 j q2] that by simp
  then show tab: "\<And>q. path 4 q \<Longrightarrow> tab m' r q = tab m r q"
    and "\<And>q. path 4 q \<Longrightarrow> walk m' r q = walk m r q"
    and "\<And>q u. path 4 q \<Longrightarrow> tab m r q = Some u \<Longrightarrow> pents m' r q = pents m r q"
    using walk_cong [of _ m r m'] by blast+
  have tab3: "tab m' r q = tab m r q" if "path 3 q" for q
    using tab path_mono that by simp
  show "pt_ok m' F' r"
    unfolding pt_ok_def
  proof (intro conjI allI impI)
    show "aligned r" by (rule pt_okD [OF ok])
  next
    fix p q t
    assume "path 3 p" "path 3 q" "tab m' r p = Some t" "tab m' r q = Some t"
    then show "p = q" using pt_okD(2) [OF ok] tab3 by metis
  next
    fix p t
    assume "path 3 p" "tab m' r p = Some t"
    then show "unat t div 4096 \<notin> F'" using pt_okD(3) [OF ok] sub tab3 by (metis subsetD)
  next
    fix p t i
    assume p: "path 2 p" and "tab m' r p = Some t" "i < 512" "huge (m' (slot t i))"
    then show "present (m' (slot t i))" and "p \<noteq> []"
      using pt_okD(4) [OF ok p, of t i] tab3 same path_mono [OF p, of 3] by auto
  qed
qed

text \<open>Filling pages that are not tables.\<close>

lemma fill_free:
  assumes ok: "pt_ok m F r"
    and same: "\<forall>t i. aligned t \<longrightarrow> i < 512 \<longrightarrow> unat t div 4096 \<notin> F \<longrightarrow> m' (slot t i) = m (slot t i)"
  shows "pt_ok m' F r" and "\<And>q. path 4 q \<Longrightarrow> tab m' r q = tab m r q"
    and "\<And>q. path 4 q \<Longrightarrow> walk m' r q = walk m r q"
    and "\<And>q u. path 4 q \<Longrightarrow> tab m r q = Some u \<Longrightarrow> pents m' r q = pents m r q"
proof -
  have agree: "m' (slot t i) = m (slot t i)" if "path 3 q" "tab m r q = Some t" "i < 512" for q t i
    using same tab_aligned [OF pt_okD(1) [OF ok] that(2)] pt_okD(3) [OF ok that(1,2)] that(3) by blast
  show "pt_ok m' F r" and "\<And>q. path 4 q \<Longrightarrow> tab m' r q = tab m r q"
    and "\<And>q. path 4 q \<Longrightarrow> walk m' r q = walk m r q"
    and "\<And>q u. path 4 q \<Longrightarrow> tab m r q = Some u \<Longrightarrow> pents m' r q = pents m r q"
    using same_tables [OF ok order_refl, of m'] agree by blast+
qed

text \<open>Storing an entry that does not open a new table.\<close>

lemma pt_ok_leaf:
  assumes ok: "pt_ok m F r" and t: "tab m r p = Some t" and p: "path 3 p" and i: "i < 512"
    and leaf: "length p = 3 \<or> \<not> (present v \<and> \<not> huge v)"
    and large: "length p < 3 \<Longrightarrow> huge v \<Longrightarrow> present v \<and> p \<noteq> []"
  shows "pt_ok (m(slot t i := v)) F r"
    and "\<And>q u. path 3 q \<Longrightarrow> tab (m(slot t i := v)) r q = Some u \<Longrightarrow> tab m r q = Some u"
proof -
  let ?m = "m(slot t i := v)"
  show old: "tab m r q = Some u" if q: "path 3 q" and "tab ?m r q = Some u" for q u
  proof (cases "\<exists>q2. q = p @ i # q2")
    case True
    then obtain q2 where q2: "q = p @ i # q2" by blast
    then have "length p \<noteq> 3" using q by (auto simp: path_def)
    then show ?thesis using that(2) leaf upd_below(1) [OF ok t p i, of v q2] q2 by auto
  next
    case False
    then show ?thesis using that upd_elsewhere(1) [OF ok t p i path_mono [OF q]] by simp
  qed
  show "pt_ok ?m F r"
    unfolding pt_ok_def
  proof (intro conjI allI impI)
    show "aligned r" by (rule pt_okD [OF ok])
  next
    fix p q t
    assume "path 3 p" "path 3 q" "tab ?m r p = Some t" "tab ?m r q = Some t"
    then show "p = q" using pt_okD(2) [OF ok] old by metis
  next
    fix p t
    assume "path 3 p" "tab ?m r p = Some t"
    then show "unat t div 4096 \<notin> F" using pt_okD(3) [OF ok] old by metis
  next
    fix q u j
    assume q: "path 2 q" and u: "tab ?m r q = Some u" and j: "j < 512" and h: "huge (?m (slot u j))"
    have q3: "path 3 q" using q path_mono by simp
    have u0: "tab m r q = Some u" by (rule old [OF q3 u])
    have *: "present (?m (slot u j)) \<and> q \<noteq> []"
    proof (cases "slot u j = slot t i")
      case True
      then have "q = p"
        using slot_inj tab_aligned pt_okD(1,2) [OF ok] t u0 i j q3 p by metis
      then show ?thesis using True h large q by (auto simp: path_def)
    next
      case False
      then show ?thesis using pt_okD(4) [OF ok q u0 j] h by simp
    qed
    then show "present (?m (slot u j))" and "q \<noteq> []" by simp_all
  qed
qed

text \<open>Linking a table that has just been taken from the free frames, in place of an entry that was
  not a table.\<close>

lemma pt_ok_link:
  assumes ok: "pt_ok m F r" and t: "tab m r p = Some t" and p: "path 2 p" and i: "i < 512"
    and v: "present v" "\<not> huge v" "v AND VMM_ADDR_MASK = a"
    and a: "unat a div 4096 \<in> F"
    and sub: "length p < 2 \<longrightarrow> (\<forall>j<512. \<not> present (m (slot a j)) \<and> \<not> huge (m (slot a j)))"
  shows "pt_ok (m(slot t i := v)) (F - {unat a div 4096}) r"
    and "tab (m(slot t i := v)) r (p @ [i]) = Some a"
    and "\<And>q u. path 3 q \<Longrightarrow> tab (m(slot t i := v)) r q = Some u \<Longrightarrow>
           tab m r q = Some u \<and> u \<noteq> a \<or> q = p @ [i] \<and> u = a"
proof -
  let ?m = "m(slot t i := v)"
  have p3: "path 3 p" using p path_mono by simp
  have al: "aligned a" using v(3) by auto
  have "t \<noteq> a" using pt_okD(3) [OF ok p3 t] a by blast
  have at: "aligned t" using tab_aligned pt_okD(1) [OF ok] t by blast
  have slots: "?m (slot a j) = m (slot a j)" if "j < 512" for j
    using slot_inj [OF al at that i] \<open>t \<noteq> a\<close> by auto
  show link: "tab ?m r (p @ [i]) = Some a"
    using upd_below(1) [OF ok t p3 i, of v "[]"] v by simp
  show cases: "tab m r q = Some u \<and> u \<noteq> a \<or> q = p @ [i] \<and> u = a"
    if q: "path 3 q" and "tab ?m r q = Some u" for q u
  proof (cases "\<exists>q2. q = p @ i # q2")
    case True
    then obtain q2 where q2: "q = p @ i # q2" by blast
    have below: "tab ?m a q2 = Some u"
      using that(2) upd_below(1) [OF ok t p3 i, of v q2] v q2 by simp
    show ?thesis
    proof (cases q2)
      case Nil
      then show ?thesis using below q2 by simp
    next
      case (Cons j q3)
      then have "length p < 2" and "j < 512" using q q2 by (auto simp: path_def)
      then show ?thesis using below Cons slots sub by simp
    qed
  next
    case False
    then have "tab m r q = Some u"
      using that upd_elsewhere(1) [OF ok t p3 i path_mono [OF q]] by simp
    then show ?thesis using pt_okD(3) [OF ok q] a by blast
  qed
  show "pt_ok ?m (F - {unat a div 4096}) r"
    unfolding pt_ok_def
  proof (intro conjI allI impI)
    show "aligned r" by (rule pt_okD [OF ok])
  next
    fix q q' u
    assume "path 3 q" "path 3 q'" "tab ?m r q = Some u" "tab ?m r q' = Some u"
    then show "q = q'" using pt_okD(2) [OF ok] cases by metis
  next
    fix q u
    assume "path 3 q" "tab ?m r q = Some u"
    then show "unat u div 4096 \<notin> F - {unat a div 4096}" using pt_okD(3) [OF ok] cases by auto
  next
    fix q u j
    assume q: "path 2 q" and u: "tab ?m r q = Some u" and j: "j < 512" and h: "huge (?m (slot u j))"
    have q3: "path 3 q" using q path_mono by simp
    have nu: "slot u j \<noteq> slot t i" using h v(2) by auto
    have "tab m r q = Some u"
    proof (rule ccontr)
      assume "tab m r q \<noteq> Some u"
      then have qu: "q = p @ [i]" "u = a" using cases [OF q3 u] by auto
      then have "length p < 2" using q by (auto simp: path_def)
      then show False using sub j h slots [OF j] qu(2) by simp
    qed
    then have "present (?m (slot u j)) \<and> q \<noteq> []"
      using pt_okD(4) [OF ok q _ j] h nu by simp
    then show "present (?m (slot u j))" and "q \<noteq> []" by simp_all
  qed
qed

section \<open>Address spaces over the page allocator\<close>

definition vm_ok :: "vmm \<Rightarrow> u64 \<Rightarrow> bool" where
  "vm_ok s r \<longleftrightarrow> r \<noteq> 0 \<and> pmm_inv (frames s) \<and> pt_ok (phys s) (free_frames (frames s)) r"

definition ix :: "u64 \<Rightarrow> nat list" where
  "ix va = [VMM_PML4_INDEX va, VMM_PDPT_INDEX va, VMM_PD_INDEX va, VMM_PT_INDEX va]"

lemma unat_and_511: "unat (x AND 0x1FF) < 512" for x :: u64
proof -
  have "x AND 0x1FF = take_bit 9 x" by (simp add: take_bit_eq_mask mask_eq_exp_minus_1)
  then have "unat (x AND 0x1FF) = take_bit 9 (unat x)" by (simp add: unsigned_take_bit_eq)
  then show ?thesis by (simp add: take_bit_nat_less_exp [of 9, simplified])
qed

lemma index_less [simp]:
  "VMM_PML4_INDEX a < 512" "VMM_PDPT_INDEX a < 512" "VMM_PD_INDEX a < 512" "VMM_PT_INDEX a < 512"
  using unat_and_511
  by (simp_all add: VMM_PML4_INDEX_def VMM_PDPT_INDEX_def VMM_PD_INDEX_def VMM_PT_INDEX_def)

lemma path_ix [simp]: "path 4 (ix va)" "length (ix va) = 4"
  by (simp_all add: path_def ix_def)

text \<open>What the walks of the code answer, as functions of the walk to the leaf.\<close>

definition leaf_phys :: "u64 \<Rightarrow> (u64 list \<times> nat list) option \<Rightarrow> u64" where
  "leaf_phys va w =
     (case w of None \<Rightarrow> 0
      | Some (es, rest) \<Rightarrow> (last es AND VMM_ADDR_MASK) OR (va AND mask (12 + 9 * length rest)))"

definition leaf_pte :: "(u64 list \<times> nat list) option \<Rightarrow> u64" where
  "leaf_pte w = (case w of None \<Rightarrow> 0 | Some (es, rest) \<Rightarrow> if rest = [] then last es else 0)"

definition leaf_flags :: "(u64 list \<times> nat list) option \<Rightarrow> u64" where
  "leaf_flags w =
     (case w of None \<Rightarrow> 0
      | Some (es, rest) \<Rightarrow>
          VMM_FLAG_PRESENT OR fold (\<lambda>e a. a AND e) es VMM_FLAG_USER
            OR fold (\<lambda>e a. a AND e) es VMM_FLAG_WRITABLE
            OR fold (\<lambda>e a. a OR (e AND VMM_FLAG_NX)) es 0)"

lemma root_not_huge: "vm_ok s r \<Longrightarrow> i < 512 \<Longrightarrow> \<not> huge (entry s r i)"
  using pt_okD(4) [of "phys s" "free_frames (frames s)" r "[]" r i]
  by (auto simp: vm_ok_def path_def entry_def)

lemma walks:
  assumes "vm_ok s r"
  shows "vmm_get_physical_in r va s = leaf_phys va (walk (phys s) r (ix va))"
    and "vmm_get_pte_in r va s = leaf_pte (walk (phys s) r (ix va))"
    and "vmm_get_effective_flags_in r va s = leaf_flags (walk (phys s) r (ix va))"
proof -
  have r: "r \<noteq> 0" using assms by (simp add: vm_ok_def)
  have top: "\<not> huge (phys s (slot r (VMM_PML4_INDEX va)))"
    using root_not_huge [OF assms, of "VMM_PML4_INDEX va"] by (simp add: entry_def)
  have masks: "(0x3FFFFFFF :: u64) = mask 30" "(0x1FFFFF :: u64) = mask 21" "(0xFFF :: u64) = mask 12"
    by (simp_all add: mask_eq_exp_minus_1)
  show "vmm_get_physical_in r va s = leaf_phys va (walk (phys s) r (ix va))"
    using r top
    by (simp add: vmm_get_physical_in_def leaf_phys_def ix_def entry_def Let_def masks
        VMM_PAGE_OFFSET_def)
  show "vmm_get_pte_in r va s = leaf_pte (walk (phys s) r (ix va))"
    using r top by (simp add: vmm_get_pte_in_def leaf_pte_def ix_def entry_def Let_def)
  show "vmm_get_effective_flags_in r va s = leaf_flags (walk (phys s) r (ix va))"
    using r top
    by (simp add: vmm_get_effective_flags_in_def leaf_flags_def ix_def entry_def Let_def)
qed

lemma aligned_iff_unat: "aligned a \<longleftrightarrow> unat a mod 4096 = 0 \<and> unat a < 2 ^ 52"
proof
  assume "aligned a"
  then show "unat a mod 4096 = 0 \<and> unat a < 2 ^ 52"
    using aligned_unat by (metis mod_mult_self1_is_0)
next
  assume a: "unat a mod 4096 = 0 \<and> unat a < 2 ^ 52"
  have "take_bit 12 (unat a) = 0" and "take_bit 52 (unat a) = unat a"
    using a by (simp_all add: take_bit_eq_mod)
  then have lo: "take_bit 12 a = 0" and hi: "take_bit 52 a = a"
    by (metis unsigned_take_bit_eq unat_eq_zero, metis unsigned_take_bit_eq word_unat_eq_iff)
  have "12 \<le> n \<and> n < 52" if "bit a n" for n
    using lo hi that by (metis bit_0_eq bit_take_bit_iff bot_apply bot_bool_def not_le)
  then show "aligned a"
    unfolding aligned_def by (intro bit_word_eqI) (auto simp: bit_and_addr)
qed

lemma alloc_table:
  assumes "pmm_inv f" and "pmm_alloc_page f = (a, f')"
  obtains (fail) "a = 0" and "f' = f"
  | (ok) "a \<noteq> 0" and "aligned a" and "unat a div 4096 \<in> free_frames f" and "pmm_inv f'"
      and "free_frames f' = free_frames f - {unat a div 4096}"
      and "used_frames f' = insert (unat a div 4096) (used_frames f)"
proof (cases rule: alloc_page_cases [OF pmm_inv_bounds [OF assms(1)]])
  case 1
  then show ?thesis using assms(2) fail by simp
next
  case (2 p)
  then have p: "p \<in> window f" by (simp add: free_frames_def)
  then have bound: "p < PMM_MAX_PAGES" "0 < p" using window_le [OF assms(1)] by blast+
  have a: "a = page_addr p" and f': "f' = snd (pmm_lowwater_check (take_page f p))"
    using 2 assms(2) by simp_all
  have page: "unat a div 4096 = p" using a page_addr_unat [OF bound(1)] by simp
  show ?thesis
  proof (rule ok)
    show "a \<noteq> 0" using a page_addr_neq_0 bound by simp
    show "aligned a"
      using a page_addr_unat [OF bound(1)] bound(1) by (simp add: aligned_iff_unat PMM_MAX_PAGES_def)
    show "unat a div 4096 \<in> free_frames f" using page 2 by simp
    show "pmm_inv f'" using f' take_page_inv [OF assms(1) 2(1)] by simp
    show "free_frames f' = free_frames f - {unat a div 4096}" by (simp add: f' page take_page_frames)
    show "used_frames f' = insert (unat a div 4096) (used_frames f)"
      using p by (auto simp: f' page take_page_frames used_frames_diff)
  qed
qed

text \<open>The steps of a mapping along the indices \<open>is\<close>: the address space stays well formed, frames are only
  taken, and memory changes only in frames that were free and in tables on the path.\<close>

definition on_path :: "(u64 \<Rightarrow> u64) \<Rightarrow> u64 \<Rightarrow> nat list \<Rightarrow> u64 \<Rightarrow> bool" where
  "on_path m r is u \<longleftrightarrow> (\<exists>n\<le>3. tab m r (take n is) = Some u)"

text \<open>The table pointers on the path.\<close>

definition dir_ents :: "(u64 \<Rightarrow> u64) \<Rightarrow> u64 \<Rightarrow> nat list \<Rightarrow> u64 set" where
  "dir_ents m r is =
     {e. \<exists>n\<le>2. \<exists>t. tab m r (take n is) = Some t \<and> e = m (slot t (is ! n)) \<and> present e \<and> \<not> huge e}"

definition dirs :: "u64 \<Rightarrow> u64 set \<Rightarrow> vmm \<Rightarrow> vmm \<Rightarrow> bool" where
  "dirs r new s s' \<longleftrightarrow> (\<forall>is. path 4 is \<longrightarrow> length is = 4 \<longrightarrow>
     dir_ents (phys s') r is \<subseteq> dir_ents (phys s) r is \<union> new)"

lemma dirs_refl [simp]: "dirs r new s s"
  by (auto simp: dirs_def)

lemma dirs_trans: "dirs r new s s1 \<Longrightarrow> dirs r new s1 s2 \<Longrightarrow> dirs r new s s2"
  unfolding dirs_def by blast

lemma dirs_mono: "dirs r new s s' \<Longrightarrow> new \<subseteq> new' \<Longrightarrow> dirs r new' s s'"
  unfolding dirs_def by blast

definition extends :: "u64 \<Rightarrow> nat list \<Rightarrow> vmm \<Rightarrow> vmm \<Rightarrow> bool" where
  "extends r is s s' \<longleftrightarrow>
     path 4 is \<and> vm_ok s' r \<and> free_frames (frames s') \<subseteq> free_frames (frames s) \<and>
     used_frames (frames s) \<subseteq> used_frames (frames s') \<and> g_nx_enabled s' = g_nx_enabled s \<and>
     (\<forall>u i. aligned u \<longrightarrow> i < 512 \<longrightarrow> phys s' (slot u i) \<noteq> phys s (slot u i) \<longrightarrow>
        unat u div 4096 \<in> free_frames (frames s) \<or> on_path (phys s) r is u) \<and>
     (\<forall>q u. path 3 q \<longrightarrow> tab (phys s') r q = Some u \<longrightarrow>
        unat u div 4096 \<in> free_frames (frames s) \<or> tab (phys s) r q = Some u)"

lemma on_pathI: "tab m r (take n is) = Some u \<Longrightarrow> n \<le> 3 \<Longrightarrow> on_path m r is u"
  by (auto simp: on_path_def)

lemma path_take: "path 4 is \<Longrightarrow> n \<le> 3 \<Longrightarrow> path n (take n is)"
  by (auto simp: path_def dest: in_set_takeD)

lemma extends_refl: "vm_ok s r \<Longrightarrow> path 4 is \<Longrightarrow> extends r is s s"
  by (auto simp: extends_def)

lemma extendsD:
  assumes "extends r is s s'"
  shows "vm_ok s' r" and "free_frames (frames s') \<subseteq> free_frames (frames s)"
    and "used_frames (frames s) \<subseteq> used_frames (frames s')" and "g_nx_enabled s' = g_nx_enabled s"
    and "\<And>u i. aligned u \<Longrightarrow> i < 512 \<Longrightarrow> phys s' (slot u i) \<noteq> phys s (slot u i) \<Longrightarrow>
        unat u div 4096 \<in> free_frames (frames s) \<or> on_path (phys s) r is u"
    and "\<And>q u. path 3 q \<Longrightarrow> tab (phys s') r q = Some u \<Longrightarrow>
        unat u div 4096 \<in> free_frames (frames s) \<or> tab (phys s) r q = Some u"
    and "path 4 is"
  using assms unfolding extends_def by blast+

lemma extends_path:
  assumes "extends r is s s'" and "on_path (phys s') r is' u" and "path 4 is'"
  shows "unat u div 4096 \<in> free_frames (frames s) \<or> on_path (phys s) r is' u"
proof -
  obtain n where n: "n \<le> 3" "tab (phys s') r (take n is') = Some u" using assms(2) by (auto simp: on_path_def)
  have "path 3 (take n is')" using path_take [OF assms(3) n(1)] n(1) path_mono by blast
  then show ?thesis using extendsD(6) [OF assms(1) _ n(2)] on_pathI n(1) by blast
qed

lemma extends_trans:
  assumes "extends r is s s1" and "extends r is s1 s2"
  shows "extends r is s s2"
  unfolding extends_def
proof (intro conjI allI impI)
  fix u i
  assume "aligned u" "i < 512" "phys s2 (slot u i) \<noteq> phys s (slot u i)"
  then show "unat u div 4096 \<in> free_frames (frames s) \<or> on_path (phys s) r is u"
    using extendsD(2) [OF assms(1)] extends_path [OF assms(1) _ extendsD(7) [OF assms(1)]]
      extendsD(5) [OF assms(1), of u i] extendsD(5) [OF assms(2), of u i]
    by (cases "phys s1 (slot u i) = phys s (slot u i)") (simp_all, blast)
next
  fix q u
  assume "path 3 q" "tab (phys s2) r q = Some u"
  then show "unat u div 4096 \<in> free_frames (frames s) \<or> tab (phys s) r q = Some u"
    using extendsD(2,6) [OF assms(1)] extendsD(6) [OF assms(2)] by blast
qed (use extendsD(1-4,7) [OF assms(1)] extendsD(1-4) [OF assms(2)] in auto)

lemma extends_ok: "extends r is s s' \<Longrightarrow> vm_ok s' r"
  by (simp add: extends_def)

text \<open>Other address spaces that share no table with the path are untouched.\<close>

lemma extends_other:
  assumes ext: "extends r is s s'" and ok: "vm_ok s r'"
    and apart: "\<forall>q u. path 3 q \<longrightarrow> tab (phys s) r' q = Some u \<longrightarrow> \<not> on_path (phys s) r is u"
  shows "vm_ok s' r'" and "\<And>q. path 4 q \<Longrightarrow> walk (phys s') r' q = walk (phys s) r' q"
    and "\<And>q. path 4 q \<Longrightarrow> tab (phys s') r' q = tab (phys s) r' q"
proof -
  have pt: "pt_ok (phys s) (free_frames (frames s)) r'" using ok by (simp add: vm_ok_def)
  have sub: "free_frames (frames s') \<subseteq> free_frames (frames s)" using ext by (simp add: extends_def)
  have same: "phys s' (slot u i) = phys s (slot u i)"
    if "path 3 q" "tab (phys s) r' q = Some u" "i < 512" for q u i
    using ext tab_aligned [OF pt_okD(1) [OF pt] that(2)] pt_okD(3) [OF pt that(1,2)]
      apart that unfolding extends_def by blast
  have "pt_ok (phys s') (free_frames (frames s')) r'"
    using same_tables(1) [OF pt sub, of "phys s'"] same by blast
  then show "vm_ok s' r'" using ok ext by (auto simp: vm_ok_def extends_def)
  show "\<And>q. path 4 q \<Longrightarrow> walk (phys s') r' q = walk (phys s) r' q"
    and "\<And>q. path 4 q \<Longrightarrow> tab (phys s') r' q = tab (phys s) r' q"
    using same_tables [OF pt sub, of "phys s'"] same by blast+
qed

text \<open>A store into the table reached by the first \<open>n\<close> indices.\<close>

lemma extends_store:
  assumes ok: "vm_ok s r" and "is": "path 4 is" and n: "n \<le> 3"
    and t: "tab (phys s) r (take n is) = Some t" and i: "i < 512"
    and s': "s' = s\<lparr>phys := (phys s)(slot t i := v)\<rparr>"
    and pt: "pt_ok (phys s') (free_frames (frames s)) r"
    and old: "\<And>q u. path 3 q \<Longrightarrow> tab (phys s') r q = Some u \<Longrightarrow> tab (phys s) r q = Some u"
  shows "extends r is s s'"
proof -
  have al: "aligned t" by (rule tab_aligned [OF _ t]) (use ok pt_okD(1) in \<open>auto simp: vm_ok_def\<close>)
  have "on_path (phys s) r is u" if "aligned u" "j < 512" "phys s' (slot u j) \<noteq> phys s (slot u j)" for u j
  proof -
    have "slot u j = slot t i" using that(3) s' by (auto split: if_splits)
    then have "u = t" using slot_inj [OF that(1) al that(2) i] by simp
    then show ?thesis using on_pathI [OF t n] by simp
  qed
  then show ?thesis using ok pt old s' "is" by (auto simp: extends_def vm_ok_def)
qed

section \<open>Creating a table\<close>

lemma take_Suc_path: "path 4 is \<Longrightarrow> length is = 4 \<Longrightarrow> n \<le> 3 \<Longrightarrow>
    take (Suc n) is = take n is @ [is ! n] \<and> is ! n < 512"
  by (auto simp: take_Suc_conv_app_nth path_def subset_iff)

text \<open>Linking a freshly allocated table whose entries are \<open>c\<close>, in place of entry \<open>n\<close> of the path.\<close>

lemma link_new:
  assumes ok: "vm_ok s r" and "is": "path 4 is" "length is = 4" and n: "n \<le> 2"
    and t: "tab (phys s) r (take n is) = Some t"
    and f: "pmm_alloc_page (frames s) = (a, f')" and a: "a \<noteq> 0"
    and v: "present v" "\<not> huge v" "v AND VMM_ADDR_MASK = a"
    and content: "\<forall>u j. aligned u \<longrightarrow> j < 512 \<longrightarrow> m1 (slot u j) = (if u = a then c j else phys s (slot u j))"
    and c: "n < 2 \<longrightarrow> (\<forall>j<512. \<not> present (c j) \<and> \<not> huge (c j))"
    and s': "phys s' = m1(slot t (is ! n) := v)" "frames s' = f'" "g_nx_enabled s' = g_nx_enabled s"
  shows "extends r is s s'" and "tab (phys s') r (take (Suc n) is) = Some a"
    and "\<And>q. path 4 q \<Longrightarrow> (\<And>q2. q \<noteq> take n is @ is ! n # q2) \<Longrightarrow> walk (phys s') r q = walk (phys s) r q"
    and "\<And>j q. j < 512 \<Longrightarrow> \<not> present (c j) \<Longrightarrow> walk (phys s') r (take n is @ is ! n # j # q) = None"
    and "\<And>j. j < 512 \<Longrightarrow> present (c j) \<Longrightarrow>
           walk (phys s') r (take n is @ [is ! n, j]) = Some (pents (phys s) r (take n is) @ [v, c j], [])"
    and "dirs r {v} s s'"
proof -
  let ?F = "free_frames (frames s)" and ?i = "is ! n" and ?p = "take n is"
  define m where "m = phys s"
  have inv: "pmm_inv (frames s)" and pt: "pt_ok m ?F r" using ok by (simp_all add: vm_ok_def m_def)
  obtain al: "aligned a" "unat a div 4096 \<in> ?F" "pmm_inv f'" "free_frames f' = ?F - {unat a div 4096}"
    "used_frames f' = insert (unat a div 4096) (used_frames (frames s))"
    by (rule alloc_table [OF inv f]) (use a in simp_all)
  have p: "path 2 ?p" "path 3 ?p" "path 4 ?p" using path_take [OF "is"(1), of n] n path_mono by auto
  have Suc: "take (Suc n) is = ?p @ [?i]" and i: "?i < 512" using take_Suc_path [OF "is"] n by auto
  have m1: "m1 (slot u j) = (if u = a then c j else phys s (slot u j))" if "aligned u" "j < 512" for u j
    using content that by blast
  have fill: "\<forall>u j. aligned u \<longrightarrow> j < 512 \<longrightarrow> unat u div 4096 \<notin> ?F \<longrightarrow> m1 (slot u j) = m (slot u j)"
    using m1 al(2) by (auto simp: m_def)
  note same = fill_free [OF pt fill]
  have t1: "tab m1 r ?p = Some t" using same(2) [OF p(3)] t by (simp add: m_def)
  have pe: "pents m1 r ?p = pents m r ?p" using same(4) [OF p(3)] t by (simp add: m_def)
  have sub: "length ?p < 2 \<longrightarrow> (\<forall>j<512. \<not> present (m1 (slot a j)) \<and> \<not> huge (m1 (slot a j)))"
    using m1 [OF al(1)] c "is"(2) by auto
  note m' = s'(1) and fr = s'(2) and nx = s'(3)
  note link = pt_ok_link [OF same(1) t1 p(1) i v al(2) sub, folded m']
  show "tab (phys s') r (take (Suc n) is) = Some a" using link(2) Suc by simp
  have at: "aligned t" by (rule tab_aligned [OF pt_okD(1) [OF pt] t [folded m_def]])
  have ta: "t \<noteq> a" using pt_okD(3) [OF pt p(2) t [folded m_def]] al(2) by blast
  show "extends r is s s'"
    unfolding extends_def
  proof (intro conjI allI impI)
    show "vm_ok s' r" using link(1) al(3,4) ok by (simp add: vm_ok_def fr)
  next
    fix u j
    assume u: "aligned u" "j < 512" "phys s' (slot u j) \<noteq> phys s (slot u j)"
    show "unat u div 4096 \<in> ?F \<or> on_path (phys s) r is u"
    proof (cases "slot u j = slot t ?i")
      case True
      then have "u = t" using slot_inj [OF u(1) at u(2) i] by simp
      then show ?thesis using on_pathI [OF t] n by simp
    next
      case False
      then show ?thesis using u m1 [OF u(1,2)] al(2) by (auto simp: m' split: if_splits)
    qed
  next
    fix q u
    assume q: "path 3 q" "tab (phys s') r q = Some u"
    show "unat u div 4096 \<in> ?F \<or> tab (phys s) r q = Some u"
      using link(3) [OF q] same(2) [OF path_mono [OF q(1)]] al(2) by (auto simp: m_def)
  qed (use al "is"(1) in \<open>auto simp: fr nx\<close>)
  show "walk (phys s') r q = walk (phys s) r q"
    if "path 4 q" "\<And>q2. q \<noteq> ?p @ ?i # q2" for q
    using upd_elsewhere(2) [OF same(1) t1 p(2) i that, of v] same(3) [OF that(1)] by (simp add: m' m_def)
  have cj: "phys s' (slot a j) = c j" if "j < 512" for j
    using m1 [OF al(1) that] slot_inj [OF al(1) at that i] ta by (auto simp: m')
  show "walk (phys s') r (?p @ ?i # j # q) = None" if "j < 512" "\<not> present (c j)" for j q
    using upd_below(2) [OF same(1) t1 p(2) i, of v "j # q", folded m'] v cj that by simp
  show "walk (phys s') r (?p @ [?i, j]) = Some (pents (phys s) r ?p @ [v, c j], [])"
    if "j < 512" "present (c j)" for j
    using upd_below(2) [OF same(1) t1 p(2) i, of v "[j]", folded m'] v cj that pe
    by (simp add: Let_def m_def)
  have "e \<in> insert v (dir_ents (phys s) r is')"
    if is': "path 4 is'" "length is' = 4" and mem: "e \<in> dir_ents (phys s') r is'" for is' e
  proof -
    obtain k u where k: "k \<le> 2" "tab (phys s') r (take k is') = Some u" "e = phys s' (slot u (is' ! k))"
      "present e" "\<not> huge e" using mem by (auto simp: dir_ents_def)
    have pk: "path 3 (take k is')" "is' ! k < 512"
      using path_take [OF is'(1), of k] take_Suc_path [OF is', of k] k(1) path_mono by auto
    from link(3) [OF pk(1) k(2)] show ?thesis
    proof
      assume old: "tab m1 r (take k is') = Some u \<and> u \<noteq> a"
      then have u: "tab (phys s) r (take k is') = Some u"
        using same(2) [OF path_mono [OF pk(1)]] by (simp add: m_def)
      have "aligned u" by (rule tab_aligned [OF pt_okD(1) [OF pt] u [folded m_def]])
      then have "m1 (slot u (is' ! k)) = phys s (slot u (is' ! k))" using m1 pk(2) old by simp
      then show ?thesis
        using k u by (cases "slot u (is' ! k) = slot t ?i") (auto simp: m' dir_ents_def)
    next
      assume new: "take k is' = ?p @ [?i] \<and> u = a"
      then have "length (take k is') = Suc n" using "is"(2) n by simp
      then have "n < 2" using k(1) is'(2) by simp
      then show ?thesis using cj [OF pk(2)] c pk(2) new k(3-5) by simp
    qed
  qed
  then show "dirs r {v} s s'" by (auto simp: dirs_def)
qed

lemma goc_spec:
  assumes ok: "vm_ok s r" and "is": "path 4 is" "length is = 4" and n: "n \<le> 2"
    and t: "tab (phys s) r (take n is) = Some t"
    and nh: "\<not> huge (entry s t (is ! n))"
    and run: "vmm_get_or_create_entry_in t (is ! n) flags s = (res, s')"
  shows "extends r is s s'" and "\<And>u. res = Some u \<Longrightarrow> tab (phys s') r (take (Suc n) is) = Some u"
    and "\<And>q. path 4 q \<Longrightarrow> length q = 4 \<Longrightarrow> walk (phys s') r q = walk (phys s) r q"
    and "dirs r (pointers (flags AND VMM_FLAG_USER)) s s'"
proof -
  have Suc: "take (Suc n) is = take n is @ [is ! n]" using take_Suc_path [OF "is"] n by auto
  have "dirs r (pointers (flags AND VMM_FLAG_USER)) s s' \<and>
      extends r is s s' \<and> (\<forall>u. res = Some u \<longrightarrow> tab (phys s') r (take (Suc n) is) = Some u) \<and>
      (\<forall>q. path 4 q \<longrightarrow> length q = 4 \<longrightarrow> walk (phys s') r q = walk (phys s) r q)"
  proof (cases "present (entry s t (is ! n))")
    case True
    then have "s' = s" "res = Some (entry s t (is ! n) AND VMM_ADDR_MASK)"
      using run by (auto simp: vmm_get_or_create_entry_in_def)
    then show ?thesis using True nh extends_refl [OF ok] "is"(1) t
      by (simp add: Suc tab_append entry_def)
  next
    case absent: False
    obtain a f' where f: "pmm_alloc_page (frames s) = (a, f')" by (cases "pmm_alloc_page (frames s)")
    have inv: "pmm_inv (frames s)" using ok by (simp add: vm_ok_def)
    show ?thesis
    proof (cases "a = 0")
      case True
      then have "f' = frames s" by (cases rule: alloc_table [OF inv f]) simp_all
      then have "s' = s" "res = None"
        using run absent f True by (simp_all add: vmm_get_or_create_entry_in_def)
      then show ?thesis using extends_refl [OF ok] "is"(1) by simp
    next
      case a: False
      then have al: "aligned a" by (cases rule: alloc_table [OF inv f]) simp_all
      define v where "v = a OR VMM_FLAG_PRESENT OR VMM_FLAG_WRITABLE OR (flags AND VMM_FLAG_USER)"
      define m1 where "m1 = phys (clear_page a s)"
      have v: "present v" "\<not> huge v" "v AND VMM_ADDR_MASK = a"
        using table_pointer [OF al user_bit] by (simp_all add: v_def)
      have zero: "\<not> present 0" "\<not> huge 0" by (simp_all add: present_bit huge_bit)
      have content: "\<forall>u j. aligned u \<longrightarrow> j < 512 \<longrightarrow> m1 (slot u j) = (if u = a then 0 else phys s (slot u j))"
        using slot_in_page [OF _ al] by (simp add: m1_def clear_page_def)
      have empty: "n < 2 \<longrightarrow> (\<forall>j<512. \<not> present 0 \<and> \<not> huge 0)" using zero by simp
      have s': "phys s' = m1(slot t (is ! n) := v)" "frames s' = f'" "g_nx_enabled s' = g_nx_enabled s"
        and res: "res = Some (v AND VMM_ADDR_MASK)"
        using run absent f a
        by (auto simp: vmm_get_or_create_entry_in_def Let_def set_entry_def clear_page_def entry_def
            m1_def v_def)
      note new = link_new [OF ok "is" n t f a v content empty s']
      have "walk (phys s') r q = walk (phys s) r q" if q: "path 4 q" "length q = 4" for q
      proof (cases "\<exists>q2. q = take n is @ is ! n # q2")
        case True
        then obtain q2 where q2: "q = take n is @ is ! n # q2" by blast
        then obtain j q3 where j: "q2 = j # q3" using q(2) n "is"(2) by (cases q2) auto
        have "j < 512" using q(1) q2 j by (auto simp: path_def)
        then have "walk (phys s') r q = None" using new(4) [of j q3] q2 j zero by simp
        then show ?thesis
          using walk_tab [OF t, of "is ! n # q2"] q2 absent by (simp add: Let_def entry_def)
      next
        case False
        then show ?thesis using new(3) [OF q(1)] by blast
      qed
      moreover have "v \<in> pointers (flags AND VMM_FLAG_USER)" using al by (auto simp: pointers_def v_def)
      ultimately show ?thesis using new(1,2) dirs_mono [OF new(6)] res v(3) by auto
    qed
  qed
  then show "extends r is s s'" and "\<And>u. res = Some u \<Longrightarrow> tab (phys s') r (take (Suc n) is) = Some u"
    and "\<And>q. path 4 q \<Longrightarrow> length q = 4 \<Longrightarrow> walk (phys s') r q = walk (phys s) r q"
    and "dirs r (pointers (flags AND VMM_FLAG_USER)) s s'"
    by blast+
qed

lemma below_iff:
  assumes "is": "path 4 is" "length is = 4" and n: "n \<le> 3"
  shows "take (Suc n) q = take (Suc n) is \<longleftrightarrow> (\<exists>q2. q = take n is @ is ! n # q2)"
proof
  have Suc: "take (Suc n) is = take n is @ [is ! n]" using take_Suc_path [OF "is" n] by auto
  show "\<exists>q2. q = take n is @ is ! n # q2" if "take (Suc n) q = take (Suc n) is"
    using append_take_drop_id [of "Suc n" q] Suc that by (metis append_Cons append_Nil append_assoc)
  show "take (Suc n) q = take (Suc n) is" if "\<exists>q2. q = take n is @ is ! n # q2"
    using Suc that "is"(2) n by auto
qed

section \<open>Storing a leaf, breaking a large page\<close>

lemma clear_entry: "\<not> present 0" "\<not> huge 0"
  by (simp_all add: present_bit huge_bit)

text \<open>A store that opens no table, into entry \<open>n\<close> of the path.\<close>

lemma leaf_store:
  assumes ok: "vm_ok s r" and "is": "path 4 is" "length is = 4" and n: "n \<le> 3"
    and t: "tab (phys s) r (take n is) = Some t" and v: "n = 3 \<or> v = 0"
  defines "s' \<equiv> set_entry t (is ! n) v s"
  shows "extends r is s s'"
    and "\<And>q. path 4 q \<Longrightarrow> take (Suc n) q \<noteq> take (Suc n) is \<Longrightarrow> walk (phys s') r q = walk (phys s) r q"
    and "\<And>q. path 4 q \<Longrightarrow> take (Suc n) q = take (Suc n) is \<Longrightarrow> \<not> present v \<Longrightarrow> walk (phys s') r q = None"
    and "n = 3 \<Longrightarrow> present v \<Longrightarrow> walk (phys s') r is = Some (pents (phys s) r (take 3 is) @ [v], [])"
    and "dirs r {} s s'"
proof -
  have pt: "pt_ok (phys s) (free_frames (frames s)) r" using ok by (simp add: vm_ok_def)
  have p: "path 3 (take n is)" using path_take [OF "is"(1) n] n path_mono by blast
  have len: "length (take n is) = n" using "is"(2) n by simp
  have Suc: "take (Suc n) is = take n is @ [is ! n]" and i: "is ! n < 512"
    using take_Suc_path [OF "is" n] by auto
  have m': "phys s' = (phys s)(slot t (is ! n) := v)" by (simp add: s'_def set_entry_def)
  have leaf: "length (take n is) = 3 \<or> \<not> (present v \<and> \<not> huge v)" using v len clear_entry by auto
  note st = pt_ok_leaf [OF pt t p i leaf, folded m']
  have large: "length (take n is) < 3 \<Longrightarrow> huge v \<Longrightarrow> present v \<and> take n is \<noteq> []"
    using v len clear_entry by auto
  have old: "tab (phys s) r q = Some u" if "path 3 q" "tab (phys s') r q = Some u" for q u
    using st(2) [OF large that] .
  show "extends r is s s'"
    by (rule extends_store [OF ok "is"(1) n t i])
      (use st(1) large old in \<open>auto simp: s'_def set_entry_def\<close>)
  note below = below_iff [OF "is" n]
  show "walk (phys s') r q = walk (phys s) r q"
    if "path 4 q" "take (Suc n) q \<noteq> take (Suc n) is" for q
    using upd_elsewhere(2) [OF pt t p i that(1), of v] that(2) below by (auto simp: m')
  show "walk (phys s') r q = None"
    if q: "path 4 q" "take (Suc n) q = take (Suc n) is" and "\<not> present v" for q
  proof -
    obtain q2 where "q = take n is @ is ! n # q2" using below q(2) by blast
    then show ?thesis using upd_below(2) [OF pt t p i, of v q2] \<open>\<not> present v\<close> by (simp add: m')
  qed
  show "walk (phys s') r is = Some (pents (phys s) r (take 3 is) @ [v], [])" if "n = 3" "present v"
  proof -
    have "is = take n is @ [is ! n]" using Suc "is"(2) that(1) by simp
    then show ?thesis using upd_below(2) [OF pt t p i, of v "[]"] that by (simp add: m')
  qed
  have "e \<in> dir_ents (phys s) r is'"
    if is': "path 4 is'" "length is' = 4" and mem: "e \<in> dir_ents (phys s') r is'" for is' e
  proof -
    obtain k u where k: "k \<le> 2" "tab (phys s') r (take k is') = Some u" "e = phys s' (slot u (is' ! k))"
      "present e" "\<not> huge e" using mem by (auto simp: dir_ents_def)
    have pk: "path 3 (take k is')" "is' ! k < 512"
      using path_take [OF is'(1), of k] take_Suc_path [OF is', of k] k(1) path_mono by auto
    have u: "tab (phys s) r (take k is') = Some u" using st(2) [OF large pk(1) k(2)] by simp
    have "slot u (is' ! k) \<noteq> slot t (is ! n)"
    proof
      assume eq: "slot u (is' ! k) = slot t (is ! n)"
      have "aligned u" "aligned t" using tab_aligned [OF pt_okD(1) [OF pt]] u t by blast+
      then have "u = t" using slot_inj pk(2) i eq by blast
      then have "take k is' = take n is" using pt_okD(2) [OF pt pk(1) p] u t by simp
      then have "length (take k is') = length (take n is)" by simp
      then have "k = n" using "is"(2) is'(2) n k(1) by simp
      then have "e = 0" using v k(1,3) eq by (simp add: m')
      then show False using k(4) clear_entry by simp
    qed
    then show ?thesis using k u by (auto simp: m' dir_ents_def)
  qed
  then show "dirs r {} s s'" by (auto simp: dirs_def)
qed

lemma fold_set_entry:
  fixes s :: vmm and c :: "nat \<Rightarrow> u64"
  assumes "aligned a" and "n \<le> 512"
  defines "s' \<equiv> fold (\<lambda>j. set_entry a j (c j)) [0..<n] s"
  shows "(\<forall>u j. aligned u \<longrightarrow> j < 512 \<longrightarrow>
            phys s' (slot u j) = (if u = a \<and> j < n then c j else phys s (slot u j)))
      \<and> frames s' = frames s \<and> g_nx_enabled s' = g_nx_enabled s"
  using assms(2) unfolding s'_def
proof (induction n)
  case 0
  then show ?case by simp
next
  case (Suc n)
  then show ?case using slot_inj [OF _ assms(1)] by (auto simp: set_entry_def less_Suc_eq)
qed

text \<open>The entry of page \<open>j\<close> of a broken 2 MB page.\<close>

definition small_of :: "u64 \<Rightarrow> nat \<Rightarrow> u64" where
  "small_of e j = ((e AND VMM_ADDR_MASK) + of_nat j * 4096)
                    OR (e AND 0xFFF AND NOT VMM_FLAG_HUGE) OR VMM_FLAG_PRESENT"

lemma present_small: "present (small_of e j)"
  by (simp add: small_of_def present_bit bit_or_iff flag_bits)

lemma split_spec:
  assumes ok: "vm_ok s r" and "is": "path 4 is" "length is = 4"
    and t: "tab (phys s) r (take 2 is) = Some t" and h: "huge (entry s t (is ! 2))"
    and user: "\<forall>n. bit user n \<longrightarrow> n = 2"
    and run: "split_huge t (is ! 2) user s = (b, s')"
  shows "extends r is s s'" and "\<not> b \<Longrightarrow> s' = s"
    and "b \<Longrightarrow> \<exists>a v. tab (phys s') r (take 3 is) = Some a \<and> entry s' t (is ! 2) = v
            \<and> v = a OR VMM_FLAG_PRESENT OR VMM_FLAG_WRITABLE OR user \<and> aligned a
            \<and> present v \<and> \<not> huge v \<and> v AND VMM_ADDR_MASK = a
            \<and> (\<forall>j<512. walk (phys s') r (take 3 is @ [j])
                 = Some (pents (phys s) r (take 2 is) @ [v, small_of (entry s t (is ! 2)) j], []))"
    and "\<And>q. path 4 q \<Longrightarrow> take 3 q \<noteq> take 3 is \<Longrightarrow> walk (phys s') r q = walk (phys s) r q"
    and "dirs r (pointers user) s s'"
proof -
  have Suc: "take 3 is = take 2 is @ [is ! 2]" using take_Suc_path [OF "is", of 2] by (simp add: numeral_3_eq_3)
  obtain a f' where f: "pmm_alloc_page (frames s) = (a, f')" by (cases "pmm_alloc_page (frames s)")
  have inv: "pmm_inv (frames s)" using ok by (simp add: vm_ok_def)
  have "dirs r (pointers user) s s' \<and>
     extends r is s s' \<and> (\<not> b \<longrightarrow> s' = s) \<and>
     (b \<longrightarrow> (\<exists>a v. tab (phys s') r (take 3 is) = Some a \<and> entry s' t (is ! 2) = v
            \<and> v = a OR VMM_FLAG_PRESENT OR VMM_FLAG_WRITABLE OR user \<and> aligned a
            \<and> present v \<and> \<not> huge v \<and> v AND VMM_ADDR_MASK = a
            \<and> (\<forall>j<512. walk (phys s') r (take 3 is @ [j])
                 = Some (pents (phys s) r (take 2 is) @ [v, small_of (entry s t (is ! 2)) j], [])))) \<and>
     (\<forall>q. path 4 q \<longrightarrow> take 3 q \<noteq> take 3 is \<longrightarrow> walk (phys s') r q = walk (phys s) r q)"
  proof (cases "a = 0")
    case True
    then have "f' = frames s" by (cases rule: alloc_table [OF inv f]) simp_all
    then have "s' = s" "\<not> b" using run f True by (auto simp: split_huge_def Let_def)
    then show ?thesis using extends_refl [OF ok] "is"(1) by simp
  next
    case a: False
    then have al: "aligned a" by (cases rule: alloc_table [OF inv f]) simp_all
    define v where "v = a OR VMM_FLAG_PRESENT OR VMM_FLAG_WRITABLE OR user"
    define c where "c = small_of (entry s t (is ! 2))"
    define s2 where "s2 = fold (\<lambda>j. set_entry a j (c j)) [0..<512] (s\<lparr>frames := f'\<rparr>)"
    note filled = fold_set_entry [OF al order_refl, of c "s\<lparr>frames := f'\<rparr>", folded s2_def]
    have v: "present v" "\<not> huge v" "v AND VMM_ADDR_MASK = a"
      using table_pointer [OF al] user by (simp_all add: v_def)
    have content: "\<forall>u j. aligned u \<longrightarrow> j < 512 \<longrightarrow>
        phys s2 (slot u j) = (if u = a then c j else phys s (slot u j))"
      using filled by simp
    have c0: "2 < (2::nat) \<longrightarrow> (\<forall>j<512. \<not> present (c j) \<and> \<not> huge (c j))" by simp
    have eq: "s' = set_entry t (is ! 2) v s2" and b: "b"
      using run f a
      by (auto simp: split_huge_def Let_def s2_def c_def small_of_def [abs_def] v_def entry_def)
    have s': "phys s' = (phys s2)(slot t (is ! 2) := v)" "frames s' = f'" "g_nx_enabled s' = g_nx_enabled s"
      using filled by (simp_all add: eq set_entry_def)
    note new = link_new [OF ok "is" _ t f a v content c0 s', simplified]
    have Suc2: "Suc 2 = 3" by simp
    have below: "take 3 q = take 3 is \<longleftrightarrow> (\<exists>q2. q = take 2 is @ is ! 2 # q2)" for q
      using below_iff [OF "is", of 2 q] by (simp add: numeral_3_eq_3)
    have "walk (phys s') r (take 3 is @ [j]) = Some (pents (phys s) r (take 2 is) @ [v, c j], [])"
      if "j < 512" for j
      using new(5) [OF that] present_small by (simp add: Suc c_def)
    moreover have "walk (phys s') r q = walk (phys s) r q" if "path 4 q" "take 3 q \<noteq> take 3 is" for q
      using new(3) [OF that(1)] that(2) below by blast
    moreover have "entry s' t (is ! 2) = v" by (simp add: entry_def s')
    moreover have "dirs r (pointers user) s s'"
    proof -
      have "v \<in> pointers user" using al by (auto simp: pointers_def v_def)
      then show ?thesis using dirs_mono [OF new(6)] by simp
    qed
    ultimately show ?thesis
      using new(1,2) v al b by (auto simp: v_def c_def numeral_3_eq_3 numeral_2_eq_2)
  qed
  then show "extends r is s s'" and "\<not> b \<Longrightarrow> s' = s"
    and "b \<Longrightarrow> \<exists>a v. tab (phys s') r (take 3 is) = Some a \<and> entry s' t (is ! 2) = v
            \<and> v = a OR VMM_FLAG_PRESENT OR VMM_FLAG_WRITABLE OR user \<and> aligned a
            \<and> present v \<and> \<not> huge v \<and> v AND VMM_ADDR_MASK = a
            \<and> (\<forall>j<512. walk (phys s') r (take 3 is @ [j])
                 = Some (pents (phys s) r (take 2 is) @ [v, small_of (entry s t (is ! 2)) j], []))"
    and "\<And>q. path 4 q \<Longrightarrow> take 3 q \<noteq> take 3 is \<Longrightarrow> walk (phys s') r q = walk (phys s) r q"
    and "dirs r (pointers user) s s'"
    by blast+
qed


section \<open>Mapping one page\<close>

lemma index_page:
  "VMM_PML4_INDEX (va AND NOT 0xFFF) = VMM_PML4_INDEX va"
  "VMM_PDPT_INDEX (va AND NOT 0xFFF) = VMM_PDPT_INDEX va"
  "VMM_PD_INDEX (va AND NOT 0xFFF) = VMM_PD_INDEX va"
  "VMM_PT_INDEX (va AND NOT 0xFFF) = VMM_PT_INDEX va"
proof -
  have mask: "(0xFFF :: u64) = mask 12" by (simp add: mask_eq_exp_minus_1)
  have drop: "drop_bit k (va AND NOT 0xFFF) = drop_bit k va" if "12 \<le> k" for k
    unfolding mask by (rule bit_word_eqI) (use that in \<open>auto simp: bit_simps dest: bit_imp_le_length\<close>)
  have le: "(12::nat) \<le> 39" "(12::nat) \<le> 30" "(12::nat) \<le> 21" "(12::nat) \<le> 12" by simp_all
  show "VMM_PML4_INDEX (va AND NOT 0xFFF) = VMM_PML4_INDEX va"
    "VMM_PDPT_INDEX (va AND NOT 0xFFF) = VMM_PDPT_INDEX va"
    "VMM_PD_INDEX (va AND NOT 0xFFF) = VMM_PD_INDEX va"
    "VMM_PT_INDEX (va AND NOT 0xFFF) = VMM_PT_INDEX va"
    unfolding VMM_PML4_INDEX_def VMM_PDPT_INDEX_def VMM_PD_INDEX_def VMM_PT_INDEX_def
    by (simp_all only: drop le)
qed

text \<open>The leaf that maps \<open>ix\<close>, if any, is not a 1 GB page.\<close>

definition no_1g :: "(u64 \<Rightarrow> u64) \<Rightarrow> u64 \<Rightarrow> nat list \<Rightarrow> bool" where
  "no_1g m r is \<longleftrightarrow> (case walk m r is of None \<Rightarrow> True | Some (es, rest) \<Rightarrow> length rest \<le> 1)"

definition same_walks :: "u64 \<Rightarrow> vmm \<Rightarrow> vmm \<Rightarrow> bool" where
  "same_walks r s s' \<longleftrightarrow> (\<forall>q. path 4 q \<longrightarrow> length q = 4 \<longrightarrow> walk (phys s') r q = walk (phys s) r q)"

text \<open>The pages of a 2 MB page that has been broken keep their frame, behind a new table pointer.\<close>

definition broken :: "u64 \<Rightarrow> u64 \<Rightarrow> vmm \<Rightarrow> vmm \<Rightarrow> nat list \<Rightarrow> bool" where
  "broken r user s s' q \<longleftrightarrow>
     (\<exists>es e. \<exists>v\<in>pointers user. huge e \<and> walk (phys s) r q = Some (es @ [e], [q ! 3]) \<and>
        walk (phys s') r q = Some (es @ [v, small_of e (q ! 3)], []))"

lemma tab_walk_present:
  assumes "tab m r (take n is) = Some t" and "length is = 4" and "n \<le> 3"
    and "present (m (slot t (is ! n)))" and "huge (m (slot t (is ! n))) \<or> n = 3"
  shows "walk m r is = Some (pents m r (take n is) @ [m (slot t (is ! n))], drop (Suc n) is)"
proof -
  have "is = take n is @ is ! n # drop (Suc n) is" using assms(2,3) by (simp add: id_take_nth_drop)
  then show ?thesis
    using walk_tab [OF assms(1), of "is ! n # drop (Suc n) is"] assms(2-5) by (auto simp: Let_def)
qed

lemma pd_entry_huge:
  assumes "vm_ok s r" and "path 4 is" "length is = 4" and "no_1g (phys s) r is" and "n \<le> 1"
    and "tab (phys s) r (take n is) = Some t"
  shows "\<not> huge (entry s t (is ! n))"
proof
  assume h: "huge (entry s t (is ! n))"
  have pt: "pt_ok (phys s) (free_frames (frames s)) r" using assms(1) by (simp add: vm_ok_def)
  have p: "path 2 (take n is)" "is ! n < 512"
    using path_take [OF assms(2), of n] take_Suc_path [OF assms(2,3), of n] assms(5) path_mono by auto
  have *: "present (entry s t (is ! n)) \<and> take n is \<noteq> []"
    using pt_okD(4) [OF pt p(1) assms(6) p(2)] h by (simp add: entry_def)
  then have "walk (phys s) r is = Some (pents (phys s) r (take n is) @ [entry s t (is ! n)], drop (Suc n) is)"
    using tab_walk_present [OF assms(6,3)] assms(5) h by (simp add: entry_def)
  moreover have "n = 1" using * assms(5) by (cases n) auto
  ultimately show False using assms(3,4) by (simp add: no_1g_def)
qed

lemma no_1g_same: "same_walks r s s' \<Longrightarrow> path 4 is \<Longrightarrow> length is = 4 \<Longrightarrow>
    no_1g (phys s') r is = no_1g (phys s) r is"
  by (simp add: no_1g_def same_walks_def)

lemma same_walks_trans: "same_walks r s s1 \<Longrightarrow> same_walks r s1 s2 \<Longrightarrow> same_walks r s s2"
  by (simp add: same_walks_def)

text \<open>Everything up to the store of the leaf.\<close>

lemma map_page_cases:
  fixes pa :: u64
  assumes ok: "vm_ok s r" and big: "no_1g (phys s) r (ix va)"
    and run: "vmm_map_page_in r va pa flags s = (rc, s')"
  defines "fl \<equiv> if g_nx_enabled s then flags else flags AND NOT VMM_FLAG_NX"
  obtains (fail) "rc = -1" and "extends r (ix va) s s'" and "same_walks r s s'"
      and "dirs r (pointers (fl AND VMM_FLAG_USER)) s s'"
  | (stored) s4 pt where "rc = 0"
      and "s' = set_entry pt (ix va ! 3) ((pa AND NOT 0xFFF) OR fl OR VMM_FLAG_PRESENT) s4"
      and "extends r (ix va) s s4" and "tab (phys s4) r (take 3 (ix va)) = Some pt"
      and "dirs r (pointers (fl AND VMM_FLAG_USER)) s s4"
      and "\<And>q. path 4 q \<Longrightarrow> length q = 4 \<Longrightarrow> walk (phys s4) r q = walk (phys s) r q \<or>
             take 3 q = take 3 (ix va) \<and> broken r (fl AND VMM_FLAG_USER) s s4 q"
proof -
  let ?is = "ix va" and ?P = "pointers (fl AND VMM_FLAG_USER)"
  have r: "r \<noteq> 0" using ok by (simp add: vm_ok_def)
  have nth: "?is ! 0 = VMM_PML4_INDEX va" "?is ! 1 = VMM_PDPT_INDEX va" "?is ! 2 = VMM_PD_INDEX va"
    "?is ! 3 = VMM_PT_INDEX va" by (simp_all add: ix_def)
  have user: "\<forall>n. bit (fl AND VMM_FLAG_USER) n \<longrightarrow> n = 2" using user_bit by blast
  obtain r1 s1 where g1: "vmm_get_or_create_entry_in r (?is ! 0) fl s = (r1, s1)" by fastforce
  have t0: "tab (phys s) r (take 0 ?is) = Some r" by simp
  note one = goc_spec [OF ok path_ix(1,2) _ t0 pd_entry_huge [OF ok path_ix(1,2) big _ t0] g1, simplified]
  have w1: "same_walks r s s1" using one(3) by (simp add: same_walks_def)
  have d1: "dirs r ?P s s1" using one(4) by simp
  note run' = run [unfolded vmm_map_page_in_def Let_def index_page, folded nth fl_def]
  show thesis
  proof (cases r1)
    case None
    then have "rc = -1" "s' = s1" using run' r g1 by simp_all
    then show ?thesis using fail one(1) w1 d1 by simp
  next
    case (Some pdpt)
    have ok1: "vm_ok s1 r" using extends_ok one(1) by blast
    have t1: "tab (phys s1) r (take 1 ?is) = Some pdpt" using one(2) [OF Some] by simp
    have big1: "no_1g (phys s1) r ?is" using big no_1g_same [OF w1] by simp
    obtain r2 s2 where g2: "vmm_get_or_create_entry_in pdpt (?is ! 1) fl s1 = (r2, s2)" by fastforce
    note two = goc_spec [OF ok1 path_ix(1,2) _ t1 pd_entry_huge [OF ok1 path_ix(1,2) big1 _ t1] g2, simplified]
    have w2: "same_walks r s s2" using two(3) w1 by (simp add: same_walks_def)
    have e2: "extends r ?is s s2" using extends_trans one(1) two(1) by blast
    have d2: "dirs r ?P s s2" using dirs_trans [OF d1 two(4)] .
    show ?thesis
    proof (cases r2)
      case None
      then have "rc = -1" "s' = s2" using run' r g1 g2 \<open>r1 = Some pdpt\<close> by simp_all
      then show ?thesis using fail e2 w2 d2 by simp
    next
      case pd: (Some pd)
      have ok2: "vm_ok s2 r" using extends_ok e2 by blast
      have t2: "tab (phys s2) r (take 2 ?is) = Some pd" using two(2) [OF pd] by (simp add: numeral_2_eq_2)
      show ?thesis
      proof (cases "huge (entry s2 pd (?is ! 2))")
        case False
        obtain r4 s4 where g4: "vmm_get_or_create_entry_in pd (?is ! 2) fl s2 = (r4, s4)" by fastforce
        note four = goc_spec [OF ok2 path_ix(1,2) _ t2 False g4, simplified]
        have w4: "same_walks r s s4" using four(3) w2 by (simp add: same_walks_def)
        have e4: "extends r ?is s s4" using extends_trans e2 four(1) by blast
        have d4: "dirs r ?P s s4" using dirs_trans [OF d2 four(4)] .
        show ?thesis
        proof (cases r4)
          case None
          then have "rc = -1" "s' = s4" using run' r g1 g2 g4 \<open>r1 = Some pdpt\<close> pd False by simp_all
          then show ?thesis using fail e4 w4 d4 by simp
        next
          case pt: (Some pt)
          then have "rc = 0"
            "s' = set_entry pt (?is ! 3) ((pa AND NOT 0xFFF) OR fl OR VMM_FLAG_PRESENT) s4"
            using run' r g1 g2 g4 \<open>r1 = Some pdpt\<close> pd False by simp_all
          then show ?thesis
            using stored e4 d4 w4 four(2) [OF pt] by (simp add: same_walks_def numeral_3_eq_3 numeral_2_eq_2)
        qed
      next
        case h: True
        obtain b s3 where g3: "split_huge pd (?is ! 2) (fl AND VMM_FLAG_USER) s2 = (b, s3)" by fastforce
        note three = split_spec [OF ok2 path_ix(1,2) t2 h user g3]
        show ?thesis
        proof (cases b)
          case False
          then have "rc = -1" "s' = s2" using run' r g1 g2 g3 \<open>r1 = Some pdpt\<close> pd h three(2) by simp_all
          then show ?thesis using fail e2 w2 d2 by simp
        next
          case True
          obtain a v where av: "tab (phys s3) r (take 3 ?is) = Some a" "entry s3 pd (?is ! 2) = v"
            "v = a OR VMM_FLAG_PRESENT OR VMM_FLAG_WRITABLE OR (fl AND VMM_FLAG_USER)" "aligned a"
            "present v" "\<not> huge v" "v AND VMM_ADDR_MASK = a"
            "\<forall>j<512. walk (phys s3) r (take 3 ?is @ [j])
               = Some (pents (phys s2) r (take 2 ?is) @ [v, small_of (entry s2 pd (?is ! 2)) j], [])"
            using three(3) [OF True] by blast
          have g4: "vmm_get_or_create_entry_in pd (?is ! 2) fl s3 = (Some a, s3)"
            using av by (simp add: vmm_get_or_create_entry_in_def)
          have "rc = 0" "s' = set_entry a (?is ! 3) ((pa AND NOT 0xFFF) OR fl OR VMM_FLAG_PRESENT) s3"
            using run' r g1 g2 g3 g4 \<open>r1 = Some pdpt\<close> pd h True by simp_all
          moreover have "extends r ?is s s3" using extends_trans e2 three(1) by blast
          moreover have "dirs r ?P s s3"
            using dirs_trans [OF d2 three(5)] .
          moreover have "walk (phys s3) r q = walk (phys s) r q \<or>
             take 3 q = take 3 ?is \<and> broken r (fl AND VMM_FLAG_USER) s s3 q"
            if q: "path 4 q" "length q = 4" for q
          proof (cases "take 3 q = take 3 ?is")
            case False
            then show ?thesis using three(4) [OF q(1)] w2 q by (simp add: same_walks_def)
          next
            case eq: True
            let ?e = "entry s2 pd (?is ! 2)"
            have q3: "q = take 3 ?is @ [q ! 3]" "q ! 3 < 512"
              using take_Suc_path [OF q, of 3] q(2) eq by simp_all
            have qt: "take 2 q = take 2 ?is" "q ! 2 = ?is ! 2"
              using arg_cong [OF eq, of "take 2"] arg_cong [OF eq, of "\<lambda>xs. xs ! 2"] by simp_all
            have pr: "present ?e"
            proof -
              have "pt_ok (phys s2) (free_frames (frames s2)) r" using ok2 by (simp add: vm_ok_def)
              then show ?thesis
                using pt_okD(4) [of _ _ r "take 2 ?is" pd "?is ! 2"] t2 h path_take [of ?is 2]
                by (simp add: entry_def nth)
            qed
            have "walk (phys s2) r q = Some (pents (phys s2) r (take 2 ?is) @ [?e], drop 3 q)"
              using tab_walk_present [of "phys s2" r 2 q pd] t2 qt q h pr
              by (simp add: entry_def numeral_3_eq_3)
            moreover have "drop 3 q = [q ! 3]" using q(2) Cons_nth_drop_Suc [of 3 q] by simp
            ultimately have old: "walk (phys s) r q = Some (pents (phys s2) r (take 2 ?is) @ [?e], [q ! 3])"
              using w2 q by (simp add: same_walks_def)
            have new: "walk (phys s3) r q
                = Some (pents (phys s2) r (take 2 ?is) @ [v, small_of ?e (q ! 3)], [])"
              using av(8) q3 by metis
            have "v \<in> ?P" using av(3,4) by (auto simp: pointers_def)
            then show ?thesis using eq old new h unfolding broken_def by blast
          qed
          ultimately show ?thesis using stored av(1) by blast
        qed
      qed
    qed
  qed
qed

text \<open>The leaf that maps \<open>is\<close> is none, a 4 KB page, or a 2 MB page on a 2 MB boundary.\<close>

definition map_ready :: "(u64 \<Rightarrow> u64) \<Rightarrow> u64 \<Rightarrow> nat list \<Rightarrow> bool" where
  "map_ready m r is \<longleftrightarrow>
     (case walk m r is of
        None \<Rightarrow> True
      | Some (es, rest) \<Rightarrow> rest = [] \<or> length rest = 1 \<and> last es AND 0x1FF000 = 0)"

lemma map_ready_no_1g: "map_ready m r is \<Longrightarrow> no_1g m r is"
  by (auto simp: map_ready_def no_1g_def split: option.splits)

lemma walk_block:
  assumes "length q = 4" and "length is = 4" and "take 3 q = take 3 is"
    and "walk m r q = Some (es @ [e], [j])"
  shows "walk m r is = Some (es @ [e], [is ! 3])"
proof -
  obtain a b c d d' where q: "q = [a, b, c, d]" and i: "is = [a, b, c, d']"
  proof -
    obtain a b c d where "q = [a, b, c, d]"
      using assms(1) by (auto simp: length_Suc_conv numeral_eq_Suc)
    moreover obtain a' b' c' d' where "is = [a', b', c', d']"
      using assms(2) by (auto simp: length_Suc_conv numeral_eq_Suc)
    ultimately show thesis using that assms(3) by (simp add: numeral_eq_Suc)
  qed
  show ?thesis using assms(4) unfolding q i
    by (auto simp: Let_def numeral_3_eq_3 apfst_def map_prod_def split: if_splits)
qed

lemma bit_low_block: "bit (0x1FF000 :: u64) n \<longleftrightarrow> 12 \<le> n \<and> n < 21"
proof -
  have eq: "(0x1FF000 :: u64) = push_bit 12 (mask 9)" by (simp add: mask_eq_exp_minus_1)
  show ?thesis unfolding eq by (auto simp: bit_simps)
qed

lemma block_bit:
  fixes e :: u64
  assumes "e AND 0x1FF000 = 0" and "12 \<le> n" and "n < 21"
  shows "\<not> bit e n"
proof
  assume "bit e n"
  then have "bit (e AND 0x1FF000) n" using assms(2,3) by (simp only: bit_and_iff bit_low_block)
  then show False using assms(1) by simp
qed

lemma page_offset_bits:
  "(of_nat (VMM_PT_INDEX va) :: u64) * 4096 = push_bit 12 (drop_bit 12 va AND 0x1FF)"
  by (simp add: VMM_PT_INDEX_def push_bit_eq_mult)

lemma low_flag_bits: "bit (e AND 0xFFF AND NOT VMM_FLAG_HUGE) n \<longleftrightarrow> bit e n \<and> n < 12 \<and> n \<noteq> 7"
proof -
  have eq: "(0xFFF :: u64) = mask 12" by (simp add: mask_eq_exp_minus_1)
  show ?thesis
    unfolding eq by (auto simp: bit_and_iff bit_not_iff_eq flag_bits bit_mask_iff dest: bit_imp_le_length)
qed

lemma small_of_bits:
  assumes "e AND 0x1FF000 = 0"
  shows "bit (small_of e (VMM_PT_INDEX va)) n \<longleftrightarrow>
     n = 0 \<or> (n < 12 \<and> n \<noteq> 7 \<and> bit e n) \<or> (12 \<le> n \<and> n < 21 \<and> bit va n) \<or> (21 \<le> n \<and> n < 52 \<and> bit e n)"
proof -
  define o' :: u64 where "o' = push_bit 12 (drop_bit 12 va AND 0x1FF)"
  have m9: "(0x1FF :: u64) = mask 9" by (simp add: mask_eq_exp_minus_1)
  have ob: "bit o' n \<longleftrightarrow> 12 \<le> n \<and> n < 21 \<and> bit va n" for n
    unfolding o'_def m9 by (auto simp: bit_simps dest: bit_imp_le_length)
  note low = block_bit [OF assms]
  have "(e AND VMM_ADDR_MASK) AND o' = 0"
    by (rule bit_word_eqI) (use low in \<open>auto simp: bit_and_iff ob bit_addr_mask\<close>)
  then have "(e AND VMM_ADDR_MASK) + o' = (e AND VMM_ADDR_MASK) OR o'"
    by (simp add: disjunctive_add_eq_or)
  then have "small_of e (VMM_PT_INDEX va)
      = ((e AND VMM_ADDR_MASK) OR o') OR (e AND 0xFFF AND NOT VMM_FLAG_HUGE) OR VMM_FLAG_PRESENT"
    by (simp only: small_of_def page_offset_bits o'_def)
  then have "bit (small_of e (VMM_PT_INDEX va)) n \<longleftrightarrow>
      bit (e AND VMM_ADDR_MASK) n \<or> bit o' n \<or> bit (e AND 0xFFF AND NOT VMM_FLAG_HUGE) n
      \<or> bit VMM_FLAG_PRESENT n"
    by (simp only: bit_or_iff) blast
  then show ?thesis
    unfolding ob low_flag_bits bit_and_addr flag_bits using low [of n] by auto
qed

text \<open>A page of a broken 2 MB page keeps its address; the rights lose only the no-execute bit.\<close>

lemma broken_phys:
  assumes "e AND 0x1FF000 = 0"
  shows "leaf_phys va (Some (es @ [v, small_of e (VMM_PT_INDEX va)], []))
           = leaf_phys va (Some (es @ [e], [VMM_PT_INDEX va]))"
proof (rule bit_word_eqI)
  fix n
  show "bit (leaf_phys va (Some (es @ [v, small_of e (VMM_PT_INDEX va)], []))) n
      = bit (leaf_phys va (Some (es @ [e], [VMM_PT_INDEX va]))) n"
    using block_bit [OF assms, of n]
    by (auto simp: leaf_phys_def bit_or_iff bit_addr_mask bit_and_iff bit_mask_iff
        small_of_bits [OF assms] dest: bit_imp_le_length)
qed

lemma fold_and_bit: "bit (fold (\<lambda>e a. a AND e) es x) n \<longleftrightarrow> bit x n \<and> (\<forall>e\<in>set es. bit e n)"
  by (induction es arbitrary: x) (auto simp: bit_and_iff)

lemma fold_or_bit:
  "bit (fold (\<lambda>e a. a OR (e AND k)) es x) n \<longleftrightarrow> bit x n \<or> (\<exists>e\<in>set es. bit e n) \<and> bit k n"
  by (induction es arbitrary: x) (auto simp: bit_or_iff bit_and_iff)

lemma leaf_flags_bits:
  "bit (leaf_flags (Some (es, rest))) n \<longleftrightarrow>
     n = 0 \<or> n = 1 \<and> (\<forall>e\<in>set es. bit e 1) \<or> n = 2 \<and> (\<forall>e\<in>set es. bit e 2) \<or>
     n = 63 \<and> (\<exists>e\<in>set es. bit e 63)"
  by (auto simp: leaf_flags_def bit_or_iff fold_and_bit fold_or_bit flag_bits)

lemma pointer_bits:
  assumes "v \<in> pointers user" and "\<forall>n. bit user n \<longrightarrow> n = 2"
  shows "bit v 1" and "bit v 2 \<longleftrightarrow> bit user 2" and "\<not> bit v 63" and "bit v 0"
proof -
  obtain a where a: "v = a OR VMM_FLAG_PRESENT OR VMM_FLAG_WRITABLE OR user" "aligned a"
    using assms(1) by (auto simp: pointers_def)
  have "bit v n \<longleftrightarrow> bit a n \<or> n = 0 \<or> n = 1 \<or> bit user n" for n
    by (simp add: a(1) bit_or_iff flag_bits)
  then show "bit v 1" and "bit v 2 \<longleftrightarrow> bit user 2" and "\<not> bit v 63" and "bit v 0"
    using aligned_bitD [OF a(2), of 2] aligned_bitD [OF a(2), of 63] assms(2) by auto
qed

lemma broken_flags:
  assumes "e AND 0x1FF000 = 0" and "v \<in> pointers VMM_FLAG_USER" and "w = es @ [e]"
    and "w' = es @ [v, small_of e (VMM_PT_INDEX va)]"
  shows "leaf_flags (Some (w', [])) = leaf_flags (Some (w, [j])) AND NOT VMM_FLAG_NX
           OR leaf_flags (Some (es, [])) AND VMM_FLAG_NX"
proof (rule bit_word_eqI)
  fix n :: nat
  have user: "\<forall>n. bit VMM_FLAG_USER n \<longrightarrow> n = 2" by (simp add: flag_bits)
  note v = pointer_bits [OF assms(2) user]
  show "bit (leaf_flags (Some (w', []))) n = bit (leaf_flags (Some (w, [j])) AND NOT VMM_FLAG_NX
           OR leaf_flags (Some (es, [])) AND VMM_FLAG_NX) n" if "n < LENGTH(64)"
    using that v
    by (auto simp: assms(3,4) bit_or_iff bit_and_iff bit_not_iff_eq leaf_flags_bits flag_bits
        small_of_bits [OF assms(1)])
qed

lemma pents_dir:
  assumes "tab m r (take 3 is) = Some t" and "length is = 4"
  shows "set (pents m r (take 3 is)) \<subseteq> dir_ents m r is"
proof -
  obtain a b c d where i: "is = [a, b, c, d]"
    using assms(2) by (auto simp: length_Suc_conv numeral_eq_Suc)
  define e where "e = m (slot r a)"
  define e' where "e' = m (slot (e AND VMM_ADDR_MASK) b)"
  define e'' where "e'' = m (slot (e' AND VMM_ADDR_MASK) c)"
  have on: "present e" "\<not> huge e" "present e'" "\<not> huge e'" "present e''" "\<not> huge e''"
    and es: "pents m r (take 3 is) = [e, e', e'']"
    using assms(1) by (auto simp: i numeral_3_eq_3 e_def e'_def e''_def split: if_splits)
  have "e \<in> dir_ents m r is"
    unfolding dir_ents_def using on by (intro CollectI exI [of _ 0]) (auto simp: i e_def)
  moreover have "e' \<in> dir_ents m r is"
    unfolding dir_ents_def using on by (intro CollectI exI [of _ 1]) (auto simp: i e_def e'_def)
  moreover have "e'' \<in> dir_ents m r is"
    unfolding dir_ents_def using on
    by (intro CollectI exI [of _ 2]) (auto simp: i e_def e'_def e''_def numeral_2_eq_2)
  ultimately show ?thesis by (simp add: es)
qed

text \<open>Mapping one page, in terms of walks.\<close>

lemma map_walk:
  fixes pa :: u64
  assumes ok: "vm_ok s r" and ready: "map_ready (phys s) r (ix va)"
    and run: "vmm_map_page_in r va pa flags s = (rc, s')"
  defines "fl \<equiv> if g_nx_enabled s then flags else flags AND NOT VMM_FLAG_NX"
  shows "extends r (ix va) s s'" and "rc = 0 \<or> rc = -1" and "rc \<noteq> 0 \<Longrightarrow> same_walks r s s'"
    and "dirs r (pointers (fl AND VMM_FLAG_USER)) s s'"
    and "rc = 0 \<Longrightarrow> \<exists>es. set es \<subseteq> dir_ents (phys s) r (ix va) \<union> pointers (fl AND VMM_FLAG_USER) \<and>
           walk (phys s') r (ix va) = Some (es @ [(pa AND NOT 0xFFF) OR fl OR VMM_FLAG_PRESENT], [])"
    and "\<And>q. path 4 q \<Longrightarrow> length q = 4 \<Longrightarrow> q \<noteq> ix va \<Longrightarrow>
           walk (phys s') r q = walk (phys s) r q \<or>
           take 3 q = take 3 (ix va) \<and> broken r (fl AND VMM_FLAG_USER) s s' q"
proof -
  let ?P = "pointers (fl AND VMM_FLAG_USER)" and ?v = "(pa AND NOT 0xFFF) OR fl OR VMM_FLAG_PRESENT"
  have "extends r (ix va) s s' \<and> (rc = 0 \<or> rc = -1) \<and> (rc \<noteq> 0 \<longrightarrow> same_walks r s s') \<and>
    dirs r (?P) s s' \<and>
    (rc = 0 \<longrightarrow> (\<exists>es. set es \<subseteq> dir_ents (phys s) r (ix va) \<union> ?P \<and>
       walk (phys s') r (ix va) = Some (es @ [?v], []))) \<and>
    (\<forall>q. path 4 q \<longrightarrow> length q = 4 \<longrightarrow> q \<noteq> ix va \<longrightarrow> walk (phys s') r q = walk (phys s) r q \<or>
       take 3 q = take 3 (ix va) \<and> broken r (fl AND VMM_FLAG_USER) s s' q)"
  proof (cases rule: map_page_cases [OF ok map_ready_no_1g [OF ready] run])
    case 1
    then show ?thesis using 1(4) [folded fl_def] by (simp add: same_walks_def)
  next
    case (2 s4 pt)
    note stored = 2 [folded fl_def]
    have v: "present ?v" by (simp add: present_bit bit_or_iff flag_bits)
    have ok4: "vm_ok s4 r" using extends_ok stored(3) by blast
    have s': "s' = set_entry pt (ix va ! 3) ?v s4" using stored(2) .
    note st = leaf_store [OF ok4 path_ix(1,2) order_refl stored(4) disjI1 [OF refl], where v = ?v, folded s']
    have other: "walk (phys s') r q = walk (phys s4) r q" if "path 4 q" "length q = 4" "q \<noteq> ix va" for q
      using st(2) [OF that(1)] that(2,3) by simp
    have "set (pents (phys s4) r (take 3 (ix va))) \<subseteq> dir_ents (phys s) r (ix va) \<union> ?P"
      using pents_dir [OF stored(4) path_ix(2)] stored(5) path_ix unfolding dirs_def by blast
    moreover have "walk (phys s') r (ix va) = Some (pents (phys s4) r (take 3 (ix va)) @ [?v], [])"
      using st(4) v by simp
    moreover have "walk (phys s') r q = walk (phys s) r q \<or>
       take 3 q = take 3 (ix va) \<and> broken r (fl AND VMM_FLAG_USER) s s' q"
      if q: "path 4 q" "length q = 4" "q \<noteq> ix va" for q
      using stored(6) [OF q(1,2)] other [OF q] by (simp add: broken_def)
    moreover have "dirs r (?P) s s'"
      using dirs_trans [OF stored(5) dirs_mono [OF st(5)]] by simp
    ultimately show ?thesis
      using extends_trans [OF stored(3) st(1)] stored(1) by blast
  qed
  then show "extends r (ix va) s s'" and "rc = 0 \<or> rc = -1" and "rc \<noteq> 0 \<Longrightarrow> same_walks r s s'"
    and "dirs r (?P) s s'"
    and "rc = 0 \<Longrightarrow> \<exists>es. set es \<subseteq> dir_ents (phys s) r (ix va) \<union> ?P \<and>
           walk (phys s') r (ix va) = Some (es @ [?v], [])"
    and "\<And>q. path 4 q \<Longrightarrow> length q = 4 \<Longrightarrow> q \<noteq> ix va \<Longrightarrow> walk (phys s') r q = walk (phys s) r q \<or>
           take 3 q = take 3 (ix va) \<and> broken r (fl AND VMM_FLAG_USER) s s' q"
    by blast+
qed

lemma broken_aligned:
  assumes "map_ready (phys s) r is" and "length is = 4" and "length q = 4" and "take 3 q = take 3 is"
    and "broken r user s s' q"
  obtains es e v where "v \<in> pointers user" and "e AND 0x1FF000 = 0" and "huge e"
    and "walk (phys s) r q = Some (es @ [e], [q ! 3])"
    and "walk (phys s') r q = Some (es @ [v, small_of e (q ! 3)], [])"
proof -
  obtain es e v where *: "v \<in> pointers user" "huge e" "walk (phys s) r q = Some (es @ [e], [q ! 3])"
    "walk (phys s') r q = Some (es @ [v, small_of e (q ! 3)], [])"
    using assms(5) by (auto simp: broken_def)
  have "walk (phys s) r is = Some (es @ [e], [is ! 3])"
    using walk_block [OF assms(3,2,4) *(3)] .
  then have "e AND 0x1FF000 = 0" using assms(1) by (simp add: map_ready_def)
  then show thesis using that * by blast
qed

lemma map_other_phys:
  assumes ok: "vm_ok s r" and ready: "map_ready (phys s) r (ix va)"
    and run: "vmm_map_page_in r va pa flags s = (rc, s')" and ne: "ix va' \<noteq> ix va"
  shows "vmm_get_physical_in r va' s' = vmm_get_physical_in r va' s"
proof -
  define fl where "fl = (if g_nx_enabled s then flags else flags AND NOT VMM_FLAG_NX)"
  note mw = map_walk [OF ok ready run, folded fl_def]
  have ok': "vm_ok s' r" using extends_ok mw(1) by blast
  from mw(6) [OF path_ix(1,2) ne]
  have "leaf_phys va' (walk (phys s') r (ix va')) = leaf_phys va' (walk (phys s) r (ix va'))"
  proof
    assume "take 3 (ix va') = take 3 (ix va) \<and> broken r (fl AND VMM_FLAG_USER) s s' (ix va')"
    then obtain es e v where "e AND 0x1FF000 = 0" "walk (phys s) r (ix va') = Some (es @ [e], [ix va' ! 3])"
      "walk (phys s') r (ix va') = Some (es @ [v, small_of e (ix va' ! 3)], [])"
      using broken_aligned [OF ready path_ix(2) path_ix(2)] by metis
    then show ?thesis using broken_phys [of e va' es v] by (simp add: ix_def)
  qed simp
  then show ?thesis by (simp add: walks [OF ok] walks [OF ok'])
qed

lemma map_other_flags:
  assumes ok: "vm_ok s r" and ready: "map_ready (phys s) r (ix va)"
    and run: "vmm_map_page_in r va pa flags s = (rc, s')" and ne: "ix va' \<noteq> ix va"
    and user: "bit flags 2"
  shows "vmm_get_effective_flags_in r va' s' AND NOT VMM_FLAG_NX
           = vmm_get_effective_flags_in r va' s AND NOT VMM_FLAG_NX"
proof -
  define fl where "fl = (if g_nx_enabled s then flags else flags AND NOT VMM_FLAG_NX)"
  have fl: "fl AND VMM_FLAG_USER = VMM_FLAG_USER"
    using user by (intro bit_word_eqI) (auto simp: fl_def bit_and_iff bit_not_iff_eq flag_bits)
  note mw = map_walk [OF ok ready run, folded fl_def, unfolded fl]
  have ok': "vm_ok s' r" using extends_ok mw(1) by blast
  from mw(6) [OF path_ix(1,2) ne]
  have "leaf_flags (walk (phys s') r (ix va')) AND NOT VMM_FLAG_NX
      = leaf_flags (walk (phys s) r (ix va')) AND NOT VMM_FLAG_NX"
  proof
    assume "take 3 (ix va') = take 3 (ix va) \<and> broken r VMM_FLAG_USER s s' (ix va')"
    then obtain es e v where "v \<in> pointers VMM_FLAG_USER" "e AND 0x1FF000 = 0"
      "walk (phys s) r (ix va') = Some (es @ [e], [ix va' ! 3])"
      "walk (phys s') r (ix va') = Some (es @ [v, small_of e (ix va' ! 3)], [])"
      using broken_aligned [OF ready path_ix(2) path_ix(2)] by metis
    then show ?thesis
      using broken_flags [of e v "es @ [e]" es "es @ [v, small_of e (VMM_PT_INDEX va')]" va' "ix va' ! 3"]
      by (auto intro!: bit_word_eqI simp: ix_def bit_and_iff bit_or_iff bit_not_iff_eq)
  qed simp
  then show ?thesis by (simp add: walks [OF ok] walks [OF ok'])
qed

section \<open>Unmapping one page\<close>

definition large_leaf :: "(u64 \<Rightarrow> u64) \<Rightarrow> u64 \<Rightarrow> nat list \<Rightarrow> bool" where
  "large_leaf m r is \<longleftrightarrow> (case walk m r is of None \<Rightarrow> False | Some (es, rest) \<Rightarrow> length rest = 1)"

lemma unmap_walk:
  assumes ok: "vm_ok s r" and big: "no_1g (phys s) r (ix va)"
  defines "s' \<equiv> vmm_unmap_page_in r va s"
  shows "extends r (ix va) s s'" and "frames s' = frames s" and "walk (phys s') r (ix va) = None"
    and "\<And>q. path 4 q \<Longrightarrow> length q = 4 \<Longrightarrow> q \<noteq> ix va \<Longrightarrow>
           walk (phys s') r q = (if large_leaf (phys s) r (ix va) \<and> take 3 q = take 3 (ix va) then None
                                 else walk (phys s) r q)"
    and "dirs r {} s s'"
proof -
  let ?is = "ix va"
  have r: "r \<noteq> 0" using ok by (simp add: vm_ok_def)
  have nth: "?is ! 0 = VMM_PML4_INDEX va" "?is ! 1 = VMM_PDPT_INDEX va" "?is ! 2 = VMM_PD_INDEX va"
    "?is ! 3 = VMM_PT_INDEX va" by (simp_all add: ix_def)
  have is4: "?is = [?is ! 0, ?is ! 1, ?is ! 2, ?is ! 3]" by (simp add: ix_def)
  define e4 where "e4 = entry s r (?is ! 0)"
  define e3 where "e3 = entry s (e4 AND VMM_ADDR_MASK) (?is ! 1)"
  define e2 where "e2 = entry s (e3 AND VMM_ADDR_MASK) (?is ! 2)"
  have s'_eq: "s' = (if \<not> present e4 then s else if \<not> present e3 then s else if \<not> present e2 then s
      else if huge e2 then set_entry (e3 AND VMM_ADDR_MASK) (?is ! 2) 0 s
      else set_entry (e2 AND VMM_ADDR_MASK) (?is ! 3) 0 s)"
    unfolding s'_def vmm_unmap_page_in_def Let_def index_page e4_def e3_def e2_def nth using r by simp
  have h4: "\<not> huge e4"
    using pd_entry_huge [OF ok path_ix(1,2) big, of 0 r] by (simp add: e4_def)
  have t1: "tab (phys s) r (take 1 ?is) = Some (e4 AND VMM_ADDR_MASK)" if "present e4"
    using that h4 by (subst is4) (simp add: e4_def entry_def)
  have h3: "\<not> huge e3" if "present e4"
    using pd_entry_huge [OF ok path_ix(1,2) big _ t1 [OF that]] by (simp add: e3_def)
  have t2: "tab (phys s) r (take 2 ?is) = Some (e3 AND VMM_ADDR_MASK)" if "present e4" "present e3"
    using that h4 h3 by (subst is4) (simp add: e4_def e3_def entry_def numeral_2_eq_2)
  have t3: "tab (phys s) r (take 3 ?is) = Some (e2 AND VMM_ADDR_MASK)"
    if "present e4" "present e3" "present e2" "\<not> huge e2"
    using that h4 h3 by (subst is4) (simp add: e4_def e3_def e2_def entry_def numeral_3_eq_3)
  have large: "large_leaf (phys s) r ?is \<longleftrightarrow> present e4 \<and> present e3 \<and> present e2 \<and> huge e2"
    using h4 h3 by (subst is4) (auto simp: large_leaf_def Let_def e4_def e3_def e2_def entry_def)
  have absent: "walk (phys s) r ?is = None" if "\<not> present e4 \<or> \<not> present e3 \<or> \<not> present e2"
    using that h4 h3 by (subst is4) (auto simp: Let_def e4_def e3_def e2_def entry_def)
  have "dirs r {} s s' \<and> extends r ?is s s' \<and> frames s' = frames s \<and> walk (phys s') r ?is = None \<and>
      (\<forall>q. path 4 q \<longrightarrow> length q = 4 \<longrightarrow> q \<noteq> ?is \<longrightarrow>
         walk (phys s') r q = (if large_leaf (phys s) r ?is \<and> take 3 q = take 3 ?is then None
                               else walk (phys s) r q))"
  proof (cases "present e4 \<and> present e3 \<and> present e2")
    case False
    then have "s' = s" using s'_eq by auto
    then show ?thesis using False large absent extends_refl [OF ok path_ix(1)] by auto
  next
    case True
    show ?thesis
    proof (cases "huge e2")
      case h: True
      have eq: "s' = set_entry (e3 AND VMM_ADDR_MASK) (?is ! 2) 0 s" using s'_eq True h by simp
      have le: "(2::nat) \<le> 3" by simp
      have t2': "tab (phys s) r (take 2 ?is) = Some (e3 AND VMM_ADDR_MASK)" using t2 True by simp
      note st = leaf_store [OF ok path_ix(1,2) le t2' disjI2 [OF refl], folded eq]
      show ?thesis
        using st(1-3,5) clear_entry large True h by (auto simp: eq set_entry_def numeral_3_eq_3)
    next
      case h: False
      have eq: "s' = set_entry (e2 AND VMM_ADDR_MASK) (?is ! 3) 0 s" using s'_eq True h by simp
      have t3': "tab (phys s) r (take 3 ?is) = Some (e2 AND VMM_ADDR_MASK)" using t3 True h by simp
      note st = leaf_store [OF ok path_ix(1,2) order_refl t3' disjI2 [OF refl], folded eq]
      show ?thesis
        using st(1-3,5) clear_entry large True h by (auto simp: eq set_entry_def)
    qed
  qed
  then show "extends r ?is s s'" and "frames s' = frames s" and "walk (phys s') r ?is = None"
    and "\<And>q. path 4 q \<Longrightarrow> length q = 4 \<Longrightarrow> q \<noteq> ?is \<Longrightarrow>
           walk (phys s') r q = (if large_leaf (phys s) r ?is \<and> take 3 q = take 3 ?is then None
                                 else walk (phys s) r q)"
    and "dirs r {} s s'"
    by blast+
qed

section \<open>Changing the protection of a range\<close>

text \<open>What \<open>vmm_protect_user_range\<close> makes of an entry: the frame, \<open>PRESENT\<close> and \<open>USER\<close>; a copy-on-write
  page stays read-only whatever is asked for.\<close>

definition reprotect :: "u64 \<Rightarrow> bool \<Rightarrow> u64 \<Rightarrow> u64" where
  "reprotect keep nx pte =
     (pte AND VMM_ADDR_MASK) OR VMM_FLAG_PRESENT OR VMM_FLAG_USER OR
     (if bit pte 9 then PTE_COW_FLAG else if bit keep 1 then VMM_FLAG_WRITABLE else 0) OR
     (if bit keep 63 \<and> nx then VMM_FLAG_NX else 0)"

lemma reprotect_bits:
  "bit (reprotect keep nx pte) n \<longleftrightarrow>
     12 \<le> n \<and> n < 52 \<and> bit pte n \<or> n = 0 \<or> n = 2 \<or> n = 9 \<and> bit pte 9 \<or>
     n = 1 \<and> \<not> bit pte 9 \<and> bit keep 1 \<or> n = 63 \<and> bit keep 63 \<and> nx"
  by (auto simp: reprotect_def bit_or_iff bit_and_addr flag_bits)

lemma reprotect_idem: "reprotect keep nx (reprotect keep nx pte) = reprotect keep nx pte"
  by (rule bit_word_eqI) (auto simp: reprotect_bits)

lemma flag_tests:
  "e AND VMM_FLAG_PRESENT = 0 \<longleftrightarrow> \<not> bit e 0" "e AND VMM_FLAG_USER = 0 \<longleftrightarrow> \<not> bit e 2"
  "e AND VMM_FLAG_WRITABLE = 0 \<longleftrightarrow> \<not> bit e 1" "e AND PTE_COW_FLAG = 0 \<longleftrightarrow> \<not> bit e 9"
  "e AND VMM_FLAG_NX = 0 \<longleftrightarrow> \<not> bit e 63"
  using and_exp_bit [of e 0] and_exp_bit [of e 1] and_exp_bit [of e 2] and_exp_bit [of e 9]
    and_exp_bit [of e 63]
  by (auto simp: VMM_FLAG_PRESENT_def VMM_FLAG_USER_def VMM_FLAG_WRITABLE_def PTE_COW_FLAG_def
      VMM_FLAG_NX_def)

text \<open>Mapping over an existing 4 KB page succeeds and replaces the entry.\<close>

lemma map_existing:
  fixes pa :: u64
  assumes ok: "vm_ok s r" and w: "walk (phys s) r (ix va) = Some (es @ [e], [])"
    and run: "vmm_map_page_in r va pa flags s = (rc, s')"
  defines "fl \<equiv> if g_nx_enabled s then flags else flags AND NOT VMM_FLAG_NX"
  shows "vm_ok s' r" and "g_nx_enabled s' = g_nx_enabled s"
    and "walk (phys s') r (ix va) \<noteq> None"
    and "vmm_get_pte_in r va s' = (pa AND NOT 0xFFF) OR fl OR VMM_FLAG_PRESENT"
    and "\<And>q. path 4 q \<Longrightarrow> length q = 4 \<Longrightarrow> q \<noteq> ix va \<Longrightarrow> walk (phys s') r q = walk (phys s) r q"
proof -
  have ready: "map_ready (phys s) r (ix va)" using w by (simp add: map_ready_def)
  note mw = map_walk [OF ok ready run, folded fl_def]
  show ok': "vm_ok s' r" and "g_nx_enabled s' = g_nx_enabled s" using mw(1) by (simp_all add: extends_def)
  have "rc = 0"
  proof -
    have nh: "\<not> huge (phys s (slot r (VMM_PML4_INDEX va)))"
      using root_not_huge [OF ok, of "VMM_PML4_INDEX va"] by (simp add: entry_def)
    have r: "r \<noteq> 0" using ok by (simp add: vm_ok_def)
    show ?thesis
      using run w r nh unfolding vmm_map_page_in_def Let_def index_page
      by (auto simp: ix_def vmm_get_or_create_entry_in_def entry_def Let_def split: if_splits)
  qed
  then obtain es' where w': "walk (phys s') r (ix va)
      = Some (es' @ [(pa AND NOT 0xFFF) OR fl OR VMM_FLAG_PRESENT], [])"
    using mw(5) by blast
  then show "walk (phys s') r (ix va) \<noteq> None"
    and "vmm_get_pte_in r va s' = (pa AND NOT 0xFFF) OR fl OR VMM_FLAG_PRESENT"
    by (simp_all add: walks(2) [OF ok'] leaf_pte_def)
  fix q
  assume q: "path 4 q" "length q = 4" "q \<noteq> ix va"
  from mw(6) [OF q] show "walk (phys s') r q = walk (phys s) r q"
  proof
    assume "take 3 q = take 3 (ix va) \<and> broken r (fl AND VMM_FLAG_USER) s s' q"
    then obtain es e where "walk (phys s) r q = Some (es @ [e], [q ! 3])" "take 3 q = take 3 (ix va)"
      by (auto simp: broken_def)
    then have "walk (phys s) r (ix va) = Some (es @ [e], [ix va ! 3])"
      using walk_block [OF q(2) path_ix(2)] by blast
    then show ?thesis using w by simp
  qed
qed

lemma leaf_pte_present: "bit (leaf_pte w) 0 \<Longrightarrow> \<exists>es. w = Some (es, []) \<and> leaf_pte w = last es"
  by (auto simp: leaf_pte_def split: option.splits if_splits)

lemma walk_nonempty: "walk m r is = Some (es, rest) \<Longrightarrow> es \<noteq> []"
  by (cases "is") (auto simp: Let_def split: if_splits option.splits)

lemma protect_page_spec:
  assumes ok: "vm_ok s r" and run: "protect_page r page keep s = (c, s')"
  shows "vm_ok s' r" and "g_nx_enabled s' = g_nx_enabled s"
    and "vmm_get_pte_in r va s' =
      (let pte = vmm_get_pte_in r va s in
       if ix va = ix page \<and> bit pte 0 \<and> bit pte 2 then reprotect keep (g_nx_enabled s) pte else pte)"
proof -
  define pte where "pte = vmm_get_pte_in r page s"
  have "vm_ok s' r \<and> g_nx_enabled s' = g_nx_enabled s \<and> vmm_get_pte_in r va s' =
      (let pte = vmm_get_pte_in r va s in
       if ix va = ix page \<and> bit pte 0 \<and> bit pte 2 then reprotect keep (g_nx_enabled s) pte else pte)"
  proof (cases "bit pte 0 \<and> bit pte 2")
    case False
    then have "s' = s"
      using run unfolding protect_page_def Let_def pte_def [symmetric] flag_tests by (auto split: if_splits)
    moreover have "vmm_get_pte_in r va s = pte" if "ix va = ix page"
      using that by (simp add: pte_def walks [OF ok])
    ultimately show ?thesis using False ok by (auto simp: Let_def)
  next
    case True
    obtain nf where nf: "nf = VMM_FLAG_PRESENT OR VMM_FLAG_USER OR
       (if bit pte 9 then PTE_COW_FLAG else if bit keep 1 then VMM_FLAG_WRITABLE else 0) OR
       (if bit keep 63 \<and> g_nx_enabled s then VMM_FLAG_NX else 0)" by blast
    have s': "s' = snd (vmm_map_page_in r page (pte AND VMM_ADDR_MASK) nf s)"
      using run True unfolding protect_page_def Let_def pte_def [symmetric] flag_tests nf
      by (auto simp: or.assoc split: if_splits)
    obtain rc where map: "vmm_map_page_in r page (pte AND VMM_ADDR_MASK) nf s = (rc, s')"
      using s' by (metis prod.collapse)
    obtain es where w: "walk (phys s) r (ix page) = Some (es, [])" "pte = last es"
      using leaf_pte_present [of "walk (phys s) r (ix page)"] True by (auto simp: pte_def walks [OF ok])
    then have "walk (phys s) r (ix page) = Some (butlast es @ [pte], [])"
      using walk_nonempty by fastforce
    note ex = map_existing [OF ok this map]
    have new: "vmm_get_pte_in r page s' = reprotect keep (g_nx_enabled s) pte"
    proof (rule bit_word_eqI)
      fix n :: nat
      have m12: "(0xFFF :: u64) = mask 12" by (simp add: mask_eq_exp_minus_1)
      show "bit (vmm_get_pte_in r page s') n = bit (reprotect keep (g_nx_enabled s) pte) n" if "n < LENGTH(64)"
        using that unfolding ex(4) reprotect_bits m12 nf
        by (auto simp: bit_or_iff bit_and_iff bit_not_iff_eq bit_mask_iff bit_addr_mask flag_bits)
    qed
    show ?thesis
    proof (cases "ix va = ix page")
      case eq: True
      then have "vmm_get_pte_in r va s = pte" "vmm_get_pte_in r va s' = vmm_get_pte_in r page s'"
        by (simp_all add: pte_def walks [OF ok] walks [OF ex(1)])
      then show ?thesis using eq True new ex(1,2) by (simp add: Let_def)
    next
      case False
      then show ?thesis using ex(5) [of "ix va"] ex(1,2) by (simp add: walks [OF ok] walks [OF ex(1)] Let_def)
    qed
  qed
  then show "vm_ok s' r" and "g_nx_enabled s' = g_nx_enabled s"
    and "vmm_get_pte_in r va s' =
      (let pte = vmm_get_pte_in r va s in
       if ix va = ix page \<and> bit pte 0 \<and> bit pte 2 then reprotect keep (g_nx_enabled s) pte else pte)"
    by blast+
qed

lemma protect_loop_spec:
  assumes "vm_ok s r" and "protect_loop n r page keep c s = (c', s')"
  shows "vm_ok s' r \<and> vmm_get_pte_in r va s' =
      (let pte = vmm_get_pte_in r va s in
       if (\<exists>i<n. ix va = ix (page + of_nat i * VMM_PAGE_SIZE_4K)) \<and> bit pte 0 \<and> bit pte 2
       then reprotect keep (g_nx_enabled s) pte else pte)"
  using assms
proof (induction n arbitrary: page c s)
  case 0
  then show ?case by simp
next
  case (Suc n)
  obtain c1 s1 where p: "protect_page r page keep s = (c1, s1)" by fastforce
  note one = protect_page_spec [OF Suc.prems(1) p]
  have "protect_loop n r (page + VMM_PAGE_SIZE_4K) keep (c + c1) s1 = (c', s')"
    using Suc.prems(2) p by simp
  note rest = Suc.IH [OF one(1) this, unfolded one(2)]
  have range: "(\<exists>i<Suc n. ix va = ix (page + of_nat i * VMM_PAGE_SIZE_4K)) \<longleftrightarrow>
      ix va = ix page \<or> (\<exists>i<n. ix va = ix (page + VMM_PAGE_SIZE_4K + of_nat i * VMM_PAGE_SIZE_4K))"
    by (simp add: Ex_less_Suc2 algebra_simps)
  show ?case
    using rest one(3) [of va] unfolding range by (auto simp: Let_def reprotect_idem reprotect_bits)
qed

text \<open>What the routine counts: the pages whose protection bits the call changes.\<close>

definition prot_bits :: "u64 \<Rightarrow> u64" where
  "prot_bits pte = pte AND (VMM_FLAG_PRESENT OR VMM_FLAG_USER OR VMM_FLAG_WRITABLE OR VMM_FLAG_NX OR PTE_COW_FLAG)"

definition reprotected :: "u64 \<Rightarrow> vmm \<Rightarrow> vmm \<Rightarrow> nat list set" where
  "reprotected r s s' = {ix va | va. prot_bits (vmm_get_pte_in r va s') \<noteq> prot_bits (vmm_get_pte_in r va s)}"

lemma finite_reprotected [simp]: "finite (reprotected r s s')"
proof -
  have "reprotected r s s' \<subseteq> ix ` UNIV" by (auto simp: reprotected_def)
  then show ?thesis by (rule finite_subset) simp
qed

lemma protect_page_count:
  assumes "protect_page r page keep s = (c, s')"
  defines "pte \<equiv> vmm_get_pte_in r page s"
  shows "c = (if bit pte 0 \<and> bit pte 2 \<and> prot_bits (reprotect keep (g_nx_enabled s) pte) \<noteq> prot_bits pte
              then 1 else 0)"
proof (cases "bit pte 0 \<and> bit pte 2")
  case False
  then show ?thesis
    using assms(1) unfolding protect_page_def Let_def pte_def [symmetric] flag_tests by (auto split: if_splits)
next
  case True
  let ?nf = "VMM_FLAG_PRESENT OR VMM_FLAG_USER OR
     (if bit pte 9 then PTE_COW_FLAG else if bit keep 1 then VMM_FLAG_WRITABLE else 0) OR
     (if bit keep 63 \<and> g_nx_enabled s then VMM_FLAG_NX else 0)"
  have nf: "prot_bits (reprotect keep (g_nx_enabled s) pte) = ?nf"
    by (rule bit_word_eqI) (auto simp: prot_bits_def bit_and_iff bit_or_iff reprotect_bits flag_bits)
  show ?thesis
    using assms(1) True unfolding protect_page_def Let_def pte_def [symmetric] flag_tests nf
    by (auto simp: prot_bits_def or.assoc split: if_splits)
qed

lemma protect_loop_count:
  assumes "vm_ok s r" and "protect_loop n r page keep c s = (c', s')"
  shows "c' = c + of_nat (card (reprotected r s s'))"
  using assms
proof (induction n arbitrary: page c s)
  case 0
  then show ?case by (simp add: reprotected_def)
next
  case (Suc n)
  let ?pte = "\<lambda>va s. vmm_get_pte_in r va s" and ?re = "reprotect keep (g_nx_enabled s)"
  obtain c1 s1 where p: "protect_page r page keep s = (c1, s1)" by fastforce
  note one = protect_page_spec [OF Suc.prems(1) p]
  have loop: "protect_loop n r (page + VMM_PAGE_SIZE_4K) keep (c + c1) s1 = (c', s')"
    using Suc.prems(2) p by simp
  note rest = protect_loop_spec [OF one(1) loop, unfolded one(2)]
  have same: "?pte va s = ?pte page s" if "ix va = ix page" for va
    using that by (simp add: walks [OF Suc.prems(1)])
  have settled: "?pte va s' = ?pte va s1" if "ix va = ix page" "bit (?pte va s) 0 \<and> bit (?pte va s) 2" for va
    using rest [of va] one(3) [of va] that by (auto simp: Let_def reprotect_idem)
  have "reprotected r s s1 = {ix va | va. ix va = ix page \<and> c1 = 1}"
  proof -
    have "prot_bits (?pte va s1) \<noteq> prot_bits (?pte va s) \<longleftrightarrow> ix va = ix page \<and> c1 = 1" for va
      using one(3) [of va] same [of va] protect_page_count [OF p] by (cases "ix va = ix page") (simp_all add: Let_def)
    then show ?thesis by (simp add: reprotected_def)
  qed
  then have "reprotected r s s1 = (if c1 = 1 then {ix page} else {})" by auto
  moreover have c1: "c1 = 0 \<or> c1 = 1" unfolding protect_page_count [OF p] by simp
  moreover have "reprotected r s s' = reprotected r s s1 \<union> reprotected r s1 s'"
    and dis: "reprotected r s s1 \<inter> reprotected r s1 s' = {}"
  proof -
    have split: "prot_bits (?pte va s') \<noteq> prot_bits (?pte va s) \<longleftrightarrow>
        prot_bits (?pte va s1) \<noteq> prot_bits (?pte va s) \<or> prot_bits (?pte va s') \<noteq> prot_bits (?pte va s1)"
      and one_change: "\<not> (prot_bits (?pte va s1) \<noteq> prot_bits (?pte va s) \<and> prot_bits (?pte va s') \<noteq> prot_bits (?pte va s1))" for va
      using one(3) [of va] settled [of va] by (auto simp: Let_def split: if_splits)
    have "False" if "k \<in> reprotected r s s1" "k \<in> reprotected r s1 s'" for k
    proof -
      from that obtain va va' where k: "ix va = ix va'"
        "prot_bits (?pte va s1) \<noteq> prot_bits (?pte va s)" "prot_bits (?pte va' s') \<noteq> prot_bits (?pte va' s1)"
        unfolding reprotected_def by auto
      have "vm_ok s' r" using rest by blast
      with k(1) have "?pte va' s' = ?pte va s'" "?pte va' s1 = ?pte va s1" by (simp_all add: walks one(1))
      with k(2,3) one_change [of va] show False by simp
    qed
    then show "reprotected r s s1 \<inter> reprotected r s1 s' = {}" by blast
    show "reprotected r s s' = reprotected r s s1 \<union> reprotected r s1 s'"
      unfolding reprotected_def split by blast
  qed
  ultimately show ?case
    using Suc.IH [OF one(1) loop] by (auto simp: card_Un_disjoint [OF _ _ dis])
qed

lemma protect_range_count:
  assumes "vm_ok s r" and "vmm_protect_user_range r va0 count keep s = (changed, s')"
  shows "unat changed = card (reprotected r s s')"
proof -
  let ?va = "\<lambda>i. (va0 AND NOT 0xFFF) + of_nat i * VMM_PAGE_SIZE_4K"
  note run = assms(2) [unfolded vmm_protect_user_range_def]
  have "reprotected r s s' \<subseteq> (\<lambda>i. ix (?va i)) ` {..<unat count}"
    using protect_loop_spec [OF assms(1) run] unfolding reprotected_def by (fastforce simp: Let_def split: if_splits)
  then have "card (reprotected r s s') \<le> unat count"
    using surj_card_le [of "{..<unat count}"] by simp
  then have "card (reprotected r s s') < 2 ^ 64" using unsigned_less [where w = count and 'a = nat] by simp
  then show ?thesis
    using protect_loop_count [OF assms(1) run] by (simp add: unsigned_of_nat take_bit_nat_eq_self)
qed

section \<open>Frames taken by a mapping\<close>

text \<open>What a mapping takes from the page allocator: at most four frames, and it fails only when none is left.\<close>

definition takes :: "nat \<Rightarrow> vmm \<Rightarrow> vmm \<Rightarrow> bool" where
  "takes n s s' \<longleftrightarrow> pmm_inv (frames s') \<and> free_frames (frames s') \<subseteq> free_frames (frames s) \<and>
     card (free_frames (frames s)) \<le> card (free_frames (frames s')) + n"

lemma takes_refl: "pmm_inv (frames s) \<Longrightarrow> takes 0 s s"
  by (simp add: takes_def)

lemma takes_trans: "takes n s s1 \<Longrightarrow> takes k s1 s2 \<Longrightarrow> takes (n + k) s s2"
  by (auto simp: takes_def)

lemma takes_mono: "takes n s s' \<Longrightarrow> n \<le> k \<Longrightarrow> takes k s s'"
  by (auto simp: takes_def)

lemma takes_frames: "frames s1 = frames s2 \<Longrightarrow> takes n s s1 \<longleftrightarrow> takes n s s2"
  by (simp add: takes_def)

lemma frames_set [simp]: "frames (set_entry t i e s) = frames s" "frames (clear_page p s) = frames s"
  by (simp_all add: set_entry_def clear_page_def)

lemma frames_fold [simp]: "frames (fold (\<lambda>j. set_entry t (f j) (e j)) js s) = frames s"
  by (induction js arbitrary: s) simp_all

lemma alloc_takes:
  assumes "pmm_inv (frames s)" and "pmm_alloc_page (frames s) = (a, fr)"
  shows "takes (if a = 0 then 0 else 1) s (s\<lparr>frames := fr\<rparr>)" and "a = 0 \<Longrightarrow> free_frames fr = {}"
proof -
  have "takes (if a = 0 then 0 else 1) s (s\<lparr>frames := fr\<rparr>) \<and> (a = 0 \<longrightarrow> free_frames fr = {})"
    using pmm_inv_bounds [OF assms(1)]
  proof (cases rule: alloc_page_cases)
    case fail
    then show ?thesis using assms by (simp add: takes_def)
  next
    case (ok p)
    then have win: "p \<in> window (frames s)" by (auto simp: free_frames_def)
    have a: "a = page_addr p" "fr = snd (pmm_lowwater_check (take_page (frames s) p))" using ok(2) assms(2) by simp_all
    have "page_addr p \<noteq> 0" using window_le [OF assms(1) win] by (simp add: page_addr_neq_0)
    moreover have "pmm_inv fr" "free_frames fr = free_frames (frames s) - {p}"
      using take_page_inv [OF assms(1) ok(1)] ok(1) by (simp_all add: a(2) take_page_frames)
    moreover have "card (free_frames (frames s)) = Suc (card (free_frames (frames s) - {p}))"
      using card_Suc_Diff1 [OF _ ok(1)] by (simp add: free_frames_def window_def)
    ultimately have "takes 1 s (s\<lparr>frames := fr\<rparr>)" "a \<noteq> 0" using a(1) unfolding takes_def by simp_all
    then show ?thesis by simp
  qed
  then show "takes (if a = 0 then 0 else 1) s (s\<lparr>frames := fr\<rparr>)" and "a = 0 \<Longrightarrow> free_frames fr = {}" by simp_all
qed

lemma goc_takes:
  assumes "pmm_inv (frames s)" and "vmm_get_or_create_entry_in t i fl s = (res, s')"
  shows "takes (if res = None then 0 else 1) s s'" and "res = None \<Longrightarrow> free_frames (frames s') = {}"
proof -
  obtain a fr where al: "pmm_alloc_page (frames s) = (a, fr)" by fastforce
  note at = alloc_takes [OF assms(1) al]
  have "takes (if res = None then 0 else 1) s s' \<and> (res = None \<longrightarrow> free_frames (frames s') = {})"
  proof (cases "present (entry s t i)")
    case True
    then show ?thesis
      using assms(2) takes_mono [OF takes_refl [OF assms(1)], of 1] by (auto simp: vmm_get_or_create_entry_in_def)
  next
    case False
    show ?thesis
    proof (cases "a = 0")
      case True
      then show ?thesis using assms(2) False al at by (auto simp: vmm_get_or_create_entry_in_def)
    next
      case nz: False
      then have "frames s' = fr" "res \<noteq> None"
        using assms(2) False al by (auto simp: vmm_get_or_create_entry_in_def Let_def)
      then show ?thesis using at(1) nz takes_frames [of s' "s\<lparr>frames := fr\<rparr>" 1 s] by auto
    qed
  qed
  then show "takes (if res = None then 0 else 1) s s'" and "res = None \<Longrightarrow> free_frames (frames s') = {}" by simp_all
qed

lemma split_takes:
  assumes "pmm_inv (frames s)" and "split_huge t i u s = (ok, s')"
  shows "takes (if ok then 1 else 0) s s'" and "\<not> ok \<Longrightarrow> free_frames (frames s') = {}"
proof -
  obtain a fr where al: "pmm_alloc_page (frames s) = (a, fr)" by fastforce
  note at = alloc_takes [OF assms(1) al]
  have "takes (if ok then 1 else 0) s s' \<and> (\<not> ok \<longrightarrow> free_frames (frames s') = {})"
  proof (cases "a = 0")
    case True
    then show ?thesis using assms(2) al at by (auto simp: split_huge_def)
  next
    case False
    then have "frames s' = fr" "ok" using assms(2) al by (auto simp: split_huge_def Let_def)
    then show ?thesis using at(1) False takes_frames [of s' "s\<lparr>frames := fr\<rparr>" 1 s] by simp
  qed
  then show "takes (if ok then 1 else 0) s s'" and "\<not> ok \<Longrightarrow> free_frames (frames s') = {}" by simp_all
qed

lemma map_page_takes:
  assumes inv: "pmm_inv (frames s)" and r: "r \<noteq> 0" and run: "vmm_map_page_in r va pa flags s = (rc, s')"
  shows "takes (if rc = 0 then 4 else 3) s s'" and "rc \<noteq> 0 \<Longrightarrow> free_frames (frames s') = {}"
proof -
  define fl where "fl = (if g_nx_enabled s then flags else flags AND NOT VMM_FLAG_NX)"
  define va0 where "va0 = va AND NOT 0xFFF"
  note run = run [unfolded vmm_map_page_in_def Let_def, folded fl_def va0_def]
  have "takes (if rc = 0 then 4 else 3) s s' \<and> (rc \<noteq> 0 \<longrightarrow> free_frames (frames s') = {})"
  proof -
    obtain r1 s1 where g1: "vmm_get_or_create_entry_in r (VMM_PML4_INDEX va0) fl s = (r1, s1)" by fastforce
    note t1 = goc_takes [OF inv g1]
    show ?thesis
    proof (cases r1)
      case None
      then have "rc = -1" "s' = s1" using run r g1 by simp_all
      then show ?thesis using t1 None takes_mono [of 0 s s1 3] by simp
    next
      case (Some pdpt)
      have inv1: "pmm_inv (frames s1)" using t1(1) by (simp add: takes_def)
      obtain r2 s2 where g2: "vmm_get_or_create_entry_in pdpt (VMM_PDPT_INDEX va0) fl s1 = (r2, s2)" by fastforce
      note t2 = goc_takes [OF inv1 g2]
      show ?thesis
      proof (cases r2)
        case None
        then have "rc = -1" "s' = s2"
          using run r g1 g2 Some by simp_all
        then show ?thesis using t1 t2 Some None takes_mono [OF takes_trans, of 1 s s1 0 s2 3] by simp
      next
        case some2: (Some pd)
        have inv2: "pmm_inv (frames s2)" using t2(1) by (simp add: takes_def)
        obtain ok s3 where sp: "(if huge (entry s2 pd (VMM_PD_INDEX va0))
            then split_huge pd (VMM_PD_INDEX va0) (fl AND VMM_FLAG_USER) s2 else (True, s2)) = (ok, s3)" by fastforce
        have t3: "takes (if ok then 1 else 0) s2 s3" "\<not> ok \<Longrightarrow> free_frames (frames s3) = {}"
        proof -
          have "takes (if ok then 1 else 0) s2 s3 \<and> (\<not> ok \<longrightarrow> free_frames (frames s3) = {})"
          proof (cases "huge (entry s2 pd (VMM_PD_INDEX va0))")
            case True
            then have "split_huge pd (VMM_PD_INDEX va0) (fl AND VMM_FLAG_USER) s2 = (ok, s3)" using sp by simp
            then show ?thesis using split_takes [OF inv2] by blast
          next
            case False
            then have "ok" "s3 = s2" using sp by simp_all
            then show ?thesis using takes_mono [OF takes_refl [OF inv2], of 1] by simp
          qed
          then show "takes (if ok then 1 else 0) s2 s3" "\<not> ok \<Longrightarrow> free_frames (frames s3) = {}" by simp_all
        qed
        have t12: "takes 2 s s2" using takes_trans [of 1 s s1 1 s2] t1(1) t2(1) Some some2 by (simp add: numeral_2_eq_2)
        show ?thesis
        proof (cases ok)
          case False
          then have "rc = -1" "s' = s3"
            using run r g1 g2 Some some2 sp by simp_all
          then show ?thesis using t3 False takes_mono [OF takes_trans [OF t12], of 0 s3 3] by simp
        next
          case True
          have inv3: "pmm_inv (frames s3)" using t3(1) by (simp add: takes_def)
          have t13: "takes 3 s s3" using takes_trans [OF t12, of 1 s3] t3(1) True by simp
          obtain r4 s4 where g4: "vmm_get_or_create_entry_in pd (VMM_PD_INDEX va0) fl s3 = (r4, s4)" by fastforce
          note t4 = goc_takes [OF inv3 g4]
          show ?thesis
          proof (cases r4)
            case None
            then have "rc = -1" "s' = s4"
              using run r g1 g2 Some some2 sp True g4 by simp_all
            then show ?thesis using t4 None takes_trans [OF t13, of 0 s4] by simp
          next
            case some4: (Some pt)
            then have "rc = 0" "frames s' = frames s4"
              using run r g1 g2 Some some2 sp True g4
              by auto
            then show ?thesis
              using t4 some4 takes_trans [OF t13, of 1 s4] takes_frames [of s' s4 4 s] by simp
          qed
        qed
      qed
    qed
  qed
  then show "takes (if rc = 0 then 4 else 3) s s'" and "rc \<noteq> 0 \<Longrightarrow> free_frames (frames s') = {}" by simp_all
qed

section \<open>Properties\<close>

text \<open>An address space with nothing mapped: its root is frame 4, all tables are still to be allocated.\<close>

definition demo_vm :: vmm where
  "demo_vm = \<lparr>phys = (\<lambda>_. 0), frames = demo_pmm, g_nx_enabled = True\<rparr>"

lemma empty_tab: "tab (\<lambda>_. 0) r p = (if p = [] then Some r else None)"
  by (cases p) (auto simp: clear_entry)

lemma empty_space:
  assumes "aligned r" and "unat r div 4096 \<notin> F"
  shows "pt_ok (\<lambda>_. 0) F r"
  using assms by (auto simp: pt_ok_def empty_tab clear_entry)

lemma demo_vm_ok: "vm_ok demo_vm 0x4000" "vm_ok demo_vm 0x9000"
  by (auto simp: vm_ok_def demo_vm_def demo_inv demo_frames intro!: empty_space)
    (auto simp: aligned_def VMM_ADDR_MASK_def)

lemma demo_vm_ready: "map_ready (phys demo_vm) r (ix va)"
  by (simp add: map_ready_def demo_vm_def ix_def Let_def clear_entry)

text \<open>C8: mapping a page. In a well-formed address space in which the address is not inside a 1 GB page,
  \<open>vmm_map_page_in\<close>, with flags that have no address bit set, answers 0 or -1 and keeps the address space well
  formed. On 0 the page translates to the frame asked for and its leaf entry holds that frame and the flags asked
  for (an entry of an upper level that was there before is not widened, so the effective rights of the page may
  be narrower); on -1 no frame is left free and no translation has changed. In both cases
  every other page, the other pages of a 2 MB page that had to be broken included, keeps its physical address
  and, for a user mapping, its rights up to the no-execute bit; and no frame is given back.\<close>

theorem vmm_map_page_spec:
  assumes ok: "vm_ok s r" and ready: "map_ready (phys s) r (ix va)"
    and run: "vmm_map_page_in r va pa flags s = (rc, s')" and clean: "flags AND VMM_ADDR_MASK = 0"
  shows "vm_ok s' r \<and> used_frames (frames s) \<subseteq> used_frames (frames s') \<and>
     (rc = 0 \<and> vmm_get_physical_in r va s' = (pa AND VMM_ADDR_MASK) OR VMM_PAGE_OFFSET va \<and>
        vmm_get_pte_in r va s' = (pa AND NOT 0xFFF) OR VMM_FLAG_PRESENT OR
          (if g_nx_enabled s then flags else flags AND NOT VMM_FLAG_NX)
      \<or> rc = -1 \<and> free_frames (frames s') = {} \<and> (\<forall>va'. vmm_get_physical_in r va' s' = vmm_get_physical_in r va' s \<and>
                         vmm_get_effective_flags_in r va' s' = vmm_get_effective_flags_in r va' s)) \<and>
     (\<forall>va'. ix va' \<noteq> ix va \<longrightarrow> vmm_get_physical_in r va' s' = vmm_get_physical_in r va' s \<and>
        (bit flags 2 \<longrightarrow> vmm_get_effective_flags_in r va' s' AND NOT VMM_FLAG_NX
                        = vmm_get_effective_flags_in r va' s AND NOT VMM_FLAG_NX))"
proof -
  define fl where "fl = (if g_nx_enabled s then flags else flags AND NOT VMM_FLAG_NX)"
  note mw = map_walk [OF ok ready run, folded fl_def]
  note ext = extendsD [OF mw(1)]
  have no_addr: "\<not> bit fl n" if "12 \<le> n" "n < 52" for n
    using arg_cong [OF clean, of "\<lambda>w. bit w n"] that
    by (auto simp: fl_def bit_and_iff bit_addr_mask)
  have m12: "(0xFFF :: u64) = mask 12" by (simp add: mask_eq_exp_minus_1)
  have addr: "((pa AND NOT 0xFFF) OR fl OR VMM_FLAG_PRESENT) AND VMM_ADDR_MASK = pa AND VMM_ADDR_MASK"
    unfolding m12
    by (rule bit_word_eqI)
      (auto simp: bit_and_iff bit_or_iff bit_not_iff_eq bit_mask_iff bit_addr_mask flag_bits no_addr)
  have comm: "(pa AND NOT 0xFFF) OR fl OR VMM_FLAG_PRESENT = (pa AND NOT 0xFFF) OR VMM_FLAG_PRESENT OR fl"
    by (simp only: or.commute)
  have hit: "vmm_get_physical_in r va s' = (pa AND VMM_ADDR_MASK) OR VMM_PAGE_OFFSET va \<and>
      vmm_get_pte_in r va s' = (pa AND NOT 0xFFF) OR VMM_FLAG_PRESENT OR fl" if rc0: "rc = 0"
  proof -
    obtain es where w: "walk (phys s') r (ix va)
        = Some (es @ [(pa AND NOT 0xFFF) OR fl OR VMM_FLAG_PRESENT], [])"
      using mw(5) [OF rc0] by blast
    have off: "VMM_PAGE_OFFSET va = va AND mask 12" by (simp only: VMM_PAGE_OFFSET_def m12)
    show ?thesis
      unfolding walks(1,2) [OF ext(1)] w leaf_phys_def leaf_pte_def off
      using addr comm by simp
  qed
  have miss: "vmm_get_physical_in r va' s' = vmm_get_physical_in r va' s \<and>
      vmm_get_effective_flags_in r va' s' = vmm_get_effective_flags_in r va' s" if "rc \<noteq> 0" for va'
    using mw(3) [OF that] by (simp add: walks [OF ok] walks [OF ext(1)] same_walks_def)
  have "pmm_inv (frames s)" "r \<noteq> 0" using ok by (simp_all add: vm_ok_def)
  then have "rc \<noteq> 0 \<longrightarrow> free_frames (frames s') = {}" using map_page_takes(2) [OF _ _ run] by blast
  then show ?thesis
    using mw(2) hit miss ext(1,3) map_other_phys [OF ok ready run] map_other_flags [OF ok ready run]
    by (auto simp: fl_def)
qed

theorem vmm_map_page_spec_witness:
  "vm_ok (snd (vmm_map_page_in 0x4000 0x700000000000 0x5000 VMM_USER_RW demo_vm)) 0x4000"
proof -
  have clean: "VMM_USER_RW AND VMM_ADDR_MASK = 0"
    by (rule bit_word_eqI) (auto simp: VMM_USER_RW_def bit_and_iff bit_or_iff flag_bits bit_addr_mask)
  show ?thesis
    using vmm_map_page_spec [OF demo_vm_ok(1) demo_vm_ready prod.collapse [symmetric] clean] by blast
qed



text \<open>C30: unmapping a page. When the address is not inside a 1 GB page (of which the code would take the data for a
  table: \<open>no_1g\<close>), afterwards the page does not translate, the address space is well formed, no frame
  is freed or taken, and all other translations are unchanged, except that unmapping a page inside a 2 MB
  page removes the whole 2 MB page.\<close>

theorem vmm_unmap_page_spec:
  assumes ok: "vm_ok s r" and big: "no_1g (phys s) r (ix va)"
  defines "s' \<equiv> vmm_unmap_page_in r va s"
  shows "vm_ok s' r \<and> frames s' = frames s \<and> vmm_get_physical_in r va s' = 0 \<and>
     vmm_get_effective_flags_in r va s' = 0 \<and>
     (\<forall>va'. ix va' \<noteq> ix va \<longrightarrow>
        (if large_leaf (phys s) r (ix va) \<and> take 3 (ix va') = take 3 (ix va)
         then vmm_get_physical_in r va' s' = 0
         else vmm_get_physical_in r va' s' = vmm_get_physical_in r va' s \<and>
              vmm_get_effective_flags_in r va' s' = vmm_get_effective_flags_in r va' s))"
proof -
  note un = unmap_walk [OF ok big, folded s'_def]
  have ok': "vm_ok s' r" using extends_ok un(1) .
  have "if large_leaf (phys s) r (ix va) \<and> take 3 (ix va') = take 3 (ix va)
         then vmm_get_physical_in r va' s' = 0
         else vmm_get_physical_in r va' s' = vmm_get_physical_in r va' s \<and>
              vmm_get_effective_flags_in r va' s' = vmm_get_effective_flags_in r va' s"
    if "ix va' \<noteq> ix va" for va'
    using un(4) [OF path_ix(1,2) that] by (simp add: walks [OF ok] walks [OF ok'] leaf_phys_def)
  moreover have "vmm_get_physical_in r va s' = 0" "vmm_get_effective_flags_in r va s' = 0"
    using un(3) by (simp_all add: walks [OF ok'] leaf_phys_def leaf_flags_def)
  ultimately show ?thesis using ok' un(2) by blast
qed

theorem vmm_unmap_page_spec_witness:
  "vm_ok (vmm_unmap_page_in 0x4000 0x700000000000 demo_vm) 0x4000"
  using vmm_unmap_page_spec [OF demo_vm_ok(1) map_ready_no_1g [OF demo_vm_ready]] by blast

text \<open>C29: changing protection. \<open>vmm_protect_user_range\<close> rewrites exactly the present user pages of the range,
  wherever they alias: each keeps its frame, a copy-on-write page stays copy-on-write and read-only even
  when writing is asked for, any other page becomes writable exactly as asked, and no-execute is set exactly
  when asked and supported. All other pages keep their entry. The answer is the number of pages whose
  protection bits (present, user, writable, no-execute, copy-on-write) the call has changed.\<close>

theorem vmm_protect_user_range_spec:
  assumes ok: "vm_ok s r" and run: "vmm_protect_user_range r va0 count keep s = (changed, s')"
  shows "vm_ok s' r \<and>
     (\<forall>va. let pte = vmm_get_pte_in r va s; pte' = vmm_get_pte_in r va s' in
        if (\<exists>i<unat count. ix va = ix ((va0 AND NOT 0xFFF) + of_nat i * VMM_PAGE_SIZE_4K))
             \<and> bit pte 0 \<and> bit pte 2
        then pte' AND VMM_ADDR_MASK = pte AND VMM_ADDR_MASK \<and> bit pte' 0 \<and> bit pte' 2 \<and>
             (bit pte' 9 \<longleftrightarrow> bit pte 9) \<and> (bit pte' 1 \<longleftrightarrow> bit keep 1 \<and> \<not> bit pte 9) \<and>
             (bit pte' 63 \<longleftrightarrow> bit keep 63 \<and> g_nx_enabled s)
        else pte' = pte) \<and>
     unat changed = card {ix va | va. prot_bits (vmm_get_pte_in r va s') \<noteq> prot_bits (vmm_get_pte_in r va s)}"
proof -
  note loop = protect_loop_spec [OF ok run [unfolded vmm_protect_user_range_def]]
  have mask: "reprotect keep nx pte AND VMM_ADDR_MASK = pte AND VMM_ADDR_MASK" for nx pte
    by (rule bit_word_eqI) (auto simp: bit_and_iff bit_addr_mask reprotect_bits)
  show ?thesis
    using loop protect_range_count [OF ok run] unfolding reprotected_def
    by (intro conjI; auto simp: Let_def mask reprotect_bits)
qed

theorem vmm_protect_user_range_spec_witness:
  "vm_ok (snd (vmm_protect_user_range 0x4000 0x700000000000 3 VMM_FLAG_WRITABLE demo_vm)) 0x4000"
  using vmm_protect_user_range_spec [OF demo_vm_ok(1) prod.collapse [symmetric]] by blast

text \<open>Breaking a 2 MB page drops its no-execute bit: the new entries take only the low twelve bits of the
  large entry. The other 511 pages become executable.\<close>

lemma vmm_split_drops_nx:
  assumes ok: "vm_ok s r" and w: "walk (phys s) r (ix va) = Some (es @ [e], [ix va ! 3])"
    and e: "e AND 0x1FF000 = 0" "bit e 63" and es: "\<forall>d\<in>set es. \<not> bit d 63"
    and user: "bit flags 2"
    and run: "vmm_map_page_in r va pa flags s = (0, s')"
    and sib: "take 3 (ix va') = take 3 (ix va)" "ix va' \<noteq> ix va"
  shows "bit (vmm_get_effective_flags_in r va' s) 63"
    and "\<not> bit (vmm_get_effective_flags_in r va' s') 63"
proof -
  have ready: "map_ready (phys s) r (ix va)" using w e by (simp add: map_ready_def)
  define fl where "fl = (if g_nx_enabled s then flags else flags AND NOT VMM_FLAG_NX)"
  note mw = map_walk [OF ok ready run, folded fl_def]
  have ok': "vm_ok s' r" using extends_ok mw(1) .
  have old: "walk (phys s) r (ix va') = Some (es @ [e], [ix va' ! 3])"
    using walk_block [OF path_ix(2) path_ix(2) sib(1) [symmetric] w] .
  then show "bit (vmm_get_effective_flags_in r va' s) 63"
    using e(2) by (simp add: walks [OF ok] leaf_flags_bits)
  have "walk (phys s') r (ix va') \<noteq> walk (phys s) r (ix va')"
  proof
    assume "walk (phys s') r (ix va') = walk (phys s) r (ix va')"
    then have "walk (phys s') r (ix va) = Some (es @ [e], [ix va ! 3])"
      using walk_block [OF path_ix(2) path_ix(2) sib(1)] old by simp
    then show False using mw(5) by simp
  qed
  then obtain es' e' v where new: "v \<in> pointers (fl AND VMM_FLAG_USER)"
    "walk (phys s) r (ix va') = Some (es' @ [e'], [ix va' ! 3])"
    "walk (phys s') r (ix va') = Some (es' @ [v, small_of e' (ix va' ! 3)], [])"
    using mw(6) [OF path_ix(1,2) sib(2)] by (auto simp: broken_def)
  have eq: "es' = es" "e' = e" using new(2) old by simp_all
  have "\<not> bit v 63" using pointer_bits(3) [OF new(1)] user_bit by blast
  moreover have "\<not> bit (small_of e (VMM_PT_INDEX va')) 63" by (simp add: small_of_bits [OF e(1)])
  ultimately show "\<not> bit (vmm_get_effective_flags_in r va' s') 63"
    using new(3) es unfolding eq walks(3) [OF ok'] by (simp add: leaf_flags_bits ix_def)
qed

end
