(* ===== verification/Pagemap.thy ===== *)
theory Pagemap
  imports Vmm
begin

text \<open>
  Mapping a run of pages into one of several address spaces: the two page loops of
  \<open>kernel/ipc/shm.c\<close>, the interface \<open>page_mapper\<close> that such a loop relies on, with what the loops do proved
  once from its laws, and its interpretation on \<open>vmm_map_page_in\<close> and \<open>vmm_unmap_page_in\<close>. The invariant
  of the interpretation is that a set of address spaces keeps a window of addresses private: below it no
  table is shared, no page is large and every table pointer is a user pointer.
\<close>

unbundle bit_operations_syntax

section \<open>The loops\<close>

text \<open>The page loop of \<open>sys_shm_map\<close>: the index of the first page that could not be mapped, if any.\<close>

primrec map_pages :: "(u64 \<Rightarrow> u64 \<Rightarrow> 'v \<Rightarrow> int \<times> 'v) \<Rightarrow> u64 \<Rightarrow> u64 \<Rightarrow> nat \<Rightarrow> 'v \<Rightarrow> nat option \<times> 'v" where
  "map_pages mp va pa 0 v = (None, v)"
| "map_pages mp va pa (Suc i) v =
     (case map_pages mp va pa i v of
        (Some k, v1) \<Rightarrow> (Some k, v1)
      | (None, v1) \<Rightarrow>
          (case mp (va + of_nat i * VMM_PAGE_SIZE_4K) (pa + of_nat i * VMM_PAGE_SIZE_4K) v1 of
             (rc, v2) \<Rightarrow> (if rc \<noteq> 0 then Some i else None, v2)))"

definition unmap_pages :: "(u64 \<Rightarrow> 'v \<Rightarrow> 'v) \<Rightarrow> u64 \<Rightarrow> nat \<Rightarrow> 'v \<Rightarrow> 'v" where
  "unmap_pages un va n v = fold (\<lambda>i. un (va + of_nat i * VMM_PAGE_SIZE_4K)) [0..<n] v"

lemma unmap_pages_simps [simp]:
  "unmap_pages un va 0 v = v"
  "unmap_pages un va (Suc n) v = un (va + of_nat n * VMM_PAGE_SIZE_4K) (unmap_pages un va n v)"
  by (simp_all add: unmap_pages_def)

text \<open>Page \<open>i\<close> of a run, and a run of distinct pages inside a window.\<close>

abbreviation nth_page :: "u64 \<Rightarrow> nat \<Rightarrow> u64" where
  "nth_page va i \<equiv> va + of_nat i * VMM_PAGE_SIZE_4K"

section \<open>The interface\<close>

text \<open>\<open>look\<close> is what an address translates to, \<open>same\<close> says that two addresses lie in the same page, \<open>rest\<close>
  is everything a mapping must not touch.\<close>

locale page_mapper =
  fixes inv :: "'v \<Rightarrow> bool"
    and win :: "u64 set"
    and same :: "u64 \<Rightarrow> u64 \<Rightarrow> bool"
    and look :: "u64 \<Rightarrow> 'v \<Rightarrow> 'a"
    and blank :: 'a
    and rest :: "'v \<Rightarrow> 'r"
    and mp :: "u64 \<Rightarrow> u64 \<Rightarrow> 'v \<Rightarrow> int \<times> 'v"
    and un :: "u64 \<Rightarrow> 'v \<Rightarrow> 'v"
    and val :: "u64 \<Rightarrow> u64 \<Rightarrow> 'a"
  assumes map_keeps: "inv v \<Longrightarrow> va \<in> win \<Longrightarrow> mp va pa v = (rc, v') \<Longrightarrow> inv v' \<and> rest v' = rest v"
    and map_hit: "inv v \<Longrightarrow> va \<in> win \<Longrightarrow> mp va pa v = (rc, v') \<Longrightarrow> look va v' = (if rc = 0 then val va pa else look va v)"
    and map_miss: "inv v \<Longrightarrow> va \<in> win \<Longrightarrow> mp va pa v = (rc, v') \<Longrightarrow> \<not> same va' va \<Longrightarrow> look va' v' = look va' v"
    and un_keeps: "inv v \<Longrightarrow> va \<in> win \<Longrightarrow> inv (un va v) \<and> rest (un va v) = rest v"
    and un_hit: "inv v \<Longrightarrow> va \<in> win \<Longrightarrow> look va (un va v) = blank"
    and un_miss: "inv v \<Longrightarrow> va \<in> win \<Longrightarrow> \<not> same va' va \<Longrightarrow> look va' (un va v) = look va' v"
    and same_blank: "inv v \<Longrightarrow> same va' va \<Longrightarrow> look va v = blank \<Longrightarrow> look va' v = blank"
    and same_eq: "same va va" "same va' va \<Longrightarrow> same va' va'' \<Longrightarrow> same va va''"
begin

definition run_ok :: "u64 \<Rightarrow> nat \<Rightarrow> bool" where
  "run_ok va n \<longleftrightarrow> (\<forall>i<n. nth_page va i \<in> win \<and> (\<forall>j<i. \<not> same (nth_page va i) (nth_page va j)))"

lemma same_sym: "same a b \<Longrightarrow> same b a"
  using same_eq by blast

lemma map_pages_spec:
  assumes "inv v" and "run_ok va n" and "map_pages mp va pa n v = (res, v')"
  shows "inv v' \<and> rest v' = rest v"
    and "\<And>i. res = None \<Longrightarrow> i < n \<Longrightarrow> look (nth_page va i) v' = val (nth_page va i) (nth_page pa i)"
    and "\<And>va'. \<forall>i<n. \<not> same va' (nth_page va i) \<Longrightarrow> look va' v' = look va' v"
    and "\<And>k. res = Some k \<Longrightarrow> k < n \<and> (\<forall>i. k \<le> i \<longrightarrow> i < n \<longrightarrow> look (nth_page va i) v' = look (nth_page va i) v)"
proof -
  have "(inv v' \<and> rest v' = rest v) \<and>
    (res = None \<longrightarrow> (\<forall>i<n. look (nth_page va i) v' = val (nth_page va i) (nth_page pa i))) \<and>
    (\<forall>va'. (\<forall>i<n. \<not> same va' (nth_page va i)) \<longrightarrow> look va' v' = look va' v) \<and>
    (\<forall>k. res = Some k \<longrightarrow> k < n \<and> (\<forall>i. k \<le> i \<longrightarrow> i < n \<longrightarrow> look (nth_page va i) v' = look (nth_page va i) v))"
    using assms(2,3)
  proof (induction n arbitrary: res v')
    case 0
    then show ?case using assms(1) by simp
  next
    case (Suc n)
    obtain res1 v1 where r1: "map_pages mp va pa n v = (res1, v1)" by fastforce
    have ok: "run_ok va n" and w: "nth_page va n \<in> win"
      and d: "\<And>j. j < n \<Longrightarrow> \<not> same (nth_page va n) (nth_page va j)"
      using Suc.prems(1) by (auto simp: run_ok_def)
    note IH = Suc.IH [OF ok r1]
    have later: "look (nth_page va n) v1 = look (nth_page va n) v" using IH d by blast
    show ?case
    proof (cases res1)
      case (Some k)
      then have "res = Some k" "v' = v1" using Suc.prems(2) r1 by simp_all
      then show ?thesis using IH Some later by (auto simp: less_Suc_eq)
    next
      case None
      obtain rc v2 where r2: "mp (nth_page va n) (nth_page pa n) v1 = (rc, v2)" by fastforce
      then have res: "res = (if rc \<noteq> 0 then Some n else None)" and v': "v' = v2"
        using Suc.prems(2) r1 None by simp_all
      have inv1: "inv v1" using IH by blast
      note keeps = map_keeps [OF inv1 w r2] and hit = map_hit [OF inv1 w r2] and miss = map_miss [OF inv1 w r2]
      have old: "look (nth_page va i) v2 = look (nth_page va i) v1" if "i < n" for i
        using miss d same_sym that by blast
      show ?thesis
        unfolding res v' using IH None keeps hit miss old later by (auto simp: less_Suc_eq)
    qed
  qed
  then show "inv v' \<and> rest v' = rest v"
    and "\<And>i. res = None \<Longrightarrow> i < n \<Longrightarrow> look (nth_page va i) v' = val (nth_page va i) (nth_page pa i)"
    and "\<And>va'. \<forall>i<n. \<not> same va' (nth_page va i) \<Longrightarrow> look va' v' = look va' v"
    and "\<And>k. res = Some k \<Longrightarrow> k < n \<and> (\<forall>i. k \<le> i \<longrightarrow> i < n \<longrightarrow> look (nth_page va i) v' = look (nth_page va i) v)"
    by blast+
qed

lemma unmap_pages_spec:
  assumes "inv v" and "\<And>i. i < n \<Longrightarrow> nth_page va i \<in> win"
  shows "inv (unmap_pages un va n v) \<and> rest (unmap_pages un va n v) = rest v"
    and "\<And>va' i. i < n \<Longrightarrow> same va' (nth_page va i) \<Longrightarrow> look va' (unmap_pages un va n v) = blank"
    and "\<And>va'. \<forall>i<n. \<not> same va' (nth_page va i) \<Longrightarrow> look va' (unmap_pages un va n v) = look va' v"
proof -
  have "(inv (unmap_pages un va n v) \<and> rest (unmap_pages un va n v) = rest v) \<and>
    (\<forall>va'. (\<exists>i<n. same va' (nth_page va i)) \<longrightarrow> look va' (unmap_pages un va n v) = blank) \<and>
    (\<forall>va'. (\<forall>i<n. \<not> same va' (nth_page va i)) \<longrightarrow> look va' (unmap_pages un va n v) = look va' v)"
    using assms(2)
  proof (induction n)
    case 0
    then show ?case using assms(1) by simp
  next
    case (Suc n)
    define v1 where "v1 = unmap_pages un va n v"
    have IH: "inv v1" "rest v1 = rest v"
      "\<And>va'. \<exists>i<n. same va' (nth_page va i) \<Longrightarrow> look va' v1 = blank"
      "\<And>va'. \<forall>i<n. \<not> same va' (nth_page va i) \<Longrightarrow> look va' v1 = look va' v"
      using Suc.IH Suc.prems by (auto simp: v1_def less_Suc_eq)
    have w: "nth_page va n \<in> win" using Suc.prems by simp
    have last: "look va' (un (nth_page va n) v1) = blank" if "same va' (nth_page va n)" for va'
      using same_blank un_keeps [OF IH(1) w] un_hit [OF IH(1) w] that by blast
    have "look va' (un (nth_page va n) v1) = blank" if "\<exists>i<Suc n. same va' (nth_page va i)" for va'
      using that last IH(3) [of va'] un_miss [OF IH(1) w, of va'] by (metis less_Suc_eq)
    then show ?case
      using IH un_keeps [OF IH(1) w] un_miss [OF IH(1) w] by (simp add: v1_def [symmetric] less_Suc_eq)
  qed
  then show "inv (unmap_pages un va n v) \<and> rest (unmap_pages un va n v) = rest v"
    and "\<And>va' i. i < n \<Longrightarrow> same va' (nth_page va i) \<Longrightarrow> look va' (unmap_pages un va n v) = blank"
    and "\<And>va'. \<forall>i<n. \<not> same va' (nth_page va i) \<Longrightarrow> look va' (unmap_pages un va n v) = look va' v"
    by blast+
qed

text \<open>Rolling back restores every translation when the run was unmapped before.\<close>

lemma map_undo:
  assumes "inv v" and ok: "run_ok va n" and map: "map_pages mp va pa n v = (res, v1)"
    and empty: "\<And>i. i < n \<Longrightarrow> look (nth_page va i) v = blank"
    and k: "k = (case res of None \<Rightarrow> n | Some k \<Rightarrow> k)"
  defines "v2 \<equiv> unmap_pages un va k v1"
  shows "inv v2" and "rest v2 = rest v" and "look va' v2 = look va' v"
proof -
  note mp = map_pages_spec [OF assms(1) ok map]
  have kn: "k \<le> n" using mp(4) k by (auto split: option.splits)
  have w: "nth_page va i \<in> win" if "i < k" for i using ok that kn by (simp add: run_ok_def)
  have inv1: "inv v1" using mp(1) by blast
  note up = unmap_pages_spec [OF inv1 w, of k, folded v2_def]
  show "inv v2" and "rest v2 = rest v" using up(1) mp(1) by auto
  show "look va' v2 = look va' v"
  proof (cases "\<exists>i<n. same va' (nth_page va i)")
    case False
    then show ?thesis using up(3) mp(3) kn by auto
  next
    case True
    then obtain i where i: "i < n" "same va' (nth_page va i)" by blast
    have old: "look va' v = blank" using same_blank [OF assms(1) i(2) empty [OF i(1)]] .
    show ?thesis
    proof (cases "\<exists>j<k. same va' (nth_page va j)")
      case True
      then show ?thesis using up(2) old by auto
    next
      case False
      then have "k \<le> i" using i(2) by (meson not_le)
      then have "look (nth_page va i) v1 = blank"
        using mp(4) k i(1) empty [OF i(1)] by (auto split: option.splits)
      then have "look va' v1 = blank" using same_blank [OF inv1 i(2)] by blast
      then show ?thesis using up(3) False old by auto
    qed
  qed
qed

end

section \<open>Address spaces with a private window\<close>

definition good_dir :: "u64 \<Rightarrow> bool" where "good_dir e \<longleftrightarrow> bit e 1 \<and> bit e 2 \<and> \<not> bit e 63"

definition small_leaf :: "(u64 \<Rightarrow> u64) \<Rightarrow> u64 \<Rightarrow> nat list \<Rightarrow> bool" where
  "small_leaf m r is \<longleftrightarrow> (case walk m r is of None \<Rightarrow> True | Some (es, rest) \<Rightarrow> rest = [])"

text \<open>The address spaces with roots \<open>R\<close>, in a machine where the frames \<open>U\<close> are owned by somebody else: no
  table lies in \<open>U\<close>, and under the window \<open>W\<close> the tables are private, the leaves small and the table
  pointers user pointers.\<close>

definition one_space :: "u64 set \<Rightarrow> nat set \<Rightarrow> vmm \<Rightarrow> u64 \<Rightarrow> bool" where
  "one_space W U v r \<longleftrightarrow> vm_ok v r \<and>
     (\<forall>q u. path 3 q \<longrightarrow> tab (phys v) r q = Some u \<longrightarrow> unat u div 4096 \<notin> U) \<and>
     (\<forall>va\<in>W. small_leaf (phys v) r (ix va) \<and> (\<forall>e\<in>dir_ents (phys v) r (ix va). good_dir e))"

definition apart :: "u64 set \<Rightarrow> vmm \<Rightarrow> u64 \<Rightarrow> u64 \<Rightarrow> bool" where
  "apart W v r r' \<longleftrightarrow> (\<forall>va\<in>W. \<forall>q u. path 3 q \<longrightarrow> tab (phys v) r' q = Some u \<longrightarrow> \<not> on_path (phys v) r (ix va) u)"

definition spaces :: "u64 set \<Rightarrow> u64 set \<Rightarrow> nat set \<Rightarrow> bool \<Rightarrow> vmm \<Rightarrow> bool" where
  "spaces W R U nx v \<longleftrightarrow> pmm_inv (frames v) \<and> U \<subseteq> used_frames (frames v) \<and> g_nx_enabled v = nx \<and>
     (\<forall>r\<in>R. one_space W U v r) \<and> (\<forall>r\<in>R. \<forall>r'\<in>R. r \<noteq> r' \<longrightarrow> apart W v r r')"

lemma small_leaf_ready: "small_leaf m r is \<Longrightarrow> map_ready m r is"
  by (auto simp: small_leaf_def map_ready_def split: option.splits)

lemma vm_ok_pt: "vm_ok v r \<Longrightarrow> pt_ok (phys v) (free_frames (frames v)) r"
  by (simp add: vm_ok_def)

lemma table_not_free:
  "vm_ok v r \<Longrightarrow> path 3 q \<Longrightarrow> tab (phys v) r q = Some u \<Longrightarrow> unat u div 4096 \<notin> free_frames (frames v)"
  using pt_okD(3) [OF vm_ok_pt] by blast

lemma on_path_table:
  assumes "on_path m r is u" and "path 4 is"
  shows "\<exists>q. path 3 q \<and> tab m r q = Some u"
proof -
  obtain n where "n \<le> 3" "tab m r (take n is) = Some u" using assms(1) by (auto simp: on_path_def)
  moreover have "path 3 (take n is)" using path_take [OF assms(2) \<open>n \<le> 3\<close>] \<open>n \<le> 3\<close> path_mono by blast
  ultimately show ?thesis by blast
qed

lemma dir_ents_cong:
  assumes "\<And>n. n \<le> 2 \<Longrightarrow> tab m' r (take n is) = tab m r (take n is)"
    and "\<And>n u. n \<le> 2 \<Longrightarrow> tab m r (take n is) = Some u \<Longrightarrow> m' (slot u (is ! n)) = m (slot u (is ! n))"
  shows "dir_ents m' r is = dir_ents m r is"
proof -
  have "(tab m' r (take n is) = Some t \<and> e = m' (slot t (is ! n)) \<and> present e \<and> \<not> huge e) \<longleftrightarrow>
      (tab m r (take n is) = Some t \<and> e = m (slot t (is ! n)) \<and> present e \<and> \<not> huge e)" if "n \<le> 2" for n t e
    using assms that by auto
  then show ?thesis unfolding dir_ents_def by blast
qed

text \<open>A step below the window in one of the spaces keeps all of them, and changes no walk of another.\<close>

lemma spaces_step:
  assumes sp: "spaces W R U nx v" and r: "r \<in> R" and va: "va \<in> W"
    and ext: "extends r (ix va) v v'" and dir: "dirs r (pointers VMM_FLAG_USER) v v'"
    and small: "\<forall>va'\<in>W. small_leaf (phys v') r (ix va')"
  shows "spaces W R U nx v'"
    and "\<And>r' q. r' \<in> R \<Longrightarrow> r' \<noteq> r \<Longrightarrow> path 4 q \<Longrightarrow> walk (phys v') r' q = walk (phys v) r' q"
proof -
  note e = extendsD [OF ext]
  have U: "U \<subseteq> used_frames (frames v)" and nx: "g_nx_enabled v = nx"
    and one: "\<And>r. r \<in> R \<Longrightarrow> one_space W U v r"
    and ap: "\<And>r r'. r \<in> R \<Longrightarrow> r' \<in> R \<Longrightarrow> r \<noteq> r' \<Longrightarrow> apart W v r r'"
    using sp by (auto simp: spaces_def)
  have disj: "f \<notin> U" if "f \<in> free_frames (frames v)" for f
    using U frames_disjoint [of "frames v"] that by blast
  have okv: "vm_ok v r'" if "r' \<in> R" for r' using one [OF that] by (simp add: one_space_def)
  have ap': "\<forall>q u. path 3 q \<longrightarrow> tab (phys v) r' q = Some u \<longrightarrow> \<not> on_path (phys v) r (ix va) u"
    if "r' \<in> R" "r' \<noteq> r" for r'
    using ap [OF r that(1)] that(2) va by (auto simp: apart_def)
  have other: "vm_ok v' r'" "\<And>q. path 4 q \<Longrightarrow> walk (phys v') r' q = walk (phys v) r' q"
    "\<And>q. path 4 q \<Longrightarrow> tab (phys v') r' q = tab (phys v) r' q"
    if "r' \<in> R" "r' \<noteq> r" for r'
    using extends_other [OF ext okv [OF that(1)] ap' [OF that]] by blast+
  then show "\<And>r' q. r' \<in> R \<Longrightarrow> r' \<noteq> r \<Longrightarrow> path 4 q \<Longrightarrow> walk (phys v') r' q = walk (phys v) r' q"
    by blast
  have tab3: "tab (phys v') r' q = tab (phys v) r' q" if "r' \<in> R" "r' \<noteq> r" "path 3 q" for r' q
    using other(3) [OF that(1,2)] path_mono [OF that(3)] by simp
  have onp: "on_path (phys v') r' (ix x) u \<longleftrightarrow> on_path (phys v) r' (ix x) u" if "r' \<in> R" "r' \<noteq> r" for r' x u
  proof -
    have "path 4 (take n (ix x))" for n using path_ix(1) [of x] by (auto simp: path_def dest: in_set_takeD)
    then show ?thesis using other(3) [OF that] by (simp add: on_path_def)
  qed
  have "one_space W U v' r"
    unfolding one_space_def
  proof (intro conjI allI impI ballI)
    show "vm_ok v' r" by (rule e)
  next
    fix q u
    assume "path 3 q" "tab (phys v') r q = Some u"
    then show "unat u div 4096 \<notin> U" using e(6) disj one [OF r] unfolding one_space_def by blast
  next
    fix x
    assume "x \<in> W"
    then show "small_leaf (phys v') r (ix x)" using small by blast
  next
    fix x d
    assume "x \<in> W" and "d \<in> dir_ents (phys v') r (ix x)"
    then have "d \<in> dir_ents (phys v) r (ix x) \<or> d \<in> pointers VMM_FLAG_USER"
      using dir path_ix [of x] unfolding dirs_def by blast
    then show "good_dir d"
      using one [OF r] \<open>x \<in> W\<close> pointer_bits [of d VMM_FLAG_USER]
      by (auto simp: one_space_def good_dir_def flag_bits)
  qed
  moreover have "one_space W U v' r'" if r': "r' \<in> R" "r' \<noteq> r" for r'
  proof -
    have dir': "dir_ents (phys v') r' (ix x) = dir_ents (phys v) r' (ix x)" for x
    proof (rule dir_ents_cong)
      have slots: "phys v' (slot u i) = phys v (slot u i)"
        if "path 3 q" "tab (phys v) r' q = Some u" "i < 512" for q u i
        using e(5) ap' [OF r'] that(1,2) table_not_free [OF okv [OF r'(1)] that(1,2)] that(3)
          tab_aligned [OF pt_okD(1) [OF vm_ok_pt [OF okv [OF r'(1)]]] that(2)] by blast
      have pn: "path 3 (take n (ix x))" "ix x ! n < 512" if "n \<le> 2" for n
        using path_mono [OF path_take [OF path_ix(1)], of n 3] take_Suc_path [OF path_ix(1,2), of n] that
        by auto
      show "tab (phys v') r' (take n (ix x)) = tab (phys v) r' (take n (ix x))" if "n \<le> 2" for n
        using tab3 [OF r' pn(1) [OF that]] .
      show "phys v' (slot u (ix x ! n)) = phys v (slot u (ix x ! n))"
        if "n \<le> 2" "tab (phys v) r' (take n (ix x)) = Some u" for n u
        using slots [OF pn(1) [OF that(1)] that(2) pn(2) [OF that(1)]] .
    qed
    show ?thesis
      using one [OF r'(1)] other [OF r'] tab3 [OF r'] unfolding one_space_def small_leaf_def
      by (simp add: dir')
  qed
  moreover have "apart W v' a b" if ab: "a \<in> R" "b \<in> R" "a \<noteq> b" for a b
    unfolding apart_def
  proof (intro ballI allI impI)
    fix x q u
    assume x: "x \<in> W" and q: "path 3 q" "tab (phys v') b q = Some u"
    have old: "\<not> on_path (phys v) a (ix x) u" if "tab (phys v) b q = Some u"
      using ap [OF ab] x q(1) that by (auto simp: apart_def)
    show "\<not> on_path (phys v') a (ix x) u"
    proof (cases "a = r")
      case True
      then have tb: "tab (phys v) b q = Some u" using tab3 ab q by simp
      then show ?thesis
        using extends_path [OF ext _ path_ix(1)] old table_not_free [OF okv [OF ab(2)] q(1)] True by blast
    next
      case False
      show ?thesis
      proof
        assume "on_path (phys v') a (ix x) u"
        then have on: "on_path (phys v) a (ix x) u" using onp ab(1) False by simp
        then obtain p where p: "path 3 p" "tab (phys v) a p = Some u" using on_path_table path_ix(1) by blast
        have "unat u div 4096 \<notin> free_frames (frames v)" using table_not_free [OF okv [OF ab(1)] p] .
        then have "tab (phys v) b q = Some u"
          using e(6) [OF q(1)] tab3 [OF ab(2) _ q(1)] q(2) by (cases "b = r") auto
        then show False using old on by blast
      qed
    qed
  qed
  ultimately show "spaces W R U nx v'"
    using e(1,3,4) U nx unfolding spaces_def by (metis order_trans vm_ok_def)
qed

section \<open>Mapping and unmapping below the window\<close>

definition user_flags :: "u64 \<Rightarrow> bool" where "user_flags fl \<longleftrightarrow> fl = VMM_USER_RO \<or> fl = VMM_USER_RW"

definition nx_flags :: "bool \<Rightarrow> u64 \<Rightarrow> u64" where
  "nx_flags nx fl = (if nx then fl else fl AND NOT VMM_FLAG_NX)"

lemma user_flags_bits:
  assumes "user_flags fl"
  shows "bit (nx_flags nx fl) n \<longrightarrow> n = 0 \<or> n = 1 \<or> n = 2 \<or> n = 63"
    and "bit (nx_flags nx fl) 0" and "bit (nx_flags nx fl) 2" and "nx_flags nx fl AND VMM_FLAG_USER = VMM_FLAG_USER"
proof -
  show b: "bit (nx_flags nx fl) n \<longrightarrow> n = 0 \<or> n = 1 \<or> n = 2 \<or> n = 63"
    and "bit (nx_flags nx fl) 0" and two: "bit (nx_flags nx fl) 2"
    using assms
    by (auto simp: user_flags_def VMM_USER_RO_def VMM_USER_RW_def nx_flags_def bit_or_iff bit_and_iff
        bit_not_iff_eq flag_bits)
  show "nx_flags nx fl AND VMM_FLAG_USER = VMM_FLAG_USER"
    by (rule bit_word_eqI) (use two in \<open>auto simp: bit_and_iff flag_bits\<close>)
qed

text \<open>What an address translates to: physical address and effective rights.\<close>

definition look_up :: "u64 \<Rightarrow> u64 \<Rightarrow> vmm \<Rightarrow> u64 \<times> u64" where
  "look_up r va v = (vmm_get_physical_in r va v, vmm_get_effective_flags_in r va v)"

definition page_value :: "bool \<Rightarrow> u64 \<Rightarrow> u64 \<Rightarrow> u64 \<Rightarrow> u64 \<times> u64" where
  "page_value nx fl va pa =
     ((pa AND VMM_ADDR_MASK) OR VMM_PAGE_OFFSET va, nx_flags nx fl OR (pa AND VMM_FLAG_NX))"

lemma look_up_walk: "vm_ok v r \<Longrightarrow>
    look_up r va v = (leaf_phys va (walk (phys v) r (ix va)), leaf_flags (walk (phys v) r (ix va)))"
  by (simp add: look_up_def walks)

lemma page_value_leaf:
  fixes pa :: u64 and nx :: bool
  assumes "user_flags fl" and es: "\<forall>e\<in>set es. good_dir e"
  defines "pte \<equiv> (pa AND NOT 0xFFF) OR nx_flags nx fl OR VMM_FLAG_PRESENT"
  shows "(leaf_phys va (Some (es @ [pte], [])), leaf_flags (Some (es @ [pte], []))) = page_value nx fl va pa"
proof -
  note fl = user_flags_bits [OF assms(1), of nx]
  have m12: "(0xFFF :: u64) = mask 12" by (simp add: mask_eq_exp_minus_1)
  have pte: "bit pte n \<longleftrightarrow> bit pa n \<and> 12 \<le> n \<and> n < 64 \<or> bit (nx_flags nx fl) n \<or> n = 0" for n
    unfolding pte_def m12
    by (auto simp: bit_or_iff bit_and_iff bit_not_iff_eq bit_mask_iff flag_bits dest: bit_imp_le_length)
  have "\<not> bit (nx_flags nx fl) n" if "12 \<le> n" "n < 52" for n using fl(1) [of n] that by auto
  then have "pte AND VMM_ADDR_MASK = pa AND VMM_ADDR_MASK"
    by (intro bit_word_eqI) (auto simp: bit_and_iff bit_addr_mask pte)
  moreover have "va AND mask 12 = VMM_PAGE_OFFSET va" by (simp only: VMM_PAGE_OFFSET_def m12)
  moreover have "leaf_flags (Some (es @ [pte], [])) = nx_flags nx fl OR (pa AND VMM_FLAG_NX)"
  proof (rule bit_word_eqI)
    fix n :: nat
    show "bit (leaf_flags (Some (es @ [pte], []))) n = bit (nx_flags nx fl OR (pa AND VMM_FLAG_NX)) n"
      using fl(1) [of n] fl(2,3) es
      by (auto simp: leaf_flags_bits pte good_dir_def bit_or_iff bit_and_iff flag_bits)
  qed
  ultimately show ?thesis by (simp add: page_value_def leaf_phys_def)
qed

lemma spaces_one: "spaces W R U nx v \<Longrightarrow> r \<in> R \<Longrightarrow> one_space W U v r"
  by (simp add: spaces_def)

lemma spaces_ok: "spaces W R U nx v \<Longrightarrow> r \<in> R \<Longrightarrow> vm_ok v r"
  by (simp add: spaces_def one_space_def)

lemma spaces_small: "spaces W R U nx v \<Longrightarrow> r \<in> R \<Longrightarrow> va \<in> W \<Longrightarrow> small_leaf (phys v) r (ix va)"
  by (simp add: spaces_def one_space_def)

lemma spaces_map:
  assumes sp: "spaces W R U nx v" and r: "r \<in> R" and va: "va \<in> W" and fl: "user_flags fl"
    and run: "vmm_map_page_in r va pa fl v = (rc, v')"
  shows "spaces W R U nx v'"
    and "look_up r va v' = (if rc = 0 then page_value nx fl va pa else look_up r va v)"
    and "ix va' \<noteq> ix va \<Longrightarrow> look_up r va' v' = look_up r va' v"
    and "r' \<in> R \<Longrightarrow> r' \<noteq> r \<Longrightarrow> look_up r' x v' = look_up r' x v"
proof -
  have ok: "vm_ok v r" and small: "small_leaf (phys v) r (ix va)"
    using spaces_ok [OF sp r] spaces_small [OF sp r va] by simp_all
  have nx: "g_nx_enabled v = nx" using sp by (simp add: spaces_def)
  have flx: "(if g_nx_enabled v then fl else fl AND NOT VMM_FLAG_NX) = nx_flags nx fl"
    by (simp add: nx_flags_def nx)
  note mw = map_walk [OF ok small_leaf_ready [OF small] run, unfolded flx user_flags_bits(4) [OF fl]]
  have ok': "vm_ok v' r" using extends_ok [OF mw(1)] .
  have keep: "walk (phys v') r (ix x) = walk (phys v) r (ix x)" if "ix x \<noteq> ix va" for x
    using mw(6) [OF path_ix(1,2) that]
  proof
    assume "take 3 (ix x) = take 3 (ix va) \<and> broken r VMM_FLAG_USER v v' (ix x)"
    then obtain es e where "walk (phys v) r (ix x) = Some (es @ [e], [ix x ! 3])"
      and eq: "take 3 (ix x) = take 3 (ix va)" by (auto simp: broken_def)
    then have "walk (phys v) r (ix va) = Some (es @ [e], [ix va ! 3])"
      using walk_block [OF path_ix(2) path_ix(2)] by blast
    then show ?thesis using small by (simp add: small_leaf_def)
  qed
  have fail: "walk (phys v') r (ix x) = walk (phys v) r (ix x)" if "rc \<noteq> 0" for x
    using mw(3) [OF that] by (simp add: same_walks_def)
  have "small_leaf (phys v') r (ix x)" if "x \<in> W" for x
  proof (cases "ix x = ix va \<and> rc = 0")
    case True
    then show ?thesis using mw(5) by (auto simp: small_leaf_def)
  next
    case False
    then show ?thesis using keep fail spaces_small [OF sp r that] by (auto simp: small_leaf_def)
  qed
  then have small': "\<forall>x\<in>W. small_leaf (phys v') r (ix x)" by blast
  note step = spaces_step [OF sp r va mw(1,4) small']
  show sp': "spaces W R U nx v'" using step(1) .
  have "\<forall>e\<in>set es. good_dir e" if "set es \<subseteq> dir_ents (phys v) r (ix va) \<union> pointers VMM_FLAG_USER" for es
    using that spaces_one [OF sp r] va pointer_bits [of _ VMM_FLAG_USER]
    by (fastforce simp: one_space_def good_dir_def flag_bits)
  then show "look_up r va v' = (if rc = 0 then page_value nx fl va pa else look_up r va v)"
    using mw(5) fail page_value_leaf [OF fl] by (auto simp: look_up_walk [OF ok] look_up_walk [OF ok'])
  show "look_up r va' v' = look_up r va' v" if "ix va' \<noteq> ix va"
    using keep [OF that] by (simp add: look_up_walk [OF ok] look_up_walk [OF ok'])
  show "look_up r' x v' = look_up r' x v" if "r' \<in> R" "r' \<noteq> r"
    using step(2) [OF that path_ix(1)]
    by (simp add: look_up_walk [OF spaces_ok [OF sp that(1)]] look_up_walk [OF spaces_ok [OF sp' that(1)]])
qed

lemma spaces_unmap:
  assumes sp: "spaces W R U nx v" and r: "r \<in> R" and va: "va \<in> W"
  defines "v' \<equiv> vmm_unmap_page_in r va v"
  shows "spaces W R U nx v'" and "look_up r va v' = (0, 0)"
    and "ix va' \<noteq> ix va \<Longrightarrow> look_up r va' v' = look_up r va' v"
    and "r' \<in> R \<Longrightarrow> r' \<noteq> r \<Longrightarrow> look_up r' x v' = look_up r' x v"
    and "frames v' = frames v"
proof -
  have ok: "vm_ok v r" and small: "small_leaf (phys v) r (ix va)"
    using spaces_ok [OF sp r] spaces_small [OF sp r va] by simp_all
  note un = unmap_walk [OF ok map_ready_no_1g [OF small_leaf_ready [OF small]], folded v'_def]
  have ok': "vm_ok v' r" using extends_ok [OF un(1)] .
  have large: "\<not> large_leaf (phys v) r (ix va)"
    using small by (auto simp: small_leaf_def large_leaf_def split: option.splits)
  have keep: "walk (phys v') r (ix x) = walk (phys v) r (ix x)" if "ix x \<noteq> ix va" for x
    using un(4) [OF path_ix(1,2) that] large by simp
  have "small_leaf (phys v') r (ix x)" if "x \<in> W" for x
    using keep un(3) spaces_small [OF sp r that] by (cases "ix x = ix va") (auto simp: small_leaf_def)
  then have small': "\<forall>x\<in>W. small_leaf (phys v') r (ix x)" by blast
  have dir: "dirs r (pointers VMM_FLAG_USER) v v'" using dirs_mono [OF un(5)] by simp
  note step = spaces_step [OF sp r va un(1) dir small']
  show sp': "spaces W R U nx v'" using step(1) .
  show "look_up r va v' = (0, 0)" using un(3) by (simp add: look_up_walk [OF ok'] leaf_phys_def leaf_flags_def)
  show "look_up r va' v' = look_up r va' v" if "ix va' \<noteq> ix va"
    using keep [OF that] by (simp add: look_up_walk [OF ok] look_up_walk [OF ok'])
  show "look_up r' x v' = look_up r' x v" if "r' \<in> R" "r' \<noteq> r"
    using step(2) [OF that path_ix(1)]
    by (simp add: look_up_walk [OF spaces_ok [OF sp that(1)]] look_up_walk [OF spaces_ok [OF sp' that(1)]])
  show "frames v' = frames v" by (rule un(2))
qed

lemma look_up_blank:
  assumes "vm_ok v r"
  shows "look_up r va v = (0, 0) \<longleftrightarrow> walk (phys v) r (ix va) = None"
proof -
  have "\<exists>es rest. walk (phys v) r (ix va) = Some (es, rest)" if "walk (phys v) r (ix va) \<noteq> None"
    using that by auto
  moreover have "leaf_flags (Some (es, rest)) \<noteq> 0" for es rest
    using leaf_flags_bits [of es rest 0] by auto
  ultimately show ?thesis
    by (auto simp: look_up_walk [OF assms] leaf_phys_def leaf_flags_def split: option.splits)
qed

definition other_spaces :: "u64 set \<Rightarrow> u64 \<Rightarrow> vmm \<Rightarrow> u64 \<Rightarrow> u64 \<Rightarrow> u64 \<times> u64" where
  "other_spaces R r v = (\<lambda>r' va. if r' \<in> R \<and> r' \<noteq> r then look_up r' va v else (0, 0))"

interpretation vmm_mapper: page_mapper
  "\<lambda>v. spaces W R U nx v \<and> r \<in> R \<and> user_flags fl" W "\<lambda>va va'. ix va = ix va'"
  "look_up r" "(0, 0)" "other_spaces R r"
  "\<lambda>va pa. vmm_map_page_in r va pa fl" "vmm_unmap_page_in r" "page_value nx fl"
  for W R U nx r fl
proof (unfold_locales, goal_cases)
  case (1 v va pa rc v')
  then show ?case using spaces_map by (fastforce simp: other_spaces_def intro!: ext)
next
  case (2 v va pa rc v')
  then show ?case using spaces_map(2) by blast
next
  case (3 v va pa rc v' va')
  then show ?case using spaces_map(3) by blast
next
  case (4 v va)
  then show ?case using spaces_unmap by (fastforce simp: other_spaces_def intro!: ext)
next
  case (5 v va)
  then show ?case using spaces_unmap(2) by blast
next
  case (6 v va va')
  then show ?case using spaces_unmap(3) by blast
next
  case (7 v va' va)
  then show ?case using look_up_blank [OF spaces_ok] by metis
qed simp_all

section \<open>Runs of pages\<close>

lemma index_bits:
  fixes a b :: u64
  assumes "unat (drop_bit k a AND 0x1FF) = unat (drop_bit k b AND 0x1FF)" and "n < 9"
  shows "bit a (k + n) = bit b (k + n)"
proof -
  have m9: "(0x1FF :: u64) = mask 9" by (simp add: mask_eq_exp_minus_1)
  have "drop_bit k a AND 0x1FF = drop_bit k b AND 0x1FF" using assms(1) by (simp only: word_unat_eq_iff)
  then have "bit (drop_bit k a AND mask 9) n = bit (drop_bit k b AND mask 9) n" unfolding m9 by simp
  then show ?thesis using assms(2) by (simp add: bit_and_iff bit_mask_iff bit_drop_bit_eq)
qed

lemma ix_eq_page:
  assumes "ix a = ix b" and "unat a < 2 ^ 48" and "unat b < 2 ^ 48"
  shows "unat a div 4096 = unat b div 4096"
proof -
  have high: "\<not> bit x n" if "unat x < 2 ^ 48" "48 \<le> n" for x :: u64 and n
  proof -
    have "take_bit 48 x = x"
      using that(1) by (metis take_bit_nat_eq_self_iff unsigned_take_bit_eq word_unat_eq_iff)
    then show ?thesis using that(2) by (metis bit_take_bit_iff not_le)
  qed
  have eqs: "VMM_PML4_INDEX a = VMM_PML4_INDEX b" "VMM_PDPT_INDEX a = VMM_PDPT_INDEX b"
    "VMM_PD_INDEX a = VMM_PD_INDEX b" "VMM_PT_INDEX a = VMM_PT_INDEX b"
    using assms(1) by (simp_all add: ix_def)
  have "bit a n = bit b n" if "12 \<le> n" for n
  proof -
    consider "n < 21" | "21 \<le> n" "n < 30" | "30 \<le> n" "n < 39" | "39 \<le> n" "n < 48" | "48 \<le> n"
      by linarith
    then show ?thesis
    proof cases
      case 1
      then show ?thesis using index_bits [of 12 a b "n - 12"] eqs(4) that by (simp add: VMM_PT_INDEX_def)
    next
      case 2
      then show ?thesis using index_bits [of 21 a b "n - 21"] eqs(3) by (simp add: VMM_PD_INDEX_def)
    next
      case 3
      then show ?thesis using index_bits [of 30 a b "n - 30"] eqs(2) by (simp add: VMM_PDPT_INDEX_def)
    next
      case 4
      then show ?thesis using index_bits [of 39 a b "n - 39"] eqs(1) by (simp add: VMM_PML4_INDEX_def)
    next
      case 5
      then show ?thesis using high assms(2,3) by simp
    qed
  qed
  then have "drop_bit 12 a = drop_bit 12 b"
    by (intro bit_word_eqI) (simp add: bit_drop_bit_eq)
  then have "unat (drop_bit 12 a) = unat (drop_bit 12 b)" by (rule arg_cong)
  then have "drop_bit 12 (unat a) = drop_bit 12 (unat b)" by (simp only: unat_drop_bit_eq)
  then show ?thesis by (simp add: drop_bit_eq_div)
qed

lemma unat_nth_page:
  assumes "unat va + i * 4096 < 2 ^ 64"
  shows "unat (nth_page va i) = unat va + i * 4096"
proof -
  have "unat (of_nat i * VMM_PAGE_SIZE_4K :: u64) = i * 4096"
    using assms by (simp add: VMM_PAGE_SIZE_4K_def unat_word_ariths unat_of_nat)
  then show ?thesis using assms by (simp add: unat_word_ariths)
qed

text \<open>A run of pages inside a window below \<open>2^48\<close>.\<close>

definition in_window :: "u64 set \<Rightarrow> u64 \<Rightarrow> nat \<Rightarrow> bool" where
  "in_window W va n \<longleftrightarrow> (\<forall>i<n. nth_page va i \<in> W) \<and> unat va + n * 4096 \<le> 2 ^ 48"

lemma run_okI:
  assumes "in_window W va n"
  shows "vmm_mapper.run_ok W va n"
  unfolding vmm_mapper.run_ok_def
proof (intro allI impI conjI)
  fix i j
  assume ij: "i < n" "j < i"
  have le: "unat va + i * 4096 < 2 ^ 48" "unat va + j * 4096 < 2 ^ 48"
    using assms ij by (auto simp: in_window_def)
  then have u: "unat (nth_page va i) = unat va + i * 4096" "unat (nth_page va j) = unat va + j * 4096"
    by (simp_all add: unat_nth_page)
  show "ix (nth_page va i) \<noteq> ix (nth_page va j)"
  proof
    assume "ix (nth_page va i) = ix (nth_page va j)"
    then have "(unat va + i * 4096) div 4096 = (unat va + j * 4096) div 4096"
      using ix_eq_page [of "nth_page va i" "nth_page va j"] le by (simp only: u)
    then show False using ij(2) by simp
  qed
qed (use assms in \<open>simp add: in_window_def\<close>)

section \<open>Taking and giving back frames\<close>

lemma pt_ok_frames:
  assumes "pt_ok m F r" and "\<And>q u. path 3 q \<Longrightarrow> tab m r q = Some u \<Longrightarrow> unat u div 4096 \<notin> F'"
  shows "pt_ok m F' r"
  using assms(1) assms(2) unfolding pt_ok_def by blast

lemma apart_cong:
  assumes "apart W v a b" and "\<And>q. path 3 q \<Longrightarrow> tab (phys v') a q = tab (phys v) a q"
    and "\<And>q. path 3 q \<Longrightarrow> tab (phys v') b q = tab (phys v) b q"
  shows "apart W v' a b"
proof -
  have "on_path (phys v') a (ix x) u = on_path (phys v) a (ix x) u" for x u
  proof -
    have "path 3 (take n (ix x))" if "n \<le> 3" for n
      using path_mono [OF path_take [OF path_ix(1) that] that] .
    then have "tab (phys v') a (take n (ix x)) = tab (phys v) a (take n (ix x))" if "n \<le> 3" for n
      using assms(2) that by blast
    then show ?thesis unfolding on_path_def by (metis (no_types, lifting))
  qed
  then show ?thesis using assms(1,3) unfolding apart_def by simp
qed

text \<open>Frames that were free are handed to an owner and overwritten.\<close>

lemma spaces_take:
  assumes sp: "spaces W R U nx v" and P: "P \<subseteq> free_frames (frames v)" and inv: "pmm_inv fr"
    and free: "free_frames fr = free_frames (frames v) - P" and used: "used_frames fr = used_frames (frames v) \<union> P"
    and mem: "\<And>a. unat a div 4096 \<notin> P \<Longrightarrow> m a = phys v a"
  shows "spaces W R (U \<union> P) nx (v\<lparr>frames := fr, phys := m\<rparr>)"
    and "r \<in> R \<Longrightarrow> look_up r va (v\<lparr>frames := fr, phys := m\<rparr>) = look_up r va v"
proof -
  let ?v = "v\<lparr>frames := fr, phys := m\<rparr>"
  have same: "\<forall>t i. aligned t \<longrightarrow> i < 512 \<longrightarrow> unat t div 4096 \<notin> free_frames (frames v) \<longrightarrow>
      m (slot t i) = phys v (slot t i)"
    using mem slot_page P by (metis subsetD)
  have one: "one_space W U v r" "pt_ok (phys v) (free_frames (frames v)) r" if "r \<in> R" for r
    using spaces_one [OF sp that] by (simp_all add: one_space_def vm_ok_def)
  note ff = fill_free [OF one(2) same]
  have tab3: "tab m r q = tab (phys v) r q" if "r \<in> R" "path 3 q" for r q
    using ff(2) [OF that(1) path_mono [OF that(2)]] by simp
  have ok: "vm_ok ?v r" if "r \<in> R" for r
  proof -
    have "pt_ok m (free_frames (frames v) - P) r"
      using pt_ok_frames [OF ff(1) [OF that]] pt_okD(3) [OF ff(1) [OF that]] by blast
    then show ?thesis using spaces_ok [OF sp that] inv free by (simp add: vm_ok_def)
  qed
  have "one_space W (U \<union> P) ?v r" if r: "r \<in> R" for r
  proof -
    have "dir_ents m r (ix x) = dir_ents (phys v) r (ix x)" for x
    proof (rule dir_ents_cong)
      have pn: "path 3 (take n (ix x))" "ix x ! n < 512" if "n \<le> 2" for n
        using path_mono [OF path_take [OF path_ix(1)], of n 3] take_Suc_path [OF path_ix(1,2), of n] that
        by auto
      show "tab m r (take n (ix x)) = tab (phys v) r (take n (ix x))" if "n \<le> 2" for n
        using tab3 [OF r pn(1) [OF that]] .
      show "m (slot u (ix x ! n)) = phys v (slot u (ix x ! n))"
        if "n \<le> 2" "tab (phys v) r (take n (ix x)) = Some u" for n u
        using same tab_aligned [OF pt_okD(1) [OF one(2) [OF r]] that(2)]
          pt_okD(3) [OF one(2) [OF r] pn(1) [OF that(1)] that(2)] pn(2) [OF that(1)] by blast
    qed
    moreover have "unat u div 4096 \<notin> U \<union> P" if "path 3 q" "tab m r q = Some u" for q u
      using one [OF r] that tab3 [OF r that(1)] P pt_okD(3) [OF one(2) [OF r] that(1)]
      by (auto simp: one_space_def)
    ultimately show ?thesis
      using one(1) [OF r] ok [OF r] ff(3) [OF r path_ix(1)] by (simp add: one_space_def small_leaf_def)
  qed
  moreover have "apart W ?v a b" if "a \<in> R" "b \<in> R" "a \<noteq> b" for a b
    using apart_cong [of W v a b ?v] tab3 that sp by (simp add: spaces_def)
  ultimately show "spaces W R (U \<union> P) nx ?v"
    using sp inv used by (auto simp: spaces_def)
  show "look_up r va ?v = look_up r va v" if "r \<in> R"
    using ff(3) [OF that path_ix(1)] by (simp add: look_up_walk [OF ok [OF that]] look_up_walk [OF spaces_ok [OF sp that]])
qed

text \<open>An owner gives frames back.\<close>

lemma spaces_give:
  assumes sp: "spaces W R U nx v" and P: "P \<subseteq> U" and inv: "pmm_inv fr"
    and win: "window fr = window (frames v)" and used: "used_frames fr = used_frames (frames v) - P"
  shows "spaces W R (U - P) nx (v\<lparr>frames := fr\<rparr>)"
    and "r \<in> R \<Longrightarrow> look_up r va (v\<lparr>frames := fr\<rparr>) = look_up r va v"
proof -
  let ?v = "v\<lparr>frames := fr\<rparr>"
  have free: "free_frames fr \<subseteq> free_frames (frames v) \<union> P"
    using frames_window [of fr] frames_window [of "frames v"] frames_disjoint [of fr] win used by blast
  have ok: "vm_ok ?v r" if "r \<in> R" for r
  proof -
    have "pt_ok (phys v) (free_frames fr) r"
    proof (rule pt_ok_frames)
      show "pt_ok (phys v) (free_frames (frames v)) r" using vm_ok_pt [OF spaces_ok [OF sp that]] .
      show "unat u div 4096 \<notin> free_frames fr" if q: "path 3 q" "tab (phys v) r q = Some u" for q u
        using free P spaces_one [OF sp \<open>r \<in> R\<close>] table_not_free [OF spaces_ok [OF sp \<open>r \<in> R\<close>] q] q
        unfolding one_space_def by blast
    qed
    then show ?thesis using spaces_ok [OF sp that] inv by (simp add: vm_ok_def)
  qed
  then show "spaces W R (U - P) nx ?v"
    using sp inv used by (auto simp: spaces_def one_space_def apart_def)
  show "look_up r va ?v = look_up r va v" if "r \<in> R"
    by (simp add: look_up_walk [OF ok [OF that]] look_up_walk [OF spaces_ok [OF sp that]])
qed

end
