(* ===== verification/Shm.thy ===== *)
theory Shm
  imports Pagemap
begin

text \<open>
  Shared memory, after \<open>kernel/ipc/shm.c\<close> and \<open>shm.h\<close>, with the ownership rule of
  \<open>rustkern/capgate.rs\<close>: a table of 64 regions, each a run of physical pages with the list of processes
  that map it. Frames come from the page allocator (\<open>Pmm\<close>), mappings go through the page tables (\<open>Vmm\<close>).
\<close>

unbundle bit_operations_syntax

section \<open>Data\<close>

definition SHM_MAX_REGIONS :: nat where "SHM_MAX_REGIONS = 64"
definition SHM_MAX_SIZE :: u64 where "SHM_MAX_SIZE = 16 * 1024 * 1024"
definition SHM_FLAG_READONLY :: u32 where "SHM_FLAG_READONLY = 1"
definition SHM_FLAG_EXCLUSIVE :: u32 where "SHM_FLAG_EXCLUSIVE = 2"
definition SHM_VIRT_BASE :: u64 where "SHM_VIRT_BASE = 0x0000700000000000"
definition SHM_VIRT_SIZE :: u64 where "SHM_VIRT_SIZE = 0x0000001000000000"

datatype shm_state = SHM_STATE_FREE | SHM_STATE_ALLOCATED | SHM_STATE_MAPPED

record shm_mapping =
  m_pid :: u32
  m_virt_addr :: u64

record shm_region =
  r_state :: shm_state
  creator_pid :: u32
  creator_tgid :: u32
  r_phys_addr :: u64
  r_size :: u64
  r_flags :: u32
  ref_count :: u32
  mappings :: "shm_mapping list"

text \<open>The table, the address hint, the machine's memory and page allocator, and the two counters of the
  capability gate. A region's \<open>id\<close> is its index.\<close>

record shm_sys =
  shm_regions :: "shm_region list"
  shm_next_vaddr :: u64
  shm_vm :: vmm
  shm_refused :: u32
  shm_allowed :: u32

text \<open>What the calls use of the current process.\<close>

record shm_proc =
  p_pid :: u32
  p_tgid :: u32
  p_cr3 :: u64

definition zero_region :: shm_region where
  "zero_region = \<lparr>r_state = SHM_STATE_FREE, creator_pid = 0, creator_tgid = 0, r_phys_addr = 0,
     r_size = 0, r_flags = 0, ref_count = 0, mappings = []\<rparr>"

definition shm_init :: "shm_sys \<Rightarrow> shm_sys" where
  "shm_init s = s\<lparr>shm_regions := replicate SHM_MAX_REGIONS zero_region\<rparr>"

section \<open>The ownership rule\<close>

definition capgate_tgid_of_rs :: "u32 \<Rightarrow> u32 \<Rightarrow> u32" where
  "capgate_tgid_of_rs pid tgid = (if tgid \<noteq> 0 then tgid else pid)"

definition capgate_owner_ok_rs :: "u32 \<Rightarrow> u32 \<Rightarrow> u32 \<Rightarrow> u32 \<Rightarrow> bool" where
  "capgate_owner_ok_rs owner_pid owner_tgid cur_pid cur_tgid =
     (if owner_pid = 0 then False
      else if cur_pid = 0 then False
      else
        let g_owner = capgate_tgid_of_rs owner_pid owner_tgid;
            g_cur = capgate_tgid_of_rs cur_pid cur_tgid
        in g_owner \<noteq> 0 \<and> g_owner = g_cur)"

definition capgate_caller_owns :: "shm_proc option \<Rightarrow> u32 \<Rightarrow> u32 \<Rightarrow> bool" where
  "capgate_caller_owns cur owner_pid owner_tgid =
     (case cur of None \<Rightarrow> False
      | Some p \<Rightarrow> capgate_owner_ok_rs owner_pid owner_tgid (p_pid p) (p_tgid p))"

section \<open>Helpers\<close>

definition page_round :: "u64 \<Rightarrow> u64" where "page_round sz = (sz + 0xFFF) AND NOT 0xFFF"

definition shm_find_vaddr :: "u64 \<Rightarrow> shm_sys \<Rightarrow> u64 \<times> shm_sys" where
  "shm_find_vaddr sz s =
     (let addr = shm_next_vaddr s; next_vaddr = addr + page_round sz in
      if next_vaddr \<ge> SHM_VIRT_BASE + SHM_VIRT_SIZE
      then (SHM_VIRT_BASE, s\<lparr>shm_next_vaddr := SHM_VIRT_BASE + page_round sz\<rparr>)
      else (addr, s\<lparr>shm_next_vaddr := next_vaddr\<rparr>))"

definition shm_find_mapping :: "shm_region \<Rightarrow> u32 \<Rightarrow> shm_mapping option" where
  "shm_find_mapping region pid = List.find (\<lambda>m. m_pid m = pid) (mappings region)"

text \<open>\<open>kmalloc\<close> is the answer of the allocator.\<close>

definition shm_add_mapping :: "bool \<Rightarrow> shm_region \<Rightarrow> u32 \<Rightarrow> u64 \<Rightarrow> shm_region option" where
  "shm_add_mapping kmalloc region pid vaddr =
     (if \<not> kmalloc then None
      else Some (region\<lparr>mappings := \<lparr>m_pid = pid, m_virt_addr = vaddr\<rparr> # mappings region,
                        ref_count := ref_count region + 1\<rparr>))"

primrec drop_mapping :: "u32 \<Rightarrow> shm_mapping list \<Rightarrow> shm_mapping list option" where
  "drop_mapping pid [] = None"
| "drop_mapping pid (m # ms) =
     (if m_pid m = pid then Some ms else map_option ((#) m) (drop_mapping pid ms))"

definition shm_remove_mapping :: "shm_region \<Rightarrow> u32 \<Rightarrow> shm_region" where
  "shm_remove_mapping region pid =
     (case drop_mapping pid (mappings region) of
        None \<Rightarrow> region
      | Some ms \<Rightarrow> region\<lparr>mappings := ms, ref_count := ref_count region - 1\<rparr>)"

definition set_region :: "nat \<Rightarrow> shm_region \<Rightarrow> shm_sys \<Rightarrow> shm_sys" where
  "set_region i r s = s\<lparr>shm_regions := (shm_regions s)[i := r]\<rparr>"

definition valid_id :: "int \<Rightarrow> bool" where
  "valid_id i \<longleftrightarrow> \<not> (i < 0 \<or> i \<ge> int SHM_MAX_REGIONS)"

section \<open>Creating\<close>

text \<open>\<open>memset(phys_addr, 0, sz)\<close> through the identity map.\<close>

definition zero_range :: "u64 \<Rightarrow> u64 \<Rightarrow> vmm \<Rightarrow> vmm" where
  "zero_range p sz v = v\<lparr>phys := (\<lambda>a. if a - p < sz then 0 else phys v a)\<rparr>"

text \<open>\<open>None\<close>: the page allocator does not return.\<close>

definition sys_shm_create :: "shm_proc option \<Rightarrow> u64 \<Rightarrow> u32 \<Rightarrow> shm_sys \<Rightarrow> (int \<times> shm_sys) option" where
  "sys_shm_create cur sz0 flags s =
     (case cur of
        None \<Rightarrow> Some (-1, s)
      | Some p \<Rightarrow>
          if sz0 = 0 \<or> sz0 > SHM_MAX_SIZE then Some (-1, s)
          else
            let sz = page_round sz0 in
            (case find_idx (\<lambda>r. r_state r = SHM_STATE_FREE) (shm_regions s) of
               None \<Rightarrow> Some (-1, s)
             | Some i \<Rightarrow>
                 let num_pages = sz div VMM_PAGE_SIZE_4K in
                 (case pmm_alloc_pages (frames (shm_vm s)) num_pages of
                    None \<Rightarrow> None
                  | Some (phys_addr, fr) \<Rightarrow>
                      let s1 = s\<lparr>shm_vm := (shm_vm s)\<lparr>frames := fr\<rparr>\<rparr> in
                      if phys_addr = 0 then Some (-1, s1)
                      else Some (int i,
                        set_region i ((shm_regions s ! i)\<lparr>r_state := SHM_STATE_ALLOCATED,
                            creator_pid := p_pid p, r_phys_addr := phys_addr, r_size := sz,
                            r_flags := flags, ref_count := 0, mappings := [],
                            creator_tgid := capgate_tgid_of_rs (p_pid p) (p_tgid p)\<rparr>)
                          (s1\<lparr>shm_vm := zero_range phys_addr sz (shm_vm s1)\<rparr>)))))"

section \<open>Mapping and unmapping\<close>

definition num_pages :: "shm_region \<Rightarrow> nat" where
  "num_pages region = unat (r_size region div VMM_PAGE_SIZE_4K)"

definition map_flags :: "shm_region \<Rightarrow> u32 \<Rightarrow> u64" where
  "map_flags region pid =
     (if r_flags region AND SHM_FLAG_READONLY \<noteq> 0 \<and> creator_pid region \<noteq> pid
      then VMM_USER_RO else VMM_USER_RW)"

text \<open>The answer, and what is stored through \<open>addr\<close>.\<close>

definition sys_shm_map ::
    "shm_proc option \<Rightarrow> int \<Rightarrow> bool \<Rightarrow> shm_sys \<Rightarrow> (int \<times> u64 option) \<times> shm_sys" where
  "sys_shm_map cur shm_id kmalloc s =
     (case cur of
        None \<Rightarrow> ((-1, None), s)
      | Some p \<Rightarrow>
          if \<not> valid_id shm_id then ((-1, None), s)
          else
            let i = nat shm_id; region = shm_regions s ! i in
            if r_state region = SHM_STATE_FREE then ((-1, None), s)
            else if \<not> capgate_caller_owns cur (creator_pid region) (creator_tgid region)
              then ((-1, None), s\<lparr>shm_refused := shm_refused s + 1\<rparr>)
            else
              let s1 = s\<lparr>shm_allowed := shm_allowed s + 1\<rparr> in
              if shm_find_mapping region (p_pid p) \<noteq> None then ((-1, None), s1)
              else if r_flags region AND SHM_FLAG_EXCLUSIVE \<noteq> 0 \<and> ref_count region > 0
                then ((-1, None), s1)
              else
                let (vaddr, s2) = shm_find_vaddr (r_size region) s1;
                    vmm_flags = map_flags region (p_pid p);
                    n = num_pages region
                in
                (case map_pages (\<lambda>va pa. vmm_map_page_in (p_cr3 p) va pa vmm_flags)
                        vaddr (r_phys_addr region) n (shm_vm s2) of
                   (Some k, v) \<Rightarrow>
                     ((-1, None), s2\<lparr>shm_vm := unmap_pages (vmm_unmap_page_in (p_cr3 p)) vaddr k v\<rparr>)
                 | (None, v) \<Rightarrow>
                     (case shm_add_mapping kmalloc region (p_pid p) vaddr of
                        None \<Rightarrow>
                          ((-1, None), s2\<lparr>shm_vm := unmap_pages (vmm_unmap_page_in (p_cr3 p)) vaddr n v\<rparr>)
                      | Some region1 \<Rightarrow>
                          let region2 = (if r_state region1 = SHM_STATE_ALLOCATED
                                         then region1\<lparr>r_state := SHM_STATE_MAPPED\<rparr> else region1)
                          in ((0, Some vaddr), set_region i region2 (s2\<lparr>shm_vm := v\<rparr>)))))"

definition settle :: "shm_region \<Rightarrow> shm_region" where
  "settle region = (if ref_count region = 0 then region\<lparr>r_state := SHM_STATE_ALLOCATED\<rparr> else region)"

definition sys_shm_unmap :: "shm_proc option \<Rightarrow> int \<Rightarrow> shm_sys \<Rightarrow> int \<times> shm_sys" where
  "sys_shm_unmap cur shm_id s =
     (case cur of
        None \<Rightarrow> (-1, s)
      | Some p \<Rightarrow>
          if \<not> valid_id shm_id then (-1, s)
          else
            let i = nat shm_id; region = shm_regions s ! i in
            (case shm_find_mapping region (p_pid p) of
               None \<Rightarrow> (-1, s)
             | Some m \<Rightarrow>
                 (0, set_region i (settle (shm_remove_mapping region (p_pid p)))
                       (s\<lparr>shm_vm := unmap_pages (vmm_unmap_page_in (p_cr3 p)) (m_virt_addr m)
                                      (num_pages region) (shm_vm s)\<rparr>))))"

section \<open>Destroying\<close>

text \<open>The loop over the mappings; \<open>proc_cr3\<close> is \<open>proc_get\<close>, \<open>None\<close> for a process that is gone.\<close>

primrec drop_all :: "(u32 \<Rightarrow> u64 option) \<Rightarrow> nat \<Rightarrow> shm_mapping list \<Rightarrow> u32 \<Rightarrow> vmm \<Rightarrow> u32 \<times> vmm" where
  "drop_all proc_cr3 n [] refs v = (refs, v)"
| "drop_all proc_cr3 n (m # ms) refs v =
     drop_all proc_cr3 n ms (refs - 1)
       (case proc_cr3 (m_pid m) of
          None \<Rightarrow> v
        | Some cr3 \<Rightarrow> unmap_pages (vmm_unmap_page_in cr3) (m_virt_addr m) n v)"

definition free_frames_of :: "shm_region \<Rightarrow> vmm \<Rightarrow> vmm" where
  "free_frames_of region v =
     v\<lparr>frames := pmm_free_pages (frames v) (r_phys_addr region) (r_size region div VMM_PAGE_SIZE_4K)\<rparr>"

definition sys_shm_destroy ::
    "(u32 \<Rightarrow> u64 option) \<Rightarrow> shm_proc option \<Rightarrow> int \<Rightarrow> shm_sys \<Rightarrow> int \<times> shm_sys" where
  "sys_shm_destroy proc_cr3 cur shm_id s =
     (case cur of
        None \<Rightarrow> (-1, s)
      | Some p \<Rightarrow>
          if \<not> valid_id shm_id then (-1, s)
          else
            let i = nat shm_id; region = shm_regions s ! i in
            if r_state region = SHM_STATE_FREE then (-1, s)
            else if creator_pid region \<noteq> p_pid p then (-1, s)
            else
              let v = snd (drop_all proc_cr3 (num_pages region) (mappings region) (ref_count region) (shm_vm s))
              in (0, set_region i (region\<lparr>r_state := SHM_STATE_FREE, creator_pid := 0, r_phys_addr := 0,
                        r_size := 0, r_flags := 0, ref_count := 0, mappings := []\<rparr>)
                      (s\<lparr>shm_vm := free_frames_of region v\<rparr>)))"

definition sys_shm_info :: "int \<Rightarrow> shm_sys \<Rightarrow> int \<times> (u64 \<times> u32) option" where
  "sys_shm_info shm_id s =
     (if \<not> valid_id shm_id then (-1, None)
      else
        let region = shm_regions s ! nat shm_id in
        if r_state region = SHM_STATE_FREE then (-1, None)
        else (0, Some (r_size region, ref_count region)))"

definition cleanup_region :: "u32 \<Rightarrow> nat \<Rightarrow> shm_sys \<Rightarrow> shm_sys" where
  "cleanup_region pid i s =
     (let region = shm_regions s ! i in
      if r_state region = SHM_STATE_FREE then s
      else
        let region1 = (if shm_find_mapping region pid \<noteq> None
                       then settle (shm_remove_mapping region pid) else region)
        in if creator_pid region1 = pid \<and> ref_count region1 = 0
           then set_region i (region1\<lparr>r_state := SHM_STATE_FREE, creator_pid := 0, r_phys_addr := 0,
                  r_size := 0, r_flags := 0\<rparr>)
                (s\<lparr>shm_vm := free_frames_of region1 (shm_vm s)\<rparr>)
           else set_region i region1 s)"

definition shm_cleanup_process :: "u32 \<Rightarrow> shm_sys \<Rightarrow> shm_sys" where
  "shm_cleanup_process pid s = fold (cleanup_region pid) [0..<SHM_MAX_REGIONS] s"

section \<open>Sequences of calls\<close>

datatype shm_call =
    Create shm_proc u64 u32
  | Map shm_proc int bool
  | Unmap shm_proc int
  | Destroy shm_proc int

fun shm_step :: "(u32 \<Rightarrow> u64 option) \<Rightarrow> shm_call \<Rightarrow> shm_sys \<Rightarrow> shm_sys option" where
  "shm_step proc_cr3 (Create p sz flags) s = map_option snd (sys_shm_create (Some p) sz flags s)"
| "shm_step proc_cr3 (Map p i kmalloc) s = Some (snd (sys_shm_map (Some p) i kmalloc s))"
| "shm_step proc_cr3 (Unmap p i) s = Some (snd (sys_shm_unmap (Some p) i s))"
| "shm_step proc_cr3 (Destroy p i) s = Some (snd (sys_shm_destroy proc_cr3 (Some p) i s))"

fun shm_run :: "(u32 \<Rightarrow> u64 option) \<Rightarrow> shm_call list \<Rightarrow> shm_sys \<Rightarrow> shm_sys option" where
  "shm_run proc_cr3 [] s = Some s"
| "shm_run proc_cr3 (c # cs) s = Option.bind (shm_step proc_cr3 c s) (shm_run proc_cr3 cs)"

fun caller :: "shm_call \<Rightarrow> shm_proc" where
  "caller (Create p sz flags) = p"
| "caller (Map p i kmalloc) = p"
| "caller (Unmap p i) = p"
| "caller (Destroy p i) = p"

section \<open>The invariant\<close>

definition shm_window :: "u64 set" where
  "shm_window = {SHM_VIRT_BASE ..< SHM_VIRT_BASE + SHM_VIRT_SIZE}"

text \<open>The run of frames of each live region.\<close>

definition owned :: "shm_sys \<Rightarrow> nat \<Rightarrow> (u64 \<times> u64) option" where
  "owned s i =
     (if i < length (shm_regions s) \<and> r_state (shm_regions s ! i) \<noteq> SHM_STATE_FREE
      then Some (r_phys_addr (shm_regions s ! i), r_size (shm_regions s ! i) div VMM_PAGE_SIZE_4K)
      else None)"

definition shm_frames :: "shm_sys \<Rightarrow> nat set" where
  "shm_frames s = (\<Union>(a, n) \<in> ran (owned s). region_pages a n)"

text \<open>\<open>cr3of\<close> is the address space of a process, \<open>grp\<close> its thread group.\<close>

definition mapping_ok :: "(u32 \<Rightarrow> u64) \<Rightarrow> (u32 \<Rightarrow> u32) \<Rightarrow> u64 set \<Rightarrow> shm_region \<Rightarrow> shm_mapping \<Rightarrow> bool" where
  "mapping_ok cr3of grp R g m \<longleftrightarrow> m_pid m \<noteq> 0 \<and> grp (m_pid m) = creator_tgid g \<and> cr3of (m_pid m) \<in> R \<and>
     4096 dvd unat (m_virt_addr m) \<and> in_window shm_window (m_virt_addr m) (num_pages g)"

definition region_ok :: "(u32 \<Rightarrow> u64) \<Rightarrow> (u32 \<Rightarrow> u32) \<Rightarrow> u64 set \<Rightarrow> shm_region \<Rightarrow> bool" where
  "region_ok cr3of grp R g \<longleftrightarrow>
     (r_state g = SHM_STATE_FREE \<longrightarrow> mappings g = []) \<and>
     (r_state g \<noteq> SHM_STATE_FREE \<longrightarrow>
        r_size g = of_nat (num_pages g * 4096) \<and> 0 < num_pages g \<and> num_pages g \<le> 4096 \<and>
        (\<exists>p. r_phys_addr g = page_addr p \<and> 0 < p \<and> p + num_pages g \<le> PMM_MAX_PAGES) \<and>
        (r_state g = SHM_STATE_MAPPED \<longleftrightarrow> mappings g \<noteq> []) \<and> creator_tgid g = grp (creator_pid g) \<and>
        (creator_tgid g = 0 \<longrightarrow> creator_pid g = 0)) \<and>
     ref_count g = of_nat (length (mappings g)) \<and> distinct (map m_pid (mappings g)) \<and>
     (\<forall>m\<in>set (mappings g). mapping_ok cr3of grp R g m) \<and>
     (r_flags g AND SHM_FLAG_EXCLUSIVE \<noteq> 0 \<longrightarrow> length (mappings g) \<le> 1)"

text \<open>Page \<open>va\<close> with translation \<open>x\<close> is a page of mapping \<open>m\<close> of region \<open>g\<close>, with the rights of that mapping.\<close>

definition backs :: "bool \<Rightarrow> shm_region \<Rightarrow> shm_mapping \<Rightarrow> u64 \<Rightarrow> u64 \<times> u64 \<Rightarrow> bool" where
  "backs nx g m va x \<longleftrightarrow> (\<exists>j<num_pages g. va = nth_page (m_virt_addr m) j \<and>
     x = page_value nx (map_flags g (m_pid m)) va (nth_page (r_phys_addr g) j))"

text \<open>Nothing in the window translates without a mapping on record.\<close>

definition grounded :: "(u32 \<Rightarrow> u64) \<Rightarrow> u64 set \<Rightarrow> bool \<Rightarrow> shm_region list \<Rightarrow> vmm \<Rightarrow> bool" where
  "grounded cr3of R nx gs v \<longleftrightarrow> (\<forall>r\<in>R. \<forall>va\<in>shm_window. 4096 dvd unat va \<longrightarrow>
     look_up r va v = (0, 0) \<or>
     (\<exists>g\<in>set gs. \<exists>m\<in>set (mappings g). cr3of (m_pid m) = r \<and> backs nx g m va (look_up r va v)))"

definition shm_inv :: "(u32 \<Rightarrow> u64) \<Rightarrow> (u32 \<Rightarrow> u32) \<Rightarrow> u64 set \<Rightarrow> bool \<Rightarrow> shm_sys \<Rightarrow> bool" where
  "shm_inv cr3of grp R nx s \<longleftrightarrow>
     length (shm_regions s) = SHM_MAX_REGIONS \<and>
     shm_next_vaddr s \<in> shm_window \<and> 4096 dvd unat (shm_next_vaddr s) \<and>
     (\<forall>g\<in>set (shm_regions s). region_ok cr3of grp R g) \<and>
     owned_ok (used_frames (frames (shm_vm s))) (owned s) \<and>
     spaces shm_window R (shm_frames s) nx (shm_vm s) \<and>
     grounded cr3of R nx (shm_regions s) (shm_vm s)"

definition caller_ok :: "(u32 \<Rightarrow> u64) \<Rightarrow> (u32 \<Rightarrow> u32) \<Rightarrow> u64 set \<Rightarrow> shm_proc \<Rightarrow> bool" where
  "caller_ok cr3of grp R p \<longleftrightarrow> p_cr3 p = cr3of (p_pid p) \<and> p_cr3 p \<in> R \<and>
     capgate_tgid_of_rs (p_pid p) (p_tgid p) = grp (p_pid p)"

section \<open>Runs of pages in the window\<close>

lemma window_bounds:
  assumes "va \<in> shm_window"
  shows "unat va < 2 ^ 48" and "unat SHM_VIRT_BASE \<le> unat va"
  using assms by (auto simp: shm_window_def SHM_VIRT_BASE_def SHM_VIRT_SIZE_def word_le_nat_alt word_less_nat_alt)

lemma page_eq:
  assumes "va \<in> shm_window" and "va' \<in> shm_window" and "4096 dvd unat va" and "4096 dvd unat va'"
    and "ix va = ix va'"
  shows "va = va'"
proof -
  have "unat va div 4096 = unat va' div 4096"
    using ix_eq_page [OF assms(5)] window_bounds assms(1,2) by blast
  then have "unat va = unat va'" using assms(3,4) by (metis dvd_mult_div_cancel)
  then show ?thesis by (simp only: word_unat_eq_iff)
qed

lemma nth_page_window:
  assumes "in_window shm_window va n" and "i < n"
  shows "nth_page va i \<in> shm_window" and "unat (nth_page va i) = unat va + i * 4096"
  using assms unat_nth_page [of va i] by (auto simp: in_window_def)

lemma nth_page_dvd:
  assumes "in_window shm_window va n" and "i < n" and "4096 dvd unat va"
  shows "4096 dvd unat (nth_page va i)"
  using assms(3) nth_page_window(2) [OF assms(1,2)] by simp

text \<open>A run that ends inside the window.\<close>

lemma in_windowI:
  assumes "SHM_VIRT_BASE \<le> va" and "unat va + n * 4096 \<le> unat (SHM_VIRT_BASE + SHM_VIRT_SIZE)"
  shows "in_window shm_window va n"
proof -
  have e: "unat (SHM_VIRT_BASE + SHM_VIRT_SIZE) = 0x0000701000000000"
    by (simp add: SHM_VIRT_BASE_def SHM_VIRT_SIZE_def)
  have "nth_page va i \<in> shm_window" if "i < n" for i
  proof -
    have "unat (nth_page va i) = unat va + i * 4096"
      using unat_nth_page [of va i] assms(2) that e by simp
    then show ?thesis
      using assms that e unfolding shm_window_def atLeastLessThan_iff word_le_nat_alt word_less_nat_alt by simp
  qed
  then show ?thesis using assms(2) e by (simp add: in_window_def)
qed

lemma unmap_run:
  assumes sp: "spaces shm_window R U nx v" and r: "r \<in> R" and w: "in_window shm_window va n"
  defines "v' \<equiv> unmap_pages (vmm_unmap_page_in r) va n v"
  shows "spaces shm_window R U nx v'" and "frames v' = frames v"
    and "\<And>i x. i < n \<Longrightarrow> ix x = ix (nth_page va i) \<Longrightarrow> look_up r x v' = (0, 0)"
    and "\<And>r' x. r' \<in> R \<Longrightarrow> r' \<noteq> r \<or> (\<forall>i<n. ix x \<noteq> ix (nth_page va i)) \<Longrightarrow> look_up r' x v' = look_up r' x v"
proof -
  have inv: "spaces shm_window R U nx v \<and> r \<in> R \<and> user_flags VMM_USER_RW" using sp r by (simp add: user_flags_def)
  note up = vmm_mapper.unmap_pages_spec [OF inv nth_page_window(1) [OF w], where n = n, folded v'_def, simplified]
  show "spaces shm_window R U nx v'" using up(1) by blast
  show "look_up r x v' = (0, 0)" if "i < n" "ix x = ix (nth_page va i)" for i x using up(2) [OF that] .
  show "look_up r' x v' = look_up r' x v" if "r' \<in> R" "r' \<noteq> r \<or> (\<forall>i<n. ix x \<noteq> ix (nth_page va i))" for r' x
  proof (cases "r' = r")
    case True
    then show ?thesis using up(3) [of x] that(2) by blast
  next
    case False
    have "other_spaces R r v' r' x = other_spaces R r v r' x" using up(1) by metis
    then show ?thesis using False that(1) by (simp add: other_spaces_def)
  qed
  have "m \<le> n \<Longrightarrow> spaces shm_window R U nx (unmap_pages (vmm_unmap_page_in r) va m v) \<and>
      frames (unmap_pages (vmm_unmap_page_in r) va m v) = frames v" for m
  proof (induction m)
    case (Suc m)
    then show ?case
      using spaces_unmap(1,5) [OF _ r nth_page_window(1) [OF w], where i1 = m] by (metis Suc_leD Suc_le_eq unmap_pages_simps(2))
  qed (use sp in simp)
  then show "frames v' = frames v" by (simp add: v'_def)
qed

lemma map_run:
  assumes sp: "spaces shm_window R U nx v" and r: "r \<in> R" and w: "in_window shm_window va n"
    and fl: "user_flags fl" and run: "map_pages (\<lambda>va pa. vmm_map_page_in r va pa fl) va pa n v = (res, v')"
  shows "spaces shm_window R U nx v'"
    and "\<And>i. res = None \<Longrightarrow> i < n \<Longrightarrow> look_up r (nth_page va i) v' = page_value nx fl (nth_page va i) (nth_page pa i)"
    and "\<And>r' x. r' \<in> R \<Longrightarrow> r' \<noteq> r \<or> (\<forall>i<n. ix x \<noteq> ix (nth_page va i)) \<Longrightarrow> look_up r' x v' = look_up r' x v"
    and "\<And>k. res = Some k \<Longrightarrow> k < n \<and>
           (\<forall>i. k \<le> i \<longrightarrow> i < n \<longrightarrow> look_up r (nth_page va i) v' = look_up r (nth_page va i) v)"
proof -
  have inv: "spaces shm_window R U nx v \<and> r \<in> R \<and> user_flags fl" using sp r fl by simp
  note mp = vmm_mapper.map_pages_spec [OF inv run_okI [OF w] run]
  show "spaces shm_window R U nx v'" using mp(1) by blast
  show "look_up r (nth_page va i) v' = page_value nx fl (nth_page va i) (nth_page pa i)" if "res = None" "i < n" for i
    using mp(2) [OF that] .
  show "look_up r' x v' = look_up r' x v" if "r' \<in> R" "r' \<noteq> r \<or> (\<forall>i<n. ix x \<noteq> ix (nth_page va i))" for r' x
  proof (cases "r' = r")
    case True
    then show ?thesis using mp(3) [of x] that(2) by blast
  next
    case False
    have "other_spaces R r v' r' x = other_spaces R r v r' x" using mp(1) by metis
    then show ?thesis using False that(1) by (simp add: other_spaces_def)
  qed
  show "k < n \<and> (\<forall>i. k \<le> i \<longrightarrow> i < n \<longrightarrow> look_up r (nth_page va i) v' = look_up r (nth_page va i) v)"
    if "res = Some k" for k using mp(4) [OF that] .
qed

text \<open>A run mapped and taken back: a page of the run that translated to nothing does so again, any other page
  keeps its translation or loses it.\<close>

lemma map_rollback:
  assumes sp: "spaces shm_window R U nx v" and r: "r \<in> R" and w: "in_window shm_window va n"
    and fl: "user_flags fl" and run: "map_pages (\<lambda>va pa. vmm_map_page_in r va pa fl) va pa n v = (res, v1)"
    and k: "k = (case res of None \<Rightarrow> n | Some k \<Rightarrow> k)"
  defines "v' \<equiv> unmap_pages (vmm_unmap_page_in r) va k v1"
  shows "spaces shm_window R U nx v'"
    and "\<And>r' x. r' \<in> R \<Longrightarrow> r' \<noteq> r \<or> (\<forall>i<n. ix x \<noteq> ix (nth_page va i)) \<Longrightarrow> look_up r' x v' = look_up r' x v"
    and "\<And>i. i < n \<Longrightarrow> look_up r (nth_page va i) v' = look_up r (nth_page va i) v \<or> look_up r (nth_page va i) v' = (0, 0)"
proof -
  note mp = map_run [OF sp r w fl run]
  have kn: "k \<le> n" using mp(4) k by (cases res) auto
  have w': "in_window shm_window va k" using w kn by (simp add: in_window_def)
  note up = unmap_run [OF mp(1) r w', folded v'_def]
  show "spaces shm_window R U nx v'" using up(1) .
  show "look_up r' x v' = look_up r' x v" if "r' \<in> R" "r' \<noteq> r \<or> (\<forall>i<n. ix x \<noteq> ix (nth_page va i))" for r' x
  proof -
    have "r' \<noteq> r \<or> (\<forall>i<k. ix x \<noteq> ix (nth_page va i))" using that(2) kn by auto
    then show ?thesis using up(4) [OF that(1)] mp(3) [OF that] by simp
  qed
  show "look_up r (nth_page va i) v' = look_up r (nth_page va i) v \<or> look_up r (nth_page va i) v' = (0, 0)"
    if i: "i < n" for i
  proof (cases "i < k")
    case True
    then show ?thesis using up(3) by simp
  next
    case False
    have "ix (nth_page va i) \<noteq> ix (nth_page va j)" if "j < k" for j
      using run_okI [OF w] i False that unfolding vmm_mapper.run_ok_def by auto
    then have "look_up r (nth_page va i) v' = look_up r (nth_page va i) v1" using up(4) [OF r] by blast
    moreover have "look_up r (nth_page va i) v1 = look_up r (nth_page va i) v"
      using mp(4) k False i by (cases res) auto
    ultimately show ?thesis by simp
  qed
qed

section \<open>The table\<close>

lemma owned_ok_mono: "owned_ok U R \<Longrightarrow> (\<And>i a n. R i = Some (a, n) \<Longrightarrow> region_pages a n \<subseteq> U') \<Longrightarrow> owned_ok U' R"
  by (auto simp: owned_ok_def)

lemma owned_cong: "shm_regions s = shm_regions t \<Longrightarrow> owned s = owned t"
  by (simp add: owned_def fun_eq_iff)

lemma owned_set_region:
  assumes "i < length (shm_regions s)"
  shows "owned (set_region i g s) = (owned s)(i := if r_state g = SHM_STATE_FREE then None
           else Some (r_phys_addr g, r_size g div VMM_PAGE_SIZE_4K))"
  using assms by (auto simp: owned_def set_region_def fun_eq_iff nth_list_update)

lemma shm_frames_cong: "owned s = owned t \<Longrightarrow> shm_frames s = shm_frames t"
  by (simp add: shm_frames_def)

lemma mem_frames: "x \<in> shm_frames s \<longleftrightarrow> (\<exists>j b k. owned s j = Some (b, k) \<and> x \<in> region_pages b k)"
  by (auto simp: shm_frames_def ran_def)

lemma shm_frames_new:
  assumes "owned s i = None" and "owned t = (owned s)(i \<mapsto> (a, n))"
  shows "shm_frames t = shm_frames s \<union> region_pages a n"
proof (rule set_eqI)
  fix x
  have t: "owned t j = Some (b, k) \<longleftrightarrow> owned s j = Some (b, k) \<or> j = i \<and> b = a \<and> k = n" for j b k
    using assms by auto
  show "x \<in> shm_frames t \<longleftrightarrow> x \<in> shm_frames s \<union> region_pages a n"
    unfolding mem_frames Un_iff t by (simp add: conj_disj_distribR ex_disj_distrib)
qed

lemma shm_frames_drop:
  assumes "owned_ok F (owned s)" and "owned s i = Some (a, n)" and "owned t = (owned s)(i := None)"
  shows "shm_frames t = shm_frames s - region_pages a n"
proof -
  have "region_pages b k \<inter> region_pages a n = {}" if "j \<noteq> i" "owned s j = Some (b, k)" for j b k
    using assms(1,2) that unfolding owned_ok_def by blast
  moreover have "owned t j = Some (b, k) \<longleftrightarrow> j \<noteq> i \<and> owned s j = Some (b, k)" for j b k
    using assms(3) by simp
  ultimately have "x \<in> shm_frames t \<longleftrightarrow> x \<in> shm_frames s \<and> x \<notin> region_pages a n" for x
    unfolding mem_frames by (metis assms(2) disjoint_iff option.inject prod.inject)
  then show ?thesis by blast
qed

lemma frames_mem: "owned s i = Some (a, n) \<Longrightarrow> region_pages a n \<subseteq> shm_frames s"
  by (metis mem_frames subsetI)

lemma spaces_owned:
  assumes "spaces shm_window R (shm_frames s) nx v" and "owned_ok F (owned s)"
  shows "owned_ok (used_frames (frames v)) (owned s)"
  using assms(2) by (rule owned_ok_mono) (use assms(1) frames_mem in \<open>fastforce simp: spaces_def\<close>)

lemma grounded_set:
  assumes "grounded cr3of R nx gs v" and "i < length gs"
    and "\<And>r va. r \<in> R \<Longrightarrow> va \<in> shm_window \<Longrightarrow> 4096 dvd unat va \<Longrightarrow>
      look_up r va v' = (0, 0) \<or> look_up r va v' = look_up r va v \<and>
        (\<forall>m\<in>set (mappings (gs ! i)). cr3of (m_pid m) = r \<longrightarrow> backs nx (gs ! i) m va (look_up r va v) \<longrightarrow>
           m \<in> set (mappings g') \<and> backs nx g' m va (look_up r va v)) \<or>
      (\<exists>m\<in>set (mappings g'). cr3of (m_pid m) = r \<and> backs nx g' m va (look_up r va v'))"
  shows "grounded cr3of R nx (gs[i := g']) v'"
  unfolding grounded_def
proof (intro ballI impI)
  fix r va
  assume a: "r \<in> R" "va \<in> shm_window" "4096 dvd unat va"
  have new: "g' \<in> set (gs[i := g'])" using assms(2) by (simp add: set_update_memI)
  have old: "g \<in> set (gs[i := g']) \<or> g = gs ! i" if "g \<in> set gs" for g
    using that by (metis in_set_conv_nth length_list_update nth_list_update_neq nth_mem)
  consider "look_up r va v' = (0, 0)"
    | "look_up r va v' = look_up r va v" "look_up r va v \<noteq> (0, 0)"
      "\<forall>m\<in>set (mappings (gs ! i)). cr3of (m_pid m) = r \<longrightarrow> backs nx (gs ! i) m va (look_up r va v) \<longrightarrow>
           m \<in> set (mappings g') \<and> backs nx g' m va (look_up r va v)"
    | "\<exists>m\<in>set (mappings g'). cr3of (m_pid m) = r \<and> backs nx g' m va (look_up r va v')"
    using assms(3) [OF a] by metis
  then show "look_up r va v' = (0, 0) \<or>
     (\<exists>g\<in>set (gs[i := g']). \<exists>m\<in>set (mappings g). cr3of (m_pid m) = r \<and> backs nx g m va (look_up r va v'))"
  proof cases
    case 2
    then obtain g m where "g \<in> set gs" "m \<in> set (mappings g)" "cr3of (m_pid m) = r" "backs nx g m va (look_up r va v)"
      using assms(1) a unfolding grounded_def by metis
    then show ?thesis using 2 old new by metis
  next
    case 3
    then show ?thesis using new by blast
  qed simp
qed

section \<open>Sizes and addresses\<close>

lemma unat_page_round:
  fixes x :: u64
  assumes "unat x + 4095 < 2 ^ 64"
  shows "unat (page_round x) = (unat x + 4095) div 4096 * 4096"
proof -
  have m12: "(0xFFF :: u64) = mask 12" by (simp add: mask_eq_exp_minus_1)
  have u: "unat (x + 0xFFF) = unat x + 4095" using assms by (simp add: unat_word_ariths)
  have "page_round x = push_bit 12 (drop_bit 12 (x + 0xFFF))"
    unfolding page_round_def m12
    by (rule bit_word_eqI) (auto simp: bit_and_iff bit_not_iff_eq bit_mask_iff bit_push_bit_iff bit_drop_bit_eq)
  moreover have "unat (drop_bit 12 (x + 0xFFF)) = (unat x + 4095) div 4096"
    by (simp only: unat_drop_bit_eq u) (simp add: drop_bit_eq_div)
  moreover have "(unat x + 4095) div 4096 * 4096 < 2 ^ 64" using assms by linarith
  ultimately show ?thesis
    by (simp add: push_bit_eq_mult unat_word_ariths del: unat_drop_bit_eq)
qed

lemma unat_pages: "n \<le> 4096 \<Longrightarrow> unat (of_nat (n * 4096) :: u64) = n * 4096"
  by (simp add: unat_of_nat del: of_nat_mult)

lemma page_round_pages: "n \<le> 4096 \<Longrightarrow> page_round (of_nat (n * 4096)) = of_nat (n * 4096)"
  by (simp only: word_unat_eq_iff) (simp add: unat_page_round unat_pages del: of_nat_mult)

lemma pages_div: "n \<le> 4096 \<Longrightarrow> of_nat (n * 4096) div VMM_PAGE_SIZE_4K = (of_nat n :: u64)"
  by (simp only: word_unat_eq_iff unat_div_distrib)
    (simp add: unat_pages VMM_PAGE_SIZE_4K_def unat_of_nat del: of_nat_mult)

lemma find_vaddr_spec:
  assumes "shm_next_vaddr s \<in> shm_window" and "4096 dvd unat (shm_next_vaddr s)" and n: "n \<le> 4096"
    and run: "shm_find_vaddr (of_nat (n * 4096)) s = (va, s')"
  obtains nv where "s' = s\<lparr>shm_next_vaddr := nv\<rparr>" and "nv \<in> shm_window" and "4096 dvd unat nv"
    and "in_window shm_window va n" and "4096 dvd unat va"
proof -
  let ?nv = "shm_next_vaddr s" and ?sz = "of_nat (n * 4096) :: u64"
  have bounds: "unat SHM_VIRT_BASE = 0x0000700000000000"
    "unat (SHM_VIRT_BASE + SHM_VIRT_SIZE) = 0x0000701000000000"
    by (simp_all add: SHM_VIRT_BASE_def SHM_VIRT_SIZE_def)
  have nv: "0x0000700000000000 \<le> unat ?nv" "unat ?nv < 0x0000701000000000"
    using assms(1) bounds by (auto simp: shm_window_def word_le_nat_alt word_less_nat_alt)
  have next1: "unat (?nv + ?sz) = unat ?nv + n * 4096" and next2: "unat (SHM_VIRT_BASE + ?sz) = 0x0000700000000000 + n * 4096"
    using nv n bounds by (simp_all add: unat_word_ariths unat_pages del: of_nat_mult)
  show thesis
  proof (cases "?nv + ?sz \<ge> SHM_VIRT_BASE + SHM_VIRT_SIZE")
    case True
    then have "va = SHM_VIRT_BASE" "s' = s\<lparr>shm_next_vaddr := SHM_VIRT_BASE + ?sz\<rparr>"
      using run n by (simp_all add: shm_find_vaddr_def page_round_pages Let_def del: of_nat_mult)
    moreover have "in_window shm_window SHM_VIRT_BASE n" using n bounds by (intro in_windowI) simp_all
    ultimately show thesis
      using that [of "SHM_VIRT_BASE + ?sz"] next2 n bounds
      by (auto simp: shm_window_def word_le_nat_alt word_less_nat_alt simp del: of_nat_mult)
  next
    case False
    then have "(?nv, s\<lparr>shm_next_vaddr := ?nv + ?sz\<rparr>) = (va, s')"
      unfolding run [symmetric] using False n
      by (simp add: shm_find_vaddr_def page_round_pages Let_def del: of_nat_mult)
    then have res: "va = ?nv" "s' = s\<lparr>shm_next_vaddr := ?nv + ?sz\<rparr>" by auto
    have "unat ?nv + n * 4096 < 0x0000701000000000" using False next1 bounds by (simp only: word_le_nat_alt)
    then have "in_window shm_window ?nv n" using nv bounds
      by (intro in_windowI) (simp_all add: word_le_nat_alt)
    then show thesis
      using that [of "?nv + ?sz"] res next1 nv n bounds False assms(2)
      by (auto simp: shm_window_def word_le_nat_alt word_less_nat_alt simp del: of_nat_mult)
  qed
qed

section \<open>The operations keep the invariant\<close>

lemma shm_invD:
  assumes "shm_inv cr3of grp R nx s"
  shows "length (shm_regions s) = SHM_MAX_REGIONS" and "shm_next_vaddr s \<in> shm_window"
    and "4096 dvd unat (shm_next_vaddr s)" and "owned_ok (used_frames (frames (shm_vm s))) (owned s)"
    and "spaces shm_window R (shm_frames s) nx (shm_vm s)" and "grounded cr3of R nx (shm_regions s) (shm_vm s)"
    and "\<And>i. i < SHM_MAX_REGIONS \<Longrightarrow> region_ok cr3of grp R (shm_regions s ! i)"
  using assms by (auto simp: shm_inv_def)

lemma region_live:
  assumes "region_ok cr3of grp R g" and "r_state g \<noteq> SHM_STATE_FREE"
  shows "r_size g = of_nat (num_pages g * 4096)" and "0 < num_pages g" and "num_pages g \<le> 4096"
    and "r_size g div VMM_PAGE_SIZE_4K = of_nat (num_pages g)"
    and "\<exists>p. r_phys_addr g = page_addr p \<and> 0 < p \<and> p + num_pages g \<le> PMM_MAX_PAGES"
    and "creator_tgid g = grp (creator_pid g)" and "r_state g = SHM_STATE_MAPPED \<longleftrightarrow> mappings g \<noteq> []"
proof -
  show a: "r_size g = of_nat (num_pages g * 4096)" "num_pages g \<le> 4096" and "0 < num_pages g"
    and "\<exists>p. r_phys_addr g = page_addr p \<and> 0 < p \<and> p + num_pages g \<le> PMM_MAX_PAGES"
    and "creator_tgid g = grp (creator_pid g)" and "r_state g = SHM_STATE_MAPPED \<longleftrightarrow> mappings g \<noteq> []"
    using assms by (simp_all add: region_ok_def)
  show "r_size g div VMM_PAGE_SIZE_4K = of_nat (num_pages g)"
    using pages_div [OF a(2)] by (subst a(1)) simp
qed

lemma region_maps:
  assumes "region_ok cr3of grp R g" 
  shows "ref_count g = of_nat (length (mappings g))" and "distinct (map m_pid (mappings g))"
    and "\<And>m. m \<in> set (mappings g) \<Longrightarrow> mapping_ok cr3of grp R g m"
    and "mappings g \<noteq> [] \<Longrightarrow> r_state g = SHM_STATE_MAPPED"
    and "length (mappings g) < 2 ^ 32" and "ref_count g = 0 \<longleftrightarrow> mappings g = []"
proof -
  show ref: "ref_count g = of_nat (length (mappings g))" and dist: "distinct (map m_pid (mappings g))"
    and ok: "\<And>m. m \<in> set (mappings g) \<Longrightarrow> mapping_ok cr3of grp R g m"
    and "mappings g \<noteq> [] \<Longrightarrow> r_state g = SHM_STATE_MAPPED"
    using assms by (auto simp: region_ok_def)
  have "set (map m_pid (mappings g)) \<subseteq> UNIV - {0}" using ok by (auto simp: mapping_ok_def)
  then have "card (set (map m_pid (mappings g))) \<le> card (UNIV - {0 :: u32})" by (intro card_mono) simp_all
  also have "\<dots> < 2 ^ 32" by (simp add: card_word)
  finally show len: "length (mappings g) < 2 ^ 32" using distinct_card [OF dist] by simp
  have "unat (ref_count g) = length (mappings g)" using len by (simp add: ref unat_of_nat)
  then show "ref_count g = 0 \<longleftrightarrow> mappings g = []" by (metis length_0_conv unat_eq_zero)
qed

lemma owned_live:
  assumes "shm_inv cr3of grp R nx s" and "i < SHM_MAX_REGIONS" and "r_state (shm_regions s ! i) \<noteq> SHM_STATE_FREE"
  shows "owned s i = Some (r_phys_addr (shm_regions s ! i), of_nat (num_pages (shm_regions s ! i)))"
  using assms shm_invD(1,7) [OF assms(1)] region_live(4) by (fastforce simp: owned_def)

text \<open>A call that changes one region without changing what it owns.\<close>

lemma shm_inv_update:
  assumes inv: "shm_inv cr3of grp R nx s" and i: "i < SHM_MAX_REGIONS" and ok: "region_ok cr3of grp R g"
    and same: "r_state g = SHM_STATE_FREE \<longleftrightarrow> r_state (shm_regions s ! i) = SHM_STATE_FREE"
      "r_phys_addr g = r_phys_addr (shm_regions s ! i)" "r_size g = r_size (shm_regions s ! i)"
    and sp: "spaces shm_window R (shm_frames s) nx v"
    and gr: "grounded cr3of R nx ((shm_regions s)[i := g]) v"
    and t: "shm_regions t = (shm_regions s)[i := g]" "shm_vm t = v" "shm_next_vaddr t \<in> shm_window"
      "4096 dvd unat (shm_next_vaddr t)"
  shows "shm_inv cr3of grp R nx t"
proof -
  note d = shm_invD [OF inv]
  have "owned (set_region i g s) = owned s"
    using i d(1) same by (simp add: owned_set_region) (auto simp: owned_def fun_eq_iff)
  then have o: "owned t = owned s" using owned_cong [of t "set_region i g s"] t(1) by (simp add: set_region_def)
  have "region_ok cr3of grp R g'" if "g' \<in> set (shm_regions t)" for g'
  proof -
    have "g' = g \<or> g' \<in> set (shm_regions s)"
      using that set_update_subset_insert [of "shm_regions s" i g] unfolding t(1) by blast
    then show ?thesis using ok d(1,7) by (metis in_set_conv_nth)
  qed
  then show ?thesis
    using t d(1) sp gr spaces_owned [OF sp d(4)] by (simp add: shm_inv_def o shm_frames_cong [OF o])
qed

lemma grounded_same:
  assumes "grounded cr3of R nx gs v"
    and "\<And>r va. r \<in> R \<Longrightarrow> va \<in> shm_window \<Longrightarrow> look_up r va v' = look_up r va v \<or> look_up r va v' = (0, 0)"
  shows "grounded cr3of R nx gs v'"
  using assms unfolding grounded_def by metis

text \<open>Creating.\<close>

lemma region_pages_addr:
  assumes "p + n \<le> PMM_MAX_PAGES"
  shows "region_pages (page_addr p) (of_nat n) = {p ..< p + n}" and "unat (page_addr p) = p * 4096"
proof -
  show u: "unat (page_addr p) = p * 4096"
    using assms by (simp add: page_addr_def PMM_PAGE_SIZE_def PMM_MAX_PAGES_def unat_of_nat del: of_nat_mult)
  show "region_pages (page_addr p) (of_nat n) = {p ..< p + n}"
    using assms by (simp add: region_pages_def u PMM_MAX_PAGES_def unat_of_nat)
qed

lemma create_cases:
  assumes inv: "shm_inv cr3of grp R nx s" and ok: "caller_ok cr3of grp R p"
  obtains (refused) "sys_shm_create (Some p) sz flags s = Some (-1, s)"
      "sz = 0 \<or> sz > SHM_MAX_SIZE \<or> (\<forall>g\<in>set (shm_regions s). r_state g \<noteq> SHM_STATE_FREE)"
    | (full) "sys_shm_create (Some p) sz flags s = Some (-1, s)" "0 < sz" "sz \<le> SHM_MAX_SIZE"
      "pmm_alloc_pages (frames (shm_vm s)) (page_round sz div VMM_PAGE_SIZE_4K) = Some (0, frames (shm_vm s))"
    | (made) i k fr pg where "0 < sz" "sz \<le> SHM_MAX_SIZE" "i < SHM_MAX_REGIONS"
      "r_state (shm_regions s ! i) = SHM_STATE_FREE" "\<forall>j<i. r_state (shm_regions s ! j) \<noteq> SHM_STATE_FREE"
      "k = (unat sz + 4095) div 4096" "0 < k" "k \<le> 4096" "page_round sz = of_nat (k * 4096)"
      "pg + k \<le> PMM_MAX_PAGES" "0 < pg" "{pg ..< pg + k} \<subseteq> free_frames (frames (shm_vm s))"
      "free_frames fr = free_frames (frames (shm_vm s)) - {pg ..< pg + k}" "pmm_inv fr"
      "pmm_alloc_pages (frames (shm_vm s)) (of_nat k) = Some (page_addr pg, fr)" "page_addr pg \<noteq> 0"
      "used_frames fr = used_frames (frames (shm_vm s)) \<union> {pg ..< pg + k}"
      "sys_shm_create (Some p) sz flags s = Some (int i, set_region i
         ((shm_regions s ! i)\<lparr>r_state := SHM_STATE_ALLOCATED, creator_pid := p_pid p,
            r_phys_addr := page_addr pg, r_size := of_nat (k * 4096), r_flags := flags, ref_count := 0,
            mappings := [], creator_tgid := grp (p_pid p)\<rparr>)
         (s\<lparr>shm_vm := zero_range (page_addr pg) (of_nat (k * 4096)) ((shm_vm s)\<lparr>frames := fr\<rparr>)\<rparr>))"
proof -
  note d = shm_invD [OF inv]
  consider "sz = 0 \<or> sz > SHM_MAX_SIZE" | "0 < sz" "sz \<le> SHM_MAX_SIZE"
      "find_idx (\<lambda>r. r_state r = SHM_STATE_FREE) (shm_regions s) = None"
    | i where "0 < sz" "sz \<le> SHM_MAX_SIZE" "find_idx (\<lambda>r. r_state r = SHM_STATE_FREE) (shm_regions s) = Some i"
    by (metis not_le option.exhaust word_gt_0)
  then show thesis
  proof cases
    case 1
    then show thesis by (intro refused) (auto simp: sys_shm_create_def)
  next
    case 2
    then have "sys_shm_create (Some p) sz flags s = Some (-1, s)" by (simp add: sys_shm_create_def Let_def)
    then show thesis using 2(3) by (intro refused) (simp_all add: find_idx_None_iff)
  next
    case (3 i)
    define k where "k = (unat sz + 4095) div 4096"
    have small: "0 < unat sz" "unat sz \<le> 16 * 1024 * 1024"
      using 3(1,2) by (auto simp: SHM_MAX_SIZE_def word_le_nat_alt word_less_nat_alt)
    then have k: "0 < k" "k \<le> 4096" by (auto simp: k_def)
    have round: "page_round sz = of_nat (k * 4096)"
      using small k by (simp only: word_unat_eq_iff unat_pages unat_page_round) (simp add: k_def unat_page_round)
    then have pages: "page_round sz div VMM_PAGE_SIZE_4K = of_nat k" using pages_div k by simp
    have pinv: "pmm_inv (frames (shm_vm s))" using d(5) by (simp add: spaces_def)
    from pinv show thesis
    proof (cases rule: alloc_any_cases [where n = "of_nat k"])
      case fail
      then show thesis using 3 by (intro full) (auto simp: sys_shm_create_def pages Let_def)
    next
      case (ok pg fr)
      have uk: "unat (of_nat k :: u64) = k" using k by (simp add: unat_of_nat)
      note ok = ok [unfolded uk]
      have "pg \<in> free_frames (frames (shm_vm s))" "pg + k - 1 \<in> free_frames (frames (shm_vm s))"
        using ok(4) k by auto
      then have "0 < pg" "pg + k - 1 < PMM_MAX_PAGES"
        using window_le [OF pinv] by (auto simp: free_frames_def)
      then have pg: "0 < pg" "pg + k \<le> PMM_MAX_PAGES" by simp_all
      have used: "used_frames fr = used_frames (frames (shm_vm s)) \<union> {pg ..< pg + k}"
        using pmm_pages.alloc_used [OF pinv ok(1,2)] ok(3) by simp
      show thesis
        by (rule made [OF 3(1,2) _ _ _ k_def k round pg(2,1) ok(4,5,7,1,2) used])
          (use 3 find_idx_SomeD [OF 3(3)] d(1) ok(1,2) assms(2) in
            \<open>auto simp: sys_shm_create_def pages [unfolded round] Let_def caller_ok_def round simp del: of_nat_mult\<close>)
    qed
  qed
qed

lemma create_result:
  assumes inv: "shm_inv cr3of grp R nx s" and ok: "caller_ok cr3of grp R p"
  shows "\<exists>rc t. sys_shm_create (Some p) sz flags s = Some (rc, t) \<and> shm_inv cr3of grp R nx t \<and>
    (if rc = -1
     then t = s \<and> (sz = 0 \<or> sz > SHM_MAX_SIZE \<or> (\<forall>g\<in>set (shm_regions s). r_state g \<noteq> SHM_STATE_FREE) \<or>
       pmm_alloc_pages (frames (shm_vm s)) (page_round sz div VMM_PAGE_SIZE_4K) = Some (0, frames (shm_vm s)))
     else valid_id rc \<and> r_state (shm_regions s ! nat rc) = SHM_STATE_FREE \<and>
       (\<forall>j<nat rc. r_state (shm_regions s ! j) \<noteq> SHM_STATE_FREE) \<and>
       (\<exists>pg k. k = (unat sz + 4095) div 4096 \<and> {pg ..< pg + k} \<subseteq> free_frames (frames (shm_vm s)) \<and>
          free_frames (frames (shm_vm t)) = free_frames (frames (shm_vm s)) - {pg ..< pg + k} \<and>
          shm_regions t = (shm_regions s)[nat rc := \<lparr>r_state = SHM_STATE_ALLOCATED, creator_pid = p_pid p,
             creator_tgid = grp (p_pid p), r_phys_addr = page_addr pg, r_size = of_nat (k * 4096), r_flags = flags,
             ref_count = 0, mappings = []\<rparr>] \<and>
          (\<forall>a. phys (shm_vm t) a = (if unat a div 4096 \<in> {pg ..< pg + k} then 0 else phys (shm_vm s) a)) \<and>
          (\<forall>r\<in>R. \<forall>x. look_up r x (shm_vm t) = look_up r x (shm_vm s))))"
  using inv ok
proof (cases rule: create_cases [where sz = sz and flags = flags])
  case (made i k fr pg)
  note d = shm_invD [OF inv]
  define g where "g = (shm_regions s ! i)\<lparr>r_state := SHM_STATE_ALLOCATED, creator_pid := p_pid p,
      r_phys_addr := page_addr pg, r_size := of_nat (k * 4096), r_flags := flags, ref_count := 0,
      mappings := [], creator_tgid := grp (p_pid p)\<rparr>"
  define v where "v = zero_range (page_addr pg) (of_nat (k * 4096)) ((shm_vm s)\<lparr>frames := fr\<rparr>)"
  define t where "t = set_region i g (s\<lparr>shm_vm := v\<rparr>)"
  have i: "i < length (shm_regions s)" using made(3) d(1) by simp
  have num: "num_pages g = k" using made(8) pages_div [of k] by (simp add: num_pages_def g_def unat_of_nat del: of_nat_mult)
  have "grp (p_pid p) = 0 \<longrightarrow> p_pid p = 0"
    using ok by (auto simp: caller_ok_def capgate_tgid_of_rs_def split: if_splits)
  then have gok: "region_ok cr3of grp R g"
    using num made by (auto simp: region_ok_def g_def)
  have free: "owned s i = None" using made(4) by (simp add: owned_def)
  have ot: "owned t = (owned s)(i \<mapsto> (page_addr pg, of_nat k))"
    using owned_set_region [of i "s\<lparr>shm_vm := v\<rparr>" g] owned_cong [of "s\<lparr>shm_vm := v\<rparr>" s] i pages_div [OF made(8)]
    by (simp add: t_def g_def del: of_nat_mult)
  have pages: "region_pages (page_addr pg) (of_nat k) = {pg ..< pg + k}" using region_pages_addr made(10) by blast
  have v: "v = (shm_vm s)\<lparr>frames := fr, phys := (\<lambda>a. if a - page_addr pg < of_nat (k * 4096) then 0 else phys (shm_vm s) a)\<rparr>"
    by (simp add: v_def zero_range_def cong: if_cong)
  have mem: "\<not> a - page_addr pg < of_nat (k * 4096)" if "unat a div 4096 \<notin> {pg ..< pg + k}" for a
  proof
    assume "a - page_addr pg < of_nat (k * 4096)"
    then have lt: "unat (a - page_addr pg) < k * 4096" using made(8) by (simp only: word_less_nat_alt unat_pages)
    have "unat (page_addr pg) = pg * 4096" using region_pages_addr(2) [OF made(10)] .
    moreover have "unat a = unat (a - page_addr pg) + unat (page_addr pg)"
      using lt made(8,10) region_pages_addr(2) [OF made(10)]
        unat_add_lem [of "a - page_addr pg" "page_addr pg"] by (simp add: PMM_MAX_PAGES_def)
    ultimately have "pg * 4096 \<le> unat a" "unat a < (pg + k) * 4096" using lt by simp_all
    then have "pg \<le> unat a div 4096" "unat a div 4096 < pg + k" by (simp_all add: less_mult_imp_div_less)
    then show False using that by simp
  qed
  have memv: "phys v a = phys (shm_vm s) a" if "unat a div 4096 \<notin> {pg ..< pg + k}" for a
    using mem [OF that] by (simp add: v)
  have veq: "(shm_vm s)\<lparr>frames := fr, phys := phys v\<rparr> = v" by (simp add: v)
  note st = spaces_take [OF d(5) made(12) made(14) made(13) made(17) memv, unfolded veq]
  have sp: "spaces shm_window R (shm_frames t) nx v"
    using st(1) shm_frames_new [OF free ot] pages by simp
  have gr: "grounded cr3of R nx ((shm_regions s)[i := g]) v"
    using grounded_set [OF d(6) i, of v g] st(2) d(7) [OF made(3)] made(4) by (simp add: region_ok_def)
  have own: "owned_ok (used_frames (frames v)) (owned t)"
    using pmm_pages.owned_alloc [OF _ d(4) made(15,16) free] d(5) by (simp add: v ot spaces_def)
  have "region_ok cr3of grp R g'" if "g' \<in> set ((shm_regions s)[i := g])" for g'
    using that gok d(1,7) set_update_subset_insert [of "shm_regions s" i g] by (metis in_set_conv_nth insertE subsetD)
  then have "shm_inv cr3of grp R nx t"
    using d(1,2,3) sp gr own by (simp add: shm_inv_def t_def set_region_def)
  moreover have "g = \<lparr>r_state = SHM_STATE_ALLOCATED, creator_pid = p_pid p,
             creator_tgid = grp (p_pid p), r_phys_addr = page_addr pg, r_size = of_nat (k * 4096), r_flags = flags,
             ref_count = 0, mappings = []\<rparr>"
    by (cases "shm_regions s ! i") (simp add: g_def)
  then have regs: "shm_regions t = (shm_regions s)[nat (int i) := \<lparr>r_state = SHM_STATE_ALLOCATED, creator_pid = p_pid p,
             creator_tgid = grp (p_pid p), r_phys_addr = page_addr pg, r_size = of_nat (k * 4096), r_flags = flags,
             ref_count = 0, mappings = []\<rparr>]"
    by (simp add: t_def set_region_def)
  have hit: "phys v a = 0" if "unat a div 4096 \<in> {pg ..< pg + k}" for a
  proof -
    have "pg * 4096 \<le> unat a" "unat a < (pg + k) * 4096" using that by (auto simp: less_mult_imp_div_less dest: div_less_mono)
    moreover have "unat (page_addr pg) = pg * 4096" using region_pages_addr(2) [OF made(10)] .
    ultimately have "unat (a - page_addr pg) = unat a - pg * 4096" "unat a - pg * 4096 < k * 4096"
      by (simp_all add: unat_sub word_le_nat_alt)
    then have "a - page_addr pg < of_nat (k * 4096)" using made(8) by (simp only: word_less_nat_alt unat_pages)
    then show ?thesis by (simp add: v)
  qed
  moreover have "shm_vm t = v" by (simp add: t_def set_region_def)
  moreover have "frames v = fr" by (simp add: v)
  ultimately show ?thesis
    using made(3,4,5,6,12,13,18) regs hit memv st(2)
    by (intro exI [of _ "int i"] exI [of _ t]) (auto simp: valid_id_def t_def g_def v_def)
qed (use inv in auto)

lemma shm_create_inv:
  assumes "shm_inv cr3of grp R nx s" and "caller_ok cr3of grp R p"
  shows "\<exists>rc s'. sys_shm_create (Some p) sz flags s = Some (rc, s') \<and> shm_inv cr3of grp R nx s'"
  using create_result [OF assms, of sz flags] by blast

text \<open>Mapping.\<close>

definition may_map :: "shm_proc \<Rightarrow> shm_region \<Rightarrow> bool" where
  "may_map p g \<longleftrightarrow> r_state g \<noteq> SHM_STATE_FREE \<and> capgate_caller_owns (Some p) (creator_pid g) (creator_tgid g) \<and>
     (\<forall>m\<in>set (mappings g). m_pid m \<noteq> p_pid p) \<and> (r_flags g AND SHM_FLAG_EXCLUSIVE \<noteq> 0 \<longrightarrow> mappings g = [])"

definition mapped_region :: "u32 \<Rightarrow> u64 \<Rightarrow> shm_region \<Rightarrow> shm_region" where
  "mapped_region pid va g = g\<lparr>mappings := \<lparr>m_pid = pid, m_virt_addr = va\<rparr> # mappings g,
     ref_count := ref_count g + 1, r_state := SHM_STATE_MAPPED\<rparr>"

lemma valid_nat: "valid_id i \<Longrightarrow> nat i < SHM_MAX_REGIONS"
  by (auto simp: valid_id_def)

lemma find_mapping_None: "shm_find_mapping g pid = None \<longleftrightarrow> (\<forall>m\<in>set (mappings g). m_pid m \<noteq> pid)"
  by (auto simp: shm_find_mapping_def find_None_iff)

lemma promote:
  "r_state g \<noteq> SHM_STATE_FREE \<Longrightarrow>
     (if r_state g = SHM_STATE_ALLOCATED then g\<lparr>mappings := ms, ref_count := n, r_state := SHM_STATE_MAPPED\<rparr>
      else g\<lparr>mappings := ms, ref_count := n\<rparr>) = g\<lparr>mappings := ms, ref_count := n, r_state := SHM_STATE_MAPPED\<rparr>"
  by (cases g, cases "r_state g") simp_all

lemma map_cases:
  assumes inv: "shm_inv cr3of grp R nx s" and run: "sys_shm_map (Some p) rid kmalloc s = ((rc, out), t)"
  obtains (refused) a b where "rc = -1" "out = None" "t = s\<lparr>shm_refused := a, shm_allowed := b\<rparr>"
      "\<not> valid_id rid \<or> \<not> may_map p (shm_regions s ! nat rid)"
    | (tried) va nv b res v where "valid_id rid" "may_map p (shm_regions s ! nat rid)"
      "in_window shm_window va (num_pages (shm_regions s ! nat rid))" "4096 dvd unat va"
      "nv \<in> shm_window" "4096 dvd unat nv"
      "map_pages (\<lambda>va pa. vmm_map_page_in (p_cr3 p) va pa (map_flags (shm_regions s ! nat rid) (p_pid p))) va
         (r_phys_addr (shm_regions s ! nat rid)) (num_pages (shm_regions s ! nat rid)) (shm_vm s) = (res, v)"
      "if res = None \<and> kmalloc
       then rc = 0 \<and> out = Some va \<and>
         t = set_region (nat rid) (mapped_region (p_pid p) va (shm_regions s ! nat rid))
           (s\<lparr>shm_allowed := b, shm_next_vaddr := nv, shm_vm := v\<rparr>)
       else rc = -1 \<and> out = None \<and>
         t = s\<lparr>shm_allowed := b, shm_next_vaddr := nv,
                shm_vm := unmap_pages (vmm_unmap_page_in (p_cr3 p)) va
                  (case res of None \<Rightarrow> num_pages (shm_regions s ! nat rid) | Some k \<Rightarrow> k) v\<rparr>"
proof -
  let ?g = "shm_regions s ! nat rid"
  note d = shm_invD [OF inv]
  show thesis
  proof (cases "valid_id rid \<and> may_map p ?g")
    case False
    consider "\<not> valid_id rid" | "valid_id rid" "r_state ?g = SHM_STATE_FREE"
      | "valid_id rid" "r_state ?g \<noteq> SHM_STATE_FREE" "\<not> capgate_caller_owns (Some p) (creator_pid ?g) (creator_tgid ?g)"
      | "valid_id rid" "r_state ?g \<noteq> SHM_STATE_FREE" "capgate_caller_owns (Some p) (creator_pid ?g) (creator_tgid ?g)"
        "shm_find_mapping ?g (p_pid p) \<noteq> None \<or> r_flags ?g AND SHM_FLAG_EXCLUSIVE \<noteq> 0 \<and> ref_count ?g > 0"
    proof -
      have "ref_count ?g = 0 \<longleftrightarrow> mappings ?g = []" if "valid_id rid"
        using region_maps(6) [OF d(7)] valid_nat [OF that] by blast
      then show thesis using False that unfolding may_map_def find_mapping_None [symmetric] by (metis word_gt_0)
    qed
    then show thesis
    proof cases
      case 1
      then show thesis
        using run refused [where a = "shm_refused s" and b = "shm_allowed s"] by (simp add: sys_shm_map_def)
    next
      case 2
      then show thesis
        using run refused [where a = "shm_refused s" and b = "shm_allowed s"] False by (simp add: sys_shm_map_def Let_def)
    next
      case 3
      then show thesis
        using run refused [where a = "shm_refused s + 1" and b = "shm_allowed s"] False
        by (auto simp: sys_shm_map_def Let_def)
    next
      case 4
      then show thesis
        using run refused [where a = "shm_refused s" and b = "shm_allowed s + 1"] False
        by (auto simp: sys_shm_map_def Let_def split: if_splits)
    qed
  next
    case True
    then have i: "nat rid < SHM_MAX_REGIONS" using valid_nat by blast
    have live: "r_state ?g \<noteq> SHM_STATE_FREE" using True by (simp add: may_map_def)
    define s1 where "s1 = s\<lparr>shm_allowed := shm_allowed s + 1\<rparr>"
    obtain va s2 where fv: "shm_find_vaddr (r_size ?g) s1 = (va, s2)" by fastforce
    have fv': "shm_find_vaddr (of_nat (num_pages ?g * 4096)) s1 = (va, s2)"
      using fv region_live(1) [OF d(7) [OF i] live] by simp
    obtain nv where nv: "s2 = s1\<lparr>shm_next_vaddr := nv\<rparr>" "nv \<in> shm_window" "4096 dvd unat nv"
      "in_window shm_window va (num_pages ?g)" "4096 dvd unat va"
      by (rule find_vaddr_spec [OF _ _ region_live(3) [OF d(7) [OF i] live] fv']) (use d(2,3) in \<open>simp_all add: s1_def\<close>)
    obtain res v where mp: "map_pages (\<lambda>va pa. vmm_map_page_in (p_cr3 p) va pa (map_flags ?g (p_pid p))) va
        (r_phys_addr ?g) (num_pages ?g) (shm_vm s) = (res, v)" by (rule prod.exhaust)
    have ref: "ref_count ?g > 0 \<longleftrightarrow> mappings ?g \<noteq> []" using region_maps(6) [OF d(7) [OF i]] by (simp add: word_gt_0)
    have go: "sys_shm_map (Some p) rid kmalloc s =
        (case res of
           Some k \<Rightarrow> ((-1, None), s2\<lparr>shm_vm := unmap_pages (vmm_unmap_page_in (p_cr3 p)) va k v\<rparr>)
         | None \<Rightarrow>
             if \<not> kmalloc
             then ((-1, None), s2\<lparr>shm_vm := unmap_pages (vmm_unmap_page_in (p_cr3 p)) va (num_pages ?g) v\<rparr>)
             else ((0, Some va), set_region (nat rid) (mapped_region (p_pid p) va ?g) (s2\<lparr>shm_vm := v\<rparr>)))"
    proof -
      have "shm_find_mapping ?g (p_pid p) = None" using True by (simp add: may_map_def find_mapping_None)
      moreover have "r_flags ?g AND SHM_FLAG_EXCLUSIVE = 0 \<or> ref_count ?g = 0"
        using True ref by (auto simp: may_map_def word_gt_0)
      moreover have "shm_vm s2 = shm_vm s" by (simp add: nv(1) s1_def)
      ultimately show ?thesis
        using True live fv mp promote [OF live]
        by (elim disjE; cases res; cases kmalloc)
          (simp_all add: sys_shm_map_def may_map_def s1_def [symmetric] shm_add_mapping_def mapped_region_def Let_def)
    qed
    show thesis
      by (rule tried [OF _ _ nv(4,5,2,3) mp, where b = "shm_allowed s + 1"])
        (use True run in \<open>auto simp: go nv(1) s1_def set_region_def split: option.splits if_splits\<close>)
  qed
qed

lemma owns_group:
  assumes "caller_ok cr3of grp R p" and "region_ok cr3of grp R g" and "may_map p g"
  shows "p_pid p \<noteq> 0" and "creator_pid g \<noteq> 0" and "grp (p_pid p) = creator_tgid g"
proof -
  have owns: "capgate_owner_ok_rs (creator_pid g) (creator_tgid g) (p_pid p) (p_tgid p)"
    using assms(3) by (simp add: may_map_def capgate_caller_owns_def)
  then show pid: "p_pid p \<noteq> 0" "creator_pid g \<noteq> 0"
    by (auto simp: capgate_owner_ok_rs_def split: if_splits)
  have "capgate_tgid_of_rs (creator_pid g) (creator_tgid g) = grp (p_pid p)"
    using owns pid assms(1) by (simp add: capgate_owner_ok_rs_def caller_ok_def Let_def)
  then show "grp (p_pid p) = creator_tgid g"
    using assms(2,3) pid by (auto simp: capgate_tgid_of_rs_def region_ok_def may_map_def split: if_splits)
qed

lemma backs_mapped:
  "backs nx (mapped_region pid va g) m x y \<longleftrightarrow> backs nx g m x y"
  by (simp add: backs_def mapped_region_def num_pages_def map_flags_def)

lemma mapped_region_ok:
  assumes ok: "caller_ok cr3of grp R p" and g: "region_ok cr3of grp R g" and may: "may_map p g"
    and w: "in_window shm_window va (num_pages g)" "4096 dvd unat va"
  shows "region_ok cr3of grp R (mapped_region (p_pid p) va g)"
proof -
  have num: "num_pages (mapped_region (p_pid p) va g) = num_pages g" by (simp add: mapped_region_def num_pages_def)
  have live: "r_state g \<noteq> SHM_STATE_FREE" using may by (simp add: may_map_def)
  have new: "mapping_ok cr3of grp R (mapped_region (p_pid p) va g) \<lparr>m_pid = p_pid p, m_virt_addr = va\<rparr>"
    using owns_group [OF ok g may] ok w num by (auto simp: mapping_ok_def caller_ok_def mapped_region_def num_pages_def)
  have old: "mapping_ok cr3of grp R (mapped_region (p_pid p) va g) m" if "m \<in> set (mappings g)" for m
    using region_maps(3) [OF g that] num by (simp add: mapping_ok_def mapped_region_def num_pages_def)
  show ?thesis
    unfolding region_ok_def num
    using region_live [OF g live] region_maps [OF g] new old may g live
    by (auto simp: mapped_region_def may_map_def region_ok_def)
qed

lemma shm_map_inv:
  assumes inv: "shm_inv cr3of grp R nx s" and ok: "caller_ok cr3of grp R p"
    and run: "sys_shm_map (Some p) rid kmalloc s = ((rc, out), t)"
  shows "shm_inv cr3of grp R nx t"
  using inv run
proof (cases rule: map_cases)
  case (refused a b)
  then have "owned t = owned s" by (intro owned_cong) simp
  then show ?thesis using inv shm_frames_cong [of t s] refused(3) by (simp add: shm_inv_def)
next
  case (tried va nv b res v)
  note d = shm_invD [OF inv]
  let ?g = "shm_regions s ! nat rid" and ?r = "p_cr3 p"
  have i: "nat rid < SHM_MAX_REGIONS" using valid_nat [OF tried(1)] .
  then have il: "nat rid < length (shm_regions s)" using d(1) by simp
  have g: "region_ok cr3of grp R ?g" using d(7) [OF i] .
  have r: "?r \<in> R" using ok unfolding caller_ok_def by blast
  have fl: "user_flags (map_flags ?g (p_pid p))" by (simp add: user_flags_def map_flags_def)
  note mr = map_run [OF d(5) r tried(3) fl tried(7)]
  have aligned: "\<exists>j<num_pages ?g. va' = nth_page va j"
    if "va' \<in> shm_window" "4096 dvd unat va'" "\<exists>j<num_pages ?g. ix va' = ix (nth_page va j)" for va'
    using that page_eq nth_page_window(1) [OF tried(3)] nth_page_dvd [OF tried(3) _ tried(4)] by metis
  show ?thesis
  proof (cases "res = None \<and> kmalloc")
    case True
    let ?g' = "mapped_region (p_pid p) va ?g"
    have t: "t = set_region (nat rid) ?g' (s\<lparr>shm_allowed := b, shm_next_vaddr := nv, shm_vm := v\<rparr>)"
      using tried(8) True by simp
    have gr: "grounded cr3of R nx ((shm_regions s)[nat rid := ?g']) v"
    proof (rule grounded_set [OF d(6) il])
      fix r' va'
      assume a: "r' \<in> R" "va' \<in> shm_window" "4096 dvd unat va'"
      show "look_up r' va' v = (0, 0) \<or> look_up r' va' v = look_up r' va' (shm_vm s) \<and>
          (\<forall>m\<in>set (mappings ?g). cr3of (m_pid m) = r' \<longrightarrow> backs nx ?g m va' (look_up r' va' (shm_vm s)) \<longrightarrow>
             m \<in> set (mappings ?g') \<and> backs nx ?g' m va' (look_up r' va' (shm_vm s))) \<or>
        (\<exists>m\<in>set (mappings ?g'). cr3of (m_pid m) = r' \<and> backs nx ?g' m va' (look_up r' va' v))"
      proof (cases "r' = ?r \<and> (\<exists>j<num_pages ?g. ix va' = ix (nth_page va j))")
        case True
        then obtain j where j: "j < num_pages ?g" "va' = nth_page va j" using aligned [OF a(2,3)] by blast
        let ?m = "\<lparr>m_pid = p_pid p, m_virt_addr = va\<rparr>"
        have "backs nx ?g ?m va' (look_up r' va' v)"
          using mr(2) j True \<open>res = None \<and> kmalloc\<close> by (auto simp: backs_def)
        moreover have "?m \<in> set (mappings ?g')" by (simp add: mapped_region_def)
        moreover have "cr3of (m_pid ?m) = r'" using True ok by (simp add: caller_ok_def)
        ultimately show ?thesis unfolding backs_mapped by blast
      next
        case False
        then have "look_up r' va' v = look_up r' va' (shm_vm s)" using mr(3) [OF a(1)] by blast
        then show ?thesis unfolding backs_mapped by (simp add: mapped_region_def)
      qed
    qed
    have live: "r_state ?g \<noteq> SHM_STATE_FREE" using tried(2) by (simp add: may_map_def)
    show ?thesis
      by (rule shm_inv_update [OF inv i mapped_region_ok [OF ok g tried(2,3,4)] _ _ _ mr(1) gr])
        (use live tried(5,6) in \<open>simp_all add: t set_region_def mapped_region_def\<close>)
  next
    case False
    define k where "k = (case res of None \<Rightarrow> num_pages ?g | Some k \<Rightarrow> k)"
    note rb = map_rollback [OF d(5) r tried(3) fl tried(7) k_def]
    let ?v = "unmap_pages (vmm_unmap_page_in ?r) va k v"
    have t: "t = s\<lparr>shm_allowed := b, shm_next_vaddr := nv, shm_vm := ?v\<rparr>"
      using tried(8) False by (auto simp: k_def)
    have look: "look_up r' va' ?v = look_up r' va' (shm_vm s) \<or> look_up r' va' ?v = (0, 0)"
      if "r' \<in> R" "va' \<in> shm_window" "4096 dvd unat va'" for r' va'
      using rb(2) [OF that(1)] rb(3) aligned [OF that(2,3)] by metis
    have gr: "grounded cr3of R nx (shm_regions s) ?v"
      using d(6) look unfolding grounded_def by metis
    show ?thesis
      by (rule shm_inv_update [OF inv i g refl refl refl rb(1)])
        (use gr tried(5,6) in \<open>simp_all add: t\<close>)
  qed
qed

text \<open>Unmapping.\<close>

definition dropped_region :: "u32 \<Rightarrow> shm_region \<Rightarrow> shm_region" where
  "dropped_region pid g = settle (g\<lparr>mappings := filter (\<lambda>m. m_pid m \<noteq> pid) (mappings g), ref_count := ref_count g - 1\<rparr>)"

lemma filter_absent: "m_pid m \<notin> m_pid ` set ms \<Longrightarrow> filter (\<lambda>x. m_pid x \<noteq> m_pid m) ms = ms"
  by (rule filter_True) force

lemma drop_mapping_eq:
  "distinct (map m_pid ms) \<Longrightarrow> m \<in> set ms \<Longrightarrow>
     drop_mapping (m_pid m) ms = Some (filter (\<lambda>x. m_pid x \<noteq> m_pid m) ms)"
proof (induction ms)
  case (Cons a ms)
  then show ?case
    using filter_absent [of a ms] by (cases "m_pid a = m_pid m") auto
qed simp

lemma length_drop:
  "distinct (map m_pid ms) \<Longrightarrow> m \<in> set ms \<Longrightarrow> Suc (length (filter (\<lambda>x. m_pid x \<noteq> m_pid m) ms)) = length ms"
proof (induction ms)
  case (Cons a ms)
  then show ?case
    using filter_absent [of a ms] by (cases "m_pid a = m_pid m") auto
qed simp

lemma remove_mapping_eq:
  assumes "distinct (map m_pid (mappings g))" and "m \<in> set (mappings g)"
  shows "settle (shm_remove_mapping g (m_pid m)) = dropped_region (m_pid m) g"
  using drop_mapping_eq [OF assms] by (simp add: shm_remove_mapping_def dropped_region_def)

lemma settle_simps [simp]:
  "mappings (settle g) = mappings g" "ref_count (settle g) = ref_count g" "r_size (settle g) = r_size g"
  "r_phys_addr (settle g) = r_phys_addr g" "creator_pid (settle g) = creator_pid g"
  "creator_tgid (settle g) = creator_tgid g" "r_flags (settle g) = r_flags g"
  "r_state (settle g) = (if ref_count g = 0 then SHM_STATE_ALLOCATED else r_state g)"
  by (simp_all add: settle_def)

lemma dropped_region_ok:
  assumes g: "region_ok cr3of grp R g" and m: "m \<in> set (mappings g)"
  shows "region_ok cr3of grp R (dropped_region (m_pid m) g)" and "r_state (dropped_region (m_pid m) g) \<noteq> SHM_STATE_FREE"
    and "r_state g \<noteq> SHM_STATE_FREE"
proof -
  note rm = region_maps [OF g]
  let ?ms = "filter (\<lambda>x. m_pid x \<noteq> m_pid m) (mappings g)"
  have len: "Suc (length ?ms) = length (mappings g)" using length_drop [OF rm(2) m] .
  have ref: "ref_count g - 1 = of_nat (length ?ms)" by (simp add: rm(1) len [symmetric])
  have mapped: "r_state g = SHM_STATE_MAPPED" using rm(4) m by force
  then show live: "r_state g \<noteq> SHM_STATE_FREE" by simp
  have zero: "(of_nat (length ?ms) :: u32) = 0 \<longleftrightarrow> ?ms = []"
  proof -
    have "unat (of_nat (length ?ms) :: u32) = length ?ms" using rm(5) len by (simp add: unat_of_nat)
    then show ?thesis by (metis length_0_conv unat_eq_zero)
  qed
  show "r_state (dropped_region (m_pid m) g) \<noteq> SHM_STATE_FREE" using mapped by (simp add: dropped_region_def)
  have num: "num_pages (dropped_region (m_pid m) g) = num_pages g" by (simp add: num_pages_def dropped_region_def)
  have maps: "mapping_ok cr3of grp R (dropped_region (m_pid m) g) x" if "x \<in> set (mappings g)" for x
    using rm(3) [OF that] by (simp add: mapping_ok_def num) (simp add: dropped_region_def)
  have dist: "distinct (map m_pid ?ms)" using rm(2) by (rule distinct_map_filter)
  have excl: "r_flags g AND SHM_FLAG_EXCLUSIVE \<noteq> 0 \<longrightarrow> length ?ms \<le> 1"
    using g len by (auto simp: region_ok_def)
  show "region_ok cr3of grp R (dropped_region (m_pid m) g)"
    unfolding region_ok_def num
    using region_live [OF g live] g live maps dist excl mapped zero ref
    by (auto simp: dropped_region_def region_ok_def)
qed

lemma backs_dropped: "backs nx (dropped_region pid g) m x y \<longleftrightarrow> backs nx g m x y"
  by (simp add: backs_def dropped_region_def num_pages_def map_flags_def)

lemma unmap_cases:
  assumes inv: "shm_inv cr3of grp R nx s" and run: "sys_shm_unmap (Some p) rid s = (rc, t)"
  obtains (refused) "rc = -1" "t = s" "\<not> valid_id rid \<or> (\<forall>m\<in>set (mappings (shm_regions s ! nat rid)). m_pid m \<noteq> p_pid p)"
    | (removed) m where "rc = 0" "valid_id rid" "m \<in> set (mappings (shm_regions s ! nat rid))" "m_pid m = p_pid p"
      "t = set_region (nat rid) (dropped_region (p_pid p) (shm_regions s ! nat rid))
         (s\<lparr>shm_vm := unmap_pages (vmm_unmap_page_in (p_cr3 p)) (m_virt_addr m)
            (num_pages (shm_regions s ! nat rid)) (shm_vm s)\<rparr>)"
proof -
  let ?g = "shm_regions s ! nat rid"
  note d = shm_invD [OF inv]
  show thesis
  proof (cases "valid_id rid \<and> shm_find_mapping ?g (p_pid p) \<noteq> None")
    case False
    then show thesis
      using run refused find_mapping_None [of ?g "p_pid p"] by (auto simp: sys_shm_unmap_def Let_def split: if_splits)
  next
    case True
    then obtain m where f: "shm_find_mapping ?g (p_pid p) = Some m" by auto
    then have m: "m \<in> set (mappings ?g)" "m_pid m = p_pid p"
      by (auto simp: shm_find_mapping_def find_Some_iff)
    have "settle (shm_remove_mapping ?g (p_pid p)) = dropped_region (p_pid p) ?g"
      using remove_mapping_eq [OF region_maps(2) [OF d(7) [OF valid_nat]] m(1)] True m(2) by simp
    then show thesis
      using run True f m removed [of m] by (simp add: sys_shm_unmap_def Let_def)
  qed
qed

lemma shm_unmap_inv:
  assumes inv: "shm_inv cr3of grp R nx s" and ok: "caller_ok cr3of grp R p"
    and run: "sys_shm_unmap (Some p) rid s = (rc, t)"
  shows "shm_inv cr3of grp R nx t"
  using inv run
proof (cases rule: unmap_cases)
  case refused
  then show ?thesis using inv by simp
next
  case (removed m)
  note d = shm_invD [OF inv]
  let ?g = "shm_regions s ! nat rid" and ?r = "p_cr3 p" and ?g' = "dropped_region (p_pid p) (shm_regions s ! nat rid)"
  have i: "nat rid < SHM_MAX_REGIONS" using valid_nat [OF removed(2)] .
  then have il: "nat rid < length (shm_regions s)" using d(1) by simp
  have g: "region_ok cr3of grp R ?g" using d(7) [OF i] .
  have r: "?r \<in> R" "?r = cr3of (p_pid p)" using ok unfolding caller_ok_def by blast+
  have w: "in_window shm_window (m_virt_addr m) (num_pages ?g)" "4096 dvd unat (m_virt_addr m)"
    using region_maps(3) [OF g removed(3)] by (simp_all add: mapping_ok_def)
  note ur = unmap_run [OF d(5) r(1) w(1)]
  let ?v = "unmap_pages (vmm_unmap_page_in ?r) (m_virt_addr m) (num_pages ?g) (shm_vm s)"
  have gr: "grounded cr3of R nx ((shm_regions s)[nat rid := ?g']) ?v"
  proof (rule grounded_set [OF d(6) il])
    fix r' va
    assume a: "r' \<in> R" "va \<in> shm_window" "4096 dvd unat va"
    show "look_up r' va ?v = (0, 0) \<or> look_up r' va ?v = look_up r' va (shm_vm s) \<and>
        (\<forall>m\<in>set (mappings ?g). cr3of (m_pid m) = r' \<longrightarrow> backs nx ?g m va (look_up r' va (shm_vm s)) \<longrightarrow>
           m \<in> set (mappings ?g') \<and> backs nx ?g' m va (look_up r' va (shm_vm s))) \<or>
      (\<exists>m\<in>set (mappings ?g'). cr3of (m_pid m) = r' \<and> backs nx ?g' m va (look_up r' va ?v))"
    proof (cases "r' = ?r \<and> (\<exists>j<num_pages ?g. va = nth_page (m_virt_addr m) j)")
      case True
      then obtain j where "j < num_pages ?g" "va = nth_page (m_virt_addr m) j" by blast
      then have "look_up r' va ?v = (0, 0)" using ur(3) True by simp
      then show ?thesis by (rule disjI1)
    next
      case False
      have "look_up r' va ?v = look_up r' va (shm_vm s)"
      proof (rule ur(4) [OF a(1)])
        show "r' \<noteq> ?r \<or> (\<forall>j<num_pages ?g. ix va \<noteq> ix (nth_page (m_virt_addr m) j))"
          using False page_eq [OF a(2) nth_page_window(1) [OF w(1)] a(3) nth_page_dvd [OF w(1) _ w(2)]] by blast
      qed
      moreover have "x \<in> set (mappings ?g')"
        if x: "x \<in> set (mappings ?g)" "cr3of (m_pid x) = r'" "backs nx ?g x va (look_up r' va (shm_vm s))" for x
      proof -
        have "m_pid x \<noteq> p_pid p"
        proof
          assume same: "m_pid x = p_pid p"
          have "inj_on m_pid (set (mappings ?g))" using region_maps(2) [OF g] by (simp add: distinct_map)
          then have "x = m" using x(1) removed(3,4) same by (metis inj_onD)
          then have "r' = p_cr3 p" using x(2) r(2) removed(4) by simp
          moreover have "\<exists>j<num_pages ?g. va = nth_page (m_virt_addr m) j"
            using x(3) \<open>x = m\<close> unfolding backs_def by blast
          ultimately show False using False by blast
        qed
        then show ?thesis using x(1) by (simp add: dropped_region_def)
      qed
      ultimately show ?thesis unfolding backs_dropped by blast
    qed
  qed
  note gok = dropped_region_ok [OF g removed(3), unfolded removed(4)]
  show ?thesis
    by (rule shm_inv_update [OF inv i gok(1) _ _ _ ur(1) gr])
      (use gok d(2,3) removed in \<open>simp_all add: set_region_def dropped_region_def\<close>)
qed

text \<open>Destroying.\<close>

lemma drop_all_spec:
  fixes refs :: u32
  assumes "spaces shm_window R U nx v"
    and "\<forall>m\<in>set ms. cr3of (m_pid m) \<in> R \<and> in_window shm_window (m_virt_addr m) n"
    and "\<forall>pid. proc_cr3 pid = None \<or> proc_cr3 pid = Some (cr3of pid)"
  defines "v' \<equiv> snd (drop_all proc_cr3 n ms refs v)"
  shows "spaces shm_window R U nx v' \<and> frames v' = frames v"
    and "r \<in> R \<Longrightarrow> look_up r x v' = look_up r x v \<or> look_up r x v' = (0, 0)"
    and "m \<in> set ms \<Longrightarrow> proc_cr3 (m_pid m) \<noteq> None \<Longrightarrow> j < n \<Longrightarrow>
           look_up (cr3of (m_pid m)) (nth_page (m_virt_addr m) j) v' = (0, 0)"
proof -
  have "(spaces shm_window R U nx v' \<and> frames v' = frames v) \<and>
      (\<forall>r x. r \<in> R \<longrightarrow> look_up r x v' = look_up r x v \<or> look_up r x v' = (0, 0)) \<and>
      (\<forall>m j. m \<in> set ms \<longrightarrow> proc_cr3 (m_pid m) \<noteq> None \<longrightarrow> j < n \<longrightarrow>
           look_up (cr3of (m_pid m)) (nth_page (m_virt_addr m) j) v' = (0, 0))"
    unfolding v'_def using assms(1,2)
  proof (induction ms arbitrary: refs v)
    case (Cons a ms)
    let ?r = "cr3of (m_pid a)"
    have a: "?r \<in> R" "in_window shm_window (m_virt_addr a) n" using Cons.prems(2) by simp_all
    note ur = unmap_run [OF Cons.prems(1) a]
    define v1 where "v1 = (case proc_cr3 (m_pid a) of None \<Rightarrow> v
      | Some cr3 \<Rightarrow> unmap_pages (vmm_unmap_page_in cr3) (m_virt_addr a) n v)"
    have v1: "v1 = v \<and> proc_cr3 (m_pid a) = None \<or> v1 = unmap_pages (vmm_unmap_page_in ?r) (m_virt_addr a) n v"
      using assms(3) [rule_format, of "m_pid a"] by (auto simp: v1_def)
    have sp1: "spaces shm_window R U nx v1" "frames v1 = frames v" using v1 ur(1,2) Cons.prems(1) by auto
    have lk1: "look_up r x v1 = look_up r x v \<or> look_up r x v1 = (0, 0)" if "r \<in> R" for r x
    proof (cases "r = ?r \<and> (\<exists>j<n. ix x = ix (nth_page (m_virt_addr a) j))")
      case True
      then show ?thesis using v1 ur(3) by blast
    next
      case False
      then show ?thesis using v1 ur(4) [OF that] by blast
    qed
    have hit: "look_up ?r (nth_page (m_virt_addr a) j) v1 = (0, 0)" if "proc_cr3 (m_pid a) \<noteq> None" "j < n" for j
      using v1 that ur(3) [OF that(2) refl] by auto
    have step: "drop_all proc_cr3 n (a # ms) refs v = drop_all proc_cr3 n ms (refs - 1) v1" by (simp add: v1_def)
    define w where "w = snd (drop_all proc_cr3 n ms (refs - 1) v1)"
    have IH: "spaces shm_window R U nx w" "frames w = frames v1"
      "\<And>r x. r \<in> R \<Longrightarrow> look_up r x w = look_up r x v1 \<or> look_up r x w = (0, 0)"
      "\<And>m j. m \<in> set ms \<Longrightarrow> proc_cr3 (m_pid m) \<noteq> None \<Longrightarrow> j < n \<Longrightarrow>
           look_up (cr3of (m_pid m)) (nth_page (m_virt_addr m) j) w = (0, 0)"
      using Cons.IH [OF sp1(1), of "refs - 1"] Cons.prems(2) by (simp_all add: w_def)
    have "look_up r x w = look_up r x v \<or> look_up r x w = (0, 0)" if "r \<in> R" for r x
      using IH(3) [OF that, of x] lk1 [OF that, of x] by auto
    moreover have "look_up (cr3of (m_pid m)) (nth_page (m_virt_addr m) j) w = (0, 0)"
      if "m \<in> set (a # ms)" "proc_cr3 (m_pid m) \<noteq> None" "j < n" for m j
    proof (cases "m \<in> set ms")
      case False
      then have "m = a" using that(1) by simp
      then show ?thesis using IH(3) [OF a(1), of "nth_page (m_virt_addr a) j"] hit that(2,3) by auto
    qed (use IH(4) that in blast)
    ultimately show ?case unfolding step w_def [symmetric] using IH(1,2) sp1(2) by simp
  qed (simp add: assms(1))
  then show "spaces shm_window R U nx v' \<and> frames v' = frames v"
    and "r \<in> R \<Longrightarrow> look_up r x v' = look_up r x v \<or> look_up r x v' = (0, 0)"
    and "m \<in> set ms \<Longrightarrow> proc_cr3 (m_pid m) \<noteq> None \<Longrightarrow> j < n \<Longrightarrow>
           look_up (cr3of (m_pid m)) (nth_page (m_virt_addr m) j) v' = (0, 0)"
    by blast+
qed

definition freed_region :: "shm_region \<Rightarrow> shm_region" where
  "freed_region g = g\<lparr>r_state := SHM_STATE_FREE, creator_pid := 0, r_phys_addr := 0, r_size := 0, r_flags := 0,
     ref_count := 0, mappings := []\<rparr>"

lemma destroy_cases:
  assumes run: "sys_shm_destroy proc_cr3 (Some p) rid s = (rc, t)"
  obtains (refused) "rc = -1" "t = s" "\<not> valid_id rid \<or> r_state (shm_regions s ! nat rid) = SHM_STATE_FREE \<or>
        creator_pid (shm_regions s ! nat rid) \<noteq> p_pid p"
    | (freed) v where "rc = 0" "valid_id rid" "r_state (shm_regions s ! nat rid) \<noteq> SHM_STATE_FREE"
      "creator_pid (shm_regions s ! nat rid) = p_pid p"
      "v = snd (drop_all proc_cr3 (num_pages (shm_regions s ! nat rid)) (mappings (shm_regions s ! nat rid))
                  (ref_count (shm_regions s ! nat rid)) (shm_vm s))"
      "t = set_region (nat rid) (freed_region (shm_regions s ! nat rid))
             (s\<lparr>shm_vm := free_frames_of (shm_regions s ! nat rid) v\<rparr>)"
  using assms by (auto simp: sys_shm_destroy_def freed_region_def Let_def split: if_splits)

text \<open>Giving the frames of a region back, when nothing translates to them by its mappings.\<close>

lemma free_region_inv:
  assumes inv: "shm_inv cr3of grp R nx s" and i: "i < SHM_MAX_REGIONS" and live: "r_state (shm_regions s ! i) \<noteq> SHM_STATE_FREE"
    and sp: "spaces shm_window R (shm_frames s) nx v" and fr: "frames v = frames (shm_vm s)"
    and look: "\<And>r x. r \<in> R \<Longrightarrow> look_up r x v = look_up r x (shm_vm s) \<or> look_up r x v = (0, 0)"
    and gone: "\<And>m j. m \<in> set (mappings (shm_regions s ! i)) \<Longrightarrow> j < num_pages (shm_regions s ! i) \<Longrightarrow>
           look_up (cr3of (m_pid m)) (nth_page (m_virt_addr m) j) v = (0, 0)"
  shows "shm_inv cr3of grp R nx
           (set_region i (freed_region (shm_regions s ! i)) (s\<lparr>shm_vm := free_frames_of (shm_regions s ! i) v\<rparr>))"
proof -
  note d = shm_invD [OF inv]
  let ?g = "shm_regions s ! i" and ?g' = "freed_region (shm_regions s ! i)"
  let ?fr = "pmm_free_pages (frames v) (r_phys_addr ?g) (r_size ?g div VMM_PAGE_SIZE_4K)"
  let ?t = "set_region i ?g' (s\<lparr>shm_vm := free_frames_of ?g v\<rparr>)"
  let ?P = "region_pages (r_phys_addr ?g) (r_size ?g div VMM_PAGE_SIZE_4K)"
  have il: "i < length (shm_regions s)" using i d(1) by simp
  have own: "owned s i = Some (r_phys_addr ?g, r_size ?g div VMM_PAGE_SIZE_4K)" using il live by (simp add: owned_def)
  have ot: "owned ?t = (owned s)(i := None)"
    using owned_set_region [of i "s\<lparr>shm_vm := free_frames_of ?g v\<rparr>" ?g'] il
      owned_cong [of "s\<lparr>shm_vm := free_frames_of ?g v\<rparr>" s] by (simp add: freed_region_def)
  have pinv: "pmm_inv (frames v)" and sub: "?P \<subseteq> used_frames (frames v)"
    using sp frames_mem [OF own] by (auto simp: spaces_def)
  note fp = free_pages_used [OF pinv sub]
  note give = spaces_give [OF sp frames_mem [OF own] fp(1,3,2)]
  have vt: "free_frames_of ?g v = v\<lparr>frames := ?fr\<rparr>" by (simp add: free_frames_of_def)
  have sp': "spaces shm_window R (shm_frames ?t) nx (free_frames_of ?g v)"
    using give(1) shm_frames_drop [OF d(4) own ot] by (simp add: vt)
  have own': "owned_ok (used_frames ?fr) (owned ?t)"
    using pmm_pages.owned_free(1) [OF pinv d(4) [folded fr] own] by (simp only: ot)
  have gr: "grounded cr3of R nx ((shm_regions s)[i := ?g']) (free_frames_of ?g v)"
  proof (rule grounded_set [OF d(6) il])
    fix r va
    assume a: "r \<in> R" "va \<in> shm_window" "4096 dvd unat va"
    have "look_up r va (free_frames_of ?g v) = look_up r va v" using give(2) [OF a(1)] by (simp add: vt)
    moreover have "look_up r va v = (0, 0)"
      if "m \<in> set (mappings ?g)" "cr3of (m_pid m) = r" "backs nx ?g m va x" for m x
      using gone [OF that(1)] that(2,3) unfolding backs_def by metis
    ultimately show "look_up r va (free_frames_of ?g v) = (0, 0) \<or>
        look_up r va (free_frames_of ?g v) = look_up r va (shm_vm s) \<and>
        (\<forall>m\<in>set (mappings ?g). cr3of (m_pid m) = r \<longrightarrow> backs nx ?g m va (look_up r va (shm_vm s)) \<longrightarrow>
           m \<in> set (mappings ?g') \<and> backs nx ?g' m va (look_up r va (shm_vm s))) \<or>
      (\<exists>m\<in>set (mappings ?g'). cr3of (m_pid m) = r \<and> backs nx ?g' m va (look_up r va (free_frames_of ?g v)))"
      using look [OF a(1), of va] by metis
  qed
  have "region_ok cr3of grp R ?g'" by (simp add: region_ok_def freed_region_def)
  then have "region_ok cr3of grp R x" if "x \<in> set ((shm_regions s)[i := ?g'])" for x
    using that d(1,7) set_update_subset_insert [of "shm_regions s" i ?g'] by (metis in_set_conv_nth insertE subsetD)
  then show ?thesis
    using d(1,2,3) sp' gr own' by (simp add: shm_inv_def set_region_def vt)
qed

lemma shm_destroy_inv:
  assumes inv: "shm_inv cr3of grp R nx s"
    and procs: "\<forall>pid. proc_cr3 pid = None \<or> proc_cr3 pid = Some (cr3of pid)"
    and run: "sys_shm_destroy proc_cr3 (Some p) rid s = (rc, t)"
    and alive: "valid_id rid \<Longrightarrow> \<forall>m\<in>set (mappings (shm_regions s ! nat rid)). proc_cr3 (m_pid m) \<noteq> None"
  shows "shm_inv cr3of grp R nx t"
  using run
proof (cases rule: destroy_cases)
  case refused
  then show ?thesis using inv by simp
next
  case (freed v)
  note d = shm_invD [OF inv]
  let ?g = "shm_regions s ! nat rid"
  have i: "nat rid < SHM_MAX_REGIONS" using valid_nat [OF freed(2)] .
  have "\<forall>m\<in>set (mappings ?g). cr3of (m_pid m) \<in> R \<and> in_window shm_window (m_virt_addr m) (num_pages ?g)"
    using region_maps(3) [OF d(7) [OF i]] by (simp add: mapping_ok_def)
  note da = drop_all_spec [OF d(5) this procs, where refs = "ref_count ?g", folded freed(5)]
  show ?thesis
    unfolding freed(6)
    proof (rule free_region_inv [OF inv i freed(3)])
    show "spaces shm_window R (shm_frames s) nx v" "frames v = frames (shm_vm s)" using da(1) by blast+
    show "look_up r x v = look_up r x (shm_vm s) \<or> look_up r x v = (0, 0)" if "r \<in> R" for r x using da(2) [OF that] .
    show "look_up (cr3of (m_pid m)) (nth_page (m_virt_addr m) j) v = (0, 0)"
      if "m \<in> set (mappings ?g)" "j < num_pages ?g" for m j
      using da(3) [OF that(1) _ that(2)] alive freed(2) that(1) by blast
  qed
qed

section \<open>Frames\<close>

lemma map_pages_fails:
  assumes "pmm_inv (frames v)" and "r \<noteq> 0"
    and "map_pages (\<lambda>va pa. vmm_map_page_in r va pa fl) va pa n v = (res, v')"
  shows "pmm_inv (frames v') \<and> (res \<noteq> None \<longrightarrow> free_frames (frames v') = {})"
  using assms(3)
proof (induction n arbitrary: res v')
  case 0
  then show ?case using assms(1) by simp
next
  case (Suc n)
  obtain res1 v1 where r1: "map_pages (\<lambda>va pa. vmm_map_page_in r va pa fl) va pa n v = (res1, v1)" by fastforce
  note IH = Suc.IH [OF r1]
  show ?case
  proof (cases res1)
    case (Some k)
    then show ?thesis using Suc.prems r1 IH by simp
  next
    case None
    obtain rc v2 where r2: "vmm_map_page_in r (nth_page va n) (nth_page pa n) fl v1 = (rc, v2)" by fastforce
    have inv1: "pmm_inv (frames v1)" using IH by blast
    note mt = map_page_takes [OF inv1 assms(2) r2]
    have "v' = v2" "res = (if rc \<noteq> 0 then Some n else None)" using Suc.prems r1 r2 None by simp_all
    then show ?thesis using mt by (simp add: takes_def)
  qed
qed

text \<open>A page of a live region translates to one of its frames.\<close>

lemma page_frame:
  assumes "r_phys_addr g = page_addr p" and "p + num_pages g \<le> PMM_MAX_PAGES" and "j < num_pages g"
    and "4096 dvd unat va"
  shows "unat (fst (page_value nx fl va (nth_page (r_phys_addr g) j))) div 4096 = p + j"
proof -
  have u: "unat (page_addr p) = p * 4096" using region_pages_addr(2) [of p "num_pages g"] assms(2) by blast
  have "unat (nth_page (page_addr p) j) = unat (page_addr p) + j * 4096"
    by (rule unat_nth_page) (use assms(2,3) u in \<open>simp add: PMM_MAX_PAGES_def\<close>)
  then have n: "unat (nth_page (page_addr p) j) = (p + j) * 4096" using u by simp
  then have "aligned (nth_page (page_addr p) j)"
    using assms(2,3) by (simp add: aligned_iff_unat PMM_MAX_PAGES_def)
  then have "nth_page (page_addr p) j AND VMM_ADDR_MASK = nth_page (page_addr p) j" by (simp only: aligned_def)
  moreover have "VMM_PAGE_OFFSET va = 0"
  proof -
    have "VMM_PAGE_OFFSET va = take_bit 12 va"
      unfolding VMM_PAGE_OFFSET_def take_bit_eq_mask by (simp add: mask_eq_exp_minus_1)
    moreover have "unat (take_bit 12 va) = unat va mod 4096" by (simp only: unsigned_take_bit_eq) (simp add: take_bit_eq_mod)
    ultimately have "unat (VMM_PAGE_OFFSET va) = 0" using assms(4) by simp
    then show ?thesis by (simp only: unat_eq_zero)
  qed
  ultimately have "fst (page_value nx fl va (nth_page (r_phys_addr g) j)) = nth_page (page_addr p) j"
    by (simp add: page_value_def assms(1))
  then show ?thesis using n by simp
qed

lemma grounded_frame:
  assumes inv: "shm_inv cr3of grp R nx s" and r: "r \<in> R" and va: "va \<in> shm_window" "4096 dvd unat va"
    and look: "look_up r va (shm_vm s) \<noteq> (0, 0)"
  shows "\<exists>i<SHM_MAX_REGIONS. \<exists>m\<in>set (mappings (shm_regions s ! i)). r_state (shm_regions s ! i) \<noteq> SHM_STATE_FREE \<and>
     cr3of (m_pid m) = r \<and> grp (m_pid m) = grp (creator_pid (shm_regions s ! i)) \<and>
     unat (vmm_get_physical_in r va (shm_vm s)) div 4096
       \<in> region_pages (r_phys_addr (shm_regions s ! i)) (of_nat (num_pages (shm_regions s ! i)))"
proof -
  note d = shm_invD [OF inv]
  obtain g m where g: "g \<in> set (shm_regions s)" and m: "m \<in> set (mappings g)" "cr3of (m_pid m) = r"
    "backs nx g m va (look_up r va (shm_vm s))"
    using d(6) r va look unfolding grounded_def by metis
  obtain i where i: "i < SHM_MAX_REGIONS" "g = shm_regions s ! i" using g d(1) by (metis in_set_conv_nth)
  have ok: "region_ok cr3of grp R g" using d(7) i by simp
  have live: "r_state g \<noteq> SHM_STATE_FREE" using region_maps(4) [OF ok] m(1) by force
  obtain p where p: "r_phys_addr g = page_addr p" "p + num_pages g \<le> PMM_MAX_PAGES"
    using region_live(5) [OF ok live] by blast
  obtain j where j: "j < num_pages g"
    "look_up r va (shm_vm s) = page_value nx (map_flags g (m_pid m)) va (nth_page (r_phys_addr g) j)"
    using m(3) unfolding backs_def by blast
  have "unat (vmm_get_physical_in r va (shm_vm s)) div 4096 = p + j"
    using page_frame [OF p j(1) va(2)] j(2) by (metis fst_conv look_up_def)
  moreover have "region_pages (r_phys_addr g) (of_nat (num_pages g)) = {p ..< p + num_pages g}"
    using region_pages_addr(1) [OF p(2)] p(1) by simp
  ultimately have "unat (vmm_get_physical_in r va (shm_vm s)) div 4096 \<in> region_pages (r_phys_addr g) (of_nat (num_pages g))"
    using j(1) by simp
  moreover have "grp (m_pid m) = grp (creator_pid g)"
    using region_maps(3) [OF ok m(1)] region_live(6) [OF ok live] by (simp add: mapping_ok_def)
  ultimately show ?thesis using i m(1,2) live by blast
qed

text \<open>An address inside a page translates into the frame its page translates to.\<close>

lemma low_mask: "(0xFFF :: u64) = mask 12"
  by (simp add: mask_eq_exp_minus_1)

lemma unat_page_base: "unat (va AND NOT 0xFFF) = unat va div 4096 * 4096" for va :: u64
proof -
  have "va AND NOT 0xFFF = push_bit 12 (drop_bit 12 va)"
    unfolding low_mask by (rule bit_word_eqI) (auto simp: bit_simps)
  also have "drop_bit 12 va = of_nat (unat va div 4096)"
  proof -
    have "unat (drop_bit 12 va) = unat va div 4096" by (simp add: drop_bit_eq_div unat_div)
    then have "of_nat (unat (drop_bit 12 va)) = (of_nat (unat va div 4096) :: u64)" by (rule arg_cong)
    then show ?thesis by simp
  qed
  also have "push_bit 12 (of_nat (unat va div 4096)) = (of_nat (unat va div 4096 * 4096) :: u64)"
    by (simp add: push_bit_eq_mult mult.commute)
  finally have "unat (va AND NOT 0xFFF) = unat (of_nat (unat va div 4096 * 4096) :: u64)" by simp
  moreover have "unat va div 4096 * 4096 < 2 ^ 64"
    using unsigned_less [where w = va and 'a = nat] by (simp add: less_mult_imp_div_less)
  moreover have "unat (of_nat k :: u64) = k" if "k < 2 ^ 64" for k
    using that by (simp add: unsigned_of_nat take_bit_nat_eq_self)
  ultimately show ?thesis by (simp only:)
qed

lemma page_base_window:
  assumes "va \<in> shm_window"
  shows "va AND NOT 0xFFF \<in> shm_window" and "4096 dvd unat (va AND NOT 0xFFF)"
proof -
  show "4096 dvd unat (va AND NOT 0xFFF)" unfolding unat_page_base by simp
  have w: "unat SHM_VIRT_BASE \<le> unat va" "unat va < unat SHM_VIRT_BASE + unat SHM_VIRT_SIZE"
    using assms by (auto simp: shm_window_def SHM_VIRT_BASE_def SHM_VIRT_SIZE_def word_le_nat_alt word_less_nat_alt)
  have "unat SHM_VIRT_BASE = 0x700000000 * 4096" by (simp add: SHM_VIRT_BASE_def)
  then have "unat SHM_VIRT_BASE \<le> unat va div 4096 * 4096" using div_le_mono [OF w(1), of 4096] by simp
  moreover have "unat va div 4096 * 4096 \<le> unat va" by simp
  moreover have "unat (SHM_VIRT_BASE + SHM_VIRT_SIZE) = unat SHM_VIRT_BASE + unat SHM_VIRT_SIZE"
    by (simp add: SHM_VIRT_BASE_def SHM_VIRT_SIZE_def)
  ultimately show "va AND NOT 0xFFF \<in> shm_window"
    using w(2) unfolding shm_window_def atLeastLessThan_iff word_le_nat_alt word_less_nat_alt unat_page_base
    by linarith
qed

lemma phys_in_page:
  assumes ok: "vm_ok v r" and phys: "vmm_get_physical_in r va v \<noteq> 0"
  shows "look_up r (va AND NOT 0xFFF) v \<noteq> (0, 0)"
    and "unat (vmm_get_physical_in r va v) div 4096 = unat (vmm_get_physical_in r (va AND NOT 0xFFF) v) div 4096"
proof -
  have ix: "ix (va AND NOT 0xFFF) = ix va" by (simp only: ix_def index_page)
  obtain es rest where w: "walk (phys v) r (ix va) = Some (es, rest)"
    using phys by (cases "walk (phys v) r (ix va)") (auto simp: walks [OF ok] leaf_phys_def)
  let ?p = "vmm_get_physical_in r va v" and ?b = "vmm_get_physical_in r (va AND NOT 0xFFF) v"
  have "bit (leaf_flags (walk (phys v) r (ix va))) 0"
    by (simp add: leaf_flags_def w bit_or_iff flag_bits)
  then have "vmm_get_effective_flags_in r (va AND NOT 0xFFF) v \<noteq> 0"
    unfolding walks(3) [OF ok] ix by auto
  then show "look_up r (va AND NOT 0xFFF) v \<noteq> (0, 0)" by (simp add: look_up_def)
  have "drop_bit 12 ?p = drop_bit 12 ?b"
    unfolding walks(1) [OF ok] ix leaf_phys_def w
    unfolding low_mask
    by (rule bit_word_eqI) (auto simp: bit_simps)
  then have "unat (drop_bit 12 ?p) = unat (drop_bit 12 ?b)" by simp
  then show "unat ?p div 4096 = unat ?b div 4096" by (simp add: drop_bit_eq_div unat_div)
qed

lemma grounded_address:
  assumes inv: "shm_inv cr3of grp R nx s" and r: "r \<in> R" and va: "va \<in> shm_window"
    and phys: "vmm_get_physical_in r va (shm_vm s) \<noteq> 0"
  shows "\<exists>i<SHM_MAX_REGIONS. \<exists>m\<in>set (mappings (shm_regions s ! i)). r_state (shm_regions s ! i) \<noteq> SHM_STATE_FREE \<and>
     cr3of (m_pid m) = r \<and> grp (m_pid m) = grp (creator_pid (shm_regions s ! i)) \<and>
     unat (vmm_get_physical_in r va (shm_vm s)) div 4096
       \<in> region_pages (r_phys_addr (shm_regions s ! i)) (of_nat (num_pages (shm_regions s ! i)))"
proof -
  have "vm_ok (shm_vm s) r" using shm_invD(5) [OF inv] r by (simp add: spaces_def one_space_def)
  note in_page = phys_in_page [OF this phys]
  show ?thesis unfolding in_page(2) by (rule grounded_frame [OF inv r page_base_window [OF va] in_page(1)])
qed

text \<open>The invariant over a sequence of calls.\<close>

lemma shm_step_inv:
  assumes inv: "shm_inv cr3of grp R nx s" and ok: "caller_ok cr3of grp R (caller c)"
  shows "\<exists>t. shm_step (\<lambda>pid. Some (cr3of pid)) c s = Some t \<and> shm_inv cr3of grp R nx t"
proof (cases c)
  case (Create p sz flags)
  then have "caller_ok cr3of grp R p" using ok by simp
  then obtain rc t where "sys_shm_create (Some p) sz flags s = Some (rc, t)" "shm_inv cr3of grp R nx t"
    using shm_create_inv [OF inv] by blast
  then show ?thesis using Create by simp
next
  case (Map p i kmalloc)
  obtain rc out t where "sys_shm_map (Some p) i kmalloc s = ((rc, out), t)" by (metis surj_pair)
  then show ?thesis using shm_map_inv [OF inv] ok Map by simp
next
  case (Unmap p i)
  obtain rc t where "sys_shm_unmap (Some p) i s = (rc, t)" by fastforce
  then show ?thesis using shm_unmap_inv [OF inv] ok Unmap by simp
next
  case (Destroy p i)
  obtain rc t where "sys_shm_destroy (\<lambda>pid. Some (cr3of pid)) (Some p) i s = (rc, t)" by fastforce
  then show ?thesis using shm_destroy_inv [OF inv, of "\<lambda>pid. Some (cr3of pid)"] Destroy by simp
qed

lemma shm_run_inv:
  assumes "shm_inv cr3of grp R nx s" and "\<forall>c\<in>set cs. caller_ok cr3of grp R (caller c)"
  shows "\<exists>t. shm_run (\<lambda>pid. Some (cr3of pid)) cs s = Some t \<and> shm_inv cr3of grp R nx t"
  using assms
proof (induction cs arbitrary: s)
  case (Cons c cs)
  obtain t where "shm_step (\<lambda>pid. Some (cr3of pid)) c s = Some t" "shm_inv cr3of grp R nx t"
    using shm_step_inv [OF Cons.prems(1)] Cons.prems(2) by auto
  then show ?case using Cons.IH [of t] Cons.prems(2) by simp
qed simp

section \<open>A demonstration state\<close>

text \<open>No region, one address space with an empty window, process 7 and its thread 8.\<close>

definition demo_shm :: shm_sys where
  "demo_shm = \<lparr>shm_regions = replicate SHM_MAX_REGIONS zero_region, shm_next_vaddr = SHM_VIRT_BASE,
     shm_vm = demo_vm, shm_refused = 0, shm_allowed = 0\<rparr>"

definition demo_leader :: shm_proc where "demo_leader = \<lparr>p_pid = 7, p_tgid = 7, p_cr3 = 0x4000\<rparr>"
definition demo_thread :: shm_proc where "demo_thread = \<lparr>p_pid = 8, p_tgid = 7, p_cr3 = 0x4000\<rparr>"

abbreviation demo_shm_inv :: "shm_sys \<Rightarrow> bool" where
  "demo_shm_inv \<equiv> shm_inv (\<lambda>_. 0x4000) (\<lambda>_. 7) {0x4000} True"

abbreviation demo_caller_ok :: "shm_proc \<Rightarrow> bool" where
  "demo_caller_ok \<equiv> caller_ok (\<lambda>_. 0x4000) (\<lambda>_. 7) {0x4000}"

lemma demo_callers: "demo_caller_ok demo_leader" "demo_caller_ok demo_thread"
  by (simp_all add: caller_ok_def demo_leader_def demo_thread_def capgate_tgid_of_rs_def)

lemma demo_walk: "walk (phys demo_vm) r (ix va) = None" "dir_ents (phys demo_vm) r (ix va) = {}"
  by (simp_all add: demo_vm_def ix_def dir_ents_def Let_def clear_entry present_def empty_tab)

lemma demo_shm_ok: "demo_shm_inv demo_shm"
proof -
  have o: "owned demo_shm = (\<lambda>_. None)" by (auto simp: owned_def demo_shm_def zero_region_def)
  have sp: "spaces shm_window {0x4000} {} True demo_vm"
    using demo_vm_ok(1) demo_inv
    by (simp add: spaces_def one_space_def small_leaf_def demo_walk) (simp add: demo_vm_def)
  have gr: "grounded (\<lambda>_. 0x4000) {0x4000} True (shm_regions demo_shm) demo_vm"
    by (simp add: grounded_def look_up_blank [OF demo_vm_ok(1)] demo_walk)
  have "region_ok (\<lambda>_. 0x4000) (\<lambda>_. 7) {0x4000} zero_region" by (simp add: region_ok_def zero_region_def)
  moreover have "shm_frames demo_shm = {}" by (simp add: shm_frames_def o)
  ultimately show ?thesis
    using sp gr o
    by (simp add: shm_inv_def owned_ok_def)
      (simp add: demo_shm_def shm_window_def SHM_VIRT_BASE_def SHM_VIRT_SIZE_def)
qed

section \<open>Properties\<close>

text \<open>C5: shared memory is safe while its processes live. From any consistent state, for every sequence of create,
  map, unmap and destroy calls by processes whose address spaces are private below the shared window (each call
  returns), the region table, the page allocator and the page tables stay consistent: the frames of different
  live regions are disjoint, in use and never page tables, reference counts are exact, states match, an exclusive
  region has at most one mapping. And whatever an address of the shared window (at any offset in its page) translates
  to, in any of these address spaces, lies in a frame of a live region that a process of that address space has on
  record, a process of the creator's thread group: no call leaves a translation behind in the window. Addresses
  outside the window are not covered (the kernel's identity map reaches every frame).\<close>

theorem shm_safe:
  assumes "shm_inv cr3of grp R nx s" and "\<forall>c\<in>set cs. caller_ok cr3of grp R (caller c)"
  shows "\<exists>t. shm_run (\<lambda>pid. Some (cr3of pid)) cs s = Some t \<and> shm_inv cr3of grp R nx t \<and>
     (\<forall>r\<in>R. \<forall>va\<in>shm_window. vmm_get_physical_in r va (shm_vm t) \<noteq> 0 \<longrightarrow>
        (\<exists>i<SHM_MAX_REGIONS. \<exists>m\<in>set (mappings (shm_regions t ! i)).
           r_state (shm_regions t ! i) \<noteq> SHM_STATE_FREE \<and> cr3of (m_pid m) = r \<and>
           grp (m_pid m) = grp (creator_pid (shm_regions t ! i)) \<and>
           unat (vmm_get_physical_in r va (shm_vm t)) div 4096
             \<in> region_pages (r_phys_addr (shm_regions t ! i)) (of_nat (num_pages (shm_regions t ! i)))))"
  using shm_run_inv [OF assms] grounded_address by blast

theorem shm_safe_witness:
  "\<exists>t. shm_run (\<lambda>_. Some 0x4000)
        [Create demo_leader 5000 0, Map demo_thread 0 True, Map demo_leader 0 True, Unmap demo_thread 0, Destroy demo_leader 0]
        demo_shm = Some t \<and> demo_shm_inv t"
  using shm_safe [OF demo_shm_ok,
      of "[Create demo_leader 5000 0, Map demo_thread 0 True, Map demo_leader 0 True, Unmap demo_thread 0, Destroy demo_leader 0]"]
    demo_callers by auto

text \<open>C17: mapping a region. \<open>sys_shm_map\<close> succeeds only for a live region of the caller's thread group that the
  caller has not mapped (and that nobody has mapped if it is exclusive); then every page of the region appears,
  in order, at the address handed out, with the rights the flags ask for, one record is added and no other
  translation of any address space changes. When it fails it has a reason (an invalid or foreign
  region, no memory for the record, no frame for a page table), the table is as before, other address spaces
  are untouched, and in the caller's own no page gains or changes a translation.\<close>

theorem shm_map_spec:
  assumes inv: "shm_inv cr3of grp R nx s" and ok: "caller_ok cr3of grp R p"
    and run: "sys_shm_map (Some p) rid kmalloc s = ((rc, out), t)"
  defines "g \<equiv> shm_regions s ! nat rid"
  shows "shm_inv cr3of grp R nx t \<and>
    (if rc = 0
     then valid_id rid \<and> may_map p g \<and> grp (p_pid p) = grp (creator_pid g) \<and>
       (\<exists>va. out = Some va \<and> in_window shm_window va (num_pages g) \<and>
          shm_regions t = (shm_regions s)[nat rid := mapped_region (p_pid p) va g] \<and>
          (\<forall>i<num_pages g. look_up (p_cr3 p) (nth_page va i) (shm_vm t)
              = page_value nx (map_flags g (p_pid p)) (nth_page va i) (nth_page (r_phys_addr g) i)) \<and>
          (\<forall>r\<in>R. \<forall>x. r \<noteq> p_cr3 p \<or> (\<forall>i<num_pages g. ix x \<noteq> ix (nth_page va i)) \<longrightarrow>
              look_up r x (shm_vm t) = look_up r x (shm_vm s)))
     else rc = -1 \<and> out = None \<and> shm_regions t = shm_regions s \<and>
       (\<not> valid_id rid \<or> \<not> may_map p g \<or> \<not> kmalloc \<or> free_frames (frames (shm_vm t)) = {}) \<and>
       (\<forall>r\<in>R. \<forall>x\<in>shm_window. 4096 dvd unat x \<longrightarrow> look_up r x (shm_vm t) = look_up r x (shm_vm s) \<or>
          r = p_cr3 p \<and> look_up r x (shm_vm t) = (0, 0)))"
  using inv run
proof (cases rule: map_cases)
  case (refused a b)
  then show ?thesis using shm_map_inv [OF inv ok run] by (auto simp: g_def)
next
  case (tried va nv b res v)
  note tried = tried [folded g_def] and d = shm_invD [OF inv]
  have i: "nat rid < SHM_MAX_REGIONS" using valid_nat [OF tried(1)] .
  have gok: "region_ok cr3of grp R g" using d(7) [OF i] by (simp add: g_def)
  have r: "p_cr3 p \<in> R" using ok unfolding caller_ok_def by blast
  have fl: "user_flags (map_flags g (p_pid p))" by (simp add: user_flags_def map_flags_def)
  have pinv: "pmm_inv (frames (shm_vm s))" and r0: "p_cr3 p \<noteq> 0"
    using d(5) spaces_ok [OF d(5) r] by (simp_all add: spaces_def vm_ok_def)
  note mr = map_run [OF d(5) r tried(3) fl tried(7)]
  show ?thesis
  proof (cases "res = None \<and> kmalloc")
    case True
    have "r_state g \<noteq> SHM_STATE_FREE" using tried(2) by (simp add: may_map_def)
    then have "grp (p_pid p) = grp (creator_pid g)"
      using owns_group(3) [OF ok gok tried(2)] region_live(6) [OF gok] by simp
    then show ?thesis
      using True tried(1,2,3,8) mr(2,3) shm_map_inv [OF inv ok run] by (simp add: set_region_def)
  next
    case False
    define k where "k = (case res of None \<Rightarrow> num_pages g | Some k \<Rightarrow> k)"
    note rb = map_rollback [OF d(5) r tried(3) fl tried(7) k_def]
    have kn: "k \<le> num_pages g" using mr(4) by (cases res) (auto simp: k_def)
    have w: "in_window shm_window va k" using tried(3) kn by (simp add: in_window_def)
    let ?v = "unmap_pages (vmm_unmap_page_in (p_cr3 p)) va k v"
    have t: "rc = -1" "out = None" "shm_vm t = ?v" "shm_regions t = shm_regions s" using tried(8) False by (auto simp: k_def)
    have "\<not> kmalloc \<or> free_frames (frames v) = {}" using map_pages_fails [OF pinv r0 tried(7)] False by auto
    then have full: "\<not> kmalloc \<or> free_frames (frames (shm_vm t)) = {}" using unmap_run(2) [OF mr(1) r w] t(3) by simp
    have look: "look_up r' x ?v = look_up r' x (shm_vm s) \<or> r' = p_cr3 p \<and> look_up r' x ?v = (0, 0)"
      if "r' \<in> R" "x \<in> shm_window" "4096 dvd unat x" for r' x
    proof (cases "r' = p_cr3 p \<and> (\<exists>j<num_pages g. ix x = ix (nth_page va j))")
      case True
      then obtain j where j: "j < num_pages g" "ix x = ix (nth_page va j)" by blast
      have "x = nth_page va j"
        using page_eq [OF that(2) nth_page_window(1) [OF tried(3) j(1)] that(3) nth_page_dvd [OF tried(3) j(1) tried(4)] j(2)] .
      then show ?thesis using rb(3) [OF j(1)] True by simp
    next
      case False
      then show ?thesis using rb(2) [OF that(1)] by blast
    qed
    show ?thesis using t full look shm_map_inv [OF inv ok run] by simp
  qed
qed

text \<open>C36: creating a region. Each call returns; it fails on a bad size, on a full table and when the allocator has
  no run of frames, and then changes nothing. Otherwise the answer is the lowest free slot, which now owns a
  run of frames that were free, of the size rounded up to pages, all zero, with the caller as owner and no mapping;
  other memory and every translation are unchanged.\<close>

theorem shm_create_spec:
  assumes inv: "shm_inv cr3of grp R nx s" and ok: "caller_ok cr3of grp R p"
  shows "\<exists>rc t. sys_shm_create (Some p) sz flags s = Some (rc, t) \<and> shm_inv cr3of grp R nx t \<and>
    (if rc = -1
     then t = s \<and> (sz = 0 \<or> sz > SHM_MAX_SIZE \<or> (\<forall>g\<in>set (shm_regions s). r_state g \<noteq> SHM_STATE_FREE) \<or>
       pmm_alloc_pages (frames (shm_vm s)) (page_round sz div VMM_PAGE_SIZE_4K) = Some (0, frames (shm_vm s)))
     else valid_id rc \<and> r_state (shm_regions s ! nat rc) = SHM_STATE_FREE \<and>
       (\<forall>j<nat rc. r_state (shm_regions s ! j) \<noteq> SHM_STATE_FREE) \<and>
       (\<exists>pg k. k = (unat sz + 4095) div 4096 \<and> {pg ..< pg + k} \<subseteq> free_frames (frames (shm_vm s)) \<and>
          free_frames (frames (shm_vm t)) = free_frames (frames (shm_vm s)) - {pg ..< pg + k} \<and>
          shm_regions t = (shm_regions s)[nat rc := \<lparr>r_state = SHM_STATE_ALLOCATED, creator_pid = p_pid p,
             creator_tgid = grp (p_pid p), r_phys_addr = page_addr pg, r_size = of_nat (k * 4096), r_flags = flags,
             ref_count = 0, mappings = []\<rparr>] \<and>
          (\<forall>a. phys (shm_vm t) a = (if unat a div 4096 \<in> {pg ..< pg + k} then 0 else phys (shm_vm s) a)) \<and>
          (\<forall>r\<in>R. \<forall>x. look_up r x (shm_vm t) = look_up r x (shm_vm s))))"
  by (rule create_result [OF inv ok])

text \<open>C37: destroying a region that an exited thread had mapped. A thread shares its process's address space
  but has a pid of its own. When the only record of a region is that of a thread that has exited, so that
  \<open>proc_get\<close> finds nobody, the creator's \<open>sys_shm_destroy\<close> answers 0 and gives the frames back to the page
  allocator, but unmaps nothing: a page of the region that the address space could reach is still reachable
  there, and its frame is free for the next allocation.\<close>

theorem shm_destroy_dangling:
  assumes inv: "shm_inv cr3of grp R nx s"
    and procs: "\<forall>pid. proc_cr3 pid = None \<or> proc_cr3 pid = Some (cr3of pid)"
    and rid: "valid_id rid" and creator: "creator_pid (shm_regions s ! nat rid) = p_pid p"
    and one: "mappings (shm_regions s ! nat rid) = [m]" and gone: "proc_cr3 (m_pid m) = None"
    and page: "backs nx (shm_regions s ! nat rid) m va (look_up (cr3of (m_pid m)) va (shm_vm s))"
    and run: "sys_shm_destroy proc_cr3 (Some p) rid s = (rc, t)"
  shows "rc = 0 \<and> look_up (cr3of (m_pid m)) va (shm_vm t) = look_up (cr3of (m_pid m)) va (shm_vm s) \<and>
     unat (vmm_get_physical_in (cr3of (m_pid m)) va (shm_vm t)) div 4096 \<in> free_frames (frames (shm_vm t))"
proof -
  let ?g = "shm_regions s ! nat rid" and ?r = "cr3of (m_pid m)"
  let ?a = "r_phys_addr ?g" and ?n = "r_size ?g div VMM_PAGE_SIZE_4K"
  note d = shm_invD [OF inv]
  have i: "nat rid < SHM_MAX_REGIONS" using valid_nat [OF rid] .
  have gok: "region_ok cr3of grp R ?g" using d(7) [OF i] .
  have live: "r_state ?g \<noteq> SHM_STATE_FREE" using region_maps(4) [OF gok] one by force
  have mok: "mapping_ok cr3of grp R ?g m" using region_maps(3) [OF gok] one by simp
  have rR: "?r \<in> R" using mok by (simp add: mapping_ok_def)
  have own: "owned s (nat rid) = Some (?a, ?n)" using i d(1) live by (simp add: owned_def)
  have pinv: "pmm_inv (frames (shm_vm s))" and sub: "region_pages ?a ?n \<subseteq> used_frames (frames (shm_vm s))"
    using d(5) frames_mem [OF own] by (auto simp: spaces_def)
  note fp = free_pages_used [OF pinv sub]
  note give = spaces_give [OF d(5) frames_mem [OF own] fp(1,3,2)]
  have t: "rc = 0" "shm_vm t = (shm_vm s)\<lparr>frames := pmm_free_pages (frames (shm_vm s)) ?a ?n\<rparr>"
    using run rid live creator one gone
    by (auto simp: sys_shm_destroy_def Let_def set_region_def free_frames_of_def)
  have same: "look_up ?r va (shm_vm t) = look_up ?r va (shm_vm s)" using give(2) [OF rR] t(2) by simp
  obtain j where j: "j < num_pages ?g" "va = nth_page (m_virt_addr m) j"
    "look_up ?r va (shm_vm s) = page_value nx (map_flags ?g (m_pid m)) va (nth_page ?a j)"
    using page unfolding backs_def by blast
  obtain q where q: "?a = page_addr q" "q + num_pages ?g \<le> PMM_MAX_PAGES" using region_live(5) [OF gok live] by blast
  have dvd: "4096 dvd unat va" using nth_page_dvd [OF _ j(1)] mok j(2) by (simp add: mapping_ok_def)
  have "unat (vmm_get_physical_in ?r va (shm_vm t)) div 4096 = q + j"
    using page_frame [OF q j(1) dvd] j(3) same by (metis fst_conv look_up_def)
  moreover have "region_pages ?a ?n = {q ..< q + num_pages ?g}"
    using region_pages_addr(1) [OF q(2)] q(1) region_live(4) [OF gok live] by simp
  moreover have "region_pages ?a ?n \<subseteq> free_frames (frames (shm_vm t))"
    using frames_window [of "frames (shm_vm s)"] frames_window [of "frames (shm_vm t)"] fp(2,3) sub t(2) by auto
  ultimately show ?thesis using t(1) same j(1) by auto
qed

section \<open>Witnesses\<close>

text \<open>The leader creates a region of one page; there is a free slot and a free frame.\<close>

lemma demo_create:
  obtains t pg where "sys_shm_create (Some demo_leader) 4096 0 demo_shm = Some (0, t)" and "demo_shm_inv t"
    and "num_pages (shm_regions t ! 0) = 1" and "pg \<in> {2, 3, 5, 6, 7}"
    and "shm_regions t ! 0 = \<lparr>r_state = SHM_STATE_ALLOCATED, creator_pid = 7, creator_tgid = 7,
           r_phys_addr = page_addr pg, r_size = 4096, r_flags = 0, ref_count = 0, mappings = []\<rparr>"
    and "free_frames (frames (shm_vm t)) = {2, 3, 5, 6, 7} - {pg}"
proof -
  obtain rc t where t: "sys_shm_create (Some demo_leader) 4096 0 demo_shm = Some (rc, t)" "demo_shm_inv t"
    and c: "if rc = -1
     then t = demo_shm \<and> ((4096 :: u64) = 0 \<or> (4096 :: u64) > SHM_MAX_SIZE \<or>
       (\<forall>g\<in>set (shm_regions demo_shm). r_state g \<noteq> SHM_STATE_FREE) \<or>
       pmm_alloc_pages (frames (shm_vm demo_shm)) (page_round 4096 div VMM_PAGE_SIZE_4K) = Some (0, frames (shm_vm demo_shm)))
     else valid_id rc \<and> r_state (shm_regions demo_shm ! nat rc) = SHM_STATE_FREE \<and>
       (\<forall>j<nat rc. r_state (shm_regions demo_shm ! j) \<noteq> SHM_STATE_FREE) \<and>
       (\<exists>pg k. k = (unat (4096 :: u64) + 4095) div 4096 \<and> {pg ..< pg + k} \<subseteq> free_frames (frames (shm_vm demo_shm)) \<and>
          free_frames (frames (shm_vm t)) = free_frames (frames (shm_vm demo_shm)) - {pg ..< pg + k} \<and>
          shm_regions t = (shm_regions demo_shm)[nat rc := \<lparr>r_state = SHM_STATE_ALLOCATED, creator_pid = p_pid demo_leader,
             creator_tgid = 7, r_phys_addr = page_addr pg, r_size = of_nat (k * 4096), r_flags = 0,
             ref_count = 0, mappings = []\<rparr>] \<and>
          (\<forall>a. phys (shm_vm t) a = (if unat a div 4096 \<in> {pg ..< pg + k} then 0 else phys (shm_vm demo_shm) a)) \<and>
          (\<forall>r\<in>{0x4000}. \<forall>x. look_up r x (shm_vm t) = look_up r x (shm_vm demo_shm)))"
    using create_result [OF demo_shm_ok demo_callers(1), of 4096 0] by (elim exE conjE) (rule that)
  have vm: "frames (shm_vm demo_shm) = demo_pmm" and free0: "r_state (shm_regions demo_shm ! j) = SHM_STATE_FREE" if "j < 64" for j
    using that by (simp_all add: demo_shm_def demo_vm_def zero_region_def SHM_MAX_REGIONS_def)
  have "page_round 4096 div VMM_PAGE_SIZE_4K = (1 :: u64)"
    using page_round_pages [of 1] pages_div [of 1] by simp
  moreover have "pmm_alloc_pages demo_pmm 1 \<noteq> Some (0, demo_pmm)"
  proof
    assume "pmm_alloc_pages demo_pmm 1 = Some (0, demo_pmm)"
    then have "pmm_alloc_page demo_pmm = (0, demo_pmm)" by (simp add: pmm_alloc_pages_def)
    then show False
      using alloc_takes(2) [of demo_vm 0 demo_pmm] demo_inv demo_frames(1) by (simp add: demo_vm_def)
  qed
  moreover have "zero_region \<in> set (shm_regions demo_shm)" "r_state zero_region = SHM_STATE_FREE"
    by (simp_all add: demo_shm_def zero_region_def SHM_MAX_REGIONS_def)
  then have "\<not> (\<forall>g\<in>set (shm_regions demo_shm). r_state g \<noteq> SHM_STATE_FREE)" by blast
  moreover have "\<not> (4096 :: u64) > SHM_MAX_SIZE" by (simp add: SHM_MAX_SIZE_def)
  ultimately have ok: "rc \<noteq> -1" using c vm [of 0] by auto
  have "\<not> 0 < nat rc" using c ok free0 [of 0] by auto
  then have rc: "rc = 0" using c ok by (simp add: valid_id_def)
  obtain pg where pg: "pg \<in> {2, 3, 5, 6, 7}" "free_frames (frames (shm_vm t)) = {2, 3, 5, 6, 7} - {pg}"
    "shm_regions t = (shm_regions demo_shm)[0 := \<lparr>r_state = SHM_STATE_ALLOCATED, creator_pid = 7, creator_tgid = 7,
           r_phys_addr = page_addr pg, r_size = 4096, r_flags = 0, ref_count = 0, mappings = []\<rparr>]"
    using c vm [of 0] rc by (auto simp: demo_frames demo_leader_def)
  then have g: "shm_regions t ! 0 = \<lparr>r_state = SHM_STATE_ALLOCATED, creator_pid = 7, creator_tgid = 7,
           r_phys_addr = page_addr pg, r_size = 4096, r_flags = 0, ref_count = 0, mappings = []\<rparr>"
    by (simp add: demo_shm_def SHM_MAX_REGIONS_def)
  then have n: "num_pages (shm_regions t ! 0) = 1" by (simp add: num_pages_def VMM_PAGE_SIZE_4K_def)
  show thesis by (rule that [OF _ t(2) n pg(1) g pg(2)]) (use t(1) rc in simp)
qed

text \<open>The leader's region, mapped by the thread.\<close>

lemma demo_mapped:
  obtains t m va where "demo_shm_inv t" and "mappings (shm_regions t ! 0) = [m]" and "m_pid m = 8"
    and "creator_pid (shm_regions t ! 0) = 7"
    and "backs True (shm_regions t ! 0) m va (look_up 0x4000 va (shm_vm t))"
proof (rule demo_create)
  fix s pg
  assume s: "sys_shm_create (Some demo_leader) 4096 0 demo_shm = Some (0, s)" "demo_shm_inv s"
    "num_pages (shm_regions s ! 0) = 1" "pg \<in> {2, 3, 5, 6, 7}"
    and g: "shm_regions s ! 0 = \<lparr>r_state = SHM_STATE_ALLOCATED, creator_pid = 7, creator_tgid = 7,
           r_phys_addr = page_addr pg, r_size = 4096, r_flags = 0, ref_count = 0, mappings = []\<rparr>"
    and free: "free_frames (frames (shm_vm s)) = {2, 3, 5, 6, 7} - {pg}"
  note d = shm_invD [OF s(2)]
  have len: "0 < length (shm_regions s)" using d(1) by (simp add: SHM_MAX_REGIONS_def)
  have may: "valid_id 0" "may_map demo_thread (shm_regions s ! nat 0)"
    by (simp_all add: valid_id_def SHM_MAX_REGIONS_def may_map_def g capgate_caller_owns_def
        capgate_owner_ok_rs_def capgate_tgid_of_rs_def demo_thread_def)
  obtain rc out t where run: "sys_shm_map (Some demo_thread) 0 True s = ((rc, out), t)" by (metis surj_pair)
  have tinv: "demo_shm_inv t" using shm_map_inv [OF s(2) demo_callers(2) run] .
  from s(2) run show thesis
  proof (cases rule: map_cases)
    case (refused a b)
    then show thesis using may by simp
  next
    case (tried va nv b res v)
    have g0: "shm_regions s ! nat 0 = shm_regions s ! 0" by simp
    note tried = tried [unfolded g0 s(3)]
    have pinv: "pmm_inv (frames (shm_vm s))" using d(5) by (simp add: spaces_def)
    have "card (free_frames (frames (shm_vm s))) = 4" using s(4) free by auto
    moreover have "res = None \<or> card (free_frames (frames (shm_vm s))) \<le> 3"
    proof -
      obtain rc1 v1 where m1: "vmm_map_page_in 0x4000 (nth_page va 0) (nth_page (r_phys_addr (shm_regions s ! 0)) 0)
          (map_flags (shm_regions s ! 0) (p_pid demo_thread)) (shm_vm s) = (rc1, v1)" by fastforce
      have "res = (if rc1 \<noteq> 0 then Some 0 else None)"
        using tried(7) m1 by (simp add: demo_thread_def split: prod.splits if_splits)
      then show ?thesis using map_page_takes [OF pinv _ m1] by (auto simp: takes_def split: if_splits)
    qed
    ultimately have none: "res = None" by simp
    let ?m = "\<lparr>m_pid = 8, m_virt_addr = va\<rparr> :: shm_mapping"
    have t: "t = set_region 0 (mapped_region 8 va (shm_regions s ! 0)) (s\<lparr>shm_allowed := b, shm_next_vaddr := nv, shm_vm := v\<rparr>)"
      using tried(8) none by (simp add: demo_thread_def)
    have g': "shm_regions t ! 0 = mapped_region 8 va (shm_regions s ! 0)" using len by (simp add: t set_region_def)
    have fl: "user_flags (map_flags (shm_regions s ! 0) (p_pid demo_thread))" by (simp add: user_flags_def map_flags_def)
    have rR: "p_cr3 demo_thread \<in> {0x4000}" by (simp add: demo_thread_def)
    have "look_up 0x4000 (nth_page va 0) v = page_value True (map_flags (shm_regions s ! 0) 8) (nth_page va 0)
        (nth_page (r_phys_addr (shm_regions s ! 0)) 0)"
      using map_run(2) [OF d(5) rR tried(3) fl tried(7) none, of 0] by (simp add: demo_thread_def)
    then have "backs True (shm_regions s ! 0) ?m (nth_page va 0) (look_up 0x4000 (nth_page va 0) v)"
      using s(3) by (auto simp: backs_def)
    then have "backs True (shm_regions t ! 0) ?m (nth_page va 0) (look_up 0x4000 (nth_page va 0) (shm_vm t))"
      by (simp add: g' backs_mapped) (simp add: t set_region_def)
    moreover have "mappings (shm_regions t ! 0) = [?m]" "creator_pid (shm_regions t ! 0) = 7"
      by (simp_all add: g' mapped_region_def g)
    ultimately show thesis using that [OF tinv] by simp
  qed
qed

theorem shm_destroy_dangling_witness:
  "\<exists>s t va. demo_shm_inv s \<and>
     sys_shm_destroy (\<lambda>pid. if pid = 7 then Some 0x4000 else None) (Some demo_leader) 0 s = (0, t) \<and>
     unat (vmm_get_physical_in 0x4000 va (shm_vm t)) div 4096 \<in> free_frames (frames (shm_vm t))"
proof (rule demo_mapped)
  fix s m va
  assume s: "demo_shm_inv s" "mappings (shm_regions s ! 0) = [m]" "m_pid m = 8" "creator_pid (shm_regions s ! 0) = 7"
    "backs True (shm_regions s ! 0) m va (look_up 0x4000 va (shm_vm s))"
  let ?procs = "\<lambda>pid :: u32. if pid = 7 then Some (0x4000 :: u64) else None"
  obtain rc t where run: "sys_shm_destroy ?procs (Some demo_leader) 0 s = (rc, t)" by fastforce
  have procs: "\<forall>pid. ?procs pid = None \<or> ?procs pid = Some 0x4000" by simp
  have "valid_id 0" by (simp add: valid_id_def SHM_MAX_REGIONS_def)
  then have "rc = 0 \<and> unat (vmm_get_physical_in 0x4000 va (shm_vm t)) div 4096 \<in> free_frames (frames (shm_vm t))"
    using shm_destroy_dangling [OF s(1) procs _ _ _ _ _ run, of m va] s(2-5) by (simp add: demo_leader_def)
  then show ?thesis using s(1) run by blast
qed

theorem shm_map_spec_witness:
  "\<exists>t. demo_shm_inv (snd (sys_shm_map (Some demo_thread) 0 True t)) \<and> r_state (shm_regions t ! 0) = SHM_STATE_ALLOCATED"
proof (rule demo_create)
  fix t pg
  assume "demo_shm_inv t"
    and g: "shm_regions t ! 0 = \<lparr>r_state = SHM_STATE_ALLOCATED, creator_pid = 7, creator_tgid = 7,
           r_phys_addr = page_addr pg, r_size = 4096, r_flags = 0, ref_count = 0, mappings = []\<rparr>"
  moreover obtain rc out t' where "sys_shm_map (Some demo_thread) 0 True t = ((rc, out), t')" by (metis surj_pair)
  ultimately have "demo_shm_inv t'" "sys_shm_map (Some demo_thread) 0 True t = ((rc, out), t')"
    using shm_map_spec [OF _ demo_callers(2)] by blast+
  then show ?thesis using g by (intro exI [of _ t]) simp
qed

theorem shm_create_spec_witness:
  "\<exists>rc t. sys_shm_create (Some demo_leader) 4096 0 demo_shm = Some (rc, t) \<and> demo_shm_inv t"
  using shm_create_spec [OF demo_shm_ok demo_callers(1), of 4096 0] by blast

end
