(* ===== verification/Vfs.thy ===== *)
theory Vfs
  imports MOS_Prelude
begin

unbundle bit_operations_syntax

text \<open>
  The virtual file system layer, \<open>kernel/fs/vfs.c\<close> (with the declarations of \<open>kernel/fs/vfs.h\<close>):
  reference-counted open file descriptions, the dispatch through an operations table, and the
  per-process descriptor tables; and the two places outside that file which share descriptions
  between processes (\<open>proc_fork\<close> in \<open>kernel/proc/process.c\<close>, the stdio inheritance of a spawn in
  \<open>kernel/proc/syscall.c\<close>).

  Descriptions live in a store \<open>files\<close> from addresses to records. An operation returns \<open>None\<close> when
  the code would touch a description that is not in the store (a use after free), so memory safety is
  the theorem that the result is \<open>Some\<close>. What a file kind does behind its operations table is a
  parameter: \<open>vt\<close> gives the table at an address, over a world \<open>'w\<close> of its own. \<open>kmalloc\<close>'s answer is an
  argument. The code holds a table's spinlock around the table's updates only: the pointer \<open>fd_get\<close> returns
  carries no reference, and \<open>file_t::refcount\<close> is a plain \<open>++\<close> and \<open>--\<close> shared between cores. The
  transition system below takes each operation as one step (serialised operations); \<open>fd_lookup_window\<close> opens
  the gap between a lookup and its use, and the section on racing counts splits the two count updates into
  their load and their store.
\<close>

section \<open>Data\<close>

definition O_RDONLY :: u32 where "O_RDONLY = 0"
definition O_WRONLY :: u32 where "O_WRONLY = 1"
definition O_RDWR :: u32 where "O_RDWR = 2"
definition O_ACCMODE :: u32 where "O_ACCMODE = 3"
definition O_CREAT :: u32 where "O_CREAT = 0x40"
definition O_EXCL :: u32 where "O_EXCL = 0x80"
definition O_TRUNC :: u32 where "O_TRUNC = 0x200"
definition O_APPEND :: u32 where "O_APPEND = 0x400"
definition O_NONBLOCK :: u32 where "O_NONBLOCK = 0x800"

definition MAX_FDS :: nat where "MAX_FDS = 64"
definition VFS_FPATH_MAX :: nat where "VFS_FPATH_MAX = 128"

record file_t =
  f_ops :: "nat option"
  f_priv :: ptr
  f_flags :: u32
  refcount :: int
  path :: string

text \<open>The operations table. A missing function pointer is \<open>None\<close>; the result \<open>None\<close> of a call is
  undefined behaviour of the file kind.\<close>

record 'w file_ops =
  op_read :: "(file_t \<Rightarrow> u64 \<Rightarrow> 'w \<Rightarrow> ((int \<times> u8 list) \<times> 'w) option) option"
  op_write :: "(file_t \<Rightarrow> u8 list \<Rightarrow> 'w \<Rightarrow> (int \<times> 'w) option) option"
  op_seek :: "(file_t \<Rightarrow> int \<Rightarrow> int \<Rightarrow> 'w \<Rightarrow> (int \<times> 'w) option) option"
  op_size :: "(file_t \<Rightarrow> 'w \<Rightarrow> (int \<times> 'w) option) option"
  op_ioctl :: "(file_t \<Rightarrow> u32 \<Rightarrow> u64 \<Rightarrow> 'w \<Rightarrow> (int \<times> 'w) option) option"
  op_flush :: "(file_t \<Rightarrow> 'w \<Rightarrow> (int \<times> 'w) option) option"
  op_release :: "(file_t \<Rightarrow> 'w \<Rightarrow> (int \<times> 'w) option) option"
  op_poll :: "(file_t \<Rightarrow> u32 \<Rightarrow> 'w \<Rightarrow> (u32 \<times> 'w) option) option"
  op_poll_wq :: "(file_t \<Rightarrow> u32 \<Rightarrow> 'w \<Rightarrow> (nat option \<times> 'w) option) option"

text \<open>A process slot: \<open>in_use\<close> is \<open>state != PROC_STATE_UNUSED\<close>. A slot that goes back to unused keeps the
  bytes of its table until its next occupant overwrites them.\<close>

record fd_proc =
  fds :: "ptr option list"
  fd_cloexec :: u64
  in_use :: bool

record 'w vfs =
  files :: "ptr \<rightharpoonup> file_t"
  procs :: "fd_proc list"
  world :: 'w

type_synonym ('w, 'r) vfs_result = "('r \<times> 'w vfs) option"

section \<open>Decoding the open flags\<close>

record open_mode =
  can_read :: bool
  can_write :: bool
  rdwr :: bool
  trunc :: bool
  append :: bool
  create :: bool
  excl :: bool

definition open_mode_decode :: "u32 \<Rightarrow> open_mode" where
  "open_mode_decode flags =
     (let acc = flags AND O_ACCMODE;
          rdwr = acc \<ge> O_RDWR;
          trunc = flags AND O_TRUNC \<noteq> 0
      in \<lparr>can_read = acc = O_RDONLY \<or> rdwr,
          can_write = (if trunc then True else acc = O_WRONLY \<or> rdwr),
          rdwr = rdwr,
          trunc = trunc,
          append = (if trunc then False else flags AND O_APPEND \<noteq> 0),
          create = flags AND O_CREAT \<noteq> 0,
          excl = flags AND O_EXCL \<noteq> 0\<rparr>)"

section \<open>Descriptions\<close>

definition file_alloc ::
    "ptr option \<Rightarrow> nat option \<Rightarrow> ptr \<Rightarrow> u32 \<Rightarrow> 'w vfs \<Rightarrow> ptr option \<times> 'w vfs" where
  "file_alloc kmalloc ops priv flags s =
     (case kmalloc of
        None \<Rightarrow> (None, s)
      | Some p \<Rightarrow>
          (Some p, s\<lparr>files := (files s)(p \<mapsto> \<lparr>f_ops = ops, f_priv = priv, f_flags = flags,
                                       refcount = 1, path = []\<rparr>)\<rparr>))"

text \<open>The copy loop of \<open>vfs_path_store_c\<close>. \<open>None\<close> is an access outside the destination or the
  source array.\<close>

function path_copy :: "string \<Rightarrow> nat \<Rightarrow> string \<Rightarrow> nat \<Rightarrow> nat \<Rightarrow> (nat \<times> string) option" where
  "path_copy dst room src src_max n =
     (if n < room \<and> n < src_max then
        if n \<ge> length src then None
        else if src ! n = CHR 0x00 then Some (n, dst)
        else if n \<ge> length dst then None
        else path_copy (dst[n := src ! n]) room src src_max (Suc n)
      else Some (n, dst))"
  by pat_completeness auto
termination
  by (relation "measure (\<lambda>(dst, room, src, m, n). room - n)") auto

declare path_copy.simps [simp del]

definition vfs_path_store_c ::
    "string option \<Rightarrow> nat \<Rightarrow> string option \<Rightarrow> nat \<Rightarrow> (nat \<times> string option) option" where
  "vfs_path_store_c dst cap src src_max =
     (case dst of
        None \<Rightarrow> Some (0, None)
      | Some d \<Rightarrow>
          if cap = 0 then Some (0, Some d)
          else if src = None \<or> src_max = 0 then
            (if 0 < length d then Some (0, Some (d[0 := CHR 0x00])) else None)
          else
            (case path_copy d (cap - 1) (the src) src_max 0 of
               None \<Rightarrow> None
             | Some (n, d') \<Rightarrow>
                 if n < length d' then Some (n, Some (d'[n := CHR 0x00])) else None))"

definition c_string :: "string \<Rightarrow> string" where
  "c_string buf = takeWhile (\<lambda>c. c \<noteq> CHR 0x00) buf"

text \<open>\<open>path\<close> holds the bytes before the terminator; the array it models has \<open>VFS_FPATH_MAX\<close> bytes.\<close>

definition file_set_path :: "ptr option \<Rightarrow> string option \<Rightarrow> 'w vfs \<Rightarrow> 'w vfs option" where
  "file_set_path f src s =
     (case f of
        None \<Rightarrow> Some s
      | Some p \<Rightarrow>
          (case files s p of
             None \<Rightarrow> None
           | Some fl \<Rightarrow>
               (case vfs_path_store_c (Some (replicate VFS_FPATH_MAX (CHR 0x00))) VFS_FPATH_MAX
                       src VFS_FPATH_MAX of
                  Some (n, Some d) \<Rightarrow> Some (s\<lparr>files := (files s)(p \<mapsto> fl\<lparr>path := c_string d\<rparr>)\<rparr>)
                | _ \<Rightarrow> None)))"

definition file_get :: "ptr option \<Rightarrow> 'w vfs \<Rightarrow> 'w vfs option" where
  "file_get f s =
     (case f of
        None \<Rightarrow> Some s
      | Some p \<Rightarrow>
          (case files s p of
             None \<Rightarrow> None
           | Some fl \<Rightarrow> Some (s\<lparr>files := (files s)(p \<mapsto> fl\<lparr>refcount := refcount fl + 1\<rparr>)\<rparr>)))"

definition run_release :: "(nat \<Rightarrow> 'w file_ops) \<Rightarrow> file_t \<Rightarrow> 'w \<Rightarrow> (int \<times> 'w) option" where
  "run_release vt fl w =
     (case f_ops fl of
        None \<Rightarrow> Some (0, w)
      | Some ops \<Rightarrow>
          (case op_release (vt ops) of
             None \<Rightarrow> Some (0, w)
           | Some rel \<Rightarrow> rel fl w))"

definition file_put :: "(nat \<Rightarrow> 'w file_ops) \<Rightarrow> ptr option \<Rightarrow> 'w vfs \<Rightarrow> ('w, int) vfs_result" where
  "file_put vt f s =
     (case f of
        None \<Rightarrow> Some (0, s)
      | Some p \<Rightarrow>
          (case files s p of
             None \<Rightarrow> None
           | Some fl0 \<Rightarrow>
               let fl = fl0\<lparr>refcount := refcount fl0 - 1\<rparr> in
               if refcount fl \<le> 0 then
                 (case run_release vt fl (world s) of
                    None \<Rightarrow> None
                  | Some (rc, w) \<Rightarrow> Some (rc, s\<lparr>files := (files s)(p := None), world := w\<rparr>))
               else Some (0, s\<lparr>files := (files s)(p \<mapsto> fl)\<rparr>)))"

section \<open>Dispatch\<close>

text \<open>The common shape \<open>if (!f || !f->ops || !f->ops->op) return dflt; return f->ops->op(f, ...)\<close>.\<close>

definition dispatch ::
    "(nat \<Rightarrow> 'w file_ops) \<Rightarrow> ('w file_ops \<Rightarrow> (file_t \<Rightarrow> 'w \<Rightarrow> ('r \<times> 'w) option) option) \<Rightarrow> 'r
     \<Rightarrow> ptr option \<Rightarrow> 'w vfs \<Rightarrow> ('w, 'r) vfs_result" where
  "dispatch vt sel dflt f s =
     (case f of
        None \<Rightarrow> Some (dflt, s)
      | Some p \<Rightarrow>
          (case files s p of
             None \<Rightarrow> None
           | Some fl \<Rightarrow>
               (case f_ops fl of
                  None \<Rightarrow> Some (dflt, s)
                | Some ops \<Rightarrow>
                    (case sel (vt ops) of
                       None \<Rightarrow> Some (dflt, s)
                     | Some op \<Rightarrow>
                         (case op fl (world s) of
                            None \<Rightarrow> None
                          | Some (r, w) \<Rightarrow> Some (r, s\<lparr>world := w\<rparr>))))))"

definition file_flush where
  "file_flush vt f s = dispatch vt op_flush (0 :: int) f s"

definition file_read where
  "file_read vt f count s =
     dispatch vt (\<lambda>ft. map_option (\<lambda>rd fl w.
         if f_flags fl AND O_ACCMODE = O_WRONLY then Some ((-1, []), w) else rd fl count w) (op_read ft))
       (-1 :: int, [] :: u8 list) f s"

definition file_write where
  "file_write vt f buf s =
     dispatch vt (\<lambda>ft. map_option (\<lambda>wr fl w.
         if f_flags fl AND O_ACCMODE = O_RDONLY then Some (-1, w) else wr fl buf w) (op_write ft))
       (-1 :: int) f s"

definition file_seek where
  "file_seek vt f offset whence s =
     dispatch vt (\<lambda>ft. map_option (\<lambda>sk fl. sk fl offset whence) (op_seek ft)) (-1 :: int) f s"

definition file_size where
  "file_size vt f s = dispatch vt op_size (-1 :: int) f s"

definition file_ioctl where
  "file_ioctl vt f cmd arg s =
     dispatch vt (\<lambda>ft. map_option (\<lambda>io fl. io fl cmd arg) (op_ioctl ft)) (-1 :: int) f s"

definition file_poll where
  "file_poll vt f events s =
     dispatch vt (\<lambda>ft. map_option (\<lambda>pl fl. pl fl events) (op_poll ft)) (0 :: u32) f s"

definition file_has_poll where
  "file_has_poll vt f s =
     dispatch vt (\<lambda>ft. map_option (\<lambda>pl fl w. Some (1, w)) (op_poll ft)) (0 :: int) f s"

definition file_poll_wq where
  "file_poll_wq vt f events s =
     dispatch vt (\<lambda>ft. map_option (\<lambda>pl fl. pl fl events) (op_poll_wq ft)) (None :: nat option) f s"

section \<open>Descriptor tables\<close>

text \<open>\<open>proc_current()\<close> is the index of the current process, \<open>None\<close> when there is none.\<close>

definition proc_of :: "nat option \<Rightarrow> 'w vfs \<Rightarrow> fd_proc option" where
  "proc_of cur s =
     (case cur of None \<Rightarrow> None | Some i \<Rightarrow> if i < length (procs s) then Some (procs s ! i) else None)"

definition set_slot :: "nat \<Rightarrow> nat \<Rightarrow> ptr option \<Rightarrow> 'w vfs \<Rightarrow> 'w vfs" where
  "set_slot i fd v s =
     s\<lparr>procs := (procs s)[i := (procs s ! i)\<lparr>fds := (fds (procs s ! i))[fd := v]\<rparr>]\<rparr>"

definition set_cloexec :: "nat \<Rightarrow> u64 \<Rightarrow> 'w vfs \<Rightarrow> 'w vfs" where
  "set_cloexec i v s = s\<lparr>procs := (procs s)[i := (procs s ! i)\<lparr>fd_cloexec := v\<rparr>]\<rparr>"

definition bad_fd :: "int \<Rightarrow> bool" where
  "bad_fd fd \<longleftrightarrow> fd < 0 \<or> fd \<ge> int MAX_FDS"

definition fd_bit :: "nat \<Rightarrow> u64" where "fd_bit fd = push_bit fd 1"

definition fd_alloc_locked :: "fd_proc \<Rightarrow> int \<Rightarrow> int" where
  "fd_alloc_locked p min0 =
     (let min = (if min0 < 0 then 0 else min0) in
      if min \<ge> int MAX_FDS then -1
      else (case find_idx (\<lambda>f. f = None) (drop (nat min) (fds p)) of
              None \<Rightarrow> -1
            | Some k \<Rightarrow> min + int k))"

definition fd_alloc :: "nat option \<Rightarrow> int \<Rightarrow> 'w vfs \<Rightarrow> int" where
  "fd_alloc cur minfd s = (case proc_of cur s of None \<Rightarrow> -1 | Some p \<Rightarrow> fd_alloc_locked p minfd)"

definition fd_install ::
    "(nat \<Rightarrow> 'w file_ops) \<Rightarrow> nat option \<Rightarrow> int \<Rightarrow> ptr option \<Rightarrow> 'w vfs \<Rightarrow> ('w, int) vfs_result" where
  "fd_install vt cur fd f s =
     (case proc_of cur s of
        None \<Rightarrow> Some (-1, s)
      | Some p \<Rightarrow>
          if bad_fd fd then Some (-1, s)
          else
            let evicted = fds p ! nat fd;
                s1 = set_slot (the cur) (nat fd) f s
            in case file_put vt evicted s1 of
                 None \<Rightarrow> None
               | Some (frc, s2) \<Rightarrow> Some (0, s2))"

definition fd_get :: "nat option \<Rightarrow> int \<Rightarrow> 'w vfs \<Rightarrow> ptr option" where
  "fd_get cur fd s =
     (case proc_of cur s of
        None \<Rightarrow> None
      | Some p \<Rightarrow> if bad_fd fd then None else fds p ! nat fd)"

definition fd_alloc_install_on :: "nat option \<Rightarrow> ptr option \<Rightarrow> 'w vfs \<Rightarrow> int \<times> 'w vfs" where
  "fd_alloc_install_on cur f s =
     (case proc_of cur s of
        None \<Rightarrow> (-1, s)
      | Some p \<Rightarrow>
          let fd = fd_alloc_locked p 3 in
          (fd, if fd \<ge> 0 then set_slot (the cur) (nat fd) f s else s))"

definition fd_close_on ::
    "(nat \<Rightarrow> 'w file_ops) \<Rightarrow> nat option \<Rightarrow> int \<Rightarrow> 'w vfs \<Rightarrow> ('w, int) vfs_result" where
  "fd_close_on vt cur fd s =
     (case proc_of cur s of
        None \<Rightarrow> Some (-1, s)
      | Some p \<Rightarrow>
          if bad_fd fd then Some (-1, s)
          else
            (case fds p ! nat fd of
               None \<Rightarrow> Some (-1, s)
             | Some f \<Rightarrow>
                 file_put vt (Some f)
                   (set_cloexec (the cur) (fd_cloexec p AND NOT (fd_bit (nat fd)))
                     (set_slot (the cur) (nat fd) None s))))"

text \<open>One round of the two sweeping loops: when the test holds, clear slot \<open>fd\<close> and put what it
  held.\<close>

definition sweep_slot ::
    "(nat \<Rightarrow> 'w file_ops) \<Rightarrow> (fd_proc \<Rightarrow> nat \<Rightarrow> bool) \<Rightarrow> nat \<Rightarrow> nat \<Rightarrow> 'w vfs \<Rightarrow> 'w vfs option" where
  "sweep_slot vt test i fd s =
     (if test (procs s ! i) fd then
        map_option snd (file_put vt (fds (procs s ! i) ! fd) (set_slot i fd None s))
      else Some s)"

primrec sweep ::
    "(nat \<Rightarrow> 'w file_ops) \<Rightarrow> (fd_proc \<Rightarrow> nat \<Rightarrow> bool) \<Rightarrow> nat \<Rightarrow> nat list \<Rightarrow> 'w vfs \<Rightarrow> 'w vfs option" where
  "sweep vt test i [] s = Some s"
| "sweep vt test i (fd # rest) s =
     (case sweep_slot vt test i fd s of None \<Rightarrow> None | Some s1 \<Rightarrow> sweep vt test i rest s1)"

definition fd_close_all :: "(nat \<Rightarrow> 'w file_ops) \<Rightarrow> nat option \<Rightarrow> 'w vfs \<Rightarrow> 'w vfs option" where
  "fd_close_all vt cur s =
     (case proc_of cur s of
        None \<Rightarrow> Some s
      | Some p \<Rightarrow>
          map_option (set_cloexec (the cur) 0)
            (sweep vt (\<lambda>p fd. True) (the cur) [0..<MAX_FDS] s))"

definition fd_dup :: "nat option \<Rightarrow> int \<Rightarrow> int \<Rightarrow> 'w vfs \<Rightarrow> ('w, int) vfs_result" where
  "fd_dup cur oldfd minfd s =
     (case proc_of cur s of
        None \<Rightarrow> Some (-1, s)
      | Some p \<Rightarrow>
          if bad_fd oldfd then Some (-1, s)
          else
            let f = fds p ! nat oldfd;
                newfd = (if f \<noteq> None then fd_alloc_locked p (if minfd < 0 then 0 else minfd) else -1)
            in if newfd \<ge> 0 then
                 (case file_get f s of
                    None \<Rightarrow> None
                  | Some s1 \<Rightarrow>
                      Some (newfd,
                        set_cloexec (the cur) (fd_cloexec p AND NOT (fd_bit (nat newfd)))
                          (set_slot (the cur) (nat newfd) f s1)))
               else Some (newfd, s))"

definition fd_dup2 ::
    "(nat \<Rightarrow> 'w file_ops) \<Rightarrow> nat option \<Rightarrow> int \<Rightarrow> int \<Rightarrow> 'w vfs \<Rightarrow> ('w, int) vfs_result" where
  "fd_dup2 vt cur oldfd newfd s =
     (case proc_of cur s of
        None \<Rightarrow> Some (-1, s)
      | Some p \<Rightarrow>
          if bad_fd oldfd \<or> bad_fd newfd then Some (-1, s)
          else
            (case fds p ! nat oldfd of
               None \<Rightarrow> Some (-1, s)
             | Some f \<Rightarrow>
                 if oldfd = newfd then Some (newfd, s)
                 else
                   (case file_get (Some f) s of
                      None \<Rightarrow> None
                    | Some s1 \<Rightarrow>
                        let s2 = set_cloexec (the cur) (fd_cloexec p AND NOT (fd_bit (nat newfd)))
                                   (set_slot (the cur) (nat newfd) (Some f) s1)
                        in case file_put vt (fds p ! nat newfd) s2 of
                             None \<Rightarrow> None
                           | Some (frc, s3) \<Rightarrow> Some (newfd, s3))))"

definition fd_close_cloexec :: "(nat \<Rightarrow> 'w file_ops) \<Rightarrow> nat option \<Rightarrow> 'w vfs \<Rightarrow> 'w vfs option" where
  "fd_close_cloexec vt cur s =
     (case proc_of cur s of
        None \<Rightarrow> Some s
      | Some p \<Rightarrow>
          map_option (set_cloexec (the cur) 0)
            (sweep vt (\<lambda>p fd. fd_cloexec p AND fd_bit fd \<noteq> 0 \<and> fds p ! fd \<noteq> None)
              (the cur) [0..<MAX_FDS] s))"

text \<open>The system call \<open>SYS_DUP2\<close> (\<open>kernel/proc/syscall.c\<close>) does not go through \<open>fd_dup2\<close>.\<close>

definition sys_dup2 ::
    "(nat \<Rightarrow> 'w file_ops) \<Rightarrow> nat option \<Rightarrow> int \<Rightarrow> int \<Rightarrow> 'w vfs \<Rightarrow> ('w, int) vfs_result" where
  "sys_dup2 vt cur oldfd newfd s =
     (if bad_fd oldfd \<or> bad_fd newfd then Some (-1, s)
      else if oldfd = newfd then Some (newfd, s)
      else
        (case fd_get cur oldfd s of
           None \<Rightarrow> Some (-1, s)
         | Some oldf \<Rightarrow>
             (case (if fd_get cur newfd s \<noteq> None then map_option snd (fd_close_on vt cur newfd s)
                    else Some s) of
                None \<Rightarrow> None
              | Some s1 \<Rightarrow>
                  (case file_get (Some oldf) s1 of
                     None \<Rightarrow> None
                   | Some s2 \<Rightarrow>
                       (case fd_install vt cur newfd (Some oldf) s2 of
                          None \<Rightarrow> None
                        | Some (r, s3) \<Rightarrow> Some (newfd, s3))))))"

section \<open>Sharing descriptions with a child\<close>

primrec get_all :: "ptr option list \<Rightarrow> 'w vfs \<Rightarrow> 'w vfs option" where
  "get_all [] s = Some s"
| "get_all (f # fs) s = (case file_get f s of None \<Rightarrow> None | Some s1 \<Rightarrow> get_all fs s1)"

text \<open>\<open>proc_fork\<close> copies the parent's whole PCB (descriptor table and \<open>fd_cloexec\<close> included) into the
  child and then takes a reference per open slot. After that two steps can fail, the clone of the address space
  and the kernel stack (\<open>room\<close> says that both succeed): \<open>proc_release_resources\<close> does not look at the
  descriptor table, the slot goes back to \<open>PROC_STATE_UNUSED\<close>, and the references stay taken.\<close>

definition set_in_use :: "nat \<Rightarrow> bool \<Rightarrow> 'w vfs \<Rightarrow> 'w vfs" where
  "set_in_use i b s = s\<lparr>procs := (procs s)[i := (procs s ! i)\<lparr>in_use := b\<rparr>]\<rparr>"

definition proc_fork_fds :: "bool \<Rightarrow> nat \<Rightarrow> nat \<Rightarrow> 'w vfs \<Rightarrow> ('w, int) vfs_result" where
  "proc_fork_fds room parent child s =
     (case get_all (fds (procs s ! parent)) (s\<lparr>procs := (procs s)[child := procs s ! parent]\<rparr>) of
        None \<Rightarrow> None
      | Some s1 \<Rightarrow> if room then Some (0, s1) else Some (-1, set_in_use child False s1))"

text \<open>\<open>init_proc\<close> clears the whole slot without looking at the table it overwrites, and then stores up to
  three descriptions opened on the console device in the slots 0 to 2.\<close>

definition init_proc_clear :: "nat \<Rightarrow> 'w vfs \<Rightarrow> 'w vfs" where
  "init_proc_clear j s =
     s\<lparr>procs := (procs s)[j := \<lparr>fds = replicate MAX_FDS None, fd_cloexec = 0, in_use = True\<rparr>]\<rparr>"

definition init_proc_open :: "nat \<Rightarrow> nat \<Rightarrow> ptr option \<Rightarrow> 'w vfs \<Rightarrow> 'w vfs" where
  "init_proc_open j k f s = (if f \<noteq> None then set_slot j k f s else s)"

text \<open>The stdio inheritance of a spawn: reference the parent's slots 0 to 2, install them in the
  child, then put what the child had there.\<close>

definition inherit_slots :: "ptr option list \<Rightarrow> ptr option list \<Rightarrow> ptr option list" where
  "inherit_slots inh tab =
     map (\<lambda>fi. if fi < length inh \<and> inh ! fi \<noteq> None then inh ! fi else tab ! fi) [0..<length tab]"

primrec put_all ::
    "(nat \<Rightarrow> 'w file_ops) \<Rightarrow> ptr option list \<Rightarrow> 'w vfs \<Rightarrow> 'w vfs option" where
  "put_all vt [] s = Some s"
| "put_all vt (f # fs) s =
     (case file_put vt f s of None \<Rightarrow> None | Some (r, s1) \<Rightarrow> put_all vt fs s1)"

definition spawn_inherit_stdio ::
    "(nat \<Rightarrow> 'w file_ops) \<Rightarrow> nat \<Rightarrow> nat \<Rightarrow> 'w vfs \<Rightarrow> 'w vfs option" where
  "spawn_inherit_stdio vt parent child s =
     (let inh = take 3 (fds (procs s ! parent)) in
      case get_all inh s of
        None \<Rightarrow> None
      | Some s1 \<Rightarrow>
          let tab = fds (procs s1 ! child);
              ev = map (\<lambda>fi. if inh ! fi \<noteq> None then tab ! fi else None) [0..<3]
          in put_all vt ev
               (s1\<lparr>procs := (procs s1)[child := (procs s1 ! child)\<lparr>fds := inherit_slots inh tab\<rparr>]\<rparr>))"

text \<open>A shell redirection: the descriptions opened for the child replace what its slots 1 and 0 hold, then
  what they held is put.\<close>

definition spawn_redirect ::
    "(nat \<Rightarrow> 'w file_ops) \<Rightarrow> nat \<Rightarrow> ptr option \<Rightarrow> ptr option \<Rightarrow> 'w vfs \<Rightarrow> 'w vfs option" where
  "spawn_redirect vt child redir_out redir_in s =
     (let ev_out = (if redir_out \<noteq> None then fds (procs s ! child) ! 1 else None);
          s1 = (if redir_out \<noteq> None then set_slot child 1 redir_out s else s);
          ev_in = (if redir_in \<noteq> None then fds (procs s1 ! child) ! 0 else None);
          s2 = (if redir_in \<noteq> None then set_slot child 0 redir_in s1 else s1)
      in put_all vt [ev_out, ev_in] s2)"

section \<open>The reference-count invariant\<close>

text \<open>\<open>refs s p\<close> counts the descriptor slots that point to \<open>p\<close>, in the tables of all process slots, those
  not in use included; \<open>held p\<close> counts the references
  kernel code holds outside the tables (a description between \<open>file_alloc\<close> and
  \<open>fd_alloc_install\<close>).\<close>

definition refs :: "'w vfs \<Rightarrow> ptr \<Rightarrow> nat" where
  "refs s p = sum_list (map (\<lambda>pr. count_list (fds pr) (Some p)) (procs s))"

definition vfs_inv :: "(ptr \<Rightarrow> nat) \<Rightarrow> 'w vfs \<Rightarrow> bool" where
  "vfs_inv held s \<longleftrightarrow>
     (\<forall>pr\<in>set (procs s). length (fds pr) = MAX_FDS) \<and>
     (\<forall>p. case files s p of
            None \<Rightarrow> refs s p + held p = 0
          | Some f \<Rightarrow> refcount f = int (refs s p + held p) \<and> 0 < refs s p + held p)"

definition hold :: "ptr option list \<Rightarrow> (ptr \<Rightarrow> nat) \<Rightarrow> (ptr \<Rightarrow> nat)" where
  "hold fs held = (\<lambda>p. held p + count_list fs (Some p))"

text \<open>What a file kind sees of the live descriptions, and the invariant joined with the kind's own.\<close>

definition kinds :: "'w vfs \<Rightarrow> (ptr \<rightharpoonup> nat option \<times> ptr)" where
  "kinds s = (\<lambda>p. map_option (\<lambda>f. (f_ops f, f_priv f)) (files s p))"

definition kind_inv ::
    "((ptr \<rightharpoonup> nat option \<times> ptr) \<Rightarrow> 'w \<Rightarrow> bool) \<Rightarrow> (ptr \<Rightarrow> nat) \<Rightarrow> 'w vfs \<Rightarrow> bool" where
  "kind_inv winv held s \<longleftrightarrow> vfs_inv held s \<and> winv (kinds s) (world s)"

section \<open>Reference lemmas\<close>

lemma hold_Nil [simp]: "hold [] held = held"
  by (simp add: hold_def)

lemma hold_None [simp]: "hold (None # fs) held = hold fs held"
  by (simp add: hold_def)

lemma hold_commute: "hold xs (hold ys held) = hold ys (hold xs held)"
  by (rule ext) (simp add: hold_def)

lemma hold_add: "(\<lambda>p. hold fs held p + lost p) = hold fs (\<lambda>p. held p + lost p)"
  "(\<lambda>p. held p + hold fs lost p) = hold fs (\<lambda>p. held p + lost p)"
  by (rule ext, simp add: hold_def)+

lemma hold_Cons: "hold (f # fs) held = hold [f] (hold fs held)"
  by (rule ext) (simp add: hold_def)

lemma vfs_invD:
  assumes "vfs_inv held s"
  shows "i < length (procs s) \<Longrightarrow> length (fds (procs s ! i)) = MAX_FDS"
    and "files s p = Some f \<Longrightarrow> refcount f = int (refs s p + held p) \<and> 0 < refs s p + held p"
    and "0 < refs s p + held p \<Longrightarrow> \<exists>f. files s p = Some f"
proof -
  show "i < length (procs s) \<Longrightarrow> length (fds (procs s ! i)) = MAX_FDS"
    using assms by (simp add: vfs_inv_def)
  have c: "case files s p of None \<Rightarrow> refs s p + held p = 0
      | Some f \<Rightarrow> refcount f = int (refs s p + held p) \<and> 0 < refs s p + held p"
    using assms unfolding vfs_inv_def by blast
  show "files s p = Some f \<Longrightarrow> refcount f = int (refs s p + held p) \<and> 0 < refs s p + held p"
    using c by simp
  show "0 < refs s p + held p \<Longrightarrow> \<exists>f. files s p = Some f"
    using c by (cases "files s p") auto
qed

lemma vfs_inv_freed:
  assumes "vfs_inv held s"
  shows "files s p = None \<longleftrightarrow> refs s p + held p = 0"
proof (cases "files s p")
  case None
  then show ?thesis using vfs_invD(3) [OF assms, of p] by fastforce
next
  case (Some f)
  then show ?thesis using vfs_invD(2) [OF assms Some] by simp
qed

lemma vfs_invI:
  assumes "\<And>pr. pr \<in> set (procs s) \<Longrightarrow> length (fds pr) = MAX_FDS"
    and "\<And>p f. files s p = Some f \<Longrightarrow> refcount f = int (refs s p + held p) \<and> 0 < refs s p + held p"
    and "\<And>p. files s p = None \<Longrightarrow> refs s p + held p = 0"
  shows "vfs_inv held s"
  using assms unfolding vfs_inv_def by (auto split: option.splits)

text \<open>Changing one description and what is held of it.\<close>

lemma vfs_inv_upd:
  assumes inv: "vfs_inv held s" and "procs t = procs s" and "files t = (files s)(p := v)"
    and "\<And>q. q \<noteq> p \<Longrightarrow> held' q = held q"
    and "v = None \<Longrightarrow> refs s p + held' p = 0"
    and "\<And>f. v = Some f \<Longrightarrow> refcount f = int (refs s p + held' p) \<and> 0 < refs s p + held' p"
  shows "vfs_inv held' t"
proof (rule vfs_invI)
  have refs: "refs t q = refs s q" for q using assms(2) by (simp add: refs_def)
  show "pr \<in> set (procs t) \<Longrightarrow> length (fds pr) = MAX_FDS" for pr
    using inv assms(2) by (simp add: vfs_inv_def)
  show "files t q = Some f \<Longrightarrow> refcount f = int (refs t q + held' q) \<and> 0 < refs t q + held' q" for q f
    unfolding refs using assms(3,4,6) vfs_invD(2) [OF inv, of q f] by (cases "q = p") auto
  show "files t q = None \<Longrightarrow> refs t q + held' q = 0" for q
    unfolding refs using assms(3,4,5) vfs_invD(3) [OF inv, of q] by (cases "q = p") fastforce+
qed

lemma refs_slot:
  assumes "i < length (procs s)" and "fd < length (fds (procs s ! i))"
    and "fds (procs s ! i) ! fd = Some p"
  shows "0 < refs s p"
proof -
  have "Some p \<in> set (fds (procs s ! i))" using assms(2,3) by (metis nth_mem)
  then have "0 < count_list (fds (procs s ! i)) (Some p)"
    by (metis count_list_0_iff gr0I)
  also have "\<dots> \<le> refs s p"
    unfolding refs_def using nth_le_sum_list_map [OF assms(1)] by fastforce
  finally show ?thesis .
qed

lemma slot_live:
  assumes "vfs_inv held s" and "i < length (procs s)" and "fd < MAX_FDS"
    and "fds (procs s ! i) ! fd = Some p"
  shows "\<exists>f. files s p = Some f"
  using refs_slot [OF assms(2)] vfs_invD(1) [OF assms(1,2)] vfs_invD(3) [OF assms(1)] assms(3,4)
  by (metis add_gr_0)

lemma table_live:
  assumes "vfs_inv held s" and "i < length (procs s)" and "Some p \<in> set (fds (procs s ! i))"
  shows "\<exists>f. files s p = Some f"
proof -
  obtain fd where "fd < MAX_FDS" and "fds (procs s ! i) ! fd = Some p"
    using assms(3) vfs_invD(1) [OF assms(1,2)] by (metis in_set_conv_nth)
  then show ?thesis by (rule slot_live [OF assms(1,2)])
qed

lemma refs_set_table:
  assumes "i < length (procs s)"
  shows "refs (s\<lparr>procs := (procs s)[i := pr]\<rparr>) p + count_list (fds (procs s ! i)) (Some p)
           = refs s p + count_list (fds pr) (Some p)"
  using sum_list_map_update [OF assms, of "\<lambda>pr. count_list (fds pr) (Some p)"]
  by (simp add: refs_def)

lemma slot_frame [simp]:
  "files (set_slot i fd v s) = files s" "world (set_slot i fd v s) = world s"
  "length (procs (set_slot i fd v s)) = length (procs s)"
  "files (set_cloexec i c s) = files s" "world (set_cloexec i c s) = world s"
  "length (procs (set_cloexec i c s)) = length (procs s)"
  "kinds (set_slot i fd v s) = kinds s" "kinds (set_cloexec i c s) = kinds s"
  by (simp_all add: set_slot_def set_cloexec_def kinds_def)

text \<open>Replacing the table of one process: the references it gains must have been held, the ones it
  loses become held.\<close>

lemma vfs_inv_swap:
  assumes inv: "vfs_inv (hold new held) s" and i: "i < length (procs s)"
    and len: "length (fds pr) = MAX_FDS"
    and cnt: "\<And>p. count_list (fds pr) (Some p) + count_list old (Some p)
                 = count_list (fds (procs s ! i)) (Some p) + count_list new (Some p)"
  shows "vfs_inv (hold old held) (s\<lparr>procs := (procs s)[i := pr]\<rparr>)"
proof (rule vfs_invI)
  fix q assume "q \<in> set (procs (s\<lparr>procs := (procs s)[i := pr]\<rparr>))"
  then have "q \<in> insert pr (set (procs s))" using set_update_subset_insert by fastforce
  then show "length (fds q) = MAX_FDS" using inv len by (auto simp: vfs_inv_def)
next
  fix p
  have eq: "refs (s\<lparr>procs := (procs s)[i := pr]\<rparr>) p + hold old held p = refs s p + hold new held p"
    using refs_set_table [OF i, of pr p] cnt [of p] by (simp add: hold_def)
  show "refcount f = int (refs (s\<lparr>procs := (procs s)[i := pr]\<rparr>) p + hold old held p) \<and>
      0 < refs (s\<lparr>procs := (procs s)[i := pr]\<rparr>) p + hold old held p"
    if "files (s\<lparr>procs := (procs s)[i := pr]\<rparr>) p = Some f" for f
    using vfs_invD(2) [OF inv, of p f] that unfolding eq by simp
  show "refs (s\<lparr>procs := (procs s)[i := pr]\<rparr>) p + hold old held p = 0"
    if "files (s\<lparr>procs := (procs s)[i := pr]\<rparr>) p = None"
    using vfs_invD(3) [OF inv, of p] that unfolding eq by fastforce
qed

lemma slot_swap:
  assumes "kind_inv winv (hold [v] held) s" and i: "i < length (procs s)" and fd: "fd < MAX_FDS"
  shows "kind_inv winv (hold [fds (procs s ! i) ! fd] held) (set_slot i fd v s)"
proof -
  have inv: "vfs_inv (hold [v] held) s" using assms(1) by (simp add: kind_inv_def)
  have len: "length (fds (procs s ! i)) = MAX_FDS" using vfs_invD(1) [OF inv i] .
  have "vfs_inv (hold [fds (procs s ! i) ! fd] held) (set_slot i fd v s)"
    unfolding set_slot_def
  proof (rule vfs_inv_swap [OF inv i])
    show "length (fds ((procs s ! i)\<lparr>fds := (fds (procs s ! i))[fd := v]\<rparr>)) = MAX_FDS"
      using len by simp
    show "count_list (fds ((procs s ! i)\<lparr>fds := (fds (procs s ! i))[fd := v]\<rparr>)) (Some p)
        + count_list [fds (procs s ! i) ! fd] (Some p)
        = count_list (fds (procs s ! i)) (Some p) + count_list [v] (Some p)" for p
      using count_list_update [of fd "fds (procs s ! i)" v "Some p"] fd len
      by (auto split: if_splits)
  qed
  then show ?thesis using assms(1) by (simp add: kind_inv_def)
qed

lemma cloexec_inv [simp]:
  assumes "i < length (procs s)"
  shows "kind_inv winv held (set_cloexec i c s) = kind_inv winv held s"
proof -
  have refs: "refs (set_cloexec i c s) p = refs s p" for p
    using refs_set_table [OF assms, of "(procs s ! i)\<lparr>fd_cloexec := c\<rparr>" p]
    by (simp add: set_cloexec_def)
  have "(\<forall>pr\<in>set (procs (set_cloexec i c s)). length (fds pr) = MAX_FDS) \<longleftrightarrow>
      (\<forall>pr\<in>set (procs s). length (fds pr) = MAX_FDS)"
    using assms by (auto simp: set_cloexec_def all_set_conv_all_nth nth_list_update)
  then show ?thesis by (simp add: kind_inv_def vfs_inv_def refs cong: option.case_cong)
qed

lemma get_ok:
  assumes inv: "kind_inv winv held s" and live: "\<And>p. f = Some p \<Longrightarrow> \<exists>fl. files s p = Some fl"
  shows "\<exists>s'. file_get f s = Some s' \<and> kind_inv winv (hold [f] held) s' \<and> procs s' = procs s"
proof (cases f)
  case None
  then show ?thesis using inv by (simp add: file_get_def)
next
  case (Some p)
  obtain fl where fl: "files s p = Some fl" using live [OF Some] by blast
  let ?s = "s\<lparr>files := (files s)(p \<mapsto> fl\<lparr>refcount := refcount fl + 1\<rparr>)\<rparr>"
  have v: "vfs_inv held s" using inv by (simp add: kind_inv_def)
  have "vfs_inv (hold [f] held) ?s"
    by (rule vfs_inv_upd [OF v, of _ p "Some (fl\<lparr>refcount := refcount fl + 1\<rparr>)"])
      (use vfs_invD(2) [OF v fl] Some in \<open>auto simp: hold_def\<close>)
  moreover have "kinds ?s = kinds s" using fl by (auto simp: kinds_def)
  ultimately show ?thesis using Some fl inv by (simp add: file_get_def kind_inv_def)
qed


text \<open>Taking references does not look at the tables.\<close>

lemma file_get_procs:
  "file_get f (t\<lparr>procs := ps\<rparr>) = map_option (\<lambda>t'. t'\<lparr>procs := ps\<rparr>) (file_get f t)"
  by (cases f; cases "files t (the f)") (simp_all add: file_get_def)

lemma get_all_procs:
  "get_all fs (t\<lparr>procs := ps\<rparr>) = map_option (\<lambda>t'. t'\<lparr>procs := ps\<rparr>) (get_all fs t)"
proof (induction fs arbitrary: t)
  case Nil
  then show ?case by simp
next
  case (Cons f fs)
  then show ?case by (cases "file_get f t") (simp_all add: file_get_procs)
qed

text \<open>Inheriting slots exchanges the child's descriptions for the parent's.\<close>

lemma inherit_slots_Cons:
  "inherit_slots (x # inh) (t # tab) = (if x \<noteq> None then x else t) # inherit_slots inh tab"
  unfolding inherit_slots_def by (auto simp: map_upt_Suc simp del: upt_Suc)

lemma inherit_slots_Nil: "inherit_slots [] tab = tab"
  by (simp add: inherit_slots_def map_nth)

lemma inherit_count:
  assumes "length inh \<le> length tab"
  shows "count_list (inherit_slots inh tab) (Some p)
      + count_list (map (\<lambda>fi. if inh ! fi \<noteq> None then tab ! fi else None) [0..<length inh]) (Some p)
      = count_list tab (Some p) + count_list inh (Some p)"
  using assms
proof (induction inh arbitrary: tab)
  case Nil
  then show ?case by (simp add: inherit_slots_Nil)
next
  case (Cons x inh)
  then obtain t tab' where tab: "tab = t # tab'" by (cases tab) auto
  have "map (\<lambda>fi. if (x # inh) ! fi \<noteq> None then tab ! fi else None) [0..<length (x # inh)]
      = (if x \<noteq> None then t else None)
        # map (\<lambda>fi. if inh ! fi \<noteq> None then tab' ! fi else None) [0..<length inh]"
    unfolding tab by (simp add: map_upt_Suc del: upt_Suc)
  then show ?case
    using Cons.IH [of tab'] Cons.prems by (simp add: tab inherit_slots_Cons del: upt_Suc)
qed

section \<open>Slot search\<close>

lemma proc_of_cases:
  obtains "proc_of cur s = None"
  | i where "cur = Some i" and "i < length (procs s)" and "proc_of cur s = Some (procs s ! i)"
  by (cases cur; cases "the cur < length (procs s)") (auto simp: proc_of_def)

text \<open>\<open>fd_alloc_locked\<close> answers the lowest free slot at or above the minimum.\<close>

lemma fd_alloc_locked_cases:
  fixes p :: fd_proc
  assumes "length (fds p) = MAX_FDS"
  obtains (full) "fd_alloc_locked p m = -1"
      and "\<And>k. k < MAX_FDS \<Longrightarrow> max 0 m \<le> int k \<Longrightarrow> fds p ! k \<noteq> None"
  | (slot) fd where "fd_alloc_locked p m = int fd" and "fd < MAX_FDS" and "max 0 m \<le> int fd"
      and "fds p ! fd = None" and "\<And>k. k < fd \<Longrightarrow> max 0 m \<le> int k \<Longrightarrow> fds p ! k \<noteq> None"
proof (cases "max 0 m \<ge> int MAX_FDS")
  case True
  then show ?thesis by (intro full) (auto simp: fd_alloc_locked_def Let_def max_def split: if_splits)
next
  case False
  define b where "b = nat (max 0 m)"
  have b: "max 0 m = int b" "b < MAX_FDS" using False by (auto simp: b_def)
  have eq: "fd_alloc_locked p m = (case find_idx (\<lambda>f. f = None) (drop b (fds p)) of
      None \<Rightarrow> -1 | Some k \<Rightarrow> int b + int k)"
    using b by (auto simp: fd_alloc_locked_def Let_def max_def split: if_splits option.splits)
  show ?thesis
  proof (cases "find_idx (\<lambda>f. f = None) (drop b (fds p))")
    case None
    have "fds p ! k \<noteq> None" if "k < MAX_FDS" "b \<le> k" for k
      using find_idx_None_nth [OF None, of "k - b"] that assms b by simp
    with None eq b show ?thesis by (intro full) auto
  next
    case (Some k)
    note k = find_idx_SomeD [OF Some]
    have "fds p ! j \<noteq> None" if "j < b + k" "b \<le> j" for j
      using k(3) [of "j - b"] that k(1) assms by simp
    with Some eq b k assms show ?thesis by (intro slot [of "b + k"]) auto
  qed
qed

section \<open>File kinds\<close>

text \<open>The contract between the descriptor layer and a file kind: \<open>winv\<close> relates the live descriptions
  to the kind's own state, and the release operation, called when the last reference of a
  description goes away, is defined and re-establishes it with that description gone.\<close>

locale file_kind =
  fixes vt :: "nat \<Rightarrow> 'w file_ops"
    and winv :: "(ptr \<rightharpoonup> nat option \<times> ptr) \<Rightarrow> 'w \<Rightarrow> bool"
  assumes release_ok: "winv K w \<Longrightarrow> K p = Some (f_ops fl, f_priv fl) \<Longrightarrow>
    \<exists>rc w'. run_release vt fl w = Some (rc, w') \<and> winv (K(p := None)) w'"
begin

lemma put_ok:
  assumes inv: "kind_inv winv (hold [f] held) s"
  shows "\<exists>r s'. file_put vt f s = Some (r, s') \<and> kind_inv winv held s' \<and> procs s' = procs s"
proof (cases f)
  case None
  then show ?thesis using inv by (simp add: file_put_def)
next
  case (Some p)
  have v: "vfs_inv (hold [f] held) s" and w: "winv (kinds s) (world s)"
    using inv by (simp_all add: kind_inv_def)
  obtain fl where fl: "files s p = Some fl"
    using vfs_invD(3) [OF v, of p] Some by (auto simp: hold_def)
  have rc: "refcount fl = int (refs s p + held p) + 1"
    using vfs_invD(2) [OF v fl] Some by (simp add: hold_def)
  show ?thesis
  proof (cases "refs s p + held p = 0")
    case True
    let ?fl = "fl\<lparr>refcount := refcount fl - 1\<rparr>"
    obtain rc' w' where rel: "run_release vt ?fl (world s) = Some (rc', w')"
      and w': "winv ((kinds s)(p := None)) w'"
      using release_ok [OF w, of p ?fl] fl by (auto simp: kinds_def)
    let ?s = "s\<lparr>files := (files s)(p := None), world := w'\<rparr>"
    have "vfs_inv held ?s"
      by (rule vfs_inv_upd [OF v, of _ p None]) (use True Some in \<open>auto simp: hold_def\<close>)
    moreover have "kinds ?s = (kinds s)(p := None)" by (auto simp: kinds_def)
    moreover have "file_put vt f s = Some (rc', ?s)"
      using rel rc True fl Some by (simp add: file_put_def Let_def)
    ultimately show ?thesis using w' by (simp add: kind_inv_def)
  next
    case False
    let ?s = "s\<lparr>files := (files s)(p \<mapsto> fl\<lparr>refcount := refcount fl - 1\<rparr>)\<rparr>"
    have "vfs_inv held ?s"
      by (rule vfs_inv_upd [OF v, of _ p "Some (fl\<lparr>refcount := refcount fl - 1\<rparr>)"])
        (use False rc Some in \<open>auto simp: hold_def\<close>)
    moreover have "kinds ?s = kinds s" using fl by (auto simp: kinds_def)
    moreover have "file_put vt f s = Some (0, ?s)"
      using rc False fl Some by (auto simp: file_put_def Let_def)
    ultimately show ?thesis using w by (simp add: kind_inv_def)
  qed
qed

lemma put_all_ok:
  assumes "kind_inv winv (hold fs held) s"
  shows "\<exists>s'. put_all vt fs s = Some s' \<and> kind_inv winv held s' \<and> procs s' = procs s"
  using assms
proof (induction fs arbitrary: s)
  case Nil
  then show ?case by simp
next
  case (Cons f fs)
  from Cons.prems have "kind_inv winv (hold [f] (hold fs held)) s" by (metis hold_Cons)
  from put_ok [OF this] Cons.IH show ?case by fastforce
qed

lemma install_ok:
  assumes inv: "kind_inv winv (hold [f] held) s" and r: "fd_alloc_install_on cur f s = (fd, s')"
  shows "if fd \<ge> 0 then kind_inv winv held s' else s' = s"
proof (rule proc_of_cases [of cur s])
  assume "proc_of cur s = None"
  then show ?thesis using r by (auto simp: fd_alloc_install_on_def)
next
  fix i assume i: "cur = Some i" "i < length (procs s)" "proc_of cur s = Some (procs s ! i)"
  then have len: "length (fds (procs s ! i)) = MAX_FDS"
    using inv vfs_invD(1) by (auto simp: kind_inv_def)
  then show ?thesis
  proof (cases rule: fd_alloc_locked_cases [of _ 3])
    case full
    then show ?thesis using r i by (simp add: fd_alloc_install_on_def Let_def)
  next
    case (slot k)
    then have "fd = int k" "s' = set_slot i k f s"
      using r i by (simp_all add: fd_alloc_install_on_def Let_def)
    with slot_swap [OF inv i(2) slot(2)] slot(4) show ?thesis by simp
  qed
qed

lemma close_ok:
  assumes inv: "kind_inv winv held s"
  shows "\<exists>r s'. fd_close_on vt cur fd s = Some (r, s') \<and> kind_inv winv held s'"
proof (rule proc_of_cases [of cur s])
  assume "proc_of cur s = None"
  then show ?thesis using inv by (simp add: fd_close_on_def)
next
  fix i assume i: "cur = Some i" "i < length (procs s)" "proc_of cur s = Some (procs s ! i)"
  show ?thesis
  proof (cases "bad_fd fd \<or> fds (procs s ! i) ! nat fd = None")
    case True
    then show ?thesis using inv i by (auto simp: fd_close_on_def)
  next
    case False
    then obtain f where f: "fds (procs s ! i) ! nat fd = Some f" and fd: "nat fd < MAX_FDS"
      by (auto simp: bad_fd_def)
    let ?s = "set_slot i (nat fd) None s"
    have "kind_inv winv (hold [Some f] held) ?s"
      using slot_swap [of winv None held s i "nat fd"] inv i fd f by simp
    then have "kind_inv winv (hold [Some f] held)
        (set_cloexec i (fd_cloexec (procs s ! i) AND NOT (fd_bit (nat fd))) ?s)"
      using i by simp
    from put_ok [OF this] show ?thesis using False i f by (auto simp: fd_close_on_def)
  qed
qed

lemma fd_install_ok:
  assumes inv: "kind_inv winv (hold [f] held) s"
  shows "\<exists>r s'. fd_install vt cur fd f s = Some (r, s') \<and>
     kind_inv winv (if r = 0 then held else hold [f] held) s'"
proof (rule proc_of_cases [of cur s])
  assume "proc_of cur s = None"
  then show ?thesis using inv by (simp add: fd_install_def)
next
  fix i assume i: "cur = Some i" "i < length (procs s)" "proc_of cur s = Some (procs s ! i)"
  show ?thesis
  proof (cases "bad_fd fd")
    case True
    then show ?thesis using inv i by (simp add: fd_install_def)
  next
    case False
    then have "nat fd < MAX_FDS" by (auto simp: bad_fd_def)
    from put_ok [OF slot_swap [OF inv i(2) this]] False i show ?thesis
      by (auto simp: fd_install_def Let_def)
  qed
qed

lemma dup_ok:
  assumes inv: "kind_inv winv held s"
  shows "\<exists>r s'. fd_dup cur oldfd m s = Some (r, s') \<and> kind_inv winv held s'"
proof (rule proc_of_cases [of cur s])
  assume "proc_of cur s = None"
  then show ?thesis using inv by (simp add: fd_dup_def)
next
  fix i assume i: "cur = Some i" "i < length (procs s)" "proc_of cur s = Some (procs s ! i)"
  have v: "vfs_inv held s" using inv by (simp add: kind_inv_def)
  define f where "f = fds (procs s ! i) ! nat oldfd"
  show ?thesis
  proof (cases "bad_fd oldfd \<or> f = None \<or> fd_alloc_locked (procs s ! i) (if m < 0 then 0 else m) < 0")
    case True
    then show ?thesis using inv i by (auto simp: fd_dup_def Let_def f_def)
  next
    case False
    then have old: "nat oldfd < MAX_FDS" by (auto simp: bad_fd_def)
    have "\<exists>fl. files s p = Some fl" if "f = Some p" for p
      using slot_live [OF v i(2) old] that by (simp add: f_def)
    from get_ok [OF inv this] obtain s1 where s1: "file_get f s = Some s1"
      "kind_inv winv (hold [f] held) s1" "procs s1 = procs s" by blast
    from vfs_invD(1) [OF v i(2)] obtain k where
      k: "fd_alloc_locked (procs s ! i) (if m < 0 then 0 else m) = int k" "k < MAX_FDS"
         "fds (procs s ! i) ! k = None"
      by (cases rule: fd_alloc_locked_cases [of _ "if m < 0 then 0 else m"]) (use False in auto)
    have "kind_inv winv held (set_slot i k f s1)"
      using slot_swap [OF s1(2) _ k(2), of i] i(2) k(3) s1(3) by simp
    then show ?thesis using False i k s1 by (auto simp: fd_dup_def Let_def f_def)
  qed
qed

lemma dup2_ok:
  assumes inv: "kind_inv winv held s"
  shows "\<exists>r s'. fd_dup2 vt cur oldfd newfd s = Some (r, s') \<and> kind_inv winv held s'"
proof (rule proc_of_cases [of cur s])
  assume "proc_of cur s = None"
  then show ?thesis using inv by (simp add: fd_dup2_def)
next
  fix i assume i: "cur = Some i" "i < length (procs s)" "proc_of cur s = Some (procs s ! i)"
  have v: "vfs_inv held s" using inv by (simp add: kind_inv_def)
  show ?thesis
  proof (cases "bad_fd oldfd \<or> bad_fd newfd \<or> fds (procs s ! i) ! nat oldfd = None \<or> oldfd = newfd")
    case True
    then show ?thesis using inv i by (auto simp: fd_dup2_def split: option.splits)
  next
    case False
    then obtain f where f: "fds (procs s ! i) ! nat oldfd = Some f"
      and fd: "nat oldfd < MAX_FDS" "nat newfd < MAX_FDS"
      by (auto simp: bad_fd_def)
    have "\<exists>fl. files s p = Some fl" if "Some f = Some p" for p
      using slot_live [OF v i(2) fd(1)] that f by simp
    from get_ok [OF inv this] obtain s1 where s1: "file_get (Some f) s = Some s1"
      "kind_inv winv (hold [Some f] held) s1" "procs s1 = procs s" by blast
    let ?s = "set_slot i (nat newfd) (Some f) s1"
    have "kind_inv winv (hold [fds (procs s ! i) ! nat newfd] held)
        (set_cloexec i (fd_cloexec (procs s ! i) AND NOT (fd_bit (nat newfd))) ?s)"
      using slot_swap [OF s1(2) _ fd(2), of i] i(2) s1(3) by simp
    from put_ok [OF this] show ?thesis using False i f s1 by (auto simp: fd_dup2_def Let_def)
  qed
qed

lemma sweep_ok:
  assumes "kind_inv winv held s" and "i < length (procs s)" and "set is \<subseteq> {..<MAX_FDS}"
  shows "\<exists>s'. sweep vt test i is s = Some s' \<and> kind_inv winv held s' \<and>
     length (procs s') = length (procs s)"
  using assms
proof (induction "is" arbitrary: s)
  case Nil
  then show ?case by simp
next
  case (Cons fd rest)
  show ?case
  proof (cases "test (procs s ! i) fd")
    case True
    have "kind_inv winv (hold [fds (procs s ! i) ! fd] held) (set_slot i fd None s)"
      using slot_swap [of winv None held s i fd] Cons.prems by simp
    from put_ok [OF this] obtain r s1 where
      s1: "file_put vt (fds (procs s ! i) ! fd) (set_slot i fd None s) = Some (r, s1)"
        "kind_inv winv held s1" "procs s1 = procs (set_slot i fd None s)" by blast
    have "length (procs s1) = length (procs s)" using s1(3) by simp
    with Cons.IH [OF s1(2)] Cons.prems s1(1) True show ?thesis
      by (auto simp: sweep_slot_def)
  next
    case False
    then show ?thesis using Cons by (simp add: sweep_slot_def)
  qed
qed

lemma sweep_all_ok:
  assumes "kind_inv winv held s" and "i < length (procs s)"
  shows "\<exists>s'. map_option (set_cloexec i 0) (sweep vt test i [0..<MAX_FDS] s) = Some s' \<and>
     kind_inv winv held s'"
proof -
  have "set [0..<MAX_FDS] \<subseteq> {..<MAX_FDS}" by auto
  from sweep_ok [OF assms this, of test] obtain t where
    "sweep vt test i [0..<MAX_FDS] s = Some t" "kind_inv winv held t"
    "length (procs t) = length (procs s)" by blast
  then show ?thesis using assms(2) by simp
qed

lemma close_all_ok:
  assumes "kind_inv winv held s"
  shows "\<exists>s'. fd_close_all vt cur s = Some s' \<and> kind_inv winv held s'"
proof (rule proc_of_cases [of cur s])
  fix i assume i: "cur = Some i" "i < length (procs s)" "proc_of cur s = Some (procs s ! i)"
  then show ?thesis
    using sweep_all_ok [OF assms i(2)] unfolding fd_close_all_def by (simp only: option.simps option.sel)
qed (use assms in \<open>simp add: fd_close_all_def\<close>)

lemma close_cloexec_ok:
  assumes "kind_inv winv held s"
  shows "\<exists>s'. fd_close_cloexec vt cur s = Some s' \<and> kind_inv winv held s'"
proof (rule proc_of_cases [of cur s])
  fix i assume i: "cur = Some i" "i < length (procs s)" "proc_of cur s = Some (procs s ! i)"
  then show ?thesis
    using sweep_all_ok [OF assms i(2)] unfolding fd_close_cloexec_def by (simp only: option.simps option.sel)
qed (use assms in \<open>simp add: fd_close_cloexec_def\<close>)

lemma get_all_ok:
  assumes "kind_inv winv held s" and "\<And>p. Some p \<in> set fs \<Longrightarrow> \<exists>fl. files s p = Some fl"
  shows "\<exists>s'. get_all fs s = Some s' \<and> kind_inv winv (hold fs held) s' \<and> procs s' = procs s"
  using assms
proof (induction fs arbitrary: s held)
  case Nil
  then show ?case by simp
next
  case (Cons f fs)
  then obtain s1 where s1: "file_get f s = Some s1" "kind_inv winv (hold [f] held) s1"
    "procs s1 = procs s"
    using get_ok [OF Cons.prems(1), of f] by auto
  have "\<exists>fl. files s1 p = Some fl" if "Some p \<in> set fs" for p
    using Cons.prems(2) [of p] that s1(1)
    by (auto simp: file_get_def split: option.splits if_splits)
  from Cons.IH [OF s1(2) this] have
    "\<exists>s'. get_all fs s1 = Some s' \<and> kind_inv winv (hold fs (hold [f] held)) s' \<and> procs s' = procs s1" .
  moreover have "hold fs (hold [f] held) = hold (f # fs) held" by (rule ext) (simp add: hold_def)
  ultimately show ?case using s1 by simp
qed

text \<open>Memory copies the parent's table first; the references follow. Taking them first gives the
  same state. What the child's slot held before is lost.\<close>

lemma fork_ok:
  assumes inv: "kind_inv winv held s" and "parent < length (procs s)" and "child < length (procs s)"
  shows "\<exists>r s'. proc_fork_fds room parent child s = Some (r, s') \<and>
    kind_inv winv (hold (fds (procs s ! child)) held) s'"
proof -
  have v: "vfs_inv held s" using inv by (simp add: kind_inv_def)
  let ?fs = "fds (procs s ! parent)"
  from get_all_ok [OF inv table_live [OF v assms(2)]] obtain s1 where
    s1: "get_all ?fs s = Some s1" "kind_inv winv (hold ?fs held) s1" "procs s1 = procs s" by blast
  have swap: "kind_inv winv (hold (fds (procs s ! child)) held) (s1\<lparr>procs := (procs s1)[child := pr]\<rparr>)"
    if "fds pr = ?fs" for pr
  proof -
    have "vfs_inv (hold (fds (procs s ! child)) held) (s1\<lparr>procs := (procs s1)[child := pr]\<rparr>)"
    proof (rule vfs_inv_swap)
      show "vfs_inv (hold ?fs held) s1" using s1(2) by (simp add: kind_inv_def)
      show "child < length (procs s1)" using assms(3) s1(3) by simp
      show "length (fds pr) = MAX_FDS" unfolding that by (rule vfs_invD(1) [OF v assms(2)])
    qed (simp add: s1(3) that)
    then show ?thesis using s1(2) by (simp add: kind_inv_def kinds_def)
  qed
  show ?thesis
    using s1 swap [of "procs s ! parent"] swap [of "(procs s ! parent)\<lparr>in_use := False\<rparr>"] assms(3)
    by (cases room) (simp_all add: proc_fork_fds_def get_all_procs set_in_use_def)
qed

lemma clear_ok:
  assumes inv: "kind_inv winv held s" and "j < length (procs s)"
  shows "kind_inv winv (hold (fds (procs s ! j)) held) (init_proc_clear j s)"
proof -
  have "vfs_inv (hold (fds (procs s ! j)) held) (init_proc_clear j s)"
    unfolding init_proc_clear_def
    by (rule vfs_inv_swap [OF _ assms(2), of "[]"])
      (use inv in \<open>simp_all add: kind_inv_def count_list_0_iff\<close>)
  then show ?thesis using inv by (simp add: kind_inv_def init_proc_clear_def kinds_def)
qed

lemma redirect_ok:
  assumes inv: "kind_inv winv (hold [out, inn] held) s" and c: "c < length (procs s)"
  shows "\<exists>s'. spawn_redirect vt c out inn s = Some s' \<and> kind_inv winv held s'"
proof -
  have fd: "1 < MAX_FDS" "0 < MAX_FDS" by (simp_all add: MAX_FDS_def)
  define ev where "ev = (if out \<noteq> None then fds (procs s ! c) ! 1 else None)"
  define s1 where "s1 = (if out \<noteq> None then set_slot c 1 out s else s)"
  define ev' where "ev' = (if inn \<noteq> None then fds (procs s1 ! c) ! 0 else None)"
  define s2 where "s2 = (if inn \<noteq> None then set_slot c 0 inn s1 else s1)"
  have swap: "kind_inv winv (hold [if f \<noteq> None then fds (procs t ! c) ! k else None] h)
      (if f \<noteq> None then set_slot c k f t else t)"
    if "kind_inv winv (hold [f] h) t" "c < length (procs t)" "k < MAX_FDS" for f h t k
    using slot_swap [OF that] that(1) by auto
  have two: "hold [a, b] h = hold [a] (hold [b] h)" for a b h by (rule hold_Cons)
  have "kind_inv winv (hold [ev] (hold [inn] held)) s1"
    unfolding ev_def s1_def by (rule swap) (use inv c fd in \<open>simp_all add: two [symmetric]\<close>)
  moreover have "c < length (procs s1)" using c by (simp add: s1_def)
  ultimately have "kind_inv winv (hold [ev'] (hold [ev] held)) s2"
    unfolding ev'_def s2_def by (intro swap fd) (simp_all add: hold_commute)
  then have "kind_inv winv (hold [ev, ev'] held) s2" by (simp add: two hold_commute)
  moreover have "spawn_redirect vt c out inn s = put_all vt [ev, ev'] s2"
    by (simp only: spawn_redirect_def Let_def ev_def s1_def ev'_def s2_def)
  ultimately show ?thesis using put_all_ok [of "[ev, ev']" held s2] by fastforce
qed

lemma inherit_ok:
  assumes inv: "kind_inv winv held s" and "parent < length (procs s)" and "child < length (procs s)"
  shows "\<exists>s'. spawn_inherit_stdio vt parent child s = Some s' \<and> kind_inv winv held s'"
proof -
  have v: "vfs_inv held s" using inv by (simp add: kind_inv_def)
  let ?inh = "take 3 (fds (procs s ! parent))"
  have len: "length (fds (procs s ! parent)) = MAX_FDS" "length (fds (procs s ! child)) = MAX_FDS"
    using vfs_invD(1) [OF v] assms(2,3) by blast+
  have "\<exists>fl. files s p = Some fl" if "Some p \<in> set ?inh" for p
    using table_live [OF v assms(2)] that by (meson in_set_takeD)
  from get_all_ok [OF inv this] obtain s1 where
    s1: "get_all ?inh s = Some s1" "kind_inv winv (hold ?inh held) s1" "procs s1 = procs s" by blast
  let ?tab = "fds (procs s ! child)"
  let ?ev = "map (\<lambda>fi. if ?inh ! fi \<noteq> None then ?tab ! fi else None) [0..<3]"
  let ?t = "s1\<lparr>procs := (procs s1)[child := (procs s1 ! child)\<lparr>fds := inherit_slots ?inh ?tab\<rparr>]\<rparr>"
  have "vfs_inv (hold ?ev held) ?t"
  proof (rule vfs_inv_swap)
    show "vfs_inv (hold ?inh held) s1" using s1(2) by (simp add: kind_inv_def)
    show "child < length (procs s1)" using assms(3) s1(3) by simp
    show "length (fds ((procs s1 ! child)\<lparr>fds := inherit_slots ?inh ?tab\<rparr>)) = MAX_FDS"
      using len by (simp add: inherit_slots_def)
    have "length ?inh = 3" using len by (simp add: MAX_FDS_def)
    then show "count_list (fds ((procs s1 ! child)\<lparr>fds := inherit_slots ?inh ?tab\<rparr>)) (Some p)
        + count_list ?ev (Some p)
        = count_list (fds (procs s1 ! child)) (Some p) + count_list ?inh (Some p)" for p
      using inherit_count [of ?inh ?tab p] len by (simp add: s1(3) MAX_FDS_def)
  qed
  then have "kind_inv winv (hold ?ev held) ?t" using s1(2) by (simp add: kind_inv_def kinds_def)
  from put_all_ok [OF this] s1 show ?thesis
    by (auto simp: spawn_inherit_stdio_def Let_def)
qed

end

text \<open>Every operations table whose release operations return is a file kind with no state of its own
  to keep.\<close>

definition releases :: "(nat \<Rightarrow> 'w file_ops) \<Rightarrow> bool" where
  "releases vt \<longleftrightarrow> (\<forall>fl w. run_release vt fl w \<noteq> None)"

lemma releases_kind: "releases vt \<Longrightarrow> file_kind vt (\<lambda>_ _. True)"
  by unfold_locales (auto simp: releases_def)

lemma kind_inv_trivial: "kind_inv (\<lambda>_ _. True) held s \<longleftrightarrow> vfs_inv held s"
  by (simp add: kind_inv_def)

text \<open>The tables with no operation at all (the self-tests' \<open>file_alloc(NULL, ...)\<close>).\<close>

definition no_ops :: "'w file_ops" where
  "no_ops = \<lparr>op_read = None, op_write = None, op_seek = None, op_size = None, op_ioctl = None,
     op_flush = None, op_release = None, op_poll = None, op_poll_wq = None\<rparr>"

interpretation bare: file_kind "\<lambda>_. no_ops" "\<lambda>_ _. True"
  by (rule releases_kind) (simp add: releases_def run_release_def no_ops_def split: option.splits)

section \<open>Descriptor operations as a transition system\<close>

text \<open>A configuration is a state with two ghost counts: \<open>held\<close>, the references kernel code holds, and \<open>lost\<close>,
  the references that were in a table when its slot was overwritten. The steps are the calls the kernel makes,
  each run to its end before the next (operations are serialised), by any process in any order. A fresh
  description comes from \<open>kmalloc\<close>; \<open>fork\<close> and \<open>init\<close> take a slot not in use, whatever is left in its
  table; \<open>drop_slot\<close> gives a slot back without looking at its table (the reaper after an exit, whose table is
  empty; a failing \<open>proc_create_user_as\<close> and the scheduler's kill of a process with a broken frame, whose
  table is not).\<close>

type_synonym 'w fd_conf = "(ptr \<Rightarrow> nat) \<times> (ptr \<Rightarrow> nat) \<times> 'w vfs"

definition running :: "nat option \<Rightarrow> 'w vfs \<Rightarrow> bool" where
  "running cur s \<longleftrightarrow> (\<forall>p. proc_of cur s = Some p \<longrightarrow> in_use p)"

definition slot_free :: "nat \<Rightarrow> 'w vfs \<Rightarrow> bool" where
  "slot_free j s \<longleftrightarrow> j < length (procs s) \<and> \<not> in_use (procs s ! j)"

definition slot_taken :: "nat \<Rightarrow> 'w vfs \<Rightarrow> bool" where
  "slot_taken j s \<longleftrightarrow> j < length (procs s) \<and> in_use (procs s ! j)"

inductive fd_step :: "(nat \<Rightarrow> 'w file_ops) \<Rightarrow> 'w fd_conf \<Rightarrow> 'w fd_conf \<Rightarrow> bool" for vt where
  alloc: "files s p = None \<Longrightarrow> file_alloc (Some p) ops priv flags s = (Some p, s') \<Longrightarrow>
    fd_step vt (held, lost, s) (hold [Some p] held, lost, s')"
| install: "running cur s \<Longrightarrow> fd_alloc_install_on cur (Some p) s = (fd, s') \<Longrightarrow> fd \<ge> 0 \<Longrightarrow>
    fd_step vt (hold [Some p] held, lost, s) (held, lost, s')"
| put: "file_put vt (Some p) s = Some (r, s') \<Longrightarrow>
    fd_step vt (hold [Some p] held, lost, s) (held, lost, s')"
| close: "running cur s \<Longrightarrow> fd_close_on vt cur fd s = Some (r, s') \<Longrightarrow>
    fd_step vt (held, lost, s) (held, lost, s')"
| dup: "running cur s \<Longrightarrow> fd_dup cur fd m s = Some (r, s') \<Longrightarrow>
    fd_step vt (held, lost, s) (held, lost, s')"
| dup2: "running cur s \<Longrightarrow> fd_dup2 vt cur fd fd' s = Some (r, s') \<Longrightarrow>
    fd_step vt (held, lost, s) (held, lost, s')"
| exit: "running cur s \<Longrightarrow> fd_close_all vt cur s = Some s' \<Longrightarrow>
    fd_step vt (held, lost, s) (held, lost, s')"
| exec: "running cur s \<Longrightarrow> fd_close_cloexec vt cur s = Some s' \<Longrightarrow>
    fd_step vt (held, lost, s) (held, lost, s')"
| setfd: "slot_taken i s \<Longrightarrow> fd_step vt (held, lost, s) (held, lost, set_cloexec i c s)"
| fork: "slot_taken i s \<Longrightarrow> slot_free j s \<Longrightarrow> proc_fork_fds room i j s = Some (r, s') \<Longrightarrow>
    fd_step vt (held, lost, s) (held, hold (fds (procs s ! j)) lost, s')"
| init: "slot_free j s \<Longrightarrow>
    fd_step vt (held, lost, s) (held, hold (fds (procs s ! j)) lost, init_proc_clear j s)"
| console: "slot_taken j s \<Longrightarrow> k < 3 \<Longrightarrow> fds (procs s ! j) ! k = None \<Longrightarrow>
    fd_step vt (hold [f] held, lost, s) (held, lost, init_proc_open j k f s)"
| spawn: "slot_taken i s \<Longrightarrow> slot_taken j s \<Longrightarrow> spawn_inherit_stdio vt i j s = Some s' \<Longrightarrow>
    fd_step vt (held, lost, s) (held, lost, s')"
| redirect: "slot_taken j s \<Longrightarrow> spawn_redirect vt j out inn s = Some s' \<Longrightarrow>
    fd_step vt (hold [out, inn] held, lost, s) (held, lost, s')"
| drop_slot: "slot_taken j s \<Longrightarrow> fd_step vt (held, lost, s) (held, lost, set_in_use j False s)"

inductive fd_reach :: "(nat \<Rightarrow> 'w file_ops) \<Rightarrow> 'w vfs \<Rightarrow> 'w fd_conf \<Rightarrow> bool" for vt s0 where
  start: "fd_reach vt s0 (\<lambda>_. 0, \<lambda>_. 0, s0)"
| step: "fd_reach vt s0 c \<Longrightarrow> fd_step vt c c' \<Longrightarrow> fd_reach vt s0 c'"

text \<open>At boot slot 0 holds the idle process and no descriptor is open.\<close>

definition fd_start :: "nat \<Rightarrow> 'w \<Rightarrow> 'w vfs" where
  "fd_start n w = \<lparr>files = Map.empty,
     procs = map (\<lambda>i. \<lparr>fds = replicate MAX_FDS None, fd_cloexec = 0, in_use = (i = 0)\<rparr>) [0..<n],
     world = w\<rparr>"

definition conf_inv :: "'w fd_conf \<Rightarrow> bool" where
  "conf_inv c = (case c of (held, lost, s) \<Rightarrow> vfs_inv (\<lambda>p. held p + lost p) s)"

lemma fd_start_inv: "vfs_inv (\<lambda>_. 0) (fd_start n w)"
proof (rule vfs_invI)
  have "sum_list (map (\<lambda>pr. count_list (fds pr) (Some p)) (procs (fd_start n w))) = 0" for p
    by (auto simp: fd_start_def count_list_0_iff)
  then show "refs (fd_start n w) p + 0 = 0" for p by (simp add: refs_def)
qed (auto simp: fd_start_def split: if_splits)

lemma alloc_ok:
  assumes "vfs_inv held s" and "files s p = None"
    and "file_alloc (Some p) ops priv flags s = (Some p, s')"
  shows "vfs_inv (hold [Some p] held) s'"
proof -
  have "refs s p + held p = 0" using vfs_invD(3) [OF assms(1), of p] assms(2) by fastforce
  then show ?thesis
    using assms(3)
    by (intro vfs_inv_upd [OF assms(1), of s' p "files s' p"]) (auto simp: file_alloc_def hold_def)
qed

lemma table_inv [simp]:
  assumes "i < length (procs s)" and "fds pr = fds (procs s ! i)"
  shows "vfs_inv held (s\<lparr>procs := (procs s)[i := pr]\<rparr>) = vfs_inv held s"
proof -
  have "refs (s\<lparr>procs := (procs s)[i := pr]\<rparr>) p = refs s p" for p
    using refs_set_table [OF assms(1), of pr p] assms(2) by simp
  moreover have "(\<forall>pr\<in>set ((procs s)[i := pr]). length (fds pr) = MAX_FDS) \<longleftrightarrow>
      (\<forall>pr\<in>set (procs s). length (fds pr) = MAX_FDS)"
    using assms by (auto simp: all_set_conv_all_nth nth_list_update)
  ultimately show ?thesis by (simp add: vfs_inv_def cong: option.case_cong)
qed

lemma open_ok:
  assumes inv: "vfs_inv (hold [f] held) s" and "j < length (procs s)" and "k < MAX_FDS"
    and "fds (procs s ! j) ! k = None"
  shows "vfs_inv held (init_proc_open j k f s)"
proof (cases f)
  case None
  then show ?thesis using inv by (simp add: init_proc_open_def)
next
  case (Some p)
  then show ?thesis
    using slot_swap [of "\<lambda>_ _. True" f held s j k, unfolded kind_inv_trivial] assms
    by (simp add: init_proc_open_def)
qed

lemma fd_step_inv:
  assumes "releases vt" and "fd_step vt c c'" and "conf_inv c"
  shows "conf_inv c'"
proof -
  note K = releases_kind [OF assms(1)]
  note ok = file_kind.close_ok [OF K, unfolded kind_inv_trivial]
    file_kind.dup_ok [OF K, unfolded kind_inv_trivial]
    file_kind.dup2_ok [OF K, unfolded kind_inv_trivial]
    file_kind.close_all_ok [OF K, unfolded kind_inv_trivial]
    file_kind.close_cloexec_ok [OF K, unfolded kind_inv_trivial]
    file_kind.put_ok [OF K, unfolded kind_inv_trivial]
    file_kind.fork_ok [OF K, unfolded kind_inv_trivial]
    file_kind.inherit_ok [OF K, unfolded kind_inv_trivial]
    file_kind.redirect_ok [OF K, unfolded kind_inv_trivial]
    file_kind.install_ok [OF K, unfolded kind_inv_trivial]
    file_kind.clear_ok [OF K, unfolded kind_inv_trivial]
  let ?h = "\<lambda>held lost p. held p + lost p :: nat"
  from assms(2,3) show ?thesis
  proof (cases rule: fd_step.cases)
    case (alloc s p ops priv flags s' held lost)
    then show ?thesis using alloc_ok assms(3) by (auto simp: conf_inv_def hold_add)
  next
    case (install cur s p fd s' held lost)
    then show ?thesis
      using ok(10) [of "Some p" "?h held lost" s cur fd s'] assms(3) by (simp add: conf_inv_def hold_add)
  next
    case (put p s r s' held lost)
    then show ?thesis using ok(6) [of "Some p" "?h held lost" s] assms(3) by (auto simp: conf_inv_def hold_add)
  next
    case (close cur s fd r s' held lost)
    then show ?thesis using ok(1) [of "?h held lost" s cur fd] assms(3) by (auto simp: conf_inv_def)
  next
    case (dup cur s fd m r s' held lost)
    then show ?thesis using ok(2) [of "?h held lost" s cur fd m] assms(3) by (auto simp: conf_inv_def)
  next
    case (dup2 cur s fd fd' r s' held lost)
    then show ?thesis using ok(3) [of "?h held lost" s cur fd fd'] assms(3) by (auto simp: conf_inv_def)
  next
    case (exit cur s s' held lost)
    then show ?thesis using ok(4) [of "?h held lost" s cur] assms(3) by (auto simp: conf_inv_def)
  next
    case (exec cur s s' held lost)
    then show ?thesis using ok(5) [of "?h held lost" s cur] assms(3) by (auto simp: conf_inv_def)
  next
    case (setfd i s held lost c)
    then show ?thesis
      using assms(3) by (simp add: conf_inv_def slot_taken_def set_cloexec_def)
  next
    case (fork i s j room r s' held lost)
    then show ?thesis
      using ok(7) [of "?h held lost" s i j room] assms(3)
      by (auto simp: conf_inv_def hold_add slot_taken_def slot_free_def)
  next
    case (init j s held lost)
    then show ?thesis
      using ok(11) [of "?h held lost" s j] assms(3) by (simp add: conf_inv_def hold_add slot_free_def)
  next
    case (console j s k f held lost)
    moreover have "k < MAX_FDS" using \<open>k < 3\<close> by (simp add: MAX_FDS_def)
    ultimately show ?thesis
      using open_ok [of f "?h held lost" s j k] assms(3) by (simp add: conf_inv_def hold_add slot_taken_def)
  next
    case (spawn i s j s' held lost)
    then show ?thesis
      using ok(8) [of "?h held lost" s i j] assms(3) by (auto simp: conf_inv_def slot_taken_def)
  next
    case (redirect j s out inn s' held lost)
    then show ?thesis
      using ok(9) [of out inn "?h held lost" s j] assms(3) by (auto simp: conf_inv_def hold_add slot_taken_def)
  next
    case (drop_slot j s held lost)
    then show ?thesis
      using assms(3) by (simp add: conf_inv_def slot_taken_def set_in_use_def)
  qed
qed

lemma fd_reach_inv:
  assumes "releases vt" and "fd_reach vt (fd_start n w) (held, lost, s)"
  shows "vfs_inv (\<lambda>p. held p + lost p) s"
proof -
  have "conf_inv c" if "fd_reach vt (fd_start n w) c" for c
    using that
  proof (induction rule: fd_reach.induct)
    case start
    then show ?case using fd_start_inv by (simp add: conf_inv_def)
  next
    case (step c c')
    then show ?case using fd_step_inv [OF assms(1)] by blast
  qed
  from this [OF assms(2)] show ?thesis by (simp add: conf_inv_def)
qed

section \<open>What the operations do to the tables\<close>

lemma file_put_procs: "file_put vt f s = Some (r, s') \<Longrightarrow> procs s' = procs s"
  by (auto simp: file_put_def Let_def split: option.splits if_splits)

lemma file_get_keeps: "file_get f s = Some s' \<Longrightarrow> procs s' = procs s"
  by (auto simp: file_get_def split: option.splits)

text \<open>A sweep clears exactly the slots its test selects, when the test only looks at the slot and the
  close-on-exec mask.\<close>

lemma sweep_table:
  fixes test :: "fd_proc \<Rightarrow> nat \<Rightarrow> bool"
  assumes "sweep vt test i is s = Some s'" and "distinct is" and "i < length (procs s)"
    and "set is \<subseteq> {..<length (fds (procs s ! i))}"
    and local: "\<And>p q k. fd_cloexec p = fd_cloexec q \<Longrightarrow> fds p ! k = fds q ! k \<Longrightarrow> test p k = test q k"
  shows "procs s' = (procs s)[i := (procs s ! i)\<lparr>fds :=
      map (\<lambda>k. if k \<in> set is \<and> test (procs s ! i) k then None else fds (procs s ! i) ! k)
        [0..<length (fds (procs s ! i))]\<rparr>]"
  using assms(1-4)
proof (induction "is" arbitrary: s)
  case Nil
  then show ?case by (simp add: map_nth)
next
  case (Cons fd rest)
  let ?p = "procs s ! i"
  define s0 where "s0 = (if test ?p fd then set_slot i fd None s else s)"
  obtain s1 where s1: "sweep_slot vt test i fd s = Some s1" "sweep vt test i rest s1 = Some s'"
    using Cons.prems(1) by (auto split: option.splits)
  have p1: "procs s1 = (procs s)[i := ?p\<lparr>fds := (fds ?p)[fd := if test ?p fd then None else fds ?p ! fd]\<rparr>]"
    using s1(1) Cons.prems(3)
    by (auto simp: sweep_slot_def set_slot_def dest!: file_put_procs split: if_splits)
  then have q: "procs s1 ! i = ?p\<lparr>fds := (fds ?p)[fd := if test ?p fd then None else fds ?p ! fd]\<rparr>"
    and len: "length (procs s1) = length (procs s)"
    using Cons.prems(3) by simp_all
  have t: "test (procs s1 ! i) k = test ?p k" if "k \<noteq> fd" for k
    using that by (intro local) (simp_all add: q)
  have IH: "procs s' = (procs s1)[i := (procs s1 ! i)\<lparr>fds :=
      map (\<lambda>k. if k \<in> set rest \<and> test (procs s1 ! i) k then None else fds (procs s1 ! i) ! k)
        [0..<length (fds (procs s1 ! i))]\<rparr>]"
    using Cons.prems s1(2) len by (intro Cons.IH) (simp_all add: q)
  have "(if k \<in> set rest \<and> test (procs s1 ! i) k then None else fds (procs s1 ! i) ! k)
      = (if k \<in> set (fd # rest) \<and> test ?p k then None else fds ?p ! k)"
    if "k < length (fds ?p)" for k
    using t [of k] that Cons.prems(2) by (cases "k = fd") (simp_all add: q)
  then have "map (\<lambda>k. if k \<in> set rest \<and> test (procs s1 ! i) k then None else fds (procs s1 ! i) ! k)
        [0..<length (fds (procs s1 ! i))]
      = map (\<lambda>k. if k \<in> set (fd # rest) \<and> test ?p k then None else fds ?p ! k)
        [0..<length (fds ?p)]"
    by (simp add: q)
  moreover have "(procs s1 ! i)\<lparr>fds := xs\<rparr> = ?p\<lparr>fds := xs\<rparr>" for xs by (simp add: q)
  ultimately show ?case unfolding IH by (simp add: p1)
qed

lemma table_all_cleared:
  "length (xs :: 'a option list) = n \<Longrightarrow> map (\<lambda>k. if k \<in> set [0..<n] \<and> True then None else xs ! k) [0..<n]
     = replicate n None"
  by (intro nth_equalityI) auto

lemma path_copy_run:
  assumes "k \<le> room" and "k \<le> src_max" and "k \<le> length src" and "room < length dst"
    and "\<And>j. j < k \<Longrightarrow> src ! j \<noteq> CHR 0x00"
    and "k = room \<or> k = src_max \<or> (k < length src \<and> src ! k = CHR 0x00)"
    and "n \<le> k"
  shows "path_copy (take n src @ drop n dst) room src src_max n = Some (k, take k src @ drop k dst)"
  using assms(7)
proof (induction "k - n" arbitrary: n)
  case 0
  then have "n = k" by simp
  then show ?case using assms(1-6) by (subst path_copy.simps) auto
next
  case (Suc d)
  then have n: "n < k" by simp
  have "(take n src @ drop n dst)[n := src ! n] = take (Suc n) src @ drop (Suc n) dst"
    using n assms(1-4)
    by (intro nth_equalityI) (auto simp: nth_append nth_list_update take_Suc_conv_app_nth less_Suc_eq)
  with Suc n assms(1-5) show ?case
    by (subst path_copy.simps) auto
qed

text \<open>The length of what is stored: up to the terminator, the source bound or the room.\<close>

definition stored_len :: "nat \<Rightarrow> string \<Rightarrow> nat \<Rightarrow> nat" where
  "stored_len cap src src_max = length (c_string (take (min (cap - 1) src_max) src))"

lemma stored_len_props:
  fixes cap src_max :: nat and src :: string
  defines "k \<equiv> stored_len cap src src_max"
  assumes "src_max \<le> length src \<or> CHR 0x00 \<in> set src"
  shows "k \<le> cap - 1" and "k \<le> src_max" and "k \<le> length src"
    and "\<And>j. j < k \<Longrightarrow> src ! j \<noteq> CHR 0x00"
    and "k = cap - 1 \<or> k = src_max \<or> (k < length src \<and> src ! k = CHR 0x00)"
proof -
  let ?b = "min (cap - 1) src_max" and ?P = "\<lambda>c. c \<noteq> CHR 0x00"
  have le: "k \<le> length (take ?b src)"
    unfolding k_def stored_len_def c_string_def by (rule length_takeWhile_le)
  then show "k \<le> cap - 1" "k \<le> src_max" "k \<le> length src" by auto
  show nz: "src ! j \<noteq> CHR 0x00" if "j < k" for j
  proof -
    have "takeWhile ?P (take ?b src) ! j = src ! j"
      using that le by (simp add: k_def stored_len_def c_string_def takeWhile_nth)
    then show ?thesis
      using that nth_mem [of j "takeWhile ?P (take ?b src)"]
      by (auto simp: k_def stored_len_def c_string_def dest: set_takeWhileD)
  qed
  show "k = cap - 1 \<or> k = src_max \<or> (k < length src \<and> src ! k = CHR 0x00)"
  proof (cases "k = length (take ?b src)")
    case False
    with le have "k < length (take ?b src)" by (rule le_neq_implies_less)
    moreover from this have "take ?b src ! k = CHR 0x00"
      using nth_length_takeWhile [of ?P "take ?b src"] by (simp add: k_def stored_len_def c_string_def)
    ultimately show ?thesis by simp
  next
    case True
    then show ?thesis
    proof (cases "?b \<le> length src")
      case False
      with True have "k = length src" by simp
      moreover have "CHR 0x00 \<in> set src" using False assms(2) by auto
      ultimately show ?thesis using nz by (metis in_set_conv_nth)
    qed auto
  qed
qed

lemma path_store_run:
  assumes "0 < cap" and "cap \<le> length d" and "0 < src_max"
    and "src_max \<le> length src \<or> CHR 0x00 \<in> set src"
  shows "stored_len cap src src_max < cap \<and>
    vfs_path_store_c (Some d) cap (Some src) src_max =
      Some (stored_len cap src src_max,
        Some (take (stored_len cap src src_max) src @ CHR 0x00 # drop (Suc (stored_len cap src src_max)) d))"
proof -
  let ?k = "stored_len cap src src_max"
  note k = stored_len_props [OF assms(4), where cap = cap]
  have "path_copy (take 0 src @ drop 0 d) (cap - 1) src src_max 0 = Some (?k, take ?k src @ drop ?k d)"
    using k assms(1,2) by (intro path_copy_run) auto
  moreover have "(take ?k src @ drop ?k d)[?k := CHR 0x00] = take ?k src @ CHR 0x00 # drop (Suc ?k) d"
    using k(1,3) assms(1,2) by (simp add: list_update_append Cons_nth_drop_Suc [symmetric])
  moreover have "?k < cap" using k(1) assms(1) by linarith
  moreover from this have "?k < length d" using assms(2) by linarith
  ultimately show ?thesis using k(3) assms by (simp add: vfs_path_store_c_def)
qed

text \<open>Recording a terminated path on a live description keeps references and kinds.\<close>

lemma set_path_ok:
  assumes inv: "kind_inv winv held s" and fl: "files s p = Some fl" and src: "CHR 0x00 \<in> set src"
  shows "\<exists>t. file_set_path (Some p) (Some src) s = Some t \<and> kind_inv winv held t \<and>
    procs t = procs s \<and> world t = world s \<and> kinds t = kinds s"
proof -
  let ?d = "replicate VFS_FPATH_MAX (CHR 0x00)"
  obtain n d where d: "vfs_path_store_c (Some ?d) VFS_FPATH_MAX (Some src) VFS_FPATH_MAX = Some (n, Some d)"
    using path_store_run [of VFS_FPATH_MAX ?d VFS_FPATH_MAX src] src by (auto simp: VFS_FPATH_MAX_def)
  let ?t = "s\<lparr>files := (files s)(p \<mapsto> fl\<lparr>path := c_string d\<rparr>)\<rparr>"
  have v: "vfs_inv held s" using inv by (simp add: kind_inv_def)
  have "vfs_inv held ?t"
    by (rule vfs_inv_upd [OF v, of _ p "Some (fl\<lparr>path := c_string d\<rparr>)"])
      (use vfs_invD(2) [OF v fl] in auto)
  moreover have k: "kinds ?t = kinds s" using fl by (auto simp: kinds_def)
  ultimately have "kind_inv winv held ?t" using inv by (simp add: kind_inv_def)
  moreover have "file_set_path (Some p) (Some src) s = Some ?t" using d fl by (simp add: file_set_path_def)
  ultimately show ?thesis using k by auto
qed

lemma alloc_kind:
  fixes flags :: u32
  assumes "vfs_inv held s" and "files s p = None"
    and "winv' ((kinds s)(p \<mapsto> (ops, priv))) (world s)"
  defines "t \<equiv> snd (file_alloc (Some p) ops priv flags s)"
  shows "file_alloc (Some p) ops priv flags s = (Some p, t)" and "kind_inv winv' (hold [Some p] held) t"
    and "procs t = procs s" and "world t = world s" and "kinds t = (kinds s)(p \<mapsto> (ops, priv))"
    and "\<exists>fl. files t p = Some fl" and "q \<noteq> p \<Longrightarrow> files t q = files s q"
proof -
  show a: "file_alloc (Some p) ops priv flags s = (Some p, t)" by (simp add: t_def file_alloc_def)
  show k: "kinds t = (kinds s)(p \<mapsto> (ops, priv))" "world t = world s" "procs t = procs s"
    "\<exists>fl. files t p = Some fl" "q \<noteq> p \<Longrightarrow> files t q = files s q"
    by (auto simp: t_def file_alloc_def kinds_def)
  show "kind_inv winv' (hold [Some p] held) t"
    using alloc_ok [OF assms(1,2) a] assms(3) k by (simp add: kind_inv_def)
qed

text \<open>What \<open>fd_alloc_install\<close> does to the table as \<open>fd_get\<close> sees it.\<close>

lemma install_slot:
  assumes "vfs_inv held s" and "fd_alloc_install_on cur f s = (fd, s')" and "fd \<ge> 0"
  shows "fd_get cur fd s' = f" and "fd_get cur fd s = None"
    and "fd' \<noteq> fd \<Longrightarrow> fd_get cur fd' s' = fd_get cur fd' s"
    and "files s' = files s" and "world s' = world s"
proof -
  have "fd_get cur fd s' = f \<and> fd_get cur fd s = None \<and>
      (fd' \<noteq> fd \<longrightarrow> fd_get cur fd' s' = fd_get cur fd' s) \<and> files s' = files s \<and> world s' = world s"
  proof (rule proc_of_cases [of cur s])
    assume "proc_of cur s = None"
    then show ?thesis using assms(2,3) by (auto simp: fd_alloc_install_on_def)
  next
    fix i assume i: "cur = Some i" "i < length (procs s)" "proc_of cur s = Some (procs s ! i)"
    have len: "length (fds (procs s ! i)) = MAX_FDS" by (rule vfs_invD(1) [OF assms(1) i(2)])
    then show ?thesis
    proof (cases rule: fd_alloc_locked_cases [of _ 3])
      case full
      then show ?thesis using assms(2,3) i by (simp add: fd_alloc_install_on_def Let_def)
    next
      case (slot k)
      then have s': "fd = int k" "s' = set_slot i k f s"
        using assms(2) i by (simp_all add: fd_alloc_install_on_def Let_def)
      have pr: "proc_of cur s' = Some ((procs s ! i)\<lparr>fds := (fds (procs s ! i))[k := f]\<rparr>)"
        using i by (simp add: s' proc_of_def set_slot_def)
      have "nat fd' \<noteq> k" if "fd' \<noteq> fd" "\<not> bad_fd fd'"
        using that s'(1) by (auto simp: bad_fd_def)
      then show ?thesis
        using slot(2,4) len s' pr i(3) by (auto simp: fd_get_def bad_fd_def)
    qed
  qed
  then show "fd_get cur fd s' = f" and "fd_get cur fd s = None"
    and "fd' \<noteq> fd \<Longrightarrow> fd_get cur fd' s' = fd_get cur fd' s"
    and "files s' = files s" and "world s' = world s" by blast+
qed

section \<open>Lookups, and what a step does to a description that stays\<close>

lemma get_live:
  assumes "vfs_inv held s" and "fd_get cur fd s = Some p"
  shows "files s p \<noteq> None"
proof (rule proc_of_cases [of cur s])
  fix i assume i: "cur = Some i" "i < length (procs s)" "proc_of cur s = Some (procs s ! i)"
  with assms(2) have "nat fd < MAX_FDS" "fds (procs s ! i) ! nat fd = Some p"
    by (auto simp: fd_get_def bad_fd_def split: if_splits)
  from slot_live [OF assms(1) i(2) this] show ?thesis by auto
qed (use assms(2) in \<open>simp add: fd_get_def\<close>)

text \<open>No operation but \<open>file_alloc\<close> makes a description live, and none changes its operations table or its private
  data: \<open>kinds\<close> only shrinks.\<close>

definition shrinks :: "'w vfs \<Rightarrow> 'w vfs \<Rightarrow> bool" where
  "shrinks s s' \<longleftrightarrow> kinds s' \<subseteq>\<^sub>m kinds s"

lemma shrinks_refl [simp]: "shrinks s s"
  and shrinks_frame [simp]: "kinds t = kinds s \<Longrightarrow> shrinks s t"
  and shrinks_trans: "shrinks s t \<Longrightarrow> shrinks t u \<Longrightarrow> shrinks s u"
  by (auto simp: shrinks_def intro: map_le_trans)

lemma kinds_procs [simp]: "kinds (s\<lparr>procs := ps\<rparr>) = kinds s" "kinds (set_in_use i b s) = kinds s"
  by (simp_all add: kinds_def set_in_use_def)

lemma shrinks_procs [simp]:
  "shrinks (s\<lparr>procs := ps\<rparr>) t = shrinks s t" "shrinks s (t\<lparr>procs := ps\<rparr>) = shrinks s t"
  "shrinks (set_slot i fd f s) t = shrinks s t" "shrinks s (set_slot i fd f t) = shrinks s t"
  "shrinks (set_cloexec i c s) t = shrinks s t" "shrinks s (set_cloexec i c t) = shrinks s t"
  "shrinks s (set_in_use i b t) = shrinks s t"
  by (simp_all add: shrinks_def)

lemma file_get_shrinks: "file_get f s = Some t \<Longrightarrow> shrinks s t"
  by (auto simp: file_get_def kinds_def shrinks_def map_le_def split: option.splits if_splits)

lemma file_put_shrinks: "file_put vt f s = Some (r, t) \<Longrightarrow> shrinks s t"
  by (auto simp: file_put_def kinds_def shrinks_def map_le_def Let_def split: option.splits if_splits)

lemma get_all_shrinks: "get_all fs s = Some t \<Longrightarrow> shrinks s t"
  by (induction fs arbitrary: s)
    (auto split: option.splits dest!: file_get_shrinks intro: shrinks_trans)

lemma put_all_shrinks: "put_all vt fs s = Some t \<Longrightarrow> shrinks s t"
  by (induction fs arbitrary: s)
    (auto split: option.splits dest!: file_put_shrinks intro: shrinks_trans)

lemma sweep_shrinks: "sweep vt test i is s = Some t \<Longrightarrow> shrinks s t"
proof (induction "is" arbitrary: s)
  case (Cons fd rest)
  then obtain u where u: "sweep_slot vt test i fd s = Some u" "sweep vt test i rest u = Some t"
    by (auto split: option.splits)
  have "shrinks s u"
    using u(1) by (auto simp: sweep_slot_def dest!: file_put_shrinks split: if_splits)
  then show ?case using Cons.IH [OF u(2)] by (rule shrinks_trans)
qed simp

lemmas shrink_steps = file_get_shrinks file_put_shrinks get_all_shrinks put_all_shrinks sweep_shrinks

lemma op_shrinks:
  "fd_alloc_install_on cur f s = (fd, t) \<Longrightarrow> shrinks s t"
  "fd_close_on vt cur fd s = Some (r, t) \<Longrightarrow> shrinks s t"
  "fd_dup cur fd m s = Some (r, t) \<Longrightarrow> shrinks s t"
  "fd_close_all vt cur s = Some t \<Longrightarrow> shrinks s t"
  "fd_close_cloexec vt cur s = Some t \<Longrightarrow> shrinks s t"
  "proc_fork_fds room i j s = Some (r, t) \<Longrightarrow> shrinks s t"
  "shrinks s (init_proc_clear j s)" "shrinks s (init_proc_open j k f s)"
  by (auto simp: fd_alloc_install_on_def fd_close_on_def fd_dup_def fd_close_all_def fd_close_cloexec_def
      proc_fork_fds_def init_proc_clear_def init_proc_open_def Let_def
      dest!: shrink_steps split: option.splits if_splits)

lemma dup2_shrinks: "fd_dup2 vt cur fd fd' s = Some (r, t) \<Longrightarrow> shrinks s t"
  by (auto simp: fd_dup2_def Let_def dest!: shrink_steps intro: shrinks_trans split: option.splits if_splits)

lemma spawn_shrinks:
  "spawn_inherit_stdio vt i j s = Some t \<Longrightarrow> shrinks s t"
  "spawn_redirect vt j out inn s = Some t \<Longrightarrow> shrinks s t"
  by (auto simp: spawn_inherit_stdio_def spawn_redirect_def Let_def simp del: put_all.simps
      dest!: shrink_steps intro: shrinks_trans split: option.splits if_splits)

lemma fd_step_kinds:
  assumes "fd_step vt c d" and "kinds (snd (snd c)) p \<noteq> None" and "kinds (snd (snd d)) p \<noteq> None"
  shows "kinds (snd (snd d)) p = kinds (snd (snd c)) p"
proof -
  have "shrinks (snd (snd c)) (snd (snd d)) \<or>
      (\<exists>q k. files (snd (snd c)) q = None \<and> kinds (snd (snd d)) = (kinds (snd (snd c)))(q \<mapsto> k))"
    using assms(1)
    by cases (auto simp: file_alloc_def kinds_def fun_eq_iff
        dest: op_shrinks(1-6) dup2_shrinks spawn_shrinks file_put_shrinks intro: op_shrinks(7,8))
  then show ?thesis
  proof
    assume "shrinks (snd (snd c)) (snd (snd d))"
    then show ?thesis using assms(3) by (auto simp: shrinks_def map_le_def dom_def)
  next
    assume "\<exists>q k. files (snd (snd c)) q = None \<and> kinds (snd (snd d)) = (kinds (snd (snd c)))(q \<mapsto> k)"
    then obtain q k where q: "files (snd (snd c)) q = None"
      "kinds (snd (snd d)) = (kinds (snd (snd c)))(q \<mapsto> k)" by blast
    have "q \<noteq> p" using q(1) assms(2) by (auto simp: kinds_def)
    then show ?thesis by (simp add: q(2))
  qed
qed

text \<open>Closing the only name of a description frees it; using a pointer to it afterwards is undefined.\<close>

lemma read_freed: "files s p = None \<Longrightarrow> file_read vt (Some p) count s = None"
  by (simp add: file_read_def dispatch_def)

lemma close_frees:
  assumes "releases vt" and "vfs_inv held s" and "fd_get (Some i) fd s = Some p"
  shows "refcount (the (files s p)) = 1 \<longrightarrow>
    (\<exists>r t. fd_close_on vt (Some i) fd s = Some (r, t) \<and> files t p = None)"
proof (rule impI, rule proc_of_cases [of "Some i" s])
  fix k assume one: "refcount (the (files s p)) = 1"
    and k: "Some i = Some k" "k < length (procs s)" "proc_of (Some i) s = Some (procs s ! k)"
  obtain fl where fl: "files s p = Some fl" using get_live [OF assms(2,3)] by blast
  let ?fl = "fl\<lparr>refcount := refcount fl - 1\<rparr>"
  obtain rc w where "run_release vt ?fl (world s) = Some (rc, w)"
    using assms(1) unfolding releases_def by fastforce
  moreover have "\<not> bad_fd fd" "fds (procs s ! k) ! nat fd = Some p"
    using assms(3) k by (auto simp: fd_get_def split: if_splits)
  ultimately show "\<exists>r t. fd_close_on vt (Some i) fd s = Some (r, t) \<and> files t p = None"
    using k one fl by (simp add: fd_close_on_def file_put_def Let_def)
qed (use assms(3) in \<open>simp add: fd_get_def\<close>)

section \<open>Leaked references\<close>

definition used_refs :: "'w vfs \<Rightarrow> ptr \<Rightarrow> nat" where
  "used_refs s p = sum_list (map (\<lambda>pr. if in_use pr then count_list (fds pr) (Some p) else 0) (procs s))"

definition stale_refs :: "'w vfs \<Rightarrow> ptr \<Rightarrow> nat" where
  "stale_refs s p = sum_list (map (\<lambda>pr. if in_use pr then 0 else count_list (fds pr) (Some p)) (procs s))"

lemma refs_split: "refs s p = used_refs s p + stale_refs s p"
  unfolding refs_def used_refs_def stale_refs_def sum_list_addf [symmetric]
  by (rule arg_cong [where f = sum_list]) auto

text \<open>An operation of a running process changes tables of slots in use only.\<close>

definition same_stale :: "'w vfs \<Rightarrow> 'w vfs \<Rightarrow> bool" where
  "same_stale s t \<longleftrightarrow>
     map (\<lambda>pr. if in_use pr then None else Some (fds pr)) (procs t)
       = map (\<lambda>pr. if in_use pr then None else Some (fds pr)) (procs s)"

lemma same_stale_procs: "procs t = procs s \<Longrightarrow> same_stale s t"
  and same_stale_trans: "same_stale s t \<Longrightarrow> same_stale t u \<Longrightarrow> same_stale s u"
  by (simp_all add: same_stale_def)

lemma same_staleD:
  assumes "same_stale s t"
  shows "stale_refs t p = stale_refs s p" and "slot_taken i t = slot_taken i s"
proof -
  let ?f = "\<lambda>pr. if in_use pr then None else Some (fds pr)"
    and ?g = "\<lambda>x. case x of None \<Rightarrow> 0 | Some fs \<Rightarrow> count_list fs (Some p)"
  have "stale_refs u p = sum_list (map ?g (map ?f (procs u)))" for u :: "'a vfs"
    unfolding stale_refs_def map_map by (intro arg_cong [where f = sum_list] map_cong) auto
  moreover have eq: "map ?f (procs t) = map ?f (procs s)" using assms unfolding same_stale_def .
  ultimately show "stale_refs t p = stale_refs s p" by presburger
  have "length (procs t) = length (procs s)" using arg_cong [OF eq, of length] by simp
  moreover have "?f (procs t ! i) = ?f (procs s ! i)" if "i < length (procs s)"
    using arg_cong [OF eq, of "\<lambda>xs. xs ! i"] that calculation by simp
  ultimately show "slot_taken i t = slot_taken i s"
    by (cases "in_use (procs t ! i)"; cases "in_use (procs s ! i)") (auto simp: slot_taken_def)
qed

lemma same_stale_update:
  assumes "slot_taken i s" and "in_use pr"
  shows "same_stale s (s\<lparr>procs := (procs s)[i := pr]\<rparr>)"
proof -
  let ?f = "\<lambda>pr. if in_use pr then None else Some (fds pr)"
  have "?f pr = ?f (procs s ! i)" using assms by (simp add: slot_taken_def)
  then have "(map ?f (procs s))[i := ?f pr] = map ?f (procs s)"
    using assms(1) by (intro list_update_same_conv [THEN iffD2]) (auto simp: slot_taken_def)
  then have "map ?f ((procs s)[i := pr]) = map ?f (procs s)" by (simp only: map_update)
  then show ?thesis by (simp add: same_stale_def)
qed

lemma same_stale_slot:
  assumes "slot_taken i s"
  shows "same_stale s (set_slot i fd f s)" and "same_stale s (set_cloexec i c s)"
  unfolding set_slot_def set_cloexec_def
  by (intro same_stale_update; use assms in \<open>simp add: slot_taken_def\<close>)+

lemma get_all_keeps: "get_all fs s = Some t \<Longrightarrow> procs t = procs s"
  by (induction fs arbitrary: s) (auto dest!: file_get_keeps split: option.splits)

lemma put_all_keeps: "put_all vt fs s = Some t \<Longrightarrow> procs t = procs s"
  by (induction fs arbitrary: s) (auto dest!: file_put_procs split: option.splits)

lemma running_taken: "running (Some i) s \<Longrightarrow> proc_of (Some i) s = Some pr \<Longrightarrow> slot_taken i s"
  by (auto simp: running_def proc_of_def slot_taken_def split: if_splits)

lemma sweep_stale:
  "sweep vt test i is s = Some t \<Longrightarrow> slot_taken i s \<Longrightarrow> same_stale s t"
proof (induction "is" arbitrary: s)
  case Nil
  then show ?case by (simp add: same_stale_def)
next
  case (Cons fd rest)
  then obtain u where u: "sweep_slot vt test i fd s = Some u" "sweep vt test i rest u = Some t"
    by (auto split: option.splits)
  have "same_stale s u"
    using u(1) same_stale_slot(1) [OF Cons.prems(2), of fd None]
    by (auto simp: sweep_slot_def intro: same_stale_procs same_stale_trans dest!: file_put_procs split: if_splits)
  then show ?case
    using Cons.IH [OF u(2)] Cons.prems(2) same_staleD(2) same_stale_trans by blast
qed

lemma install_stale:
  assumes "running cur s" and "fd_alloc_install_on cur f s = (fd, t)"
  shows "same_stale s t"
proof (rule proc_of_cases [of cur s])
  fix i assume i: "cur = Some i" "proc_of cur s = Some (procs s ! i)"
  with assms have "slot_taken i s" using running_taken by blast
  then show ?thesis
    using assms(2) i same_stale_slot(1) by (auto simp: fd_alloc_install_on_def Let_def same_stale_procs)
qed (use assms(2) in \<open>auto simp: fd_alloc_install_on_def same_stale_procs\<close>)

lemma slot_step_stale:
  assumes "slot_taken i s" and "procs u = procs (set_cloexec i c (set_slot i fd f s))"
  shows "same_stale s u"
  using same_stale_slot(1) [OF assms(1), of fd f] same_stale_slot(2) [of i "set_slot i fd f s" c]
    same_staleD(2) [OF same_stale_slot(1) [OF assms(1)]] assms
  by (meson same_stale_procs same_stale_trans)

text \<open>The two sweeping operations and the three that change one slot.\<close>

lemma op_stale:
  assumes "running cur s"
  shows "fd_close_on vt cur fd s = Some (r, t) \<Longrightarrow> same_stale s t"
    and "fd_dup cur fd m s = Some (r, t) \<Longrightarrow> same_stale s t"
    and "fd_dup2 vt cur fd fd' s = Some (r, t) \<Longrightarrow> same_stale s t"
    and "fd_close_all vt cur s = Some t \<Longrightarrow> same_stale s t"
    and "fd_close_cloexec vt cur s = Some t \<Longrightarrow> same_stale s t"
proof -
  have taken: "slot_taken (the cur) s" if "proc_of cur s = Some pr" for pr
    using that assms running_taken by (cases cur) (auto simp: proc_of_def)
  show "same_stale s t" if "fd_close_on vt cur fd s = Some (r, t)"
    using that slot_step_stale taken
    by (auto simp: fd_close_on_def same_stale_procs dest!: file_put_procs split: option.splits if_splits)
  have cx: "procs (set_cloexec i c (set_slot i k f u)) = procs (set_cloexec i c (set_slot i k f s))"
    if "procs u = procs s" for i c k f u
    using that by (simp add: set_cloexec_def set_slot_def)
  show "same_stale s t" if "fd_dup cur fd m s = Some (r, t)"
    using that slot_step_stale [OF taken cx]
    by (auto simp: fd_dup_def Let_def same_stale_procs dest!: file_get_keeps split: option.splits if_splits)
  show "same_stale s t" if run: "fd_dup2 vt cur fd fd' s = Some (r, t)"
  proof (cases "procs t = procs s")
    case False
    then obtain pr f u where "proc_of cur s = Some pr" and u: "file_get (Some f) s = Some u"
      and t: "procs t = procs (set_cloexec (the cur) (fd_cloexec pr AND NOT (fd_bit (nat fd')))
         (set_slot (the cur) (nat fd') (Some f) u))"
      using run by (auto simp: fd_dup2_def Let_def dest!: file_put_procs split: option.splits if_splits)
    then show ?thesis using slot_step_stale [OF taken trans [OF t cx [OF file_get_keeps [OF u]]]] by blast
  qed (rule same_stale_procs)
  have sw: "same_stale s (set_cloexec (the cur) 0 u)"
    if "proc_of cur s = Some pr" "sweep vt test (the cur) is s = Some u" for pr test "is" u
  proof -
    have "same_stale s u" by (rule sweep_stale [OF that(2) taken [OF that(1)]])
    moreover from this have "slot_taken (the cur) u" using taken [OF that(1)] same_staleD(2) by blast
    ultimately show ?thesis using same_stale_slot(2) same_stale_trans by blast
  qed
  show "same_stale s t" if "fd_close_all vt cur s = Some t"
    using that sw by (auto simp: fd_close_all_def same_stale_procs split: option.splits)
  show "same_stale s t" if "fd_close_cloexec vt cur s = Some t"
    using that sw by (auto simp: fd_close_cloexec_def same_stale_procs split: option.splits)
qed

lemma spawn_stale:
  assumes "slot_taken j s"
  shows "spawn_inherit_stdio vt i j s = Some t \<Longrightarrow> same_stale s t"
    and "spawn_redirect vt j out inn s = Some t \<Longrightarrow> same_stale s t"
    and "same_stale s (init_proc_open j k f s)"
proof -
  show "same_stale s t" if run: "spawn_inherit_stdio vt i j s = Some t"
  proof -
    obtain u where u: "get_all (take 3 (fds (procs s ! i))) s = Some u"
      using run by (cases "get_all (take 3 (fds (procs s ! i))) s") (simp_all add: spawn_inherit_stdio_def)
    let ?pr = "(procs u ! j)\<lparr>fds := inherit_slots (take 3 (fds (procs s ! i))) (fds (procs u ! j))\<rparr>"
    have "procs t = (procs u)[j := ?pr]"
      using put_all_keeps run u by (fastforce simp: spawn_inherit_stdio_def Let_def simp del: put_all.simps)
    moreover have "same_stale s (s\<lparr>procs := (procs s)[j := ?pr]\<rparr>)"
      by (rule same_stale_update [OF assms]) (use assms get_all_keeps [OF u] in \<open>simp add: slot_taken_def\<close>)
    ultimately show ?thesis using get_all_keeps [OF u] by (simp add: same_stale_def)
  qed
  have slot: "same_stale s (if P then set_slot j k f s else s)"
    "slot_taken j (if P then set_slot j k f s else s)" for P k f
    using assms same_stale_slot(1) [OF assms, of k f] same_staleD(2) [OF same_stale_slot(1) [OF assms]]
    by (auto simp: same_stale_procs)
  show "same_stale s (init_proc_open j k f s)" using slot by (simp add: init_proc_open_def)
  show "same_stale s t" if "spawn_redirect vt j out inn s = Some t"
  proof -
    let ?s1 = "if out \<noteq> None then set_slot j 1 out s else s"
    let ?s2 = "if inn \<noteq> None then set_slot j 0 inn ?s1 else ?s1"
    have "procs t = procs ?s2"
      using that unfolding spawn_redirect_def Let_def by (rule put_all_keeps)
    moreover have "same_stale ?s1 ?s2"
      using same_stale_slot(1) [OF slot(2)] by (simp add: same_stale_procs)
    ultimately show ?thesis using slot(1) same_stale_procs same_stale_trans by blast
  qed
qed

text \<open>What changes a slot's occupation moves names between the three counts.\<close>

lemma stale_refs_update:
  assumes "j < length (procs s)"
  shows "stale_refs (s\<lparr>procs := (procs s)[j := pr]\<rparr>) p
        + (if in_use (procs s ! j) then 0 else count_list (fds (procs s ! j)) (Some p))
      = stale_refs s p + (if in_use pr then 0 else count_list (fds pr) (Some p))"
  using sum_list_map_update [OF assms, of "\<lambda>pr. if in_use pr then 0 else count_list (fds pr) (Some p)" pr]
  by (simp add: stale_refs_def)

lemma fork_stale:
  assumes "proc_fork_fds room i j s = Some (r, t)" and "slot_free j s" and "slot_taken i s"
  shows "r = (if room then 0 else -1)"
    and "stale_refs t p + count_list (fds (procs s ! j)) (Some p)
      = stale_refs s p + (if room then 0 else count_list (fds (procs s ! i)) (Some p))"
proof -
  let ?pr = "if room then procs s ! i else (procs s ! i)\<lparr>in_use := False\<rparr>"
  show r: "r = (if room then 0 else -1)"
    using assms(1) by (auto simp: proc_fork_fds_def split: option.splits if_splits)
  have "procs t = (procs s)[j := ?pr]"
    using assms by (auto simp: proc_fork_fds_def set_in_use_def slot_free_def
        dest!: get_all_keeps split: option.splits if_splits)
  then have "stale_refs t p = stale_refs (s\<lparr>procs := (procs s)[j := ?pr]\<rparr>) p" by (simp add: stale_refs_def)
  then show "stale_refs t p + count_list (fds (procs s ! j)) (Some p)
      = stale_refs s p + (if room then 0 else count_list (fds (procs s ! i)) (Some p))"
    using stale_refs_update [of j s ?pr p] assms(2,3) by (simp add: slot_free_def slot_taken_def)
qed

text \<open>A leaked reference stays leaked.\<close>

lemma fd_step_leaks:
  assumes "fd_step vt (held, lost, s) (held', lost', s')"
  shows "stale_refs s p + lost p \<le> stale_refs s' p + lost' p"
  using assms
proof (cases rule: fd_step.cases)
  case (alloc p' ops priv flags)
  then have "procs s' = procs s" by (auto simp: file_alloc_def)
  then show ?thesis using alloc by (simp add: stale_refs_def)
next
  case (put p' r)
  then show ?thesis by (auto simp: stale_refs_def dest!: file_put_procs)
next
  case (setfd i c)
  then show ?thesis using same_staleD(1) [OF same_stale_slot(2) [of i s c]] by simp
next
  case (fork i j room r)
  then show ?thesis using fork_stale(2) [of room i j s r s' p] by (simp add: hold_def)
next
  case (init j)
  then show ?thesis
    using stale_refs_update [of j s "\<lparr>fds = replicate MAX_FDS None, fd_cloexec = 0, in_use = True\<rparr>" p]
    by (simp add: init_proc_clear_def slot_free_def hold_def)
next
  case (drop_slot j)
  then show ?thesis
    using stale_refs_update [of j s "(procs s ! j)\<lparr>in_use := False\<rparr>" p]
    by (simp add: set_in_use_def slot_taken_def)
next
  case (install cur p' fd)
  then show ?thesis using same_staleD(1) [OF install_stale, of cur s "Some p'" fd s' p] by simp
next
  case (close cur fd r)
  then show ?thesis using same_staleD(1) [OF op_stale(1), of cur s vt fd r s' p] by simp
next
  case (dup cur fd m r)
  then show ?thesis using same_staleD(1) [OF op_stale(2), of cur s fd m r s' p] by simp
next
  case (dup2 cur fd fd' r)
  then show ?thesis using same_staleD(1) [OF op_stale(3), of cur s vt fd fd' r s' p] by simp
next
  case (exit cur)
  then show ?thesis using same_staleD(1) [OF op_stale(4), of cur s vt s' p] by simp
next
  case (exec cur)
  then show ?thesis using same_staleD(1) [OF op_stale(5), of cur s vt s' p] by simp
next
  case (console j k f)
  then show ?thesis using same_staleD(1) [OF spawn_stale(3), of j s k f p] by simp
next
  case (spawn i j)
  then show ?thesis using same_staleD(1) [OF spawn_stale(1), of j s vt i s' p] by simp
next
  case (redirect j out inn)
  then show ?thesis using same_staleD(1) [OF spawn_stale(2), of j s vt out inn s' p] by simp
qed

lemma fd_steps_leak:
  assumes "rtranclp (fd_step vt) (held, lost, s) (held', lost', s')"
  shows "stale_refs s p + lost p \<le> stale_refs s' p + lost' p"
proof -
  have "stale_refs s p + lost p \<le> (case c of (_, l, t) \<Rightarrow> stale_refs t p + l p)"
    if "rtranclp (fd_step vt) (held, lost, s) c" for c
    using that
    by (induction rule: rtranclp_induct) (auto dest!: fd_step_leaks [where p = p] split: prod.splits)
  from this [OF assms] show ?thesis by simp
qed

section \<open>Racing reference counts\<close>

text \<open>\<open>f->refcount--\<close> and \<open>f->refcount++\<close> are not atomic: each is a load and a later store of the changed value
  (the test and the release follow the store). Run without interruption the two halves are \<open>file_put\<close> and
  \<open>file_get\<close>.\<close>

definition refcount_load :: "ptr \<Rightarrow> 'w vfs \<Rightarrow> int option" where
  "refcount_load p s = map_option refcount (files s p)"

definition set_refcount :: "ptr \<Rightarrow> int \<Rightarrow> 'w vfs \<Rightarrow> 'w vfs" where
  "set_refcount p v s = s\<lparr>files := (files s)(p := map_option (\<lambda>fl. fl\<lparr>refcount := v\<rparr>) (files s p))\<rparr>"

definition put_store :: "(nat \<Rightarrow> 'w file_ops) \<Rightarrow> ptr \<Rightarrow> int \<Rightarrow> 'w vfs \<Rightarrow> ('w, int) vfs_result" where
  "put_store vt p v s = file_put vt (Some p) (set_refcount p v s)"

definition get_store :: "ptr \<Rightarrow> int \<Rightarrow> 'w vfs \<Rightarrow> 'w vfs option" where
  "get_store p v s = file_get (Some p) (set_refcount p v s)"

lemma refcount_halves:
  "file_put vt (Some p) s = Option.bind (refcount_load p s) (\<lambda>v. put_store vt p v s)"
  "file_get (Some p) s = Option.bind (refcount_load p s) (\<lambda>v. get_store p v s)"
proof -
  have "set_refcount p (refcount fl) s = s" if "files s p = Some fl" for fl
  proof -
    have "(files s)(p \<mapsto> fl) = files s" using that by (intro fun_upd_idem)
    then show ?thesis using that by (simp add: set_refcount_def)
  qed
  then show "file_put vt (Some p) s = Option.bind (refcount_load p s) (\<lambda>v. put_store vt p v s)"
    "file_get (Some p) s = Option.bind (refcount_load p s) (\<lambda>v. get_store p v s)"
    by (cases "files s p"; simp add: refcount_load_def put_store_def get_store_def;
        simp add: file_put_def file_get_def)+
qed

text \<open>Two cores put the last two references of a description. When both load before either stores, one
  decrement is lost: the count stays 1 with no name left, and the description is never freed.\<close>

lemma racing_puts_leak:
  assumes "files s p = Some fl" and "refcount fl = 2"
  shows "refcount_load p s = Some 2 \<and>
    (\<exists>s1 s2. put_store vt p 2 s = Some (0, s1) \<and> put_store vt p 2 s1 = Some (0, s2) \<and>
       files s2 p = Some (fl\<lparr>refcount := 1\<rparr>))"
  using assms by (simp add: refcount_load_def put_store_def set_refcount_def file_put_def Let_def)

text \<open>Two forks on two cores take a reference to the same description at once: one increment is lost, and the
  description is freed while a name is left.\<close>

lemma racing_gets_undercount:
  assumes "files s p = Some fl" and "refcount fl = n"
  shows "refcount_load p s = Some n \<and>
    (\<exists>s1 s2. get_store p n s = Some s1 \<and> get_store p n s1 = Some s2 \<and>
       files s2 p = Some (fl\<lparr>refcount := n + 1\<rparr>))"
  using assms by (simp add: refcount_load_def get_store_def set_refcount_def file_get_def)

section \<open>Properties\<close>

definition demo_ptr_vfs :: "unit vfs" where
  "demo_ptr_vfs = (fd_start 2 ())\<lparr>
     files := [7 \<mapsto> \<lparr>f_ops = None, f_priv = 0, f_flags = 0, refcount = 1, path = []\<rparr>],
     procs := [\<lparr>fds = (replicate MAX_FDS None)[3 := Some 7], fd_cloexec = 8, in_use = True\<rparr>,
               \<lparr>fds = replicate MAX_FDS None, fd_cloexec = 0, in_use = False\<rparr>]\<rparr>"

lemma fd_start_2: "procs (fd_start 2 w) =
    [\<lparr>fds = replicate MAX_FDS None, fd_cloexec = 0, in_use = True\<rparr>,
     \<lparr>fds = replicate MAX_FDS None, fd_cloexec = 0, in_use = False\<rparr>]"
  by (simp add: fd_start_def upt_rec)

lemma demo_vfs_reach: "fd_reach (\<lambda>_. no_ops) (fd_start 2 ()) (\<lambda>_. 0, \<lambda>_. 0, demo_ptr_vfs)"
proof -
  let ?vt = "\<lambda>_ :: nat. no_ops :: unit file_ops" and ?s0 = "fd_start 2 ()"
  let ?s1 = "snd (file_alloc (Some 7) None 0 0 ?s0)"
  let ?s2 = "snd (fd_alloc_install_on (Some 0) (Some 7) ?s1)"
  have p1: "procs ?s1 = procs ?s0" by (simp add: file_alloc_def)
  have "fd_step ?vt (\<lambda>_. 0, \<lambda>_. 0, ?s0) (hold [Some 7] (\<lambda>_. 0), \<lambda>_. 0, ?s1)"
    by (rule fd_step.alloc [of _ _ None 0 0]) (simp_all add: fd_start_def file_alloc_def)
  then have 1: "fd_reach ?vt ?s0 (hold [Some 7] (\<lambda>_. 0), \<lambda>_. 0, ?s1)"
    by (rule fd_reach.step [OF fd_reach.start])
  have pr: "proc_of (Some 0) ?s1 = Some \<lparr>fds = replicate MAX_FDS None, fd_cloexec = 0, in_use = True\<rparr>"
    by (simp only: proc_of_def p1 fd_start_2) simp
  then have "running (Some 0) ?s1" by (simp add: running_def)
  moreover have "fd_alloc_locked \<lparr>fds = replicate MAX_FDS None, fd_cloexec = 0, in_use = True\<rparr> 3 = 3"
    by (simp add: fd_alloc_locked_def MAX_FDS_def numeral_nat Let_def)
  then have i: "fd_alloc_install_on (Some 0) (Some 7) ?s1 = (3, set_slot 0 3 (Some 7) ?s1)"
    unfolding fd_alloc_install_on_def pr by (simp add: Let_def)
  then have "fd_alloc_install_on (Some 0) (Some 7) ?s1 = (3, ?s2)" by simp
  ultimately have "fd_step ?vt (hold [Some 7] (\<lambda>_. 0), \<lambda>_. 0, ?s1) (\<lambda>_. 0, \<lambda>_. 0, ?s2)"
    by (rule fd_step.install) simp
  with 1 have 2: "fd_reach ?vt ?s0 (\<lambda>_. 0, \<lambda>_. 0, ?s2)" by (rule fd_reach.step)
  have "?s2 = set_slot 0 3 (Some 7) ?s1" unfolding i by simp
  then have s2: "set_cloexec 0 8 ?s2 = demo_ptr_vfs" "slot_taken 0 ?s2"
    by (simp_all add: demo_ptr_vfs_def set_slot_def set_cloexec_def slot_taken_def file_alloc_def fd_start_2)
      (simp add: fd_start_def)
  from fd_step.setfd [OF this(2)] have "fd_step ?vt (\<lambda>_. 0, \<lambda>_. 0, ?s2) (\<lambda>_. 0, \<lambda>_. 0, set_cloexec 0 8 ?s2)" .
  with 2 show ?thesis unfolding s2(1) by (rule fd_reach.step)
qed

lemma demo_vfs_inv: "vfs_inv (\<lambda>_. 0) demo_ptr_vfs"
  using fd_reach_inv [OF _ demo_vfs_reach]
  by (simp add: releases_def run_release_def no_ops_def split: option.splits)

lemma no_ops_releases: "releases (\<lambda>_. no_ops)"
  by (simp add: releases_def run_release_def no_ops_def split: option.splits)



text \<open>Serialised operations are memory safe: in every reachable state a lookup returns a live description, and no
  operation run from its beginning to its end touches a freed one (each of them returns).\<close>

lemma fd_ops_serial_safe:
  assumes "releases vt" and "fd_reach vt (fd_start n w) (held, lost, s)"
  shows "fd_get cur fd s = Some p \<Longrightarrow> files s p \<noteq> None"
    and "fd_close_on vt cur fd s \<noteq> None" and "fd_dup cur fd m s \<noteq> None"
    and "fd_dup2 vt cur fd fd' s \<noteq> None" and "fd_close_all vt cur s \<noteq> None"
    and "fd_close_cloexec vt cur s \<noteq> None"
    and "i < length (procs s) \<Longrightarrow> j < length (procs s) \<Longrightarrow>
      spawn_inherit_stdio vt i j s \<noteq> None \<and> proc_fork_fds room i j s \<noteq> None"
proof -
  have inv: "vfs_inv (\<lambda>p. held p + lost p) s" by (rule fd_reach_inv [OF assms])
  note K = releases_kind [OF assms(1)]
  note ok = file_kind.close_ok [OF K, unfolded kind_inv_trivial, OF inv]
    file_kind.dup_ok [OF K, unfolded kind_inv_trivial, OF inv]
    file_kind.dup2_ok [OF K, unfolded kind_inv_trivial, OF inv]
    file_kind.close_all_ok [OF K, unfolded kind_inv_trivial, OF inv]
    file_kind.close_cloexec_ok [OF K, unfolded kind_inv_trivial, OF inv]
    file_kind.fork_ok [OF K, unfolded kind_inv_trivial, OF inv]
    file_kind.inherit_ok [OF K, unfolded kind_inv_trivial, OF inv]
  show "files s p \<noteq> None" if "fd_get cur fd s = Some p" by (rule get_live [OF inv that])
  show "fd_close_on vt cur fd s \<noteq> None" "fd_dup cur fd m s \<noteq> None" "fd_dup2 vt cur fd fd' s \<noteq> None"
      "fd_close_all vt cur s \<noteq> None" "fd_close_cloexec vt cur s \<noteq> None"
    using ok(1) [of cur fd] ok(2) [of cur fd m] ok(3) [of cur fd fd'] ok(4,5) [of cur] by fastforce+
  show "spawn_inherit_stdio vt i j s \<noteq> None \<and> proc_fork_fds room i j s \<noteq> None"
    if "i < length (procs s)" "j < length (procs s)"
    using ok(6) [OF that, of room] ok(7) [OF that] by fastforce
qed

text \<open>A fork that fails after it has found a slot leaks: it answers -1, and from then on the count of every
  description the parent had open stays above the number of its names, whatever runs later, so the description
  is never freed.\<close>

theorem fork_failure_leaks:
  assumes "releases vt" and "fd_reach vt (fd_start n w) (held, lost, s)"
    and "slot_taken i s" and "slot_free j s" and "proc_fork_fds False i j s = Some (r, s')"
    and "Some p \<in> set (fds (procs s ! i))"
    and "rtranclp (fd_step vt) (held, hold (fds (procs s ! j)) lost, s') (h, l, t)"
  shows "r = -1 \<and> (\<exists>fl. files t p = Some fl \<and> int (used_refs t p + h p) < refcount fl)"
proof -
  let ?c = "(held, hold (fds (procs s ! j)) lost, s')"
  note fs = fork_stale [OF assms(5,4,3)]
  have "0 < count_list (fds (procs s ! i)) (Some p)"
    using assms(6) by (metis count_list_0_iff gr0I)
  moreover have "stale_refs s' p + count_list (fds (procs s ! j)) (Some p)
      = stale_refs s p + count_list (fds (procs s ! i)) (Some p)" using fs(2) [of p] by simp
  ultimately have "0 < stale_refs s' p + hold (fds (procs s ! j)) lost p" unfolding hold_def by linarith
  with fd_steps_leak [OF assms(7), of p] have leak: "0 < stale_refs t p + l p" by linarith
  have "fd_reach vt (fd_start n w) ?c" using assms(2-5) by (intro fd_reach.step [OF _ fd_step.fork]) auto
  with assms(7) have "fd_reach vt (fd_start n w) (h, l, t)"
    by (induction rule: rtranclp_induct) (auto intro: fd_reach.step)
  then have "vfs_inv (\<lambda>p. h p + l p) t" by (rule fd_reach_inv [OF assms(1)])
  from vfs_invD(2,3) [OF this, of p] leak fs(1) show ?thesis
    unfolding refs_split by fastforce
qed

theorem fork_failure_leaks_witness:
  "\<exists>s' fl. proc_fork_fds False 0 1 demo_ptr_vfs = Some (-1, s') \<and> files s' 7 = Some fl \<and>
     int (used_refs s' 7) < refcount fl"
proof -
  have len: "(0::nat) < length (procs demo_ptr_vfs)" "1 < length (procs demo_ptr_vfs)"
    by (simp_all add: demo_ptr_vfs_def)
  have t: "slot_taken 0 demo_ptr_vfs" "slot_free 1 demo_ptr_vfs" "Some 7 \<in> set (fds (procs demo_ptr_vfs ! 0))"
    by (simp_all add: slot_taken_def slot_free_def demo_ptr_vfs_def set_update_memI MAX_FDS_def)
  obtain r s' where f: "proc_fork_fds False 0 1 demo_ptr_vfs = Some (r, s')"
    using fd_ops_serial_safe(7) [OF no_ops_releases demo_vfs_reach len, of False] by fastforce
  from fork_failure_leaks [OF no_ops_releases demo_vfs_reach t(1,2) f t(3) rtranclp.rtrancl_refl] f
  show ?thesis by auto
qed



text \<open>C39: process exit. \<open>fd_close_all\<close> empties the whole table and the close-on-exec mask of the
  process, leaves every other table alone, and frees exactly the descriptions whose references were
  all in that table.\<close>

theorem fd_close_all_spec:
  assumes "releases vt" and "vfs_inv held s" and "i < length (procs s)"
  shows "\<exists>s'. fd_close_all vt (Some i) s = Some s' \<and>
    procs s' = (procs s)[i := (procs s ! i)\<lparr>fds := replicate MAX_FDS None, fd_cloexec := 0\<rparr>] \<and>
    (\<forall>p. files s' p = None \<longleftrightarrow> refs s p + held p = count_list (fds (procs s ! i)) (Some p))"
proof -
  obtain s' where s': "fd_close_all vt (Some i) s = Some s'" "vfs_inv held s'"
    using file_kind.close_all_ok [OF releases_kind [OF assms(1)], unfolded kind_inv_trivial, OF assms(2)]
    by blast
  have pr: "proc_of (Some i) s = Some (procs s ! i)" using assms(3) by (simp add: proc_of_def)
  obtain t where t: "sweep vt (\<lambda>p fd. True) i [0..<MAX_FDS] s = Some t" "s' = set_cloexec i 0 t"
    using s'(1) pr by (auto simp: fd_close_all_def)
  have len: "length (fds (procs s ! i)) = MAX_FDS" by (rule vfs_invD(1) [OF assms(2,3)])
  have "procs t = (procs s)[i := (procs s ! i)\<lparr>fds := replicate MAX_FDS None\<rparr>]"
    using sweep_table [OF t(1) _ assms(3)] len table_all_cleared [OF len] by (simp add: atLeast0LessThan)
  then have procs: "procs s' = (procs s)[i := (procs s ! i)\<lparr>fds := replicate MAX_FDS None, fd_cloexec := 0\<rparr>]"
    using assms(3) by (simp add: t(2) set_cloexec_def)
  have "refs s' p + count_list (fds (procs s ! i)) (Some p) = refs s p" for p
    using refs_set_table [OF assms(3), of "(procs s ! i)\<lparr>fds := replicate MAX_FDS None, fd_cloexec := 0\<rparr>" p]
    by (simp add: refs_def procs count_list_0_iff)
  then have sum: "refs s' p + held p + count_list (fds (procs s ! i)) (Some p) = refs s p + held p" for p
    by (metis add.assoc add.commute)
  have "files s' p = None \<longleftrightarrow> refs s p + held p = count_list (fds (procs s ! i)) (Some p)" for p
    unfolding sum [of p, symmetric] vfs_inv_freed [OF s'(2)] by simp
  with procs s'(1) show ?thesis by blast
qed

theorem fd_close_all_spec_witness:
  "vfs_inv (\<lambda>_. 0) demo_ptr_vfs \<and>
   (\<exists>s'. fd_close_all (\<lambda>_. no_ops) (Some 0) demo_ptr_vfs = Some s' \<and> fds (procs s' ! 0) = replicate MAX_FDS None)"
proof -
  have "(0::nat) < length (procs demo_ptr_vfs)" by (simp add: demo_ptr_vfs_def)
  from fd_close_all_spec [OF no_ops_releases demo_vfs_inv this] demo_vfs_inv this show ?thesis by auto
qed

text \<open>Exec. \<open>fd_close_cloexec\<close> closes exactly the open slots whose close-on-exec bit is set, keeps
  every other slot, resets the mask, and keeps the reference counts exact.\<close>

theorem fd_close_cloexec_spec:
  assumes "releases vt" and "vfs_inv held s" and "i < length (procs s)"
  shows "\<exists>s'. fd_close_cloexec vt (Some i) s = Some s' \<and> vfs_inv held s' \<and>
    fd_cloexec (procs s' ! i) = 0 \<and>
    (\<forall>k<MAX_FDS. fds (procs s' ! i) ! k =
       (if bit (fd_cloexec (procs s ! i)) k then None else fds (procs s ! i) ! k)) \<and>
    (\<forall>j. j \<noteq> i \<longrightarrow> procs s' ! j = procs s ! j)"
proof -
  let ?test = "\<lambda>p fd. fd_cloexec p AND fd_bit fd \<noteq> 0 \<and> fds p ! fd \<noteq> None"
  obtain s' where s': "fd_close_cloexec vt (Some i) s = Some s'" "vfs_inv held s'"
    using file_kind.close_cloexec_ok [OF releases_kind [OF assms(1)], unfolded kind_inv_trivial, OF assms(2)]
    by blast
  have pr: "proc_of (Some i) s = Some (procs s ! i)" using assms(3) by (simp add: proc_of_def)
  obtain t where t: "sweep vt ?test i [0..<MAX_FDS] s = Some t" "s' = set_cloexec i 0 t"
    using s'(1) pr by (auto simp: fd_close_cloexec_def)
  have len: "length (fds (procs s ! i)) = MAX_FDS" by (rule vfs_invD(1) [OF assms(2,3)])
  have bit: "c AND fd_bit k \<noteq> 0 \<longleftrightarrow> bit c k" if "k < MAX_FDS" for c k
    using that and_exp_eq_0_iff_not_bit [of c k] by (simp add: fd_bit_def push_bit_eq_mult)
  let ?tab = "map (\<lambda>k. if k \<in> set [0..<MAX_FDS] \<and> ?test (procs s ! i) k then None
      else fds (procs s ! i) ! k) [0..<MAX_FDS]"
  have "set [0..<MAX_FDS] \<subseteq> {..<length (fds (procs s ! i))}" by (auto simp: len)
  from sweep_table [OF t(1) _ assms(3) this] have
    "procs t = (procs s)[i := (procs s ! i)\<lparr>fds := ?tab\<rparr>]" by (simp add: len)
  then have "procs s' = (procs s)[i := (procs s ! i)\<lparr>fds := ?tab, fd_cloexec := 0\<rparr>]"
    using assms(3) by (simp add: t(2) set_cloexec_def)
  then have "fd_cloexec (procs s' ! i) = 0" "fds (procs s' ! i) = ?tab"
    "\<forall>j. j \<noteq> i \<longrightarrow> procs s' ! j = procs s ! j"
    using assms(3) by simp_all
  moreover have "?tab ! k = (if bit (fd_cloexec (procs s ! i)) k then None else fds (procs s ! i) ! k)"
    if "k < MAX_FDS" for k
    using that bit [OF that] by auto
  ultimately show ?thesis using s' by auto
qed

theorem fd_close_cloexec_spec_witness:
  "\<exists>s'. fd_close_cloexec (\<lambda>_. no_ops) (Some 0) demo_ptr_vfs = Some s' \<and> fds (procs s' ! 0) ! 3 = None"
proof -
  have 0: "(0::nat) < length (procs demo_ptr_vfs)" "(3::nat) < MAX_FDS"
    by (simp_all add: demo_ptr_vfs_def MAX_FDS_def)
  have "bit (fd_cloexec (procs demo_ptr_vfs ! 0)) 3" by (simp add: demo_ptr_vfs_def)
  with fd_close_cloexec_spec [OF no_ops_releases demo_vfs_inv 0(1)] 0(2) show ?thesis by metis
qed

text \<open>Dup. On an open descriptor \<open>fd_dup\<close> answers the lowest free slot at or above the minimum,
  which then shares the description (one more reference) without the close-on-exec flag; when every
  such slot is taken it answers -1 and changes nothing.\<close>

theorem fd_dup_spec:
  assumes inv: "vfs_inv held s" and i: "i < length (procs s)" and old: "old < MAX_FDS"
    and p: "fds (procs s ! i) ! old = Some p" and fl: "files s p = Some fl"
  shows "fd_dup (Some i) (int old) m s = Some (
    if \<exists>k<MAX_FDS. max 0 m \<le> int k \<and> fds (procs s ! i) ! k = None
    then let k = (LEAST k. max 0 m \<le> int k \<and> fds (procs s ! i) ! k = None) in
      (int k, s\<lparr>files := (files s)(p \<mapsto> fl\<lparr>refcount := refcount fl + 1\<rparr>),
        procs := (procs s)[i := (procs s ! i)\<lparr>fds := (fds (procs s ! i))[k := Some p],
          fd_cloexec := fd_cloexec (procs s ! i) AND NOT (fd_bit k)\<rparr>]\<rparr>)
    else (-1, s))"
proof -
  have pr: "proc_of (Some i) s = Some (procs s ! i)" using i by (simp add: proc_of_def)
  have ok: "\<not> bad_fd (int old)" using old by (simp add: bad_fd_def)
  have m: "max 0 (if m < 0 then 0 else m) = max 0 m" by auto
  from vfs_invD(1) [OF inv i] show ?thesis
  proof (cases rule: fd_alloc_locked_cases [of _ "if m < 0 then 0 else m"])
    case full
    then have "\<not> (\<exists>k<MAX_FDS. max 0 m \<le> int k \<and> fds (procs s ! i) ! k = None)"
      unfolding m by blast
    then show ?thesis using full(1) pr ok p by (simp add: fd_dup_def Let_def)
  next
    case (slot k)
    have "k \<le> y" if "max 0 m \<le> int y \<and> fds (procs s ! i) ! y = None" for y
      using slot(5) [of y, unfolded m] that by (metis not_le)
    then have "(LEAST k. max 0 m \<le> int k \<and> fds (procs s ! i) ! k = None) = k"
      using slot(3,4) unfolding m by (intro Least_equality) auto
    moreover have "\<exists>k<MAX_FDS. max 0 m \<le> int k \<and> fds (procs s ! i) ! k = None"
      using slot(2-4) unfolding m by blast
    ultimately show ?thesis
      using slot(1) pr ok p fl i
      by (simp add: fd_dup_def Let_def file_get_def set_slot_def set_cloexec_def)
  qed
qed

theorem fd_dup_spec_witness:
  "\<exists>s'. fd_dup (Some 0) 3 3 demo_ptr_vfs = Some (4, s') \<and> fds (procs s' ! 0) ! 4 = Some 7"
proof -
  let ?fl = "\<lparr>f_ops = None, f_priv = 0, f_flags = 0, refcount = 1, path = []\<rparr>"
  have h: "(0::nat) < length (procs demo_ptr_vfs)" "(3::nat) < MAX_FDS"
    "fds (procs demo_ptr_vfs ! 0) ! 3 = Some 7" "files demo_ptr_vfs 7 = Some ?fl"
    by (simp_all add: demo_ptr_vfs_def MAX_FDS_def)
  have tab: "fds (procs demo_ptr_vfs ! 0) = (replicate MAX_FDS None)[3 := Some 7]"
    by (simp add: demo_ptr_vfs_def)
  have ex: "\<exists>k<MAX_FDS. max 0 3 \<le> int k \<and> fds (procs demo_ptr_vfs ! 0) ! k = None"
    by (rule exI [of _ 4]) (simp add: tab MAX_FDS_def)
  have "k \<noteq> 3" if "fds (procs demo_ptr_vfs ! 0) ! k = None" for k
    using that h(3) by auto
  then have "4 \<le> k" if "max 0 3 \<le> int k \<and> fds (procs demo_ptr_vfs ! 0) ! k = None" for k
  proof -
    have "k \<noteq> 3" "3 \<le> k" using that \<open>\<And>k. fds (procs demo_ptr_vfs ! 0) ! k = None \<Longrightarrow> k \<noteq> 3\<close> by auto
    then show ?thesis by linarith
  qed
  then have least: "(LEAST k. max 0 3 \<le> int k \<and> fds (procs demo_ptr_vfs ! 0) ! k = None) = 4"
    by (intro Least_equality) (simp_all add: tab MAX_FDS_def)
  note fd_dup_spec [OF demo_vfs_inv h, of 3, unfolded least Let_def if_P [OF ex]]
  moreover have "(4::nat) < length (fds (procs demo_ptr_vfs ! 0))" by (simp add: tab MAX_FDS_def)
  ultimately show ?thesis using h(1) by simp
qed

text \<open>C40: the path store. Whatever the source holds, as long as it is readable up to its bound or its
  terminator, \<open>vfs_path_store_c\<close> stays inside both arrays, stores the longest prefix that fits,
  terminates it inside the capacity and leaves every later byte of the destination unchanged.\<close>

theorem vfs_path_store_spec:
  assumes "0 < cap" and "cap \<le> length d" and "0 < src_max"
    and "src_max \<le> length src \<or> CHR 0x00 \<in> set src"
  shows "stored_len cap src src_max < cap \<and>
    vfs_path_store_c (Some d) cap (Some src) src_max =
      Some (stored_len cap src src_max,
        Some (take (stored_len cap src src_max) src @ CHR 0x00 # drop (Suc (stored_len cap src src_max)) d))"
  by (rule path_store_run [OF assms])

theorem vfs_path_store_spec_witness:
  "vfs_path_store_c (Some ''zzzzzz'') 4 (Some (''/dev/x'' @ [CHR 0x00])) 7
     = Some (3, Some (''/de'' @ [CHR 0x00] @ ''zz''))"
  using vfs_path_store_spec [of 4 "''zzzzzz''" 7 "''/dev/x'' @ [CHR 0x00]"]
  by (simp add: stored_len_def c_string_def)

text \<open>Access modes. A read of a description opened write-only and a write of one opened read-only
  answer -1 and reach no file kind, whatever its operations table does.\<close>

theorem access_mode_enforced:
  assumes "files s p = Some fl"
  shows "(f_flags fl AND O_ACCMODE = O_WRONLY \<longrightarrow> file_read vt (Some p) count s = Some ((-1, []), s)) \<and>
    (f_flags fl AND O_ACCMODE = O_RDONLY \<longrightarrow> file_write vt (Some p) buf s = Some (-1, s))"
  using assms
  by (auto simp: file_read_def file_write_def dispatch_def split: option.splits)

theorem access_mode_enforced_witness:
  "file_write (\<lambda>_. no_ops) (Some 7) [1] demo_ptr_vfs = Some (-1, demo_ptr_vfs)"
  using access_mode_enforced [of demo_ptr_vfs 7 "\<lparr>f_ops = None, f_priv = 0, f_flags = 0, refcount = 1,
    path = []\<rparr>" "\<lambda>_. no_ops" 0 "[1]"]
  by (simp add: demo_ptr_vfs_def O_RDONLY_def)

text \<open>Two dup2. The system call keeps the reference counts exact like \<open>fd_dup2\<close>, but for equal
  descriptors it answers the descriptor even when that descriptor is closed, where \<open>fd_dup2\<close>, which
  tests that it is open first, answers -1.\<close>

theorem sys_dup2_differs:
  assumes "releases vt" and "vfs_inv held s" and "i < length (procs s)"
  shows "(\<exists>r s'. sys_dup2 vt (Some i) oldfd newfd s = Some (r, s') \<and> vfs_inv held s') \<and>
    (\<not> bad_fd fd \<and> fd_get (Some i) fd s = None \<longrightarrow>
       sys_dup2 vt (Some i) fd fd s = Some (fd, s) \<and> fd_dup2 vt (Some i) fd fd s = Some (-1, s))"
proof (intro conjI impI)
  note K = releases_kind [OF assms(1)]
  note close = file_kind.close_ok [OF K, unfolded kind_inv_trivial]
    and inst = file_kind.fd_install_ok [OF K, unfolded kind_inv_trivial]
    and get = get_ok [of "\<lambda>_ _. True", unfolded kind_inv_trivial]
  have pr: "proc_of (Some i) t = Some (procs t ! i)" if "i < length (procs t)" for t :: "'a vfs"
    using that by (simp add: proc_of_def)
  show "\<exists>r s'. sys_dup2 vt (Some i) oldfd newfd s = Some (r, s') \<and> vfs_inv held s'"
  proof (cases "bad_fd oldfd \<or> bad_fd newfd \<or> oldfd = newfd \<or> fd_get (Some i) oldfd s = None")
    case True
    then show ?thesis using assms(2) by (auto simp: sys_dup2_def)
  next
    case False
    then obtain f where f: "fd_get (Some i) oldfd s = Some f" by blast
    have old: "fds (procs s ! i) ! nat oldfd = Some f" and fd: "nat oldfd < MAX_FDS" "nat oldfd \<noteq> nat newfd"
      using f False pr [OF assms(3)] by (auto simp: fd_get_def bad_fd_def split: if_splits)
    define c where "c = (if fd_get (Some i) newfd s \<noteq> None
        then map_option snd (fd_close_on vt (Some i) newfd s) else Some s)"
    have "\<exists>s1. c = Some s1 \<and> vfs_inv held s1"
      using close [OF assms(2), of "Some i" newfd] assms(2) by (auto simp: c_def)
    then obtain s1 where s1: "c = Some s1" "vfs_inv held s1" by blast
    have "length (procs s1) = length (procs s) \<and> fds (procs s1 ! i) ! nat oldfd = Some f"
      using s1(1) old fd(2) pr [OF assms(3)] assms(3)
      by (auto simp: c_def fd_close_on_def set_slot_def set_cloexec_def dest!: file_put_procs
          split: if_splits option.splits)
    then have "\<exists>fl. files s1 p = Some fl" if "Some f = Some p" for p
      using slot_live [OF s1(2), of i "nat oldfd" f] fd(1) assms(3) that by simp
    from get [OF s1(2) this] obtain s2 where s2: "file_get (Some f) s1 = Some s2"
      "vfs_inv (hold [Some f] held) s2" "procs s2 = procs s1" by blast
    have "fd_install vt (Some i) newfd (Some f) s2 \<noteq> Some (r, t)" if "r \<noteq> 0" for r t
      using False that pr [of s2] s2(3) \<open>length (procs s1) = length (procs s) \<and> _\<close> assms(3)
      by (auto simp: fd_install_def Let_def split: option.splits)
    with inst [OF s2(2), of "Some i" newfd] obtain s3 where
      "fd_install vt (Some i) newfd (Some f) s2 = Some (0, s3)" "vfs_inv held s3"
      by (metis (full_types))
    then show ?thesis using False f s1(1) s2(1) by (simp add: sys_dup2_def c_def)
  qed
  assume "\<not> bad_fd fd \<and> fd_get (Some i) fd s = None"
  then show "sys_dup2 vt (Some i) fd fd s = Some (fd, s)"
    and "fd_dup2 vt (Some i) fd fd s = Some (-1, s)"
    using pr [OF assms(3)] by (auto simp: sys_dup2_def fd_dup2_def fd_get_def)
qed

theorem sys_dup2_differs_witness:
  "sys_dup2 (\<lambda>_. no_ops) (Some 0) 9 9 demo_ptr_vfs = Some (9, demo_ptr_vfs) \<and>
   fd_dup2 (\<lambda>_. no_ops) (Some 0) 9 9 demo_ptr_vfs = Some (-1, demo_ptr_vfs)"
proof -
  have h: "(0::nat) < length (procs demo_ptr_vfs)" by (simp add: demo_ptr_vfs_def)
  have "\<not> bad_fd 9 \<and> fd_get (Some 0) 9 demo_ptr_vfs = None"
    by (simp add: fd_get_def proc_of_def bad_fd_def demo_ptr_vfs_def MAX_FDS_def)
  with sys_dup2_differs [OF no_ops_releases demo_vfs_inv h] show ?thesis by blast
qed

end
