(* ===== verification/Pipe.thy ===== *)
theory Pipe
  imports Vfs
begin

unbundle bit_operations_syntax

text \<open>
  Anonymous pipes: \<open>kernel/fs/pipe.c\<close> and the write-side decision machine it calls,
  \<open>kernel/rustkern/pipewr.rs\<close>. A pipe is a file kind of the descriptor layer: its operations tables
  are the tables 1 (read end) and 2 (write end) over a world of pipe states, and \<open>pipe_create\<close> is
  written over the operations of the theory \<open>Vfs\<close>.

  A blocking call is given the list of its wake-ups: what each wait returns and the state the other
  parties left the pipe in by then. A call that runs out of wake-ups is parked. Positions and counts
  are \<open>nat\<close>; the invariant keeps them at most the ring size, 65536, so they do not wrap.
\<close>

section \<open>State\<close>

definition PIPE_BUF_SIZE :: nat where "PIPE_BUF_SIZE = 65536"

definition PIPE_EPIPE :: int where "PIPE_EPIPE = -32"
definition PIPE_EINTR :: int where "PIPE_EINTR = -4"
definition PIPE_EAGAIN :: int where "PIPE_EAGAIN = -11"

definition POLL_IN :: u32 where "POLL_IN = 1"
definition POLL_OUT :: u32 where "POLL_OUT = 4"
definition POLL_ERR :: u32 where "POLL_ERR = 8"
definition POLL_HUP :: u32 where "POLL_HUP = 16"

record pipe_state =
  buf :: "u8 list"
  psize :: nat
  read_pos :: nat
  write_pos :: nat
  pcount :: nat
  readers :: int
  writers :: int

datatype wait_rc = WAIT_OK | WAIT_EINTR

type_synonym wakes = "(wait_rc \<times> pipe_state) list"

section \<open>The write decision\<close>

datatype pw_action = PW_COPY nat | PW_BLOCK | PW_DONE nat | PW_SHORT nat | PW_EPIPE | PW_EINTR

definition clamp_u32 :: "nat \<Rightarrow> nat" where
  "clamp_u32 v = (if v > 4294967295 then 4294967295 else v)"

definition pipe_write_step_rs :: "nat \<Rightarrow> nat \<Rightarrow> nat \<Rightarrow> nat \<Rightarrow> int \<Rightarrow> bool \<Rightarrow> pw_action" where
  "pipe_write_step_rs requested done ring_size ring_count rdrs intr =
     (if done \<ge> requested then PW_DONE (clamp_u32 done)
      else if rdrs \<le> 0 then (if done > 0 then PW_SHORT (clamp_u32 done) else PW_EPIPE)
      else if intr then (if done > 0 then PW_SHORT (clamp_u32 done) else PW_EINTR)
      else
        let free = ring_size - ring_count in
        if free = 0 then PW_BLOCK
        else
          let remaining = requested - done in
          PW_COPY (if remaining < free then remaining else free))"

section \<open>Reading and writing\<close>

text \<open>The copy loops, one byte per round.\<close>

primrec ring_read :: "nat \<Rightarrow> pipe_state \<Rightarrow> u8 list \<times> pipe_state" where
  "ring_read 0 ps = ([], ps)"
| "ring_read (Suc n) ps =
     (let (bs, ps') = ring_read n (ps\<lparr>read_pos := (read_pos ps + 1) mod psize ps\<rparr>)
      in (buf ps ! read_pos ps # bs, ps'))"

primrec ring_write :: "u8 list \<Rightarrow> pipe_state \<Rightarrow> pipe_state" where
  "ring_write [] ps = ps"
| "ring_write (b # bs) ps =
     ring_write bs (ps\<lparr>buf := (buf ps)[write_pos ps := b],
                       write_pos := (write_pos ps + 1) mod psize ps\<rparr>)"

text \<open>The wait loop of \<open>pipe_read_fn\<close>: \<open>Inl r\<close> is an early return, \<open>Inr ps\<close> goes on to the copy;
  \<open>None\<close> is parked.\<close>

fun read_wait :: "pipe_state \<Rightarrow> wakes \<Rightarrow> (int + unit) option \<times> pipe_state" where
  "read_wait ps ws =
     (if pcount ps \<noteq> 0 then (Some (Inr ()), ps)
      else if writers ps \<le> 0 then (Some (Inl 0), ps)
      else
        (case ws of
           [] \<Rightarrow> (None, ps)
         | (rc, ps') # rest \<Rightarrow>
             if rc = WAIT_EINTR then (Some (Inl (-4)), ps') else read_wait ps' rest))"

declare read_wait.simps [simp del]

definition pipe_read_fn :: "pipe_state \<Rightarrow> nat \<Rightarrow> wakes \<Rightarrow> (int \<times> u8 list) option \<times> pipe_state" where
  "pipe_read_fn ps count ws =
     (if count = 0 then (Some (0, []), ps)
      else
        (case read_wait ps ws of
           (None, ps1) \<Rightarrow> (None, ps1)
         | (Some (Inl r), ps1) \<Rightarrow> (Some (r, []), ps1)
         | (Some (Inr _), ps1) \<Rightarrow>
             let avail = pcount ps1;
                 c32 = count mod 2 ^ 32;
                 to_read = (if c32 < avail then c32 else avail);
                 (bs, ps2) = ring_read to_read ps1
             in (Some (int to_read, bs), ps2\<lparr>pcount := pcount ps2 - to_read\<rparr>)))"

text \<open>The loop of \<open>pipe_write_fn\<close>. The result is the return value (\<open>None\<close>: parked), the bytes this
  call has put into the ring, whether it raised \<open>SIGPIPE\<close>, and the pipe.\<close>

function write_loop ::
    "bool \<Rightarrow> u8 list \<Rightarrow> nat \<Rightarrow> bool \<Rightarrow> pipe_state \<Rightarrow> wakes
     \<Rightarrow> int option \<times> u8 list \<times> bool \<times> pipe_state" where
  "write_loop may_block inp done intr ps ws =
     (case pipe_write_step_rs (length inp) done (psize ps) (pcount ps) (readers ps) intr of
        PW_DONE n \<Rightarrow> (Some (int n), [], False, ps)
      | PW_SHORT n \<Rightarrow> (Some (int n), [], False, ps)
      | PW_EPIPE \<Rightarrow> (Some PIPE_EPIPE, [], True, ps)
      | PW_EINTR \<Rightarrow> (Some PIPE_EINTR, [], False, ps)
      | PW_BLOCK \<Rightarrow>
          if \<not> may_block then (Some (if done > 0 then int done else PIPE_EAGAIN), [], False, ps)
          else (case ws of
                  [] \<Rightarrow> (None, [], False, ps)
                | (rc, ps') # rest \<Rightarrow>
                    write_loop may_block inp done (if rc = WAIT_EINTR then True else intr) ps' rest)
      | PW_COPY n \<Rightarrow>
          let chunk = take n (drop done inp);
              ps1 = ring_write chunk ps;
              (r, bs, sig, ps2) =
                write_loop may_block inp (done + n) intr (ps1\<lparr>pcount := pcount ps1 + n\<rparr>) ws
          in (r, chunk @ bs, sig, ps2))"
  by pat_completeness auto
termination
proof (relation "measures [\<lambda>(mb, inp, done, intr, ps, ws). length ws,
    \<lambda>(mb, inp, done, intr, ps, ws). length inp - done]", goal_cases)
  case 1
  then show ?case by simp
next
  case 2
  then show ?case by (auto simp: pipe_write_step_rs_def Let_def split: if_splits)
next
  case 3
  then show ?case by simp
qed

declare write_loop.simps [simp del]

definition pipe_write_fn ::
    "bool \<Rightarrow> pipe_state \<Rightarrow> u8 list \<Rightarrow> wakes \<Rightarrow> int option \<times> u8 list \<times> bool \<times> pipe_state" where
  "pipe_write_fn may_block ps inp ws =
     (if inp = [] then (Some 0, [], False, ps) else write_loop may_block inp 0 False ps ws)"

section \<open>Readiness\<close>

definition pipe_read_poll :: "pipe_state \<Rightarrow> u32 \<Rightarrow> u32" where
  "pipe_read_poll ps events =
     (if events AND POLL_IN \<noteq> 0 \<and> pcount ps > 0 then POLL_IN else 0)
       OR (if writers ps \<le> 0 then POLL_HUP else 0)"

definition pipe_write_poll :: "pipe_state \<Rightarrow> u32 \<Rightarrow> u32" where
  "pipe_write_poll ps events =
     (if events AND POLL_OUT \<noteq> 0 \<and> pcount ps < psize ps then POLL_OUT else 0)
       OR (if readers ps \<le> 0 then POLL_ERR else 0)"

section \<open>The file kind\<close>

text \<open>Live pipe states by address (0 is \<open>NULL\<close>), and how many \<open>SIGPIPE\<close> were raised. A queue is named
  by the address of its pipe: \<open>2 * ps\<close> is \<open>&ps->read_wq\<close>, \<open>2 * ps + 1\<close> is \<open>&ps->write_wq\<close>.\<close>

record pipe_world =
  pipes :: "ptr \<rightharpoonup> pipe_state"
  sigpipes :: nat

definition with_pipe ::
    "file_t \<Rightarrow> pipe_world \<Rightarrow> 'r \<Rightarrow> (pipe_state \<Rightarrow> ('r \<times> pipe_world) option) \<Rightarrow> ('r \<times> pipe_world) option" where
  "with_pipe f w dflt g =
     (if f_priv f = 0 then Some (dflt, w)
      else (case pipes w (f_priv f) of None \<Rightarrow> None | Some ps \<Rightarrow> g ps))"

definition pipe_maybe_free :: "ptr \<Rightarrow> pipe_state \<Rightarrow> pipe_world \<Rightarrow> pipe_world" where
  "pipe_maybe_free p ps w =
     (if readers ps \<le> 0 \<and> writers ps \<le> 0 then w\<lparr>pipes := (pipes w)(p := None)\<rparr> else w)"

definition pipe_release_read :: "file_t \<Rightarrow> pipe_world \<Rightarrow> (int \<times> pipe_world) option" where
  "pipe_release_read f w = with_pipe f w 0 (\<lambda>ps.
     let ps' = ps\<lparr>readers := readers ps - 1\<rparr> in
     Some (0, pipe_maybe_free (f_priv f) ps' (w\<lparr>pipes := (pipes w)(f_priv f \<mapsto> ps')\<rparr>)))"

definition pipe_release_write :: "file_t \<Rightarrow> pipe_world \<Rightarrow> (int \<times> pipe_world) option" where
  "pipe_release_write f w = with_pipe f w 0 (\<lambda>ps.
     let ps' = ps\<lparr>writers := writers ps - 1\<rparr> in
     Some (0, pipe_maybe_free (f_priv f) ps' (w\<lparr>pipes := (pipes w)(f_priv f \<mapsto> ps')\<rparr>)))"

text \<open>A parked call does not return to the descriptor layer, so at that level it is not a result: the
  wake-ups given must be enough for the call to return.\<close>

definition pipe_read_ops :: "wakes \<Rightarrow> pipe_world file_ops" where
  "pipe_read_ops ws = no_ops\<lparr>
     op_read := Some (\<lambda>f count w. with_pipe f w (0, []) (\<lambda>ps.
       (case pipe_read_fn ps (unat count) ws of
          (None, _) \<Rightarrow> None
        | (Some r, ps') \<Rightarrow> Some (r, w\<lparr>pipes := (pipes w)(f_priv f \<mapsto> ps')\<rparr>)))),
     op_release := Some pipe_release_read,
     op_poll := Some (\<lambda>f events w. with_pipe f w POLL_ERR (\<lambda>ps. Some (pipe_read_poll ps events, w))),
     op_poll_wq := Some (\<lambda>f events w. with_pipe f w None (\<lambda>ps. Some (Some (2 * f_priv f), w)))\<rparr>"

definition pipe_write_ops :: "bool \<Rightarrow> wakes \<Rightarrow> pipe_world file_ops" where
  "pipe_write_ops may_block ws = no_ops\<lparr>
     op_write := Some (\<lambda>f inp w. with_pipe f w (-1) (\<lambda>ps.
       (case pipe_write_fn may_block ps inp ws of
          (None, _) \<Rightarrow> None
        | (Some r, _, sig, ps') \<Rightarrow>
            Some (r, w\<lparr>pipes := (pipes w)(f_priv f \<mapsto> ps'), sigpipes := sigpipes w + (if sig then 1 else 0)\<rparr>)))),
     op_release := Some pipe_release_write,
     op_poll := Some (\<lambda>f events w. with_pipe f w POLL_ERR (\<lambda>ps. Some (pipe_write_poll ps events, w))),
     op_poll_wq := Some (\<lambda>f events w. with_pipe f w None (\<lambda>ps. Some (Some (2 * f_priv f + 1), w)))\<rparr>"

definition pipe_vt :: "bool \<Rightarrow> wakes \<Rightarrow> nat \<Rightarrow> pipe_world file_ops" where
  "pipe_vt may_block ws ops =
     (if ops = 1 then pipe_read_ops ws else if ops = 2 then pipe_write_ops may_block ws else no_ops)"

section \<open>Creating a pipe\<close>

definition new_pipe :: pipe_state where
  "new_pipe = \<lparr>buf = replicate PIPE_BUF_SIZE 0, psize = PIPE_BUF_SIZE, read_pos = 0, write_pos = 0,
     pcount = 0, readers = 1, writers = 1\<rparr>"

text \<open>The arguments are the answers of the four \<open>kmalloc\<close> calls, in order. The contents of the ring
  before the first write are not observable; they are zero here.\<close>

definition pipe_create ::
    "(nat \<Rightarrow> pipe_world file_ops) \<Rightarrow> ptr option \<Rightarrow> ptr option \<Rightarrow> ptr option \<Rightarrow> ptr option \<Rightarrow> nat option
     \<Rightarrow> pipe_world vfs \<Rightarrow> ((int \<times> (int \<times> int) option) \<times> pipe_world vfs) option" where
  "pipe_create vt km_ps km_buf km_rf km_wf cur s =
     (case km_ps of
        None \<Rightarrow> Some ((-1, None), s)
      | Some ps \<Rightarrow>
          if km_buf = None then Some ((-1, None), s)
          else
            let s1 = s\<lparr>world := (world s)\<lparr>pipes := (pipes (world s))(ps \<mapsto> new_pipe)\<rparr>\<rparr>;
                (rf, s2) = file_alloc km_rf (Some 1) ps O_RDONLY s1
            in if rf = None
               then Some ((-1, None), s2\<lparr>world := (world s2)\<lparr>pipes := (pipes (world s2))(ps := None)\<rparr>\<rparr>)
            else
              let (wf, s3) = file_alloc km_wf (Some 2) ps O_WRONLY s2 in
              if wf = None then map_option (\<lambda>(_, t). ((-1, None), t)) (file_put vt rf s3)
              else
                Option.bind (file_set_path rf (Some (''pipe:[read]'' @ [CHR 0x00])) s3) (\<lambda>s4.
                Option.bind (file_set_path wf (Some (''pipe:[write]'' @ [CHR 0x00])) s4) (\<lambda>s5.
                let (rfd, s6) = fd_alloc_install_on cur rf s5 in
                if rfd < 0 then
                  Option.bind (file_put vt rf s6) (\<lambda>(_, t).
                  map_option (\<lambda>(_, t). ((-1, None), t)) (file_put vt wf t))
                else
                  let (wfd, s7) = fd_alloc_install_on cur wf s6 in
                  if wfd < 0 then
                    Option.bind (fd_close_on vt cur rfd s7) (\<lambda>(_, t).
                    map_option (\<lambda>(_, t). ((-1, None), t)) (file_put vt wf t))
                  else Some ((0, Some (rfd, wfd)), s7))))"

section \<open>The ring as a queue of bytes\<close>

definition pipe_inv :: "pipe_state \<Rightarrow> bool" where
  "pipe_inv ps \<longleftrightarrow>
     length (buf ps) = psize ps \<and> 0 < psize ps \<and> psize ps \<le> PIPE_BUF_SIZE \<and>
     read_pos ps < psize ps \<and> pcount ps \<le> psize ps \<and>
     write_pos ps = (read_pos ps + pcount ps) mod psize ps"

definition pipe_bytes :: "pipe_state \<Rightarrow> u8 list" where
  "pipe_bytes ps = ring_contents (buf ps) (read_pos ps) (pcount ps)"

lemma length_pipe_bytes [simp]: "length (pipe_bytes ps) = pcount ps"
  by (simp add: pipe_bytes_def)

lemma new_pipe_inv: "pipe_inv new_pipe" "pipe_bytes new_pipe = []"
  by (simp_all add: pipe_inv_def pipe_bytes_def new_pipe_def PIPE_BUF_SIZE_def)

lemma ring_read_spec:
  assumes "length (buf ps) = psize ps" and "read_pos ps < psize ps"
  shows "ring_read n ps = (ring_contents (buf ps) (read_pos ps) n,
     ps\<lparr>read_pos := (read_pos ps + n) mod psize ps\<rparr>)"
  using assms
proof (induction n arbitrary: ps)
  case 0
  then show ?case by simp
next
  case (Suc n)
  let ?ps = "ps\<lparr>read_pos := (read_pos ps + 1) mod psize ps\<rparr>"
  have pos: "0 < psize ps" using Suc.prems(2) by simp
  have "ring_read n ?ps = (ring_contents (buf ps) ((read_pos ps + 1) mod psize ps) n,
      ps\<lparr>read_pos := (read_pos ps + Suc n) mod psize ps\<rparr>)"
    using Suc.IH [of ?ps] Suc.prems pos by (simp add: mod_simps)
  then show ?case using Suc.prems by (simp add: Let_def ring_contents_Suc)
qed

text \<open>After a read of \<open>n\<close> bytes the queue has lost its first \<open>n\<close>.\<close>

lemma ring_contents_drop:
  assumes "n \<le> c"
  shows "ring_contents b ((p + n) mod length b) (c - n) = drop n (ring_contents b p c)"
  using assms
  by (intro nth_equalityI) (simp_all add: ring_contents_nth mod_simps add.assoc)

lemma ring_contents_take: "n \<le> c \<Longrightarrow> take n (ring_contents b p c) = ring_contents b p n"
  by (intro nth_equalityI) (simp_all add: ring_contents_nth)

lemma pipe_take:
  assumes inv: "pipe_inv ps" and n: "n \<le> pcount ps"
  defines "ps' \<equiv> (snd (ring_read n ps))\<lparr>pcount := pcount (snd (ring_read n ps)) - n\<rparr>"
  shows "fst (ring_read n ps) = take n (pipe_bytes ps)" and "pipe_bytes ps' = drop n (pipe_bytes ps)"
    and "pipe_inv ps'" and "readers ps' = readers ps" and "writers ps' = writers ps"
    and "psize ps' = psize ps"
proof -
  have eq: "ring_read n ps = (ring_contents (buf ps) (read_pos ps) n,
     ps\<lparr>read_pos := (read_pos ps + n) mod psize ps\<rparr>)"
    using inv by (intro ring_read_spec) (simp_all add: pipe_inv_def)
  have len: "length (buf ps) = psize ps" using inv by (simp add: pipe_inv_def)
  show "fst (ring_read n ps) = take n (pipe_bytes ps)"
    using n by (simp add: eq pipe_bytes_def ring_contents_take)
  show "pipe_bytes ps' = drop n (pipe_bytes ps)"
    using ring_contents_drop [OF n, of "buf ps" "read_pos ps"] len
    by (simp add: ps'_def eq pipe_bytes_def)
  have "((read_pos ps + n) mod psize ps + (pcount ps - n)) mod psize ps
      = (read_pos ps + pcount ps) mod psize ps"
    using n mod_add_left_eq [of "read_pos ps + n" "psize ps" "pcount ps - n"] by simp
  moreover have "pcount ps - n \<le> psize ps" using inv unfolding pipe_inv_def by linarith
  ultimately show "pipe_inv ps'" using inv by (simp add: ps'_def eq pipe_inv_def)
  show "readers ps' = readers ps" "writers ps' = writers ps" "psize ps' = psize ps"
    by (simp_all add: ps'_def eq)
qed

lemma ring_write_pcount:
  fixes q :: pipe_state
  shows "ring_write ys (q\<lparr>pcount := c\<rparr>) = (ring_write ys q)\<lparr>pcount := c\<rparr>"
proof (induction ys arbitrary: q)
  case Nil
  then show ?case by simp
next
  case (Cons y ys)
  let ?b = "(buf q)[write_pos q := y]" and ?w = "(write_pos q + 1) mod psize q"
  have eq: "q\<lparr>pcount := c, buf := ?b, write_pos := ?w\<rparr> = q\<lparr>buf := ?b, write_pos := ?w\<rparr>\<lparr>pcount := c\<rparr>"
    by (cases q) simp
  have "ring_write (y # ys) (q\<lparr>pcount := c\<rparr>) = ring_write ys (q\<lparr>pcount := c, buf := ?b, write_pos := ?w\<rparr>)"
    by simp
  then show ?case unfolding eq Cons.IH by simp
qed

lemma ring_write_keeps: "pcount (ring_write ys q) = pcount q"
  by (induction ys arbitrary: q) simp_all

lemma pipe_put:
  assumes "pipe_inv ps" and "pcount ps + length xs \<le> psize ps"
  defines "ps' \<equiv> (ring_write xs ps)\<lparr>pcount := pcount (ring_write xs ps) + length xs\<rparr>"
  shows "pipe_inv ps'" and "pipe_bytes ps' = pipe_bytes ps @ xs"
    and "readers ps' = readers ps" and "writers ps' = writers ps" and "psize ps' = psize ps"
    and "pcount (ring_write xs ps) = pcount ps"
proof -
  have "pipe_inv ps' \<and> pipe_bytes ps' = pipe_bytes ps @ xs \<and> readers ps' = readers ps \<and>
      writers ps' = writers ps \<and> psize ps' = psize ps \<and> pcount (ring_write xs ps) = pcount ps"
    using assms(1,2) unfolding ps'_def
  proof (induction xs arbitrary: ps)
    case Nil
    then show ?case by simp
  next
    case (Cons x xs)
    let ?p1 = "ps\<lparr>buf := (buf ps)[write_pos ps := x], write_pos := (write_pos ps + 1) mod psize ps\<rparr>"
    let ?p2 = "?p1\<lparr>pcount := pcount ps + 1\<rparr>"
    have len: "length (buf ps) = psize ps" and wp: "write_pos ps = (read_pos ps + pcount ps) mod psize ps"
      using Cons.prems(1) by (simp_all add: pipe_inv_def)
    have inv2: "pipe_inv ?p2" using Cons.prems by (simp add: pipe_inv_def mod_simps)
    have "pipe_bytes ?p2 = pipe_bytes ps @ [x]"
      using ring_contents_put [of "pcount ps" "buf ps" "read_pos ps" x] Cons.prems(2) len wp
      by (simp add: pipe_bytes_def)
    moreover have "ring_write xs ?p2 = (ring_write xs ?p1)\<lparr>pcount := pcount ps + 1\<rparr>"
      by (rule ring_write_pcount)
    ultimately show ?case
      using Cons.IH [OF inv2] Cons.prems(2) ring_write_keeps [of xs ?p1] by simp
  qed
  then show "pipe_inv ps'" and "pipe_bytes ps' = pipe_bytes ps @ xs"
    and "readers ps' = readers ps" and "writers ps' = writers ps" and "psize ps' = psize ps"
    and "pcount (ring_write xs ps) = pcount ps" by blast+
qed

section \<open>Reading\<close>

text \<open>The wait loop ends in a state with bytes to read, at end of file, interrupted, or parked.\<close>

lemma read_wait_cases:
  "case read_wait ps ws of
     (Some (Inr _), ps') \<Rightarrow> pcount ps' \<noteq> 0 \<and> ps' \<in> insert ps (snd ` set ws)
   | (Some (Inl r), ps') \<Rightarrow> (r = 0 \<and> pcount ps' = 0 \<and> writers ps' \<le> 0 \<or> r = -4) \<and>
       ps' \<in> insert ps (snd ` set ws)
   | (None, ps') \<Rightarrow> pcount ps' = 0 \<and> 0 < writers ps'"
proof (induction ps ws rule: read_wait.induct)
  case (1 ps ws)
  then show ?case
    by (subst read_wait.simps) (auto split: list.splits prod.splits option.splits sum.splits if_splits)
qed

section \<open>Writing\<close>

lemma pw_copy_bounds:
  assumes "pipe_write_step_rs req don sz cnt r intr = PW_COPY n"
  shows "0 < n" and "n \<le> sz - cnt" and "don + n \<le> req" and "0 < r" and "\<not> intr"
  using assms by (auto simp: pipe_write_step_rs_def Let_def split: if_splits)

text \<open>Every wake-up leaves the pipe in a consistent state.\<close>

definition wakes_ok :: "wakes \<Rightarrow> bool" where
  "wakes_ok ws \<longleftrightarrow> list_all (\<lambda>(rc, ps). pipe_inv ps) ws"

lemma wakes_ok_Cons [simp]: "wakes_ok ((rc, ps) # ws) \<longleftrightarrow> pipe_inv ps \<and> wakes_ok ws"
  by (simp add: wakes_ok_def)

text \<open>What an answer of a write says when the call has put \<open>tot\<close> of its \<open>len\<close> bytes into the ring: a
  count is exactly that many and never 0, an error means none of them; \<open>SIGPIPE\<close> goes with
  \<open>-EPIPE\<close>, which needs a pipe without readers; a parked call (\<open>None\<close>) faces a full ring.\<close>

definition write_answer :: "bool \<Rightarrow> nat \<Rightarrow> nat \<Rightarrow> int option \<Rightarrow> bool \<Rightarrow> pipe_state \<Rightarrow> bool" where
  "write_answer mb len tot r sig ps \<longleftrightarrow>
     (case r of
        None \<Rightarrow> mb \<and> pcount ps = psize ps \<and> 0 < readers ps \<and> tot < len
      | Some v \<Rightarrow> (0 \<le> v \<longrightarrow> v = int tot) \<and>
          (v < 0 \<longrightarrow> tot = 0 \<and> v \<in> {PIPE_EPIPE, PIPE_EINTR, PIPE_EAGAIN}) \<and>
          (v = 0 \<longrightarrow> len = 0) \<and> (sig \<longleftrightarrow> v = PIPE_EPIPE) \<and>
          (v = PIPE_EPIPE \<longrightarrow> readers ps \<le> 0) \<and>
          (v = PIPE_EAGAIN \<longrightarrow> \<not> mb \<and> pcount ps = psize ps \<and> 0 < readers ps))"

text \<open>The bytes a call puts into the ring are a prefix of what is left of its input, its answer counts
  them, and the ring stays consistent.\<close>

lemma write_loop_spec:
  assumes "pipe_inv ps" and "wakes_ok ws" and "don \<le> length inp" and "length inp < 2 ^ 32"
    and "write_loop mb inp don intr ps ws = (r, bs, sig, ps')"
  shows "pipe_inv ps' \<and> (\<exists>k. bs = take k (drop don inp) \<and> don + k \<le> length inp \<and>
     write_answer mb (length inp) (don + k) r sig ps')"
  using assms
proof (induction mb inp don intr ps ws arbitrary: r bs sig ps' rule: write_loop.induct)
  case (1 mb inp don intr ps ws)
  note prems = 1(3-7)
  have small: "clamp_u32 don = don" using prems(3,4) by (simp add: clamp_u32_def)
  note step = prems(5) [unfolded write_loop.simps [of mb inp don intr ps ws]]
  show ?case
  proof (cases "pipe_write_step_rs (length inp) don (psize ps) (pcount ps) (readers ps) intr")
    case (PW_COPY n)
    note b = pw_copy_bounds [OF PW_COPY]
    let ?c = "take n (drop don inp)"
    let ?ps = "(ring_write ?c ps)\<lparr>pcount := pcount (ring_write ?c ps) + n\<rparr>"
    have len: "length ?c = n" using b(3) by simp
    have "pcount ps \<le> psize ps" using prems(1) by (simp add: pipe_inv_def)
    then have "pcount ps + length ?c \<le> psize ps" using b(2) len by linarith
    from pipe_put(1) [OF prems(1) this] have inv: "pipe_inv ?ps" by (simp only: len)
    obtain bs' where bs': "write_loop mb inp (don + n) intr ?ps ws = (r, bs', sig, ps')" "bs = ?c @ bs'"
      using step PW_COPY by (auto simp: Let_def split: prod.splits)
    from 1(1) [OF PW_COPY refl refl inv prems(2) b(3) prems(4) bs'(1)] obtain k where
      k: "bs' = take k (drop (don + n) inp)" "don + n + k \<le> length inp" "pipe_inv ps'"
      and res: "write_answer mb (length inp) (don + n + k) r sig ps'" by blast
    have "bs = take (n + k) (drop don inp)" using k(1) bs'(2) by (simp add: take_add add.commute [of n don])
    moreover have "don + (n + k) \<le> length inp" using k(2) by simp
    ultimately show ?thesis using k(3) res by (intro conjI exI [of _ "n + k"]) (simp_all add: add.assoc [symmetric])
  next
    case PW_BLOCK
    then have full: "psize ps \<le> pcount ps" "0 < readers ps" "don < length inp"
      by (auto simp: pipe_write_step_rs_def Let_def split: if_splits)
    then have eq: "pcount ps = psize ps" using prems(1) by (simp add: pipe_inv_def)
    show ?thesis
    proof (cases "mb \<and> ws \<noteq> []")
      case True
      then obtain rc ps1 rest where ws: "ws = (rc, ps1) # rest" by (cases ws) auto
      have "write_loop mb inp don (if rc = WAIT_EINTR then True else intr) ps1 rest = (r, bs, sig, ps')"
        using step PW_BLOCK True ws by simp
      then show ?thesis
        using 1(2) [OF PW_BLOCK _ ws refl] True prems ws by simp
    next
      case False
      then show ?thesis
        using step PW_BLOCK prems full eq
        by (intro conjI exI [of _ 0])
          (auto simp: write_answer_def PIPE_EPIPE_def PIPE_EAGAIN_def split: list.splits if_splits)
    qed
  qed (use step prems small in \<open>auto simp: write_answer_def pipe_write_step_rs_def Let_def PIPE_EPIPE_def PIPE_EINTR_def
        PIPE_EAGAIN_def split: if_splits intro!: exI [of _ 0]\<close>)
qed

section \<open>Calls in a context that does not sleep, against a bounded byte queue\<close>

datatype pipe_op = PRead nat | PWrite "u8 list" | PPollIn | PPollOut

datatype pipe_out = Parked | Got int "u8 list" | Wrote int bool | Ready bool bool

definition pipe_step :: "pipe_state \<Rightarrow> pipe_op \<Rightarrow> pipe_out \<times> pipe_state" where
  "pipe_step ps x =
     (case x of
        PRead n \<Rightarrow>
          (case pipe_read_fn ps n [] of
             (None, ps') \<Rightarrow> (Parked, ps')
           | (Some (r, bs), ps') \<Rightarrow> (Got r bs, ps'))
      | PWrite inp \<Rightarrow>
          (case pipe_write_fn False ps inp [] of
             (None, _, _, ps') \<Rightarrow> (Parked, ps')
           | (Some r, _, sig, ps') \<Rightarrow> (Wrote r sig, ps'))
      | PPollIn \<Rightarrow>
          (let r = pipe_read_poll ps POLL_IN in (Ready (r AND POLL_IN \<noteq> 0) (r AND POLL_HUP \<noteq> 0), ps))
      | PPollOut \<Rightarrow>
          (let r = pipe_write_poll ps POLL_OUT in (Ready (r AND POLL_OUT \<noteq> 0) (r AND POLL_ERR \<noteq> 0), ps)))"

text \<open>The specification: a queue of bytes with a capacity and the two reference counts.\<close>

record byte_queue =
  bq :: "u8 list"
  cap :: nat
  bq_readers :: int
  bq_writers :: int

definition queue_step :: "byte_queue \<Rightarrow> pipe_op \<Rightarrow> pipe_out \<times> byte_queue" where
  "queue_step q x =
     (case x of
        PRead n \<Rightarrow>
          if n = 0 then (Got 0 [], q)
          else if bq q = [] then (if bq_writers q \<le> 0 then Got 0 [] else Parked, q)
          else
            let k = min (n mod 2 ^ 32) (length (bq q)) in
            (Got (int k) (take k (bq q)), q\<lparr>bq := drop k (bq q)\<rparr>)
      | PWrite inp \<Rightarrow>
          if inp = [] then (Wrote 0 False, q)
          else if bq_readers q \<le> 0 then (Wrote PIPE_EPIPE True, q)
          else
            let k = min (length inp) (cap q - length (bq q)) in
            (Wrote (if k = 0 then PIPE_EAGAIN else int k) False, q\<lparr>bq := bq q @ take k inp\<rparr>)
      | PPollIn \<Rightarrow> (Ready (bq q \<noteq> []) (bq_writers q \<le> 0), q)
      | PPollOut \<Rightarrow> (Ready (length (bq q) < cap q) (bq_readers q \<le> 0), q))"

definition pipe_abs :: "pipe_state \<Rightarrow> byte_queue" where
  "pipe_abs ps = \<lparr>bq = pipe_bytes ps, cap = psize ps, bq_readers = readers ps, bq_writers = writers ps\<rparr>"

lemma pipe_bytes_empty: "pipe_bytes ps = [] \<longleftrightarrow> pcount ps = 0"
  by (metis length_0_conv length_pipe_bytes)

lemma read_refines:
  assumes "pipe_inv ps"
  shows "pipe_inv (snd (pipe_step ps (PRead n)))"
    and "queue_step (pipe_abs ps) (PRead n)
       = (fst (pipe_step ps (PRead n)), pipe_abs (snd (pipe_step ps (PRead n))))"
proof -
  have "pipe_inv (snd (pipe_step ps (PRead n))) \<and> queue_step (pipe_abs ps) (PRead n)
       = (fst (pipe_step ps (PRead n)), pipe_abs (snd (pipe_step ps (PRead n))))"
  proof (cases "n = 0 \<or> pcount ps = 0")
    case True
    then show ?thesis using assms
      by (auto simp: pipe_step_def queue_step_def pipe_read_fn_def read_wait.simps [of ps "[]"]
          pipe_abs_def pipe_bytes_empty)
  next
    case False
    let ?k = "min (n mod 2 ^ 32) (pcount ps)"
    have k: "?k \<le> pcount ps" by simp
    have eq: "(if n mod 2 ^ 32 < pcount ps then n mod 2 ^ 32 else pcount ps) = ?k" by auto
    note t = pipe_take [OF assms k]
    have "pipe_step ps (PRead n) = (Got (int ?k) (fst (ring_read ?k ps)),
        (snd (ring_read ?k ps))\<lparr>pcount := pcount (snd (ring_read ?k ps)) - ?k\<rparr>)"
      using False unfolding pipe_step_def pipe_read_fn_def read_wait.simps [of ps "[]"]
      by (simp add: Let_def split_beta eq del: min_def)
    then show ?thesis using t False
      by (simp add: queue_step_def pipe_abs_def pipe_bytes_empty Let_def)
  qed
  then show "pipe_inv (snd (pipe_step ps (PRead n)))"
    and "queue_step (pipe_abs ps) (PRead n)
       = (fst (pipe_step ps (PRead n)), pipe_abs (snd (pipe_step ps (PRead n))))" by blast+
qed

text \<open>Without sleeping a write is one copy of what fits.\<close>

lemma write_nosleep:
  assumes inv: "pipe_inv ps" and inp: "inp \<noteq> []" and r: "0 < readers ps"
  defines "k \<equiv> min (length inp) (psize ps - pcount ps)"
  defines "ps' \<equiv> (ring_write (take k inp) ps)\<lparr>pcount := pcount (ring_write (take k inp) ps) + k\<rparr>"
  shows "write_loop False inp 0 False ps []
    = (Some (if k = 0 then PIPE_EAGAIN else int k), take k inp, False, if k = 0 then ps else ps')"
proof (cases "k = 0")
  case True
  then have "pipe_write_step_rs (length inp) 0 (psize ps) (pcount ps) (readers ps) False = PW_BLOCK"
    using inp r by (auto simp: pipe_write_step_rs_def Let_def k_def min_def split: if_splits)
  then show ?thesis using True by (subst write_loop.simps) simp
next
  case False
  have step1: "pipe_write_step_rs (length inp) 0 (psize ps) (pcount ps) (readers ps) False = PW_COPY k"
    using False inp r by (auto simp: pipe_write_step_rs_def Let_def k_def min_def)
  have len: "length (take k inp) = k" by (simp add: k_def)
  have sz: "pcount ps \<le> psize ps" "psize ps \<le> PIPE_BUF_SIZE" using inv by (simp_all add: pipe_inv_def)
  then have "pcount ps + length (take k inp) \<le> psize ps" unfolding len by (simp add: k_def)
  note put = pipe_put [OF inv this, unfolded len]
  have c: "pcount ps' = pcount ps + k" "psize ps' = psize ps" "readers ps' = readers ps"
    using put(3,5,6) by (simp_all add: ps'_def)
  have "k \<le> psize ps" by (simp add: k_def)
  then have small: "clamp_u32 k = k" using sz by (simp add: clamp_u32_def PIPE_BUF_SIZE_def)
  have step2: "pipe_write_step_rs (length inp) k (psize ps') (pcount ps') (readers ps') False
      = (if k = length inp then PW_DONE k else PW_BLOCK)"
    using c r small sz unfolding pipe_write_step_rs_def Let_def by (auto simp: k_def min_def split: if_splits)
  have "write_loop False inp k False ps' [] = (Some (int k), [], False, ps')"
    using False by (subst write_loop.simps) (simp add: step2)
  then show ?thesis
    using False by (subst write_loop.simps) (simp add: step1 Let_def ps'_def)
qed

lemma write_refines:
  assumes "pipe_inv ps"
  shows "pipe_inv (snd (pipe_step ps (PWrite inp)))"
    and "queue_step (pipe_abs ps) (PWrite inp)
       = (fst (pipe_step ps (PWrite inp)), pipe_abs (snd (pipe_step ps (PWrite inp))))"
proof -
  have "pipe_inv (snd (pipe_step ps (PWrite inp))) \<and> queue_step (pipe_abs ps) (PWrite inp)
       = (fst (pipe_step ps (PWrite inp)), pipe_abs (snd (pipe_step ps (PWrite inp))))"
  proof (cases "inp = [] \<or> readers ps \<le> 0")
    case True
    then show ?thesis using assms
      by (auto simp: pipe_step_def queue_step_def pipe_write_fn_def write_loop.simps [of False inp]
          pipe_write_step_rs_def pipe_abs_def)
  next
    case False
    define k where "k = min (length inp) (psize ps - pcount ps)"
    let ?ps = "(ring_write (take k inp) ps)\<lparr>pcount := pcount (ring_write (take k inp) ps) + k\<rparr>"
    have r: "inp \<noteq> []" "0 < readers ps" using False by auto
    have len: "length (take k inp) = k" by (simp add: k_def)
    have "pcount ps \<le> psize ps" using assms by (simp add: pipe_inv_def)
    then have "pcount ps + length (take k inp) \<le> psize ps" unfolding len by (simp add: k_def)
    note put = pipe_put [OF assms this, unfolded len]
    have p: "pipe_step ps (PWrite inp) = (Wrote (if k = 0 then PIPE_EAGAIN else int k) False,
        if k = 0 then ps else ?ps)"
      using write_nosleep [OF assms r, folded k_def] r by (simp add: pipe_step_def pipe_write_fn_def)
    have q: "queue_step (pipe_abs ps) (PWrite inp) = (Wrote (if k = 0 then PIPE_EAGAIN else int k) False,
        (pipe_abs ps)\<lparr>bq := pipe_bytes ps @ take k inp\<rparr>)"
      using r by (simp add: queue_step_def Let_def pipe_abs_def k_def [symmetric])
    have "pipe_abs ?ps = (pipe_abs ps)\<lparr>bq := pipe_bytes ps @ take k inp\<rparr>"
      using put by (simp add: pipe_abs_def)
    then show ?thesis
      unfolding p q using put(1) assms by (cases "k = 0") (simp_all add: pipe_abs_def)
  qed
  then show "pipe_inv (snd (pipe_step ps (PWrite inp)))"
    and "queue_step (pipe_abs ps) (PWrite inp)
       = (fst (pipe_step ps (PWrite inp)), pipe_abs (snd (pipe_step ps (PWrite inp))))" by blast+
qed

lemma poll_refines:
  "queue_step (pipe_abs ps) PPollIn = (fst (pipe_step ps PPollIn), pipe_abs (snd (pipe_step ps PPollIn)))"
  "queue_step (pipe_abs ps) PPollOut = (fst (pipe_step ps PPollOut), pipe_abs (snd (pipe_step ps PPollOut)))"
  by (simp_all add: queue_step_def pipe_step_def pipe_abs_def pipe_read_poll_def pipe_write_poll_def
      POLL_IN_def POLL_OUT_def POLL_HUP_def POLL_ERR_def pipe_bytes_empty Let_def)

interpretation pipe_queue: data_refinement pipe_inv pipe_abs pipe_step queue_step
proof
  fix ps x
  assume inv: "pipe_inv ps"
  have "pipe_inv (snd (pipe_step ps PPollIn))" "pipe_inv (snd (pipe_step ps PPollOut))"
    using inv by (simp_all add: pipe_step_def Let_def)
  then show "pipe_inv (snd (pipe_step ps x))"
    using read_refines(1) [OF inv] write_refines(1) [OF inv] by (cases x) simp_all
  show "queue_step (pipe_abs ps) x = (fst (pipe_step ps x), pipe_abs (snd (pipe_step ps x)))"
    using read_refines(2) [OF inv] write_refines(2) [OF inv] poll_refines by (cases x) simp_all
qed

section \<open>Lifetime\<close>

text \<open>The descriptions that are an end of the pipe at \<open>ps\<close>. A live pipe has as many readers and writers
  as it has live read and write ends, plus \<open>extra\<close> counted ends that no description stands for; it
  is live exactly while one of its counts is positive.\<close>

definition ends :: "(ptr \<rightharpoonup> nat option \<times> ptr) \<Rightarrow> nat \<Rightarrow> ptr \<Rightarrow> ptr set" where
  "ends K ops ps = {p. K p = Some (Some ops, ps)}"

definition end_counts :: "(ptr \<rightharpoonup> nat option \<times> ptr) \<Rightarrow> (ptr \<Rightarrow> nat \<times> nat) \<Rightarrow> ptr \<Rightarrow> nat \<times> nat" where
  "end_counts K extra ps =
     (card (ends K 1 ps) + fst (extra ps), card (ends K 2 ps) + snd (extra ps))"

definition pipe_ok :: "nat \<times> nat \<Rightarrow> pipe_state option \<Rightarrow> bool" where
  "pipe_ok c st \<longleftrightarrow>
     (case st of
        None \<Rightarrow> c = (0, 0)
      | Some ps \<Rightarrow> pipe_inv ps \<and> readers ps = int (fst c) \<and> writers ps = int (snd c) \<and> c \<noteq> (0, 0))"

definition pipe_winv ::
    "(ptr \<Rightarrow> nat \<times> nat) \<Rightarrow> (ptr \<rightharpoonup> nat option \<times> ptr) \<Rightarrow> pipe_world \<Rightarrow> bool" where
  "pipe_winv extra K w \<longleftrightarrow>
     (\<forall>ps. ps \<noteq> 0 \<longrightarrow> finite (ends K 1 ps) \<and> finite (ends K 2 ps) \<and>
        pipe_ok (end_counts K extra ps) (pipes w ps))"

lemma ends_gone: "ends (K(p := None)) ops ps = ends K ops ps - {p}"
  by (auto simp: ends_def)

lemma ends_other:
  "K p = Some (o1, q) \<Longrightarrow> o1 \<noteq> Some ops \<or> q \<noteq> ps \<Longrightarrow> ends (K(p := None)) ops ps = ends K ops ps"
  by (auto simp: ends_def)

lemma release_counts:
  assumes "pipe_winv extra K w" and "K p = Some (Some ops, ps)" and "ops = 1 \<or> ops = 2" and "ps \<noteq> 0"
  defines "c \<equiv> end_counts K extra ps"
  shows "end_counts (K(p := None)) extra ps = (if ops = 1 then (fst c - 1, snd c) else (fst c, snd c - 1))"
    and "if ops = 1 then 0 < fst c else 0 < snd c"
    and "q \<noteq> ps \<Longrightarrow> end_counts (K(p := None)) extra q = end_counts K extra q"
    and "q \<noteq> 0 \<Longrightarrow> finite (ends (K(p := None)) 1 q) \<and> finite (ends (K(p := None)) 2 q)"
proof -
  have fin: "finite (ends K 1 q)" "finite (ends K 2 q)" if "q \<noteq> 0" for q
    using assms(1) that by (auto simp: pipe_winv_def)
  have mem: "p \<in> ends K ops ps" using assms(2) by (simp add: ends_def)
  then have pos: "0 < card (ends K ops ps)" using fin [OF assms(4)] assms(3) by (auto simp: card_gt_0_iff)
  show "if ops = 1 then 0 < fst c else 0 < snd c"
    using pos assms(3) by (auto simp: c_def end_counts_def)
  have "card (ends (K(p := None)) ops ps) = card (ends K ops ps) - 1"
    using mem by (simp add: ends_gone)
  moreover have "ends (K(p := None)) ops' ps = ends K ops' ps" if "ops' \<noteq> ops" for ops'
    using ends_other [where K = K and p = p] assms(2) that by simp
  ultimately show "end_counts (K(p := None)) extra ps
      = (if ops = 1 then (fst c - 1, snd c) else (fst c, snd c - 1))"
    using pos assms(3) by (auto simp: c_def end_counts_def)
  show "q \<noteq> ps \<Longrightarrow> end_counts (K(p := None)) extra q = end_counts K extra q"
    using ends_other [where K = K and p = p] assms(2) by (simp add: end_counts_def)
  show "q \<noteq> 0 \<Longrightarrow> finite (ends (K(p := None)) 1 q) \<and> finite (ends (K(p := None)) 2 q)"
    using fin by (simp add: ends_gone)
qed

lemma pipe_winv_none:
  assumes "pipe_winv extra K w" and "K p = Some (ops, ps)"
    and "(ops \<noteq> Some 1 \<and> ops \<noteq> Some 2) \<or> ps = 0"
  shows "pipe_winv extra (K(p := None)) w"
proof -
  have "ends (K(p := None)) k q = ends K k q" if "q \<noteq> 0" "k = 1 \<or> k = 2" for k q
    using assms(2,3) that by (intro ends_other) auto
  then show ?thesis using assms(1) by (simp add: pipe_winv_def end_counts_def)
qed

lemma release_pipe_ok:
  assumes winv: "pipe_winv extra K w" and K: "K p = Some (Some ops, ps)" and ops: "ops = 1 \<or> ops = 2"
    and ps: "ps \<noteq> 0" and st: "pipes w ps = Some st"
  defines "st' \<equiv> (if ops = 1 then st\<lparr>readers := readers st - 1\<rparr> else st\<lparr>writers := writers st - 1\<rparr>)"
  shows "pipe_winv extra (K(p := None)) (pipe_maybe_free ps st' (w\<lparr>pipes := (pipes w)(ps \<mapsto> st')\<rparr>))"
proof -
  note c = release_counts [where K = K and p = p, OF winv K ops ps]
  have ok: "pipe_ok (end_counts K extra ps) (Some st)"
    using winv ps st unfolding pipe_winv_def by metis
  have "pipe_ok (end_counts (K(p := None)) extra ps)
      (if readers st' \<le> 0 \<and> writers st' \<le> 0 then None else Some st')"
    using ok c(1,2) ops
    by (auto simp: st'_def pipe_ok_def pipe_inv_def prod_eq_iff split: if_splits)
  moreover have "pipe_ok (end_counts (K(p := None)) extra q) (pipes w q)" if "q \<noteq> 0" "q \<noteq> ps" for q
    using c(3) [OF that(2)] winv that(1) by (simp add: pipe_winv_def)
  ultimately show ?thesis
    using c(4) unfolding pipe_winv_def by (auto simp: pipe_maybe_free_def)
qed

interpretation pipe_kind: file_kind "pipe_vt mb ws" "pipe_winv extra" for mb ws extra
proof
  fix K w p and fl :: file_t
  assume winv: "pipe_winv extra K w" and K: "K p = Some (f_ops fl, f_priv fl)"
  show "\<exists>rc w'. run_release (pipe_vt mb ws) fl w = Some (rc, w') \<and> pipe_winv extra (K(p := None)) w'"
  proof (cases "(f_ops fl = Some 1 \<or> f_ops fl = Some 2) \<and> f_priv fl \<noteq> 0")
    case False
    then have "run_release (pipe_vt mb ws) fl w = Some (0, w)"
      by (auto simp: run_release_def pipe_vt_def pipe_read_ops_def pipe_write_ops_def no_ops_def
          pipe_release_read_def pipe_release_write_def with_pipe_def split: option.splits)
    moreover have "pipe_winv extra (K(p := None)) w"
      using False by (intro pipe_winv_none [where K = K and p = p, OF winv K]) auto
    ultimately show ?thesis by blast
  next
    case True
    then obtain ops where ops: "f_ops fl = Some ops" "ops = 1 \<or> ops = 2" and ps: "f_priv fl \<noteq> 0" by auto
    note K' = K [unfolded ops(1)]
    have "pipe_ok (end_counts K extra (f_priv fl)) (pipes w (f_priv fl))"
      using winv ps by (simp add: pipe_winv_def)
    then obtain st where st: "pipes w (f_priv fl) = Some st"
      using release_counts(2) [where K = K and p = p, OF winv K' ops(2) ps] ops(2)
      by (cases "pipes w (f_priv fl)") (auto simp: pipe_ok_def split: if_splits)
    note ok = release_pipe_ok [where K = K and p = p, OF winv K' ops(2) ps st]
    show ?thesis
    proof (cases "ops = 1")
      case True
      then show ?thesis using ok ops ps st
        by (simp add: run_release_def pipe_vt_def pipe_read_ops_def pipe_release_read_def
            with_pipe_def Let_def)
    next
      case False
      then show ?thesis using ok ops ps st
        by (simp add: run_release_def pipe_vt_def pipe_write_ops_def pipe_release_write_def
            with_pipe_def Let_def)
    qed
  qed
qed

section \<open>Creation\<close>

lemma pipe_winv_gone:
  assumes "pipe_winv extra K w" and "ps \<noteq> 0" and "pipes w ps = None"
  shows "extra ps = (0, 0)" and "ends K 1 ps = {}" and "ends K 2 ps = {}"
proof -
  have "pipe_ok (end_counts K extra ps) None" using assms unfolding pipe_winv_def by metis
  then have "card (ends K 1 ps) = 0 \<and> fst (extra ps) = 0 \<and> card (ends K 2 ps) = 0 \<and> snd (extra ps) = 0"
    by (simp add: pipe_ok_def end_counts_def)
  moreover have "finite (ends K 1 ps)" "finite (ends K 2 ps)"
    using assms(1,2) unfolding pipe_winv_def by auto
  ultimately show "extra ps = (0, 0)" and "ends K 1 ps = {}" and "ends K 2 ps = {}"
    by (auto simp: prod_eq_iff)
qed

lemma pipe_winv_live:
  assumes "pipe_winv extra K w" and "ps \<noteq> 0" and "pipes w ps = Some st"
  shows "pipe_inv st" and "readers st = int (card (ends K 1 ps) + fst (extra ps))"
    and "writers st = int (card (ends K 2 ps) + snd (extra ps))"
    and "end_counts K extra ps \<noteq> (0, 0)"
proof -
  have "pipe_ok (end_counts K extra ps) (Some st)" using assms unfolding pipe_winv_def by metis
  then show "pipe_inv st" and "readers st = int (card (ends K 1 ps) + fst (extra ps))"
    and "writers st = int (card (ends K 2 ps) + snd (extra ps))"
    and "end_counts K extra ps \<noteq> (0, 0)"
    by (auto simp: pipe_ok_def end_counts_def)
qed

lemma new_pipe_winv:
  assumes "pipe_winv extra K w" and "ps \<noteq> 0" and "pipes w ps = None"
  shows "pipe_winv (extra(ps := (1, 1))) K (w\<lparr>pipes := (pipes w)(ps \<mapsto> new_pipe)\<rparr>)"
proof -
  have "pipe_ok (end_counts K extra ps) None" using assms unfolding pipe_winv_def by metis
  then have "end_counts K (extra(ps := (1, 1))) ps = (1, 1)"
    by (simp add: pipe_ok_def end_counts_def)
  then have "pipe_ok (end_counts K (extra(ps := (1, 1))) ps) (Some new_pipe)"
    using new_pipe_inv by (simp add: pipe_ok_def new_pipe_def)
  moreover have "end_counts K (extra(ps := (1, 1))) q = end_counts K extra q" if "q \<noteq> ps" for q
    using that by (simp add: end_counts_def)
  ultimately show ?thesis using assms(1) by (auto simp: pipe_winv_def)
qed

lemma end_added:
  assumes "pipe_winv extra K w" and "K p = None" and "ps \<noteq> 0"
    and "ops = 1 \<and> extra ps = (Suc a, b) \<and> c = (a, b) \<or> ops = 2 \<and> extra ps = (a, Suc b) \<and> c = (a, b)"
  shows "pipe_winv (extra(ps := c)) (K(p \<mapsto> (Some ops, ps))) w"
proof -
  have fin: "finite (ends K 1 q)" "finite (ends K 2 q)" if "q \<noteq> 0" for q
    using assms(1) that by (auto simp: pipe_winv_def)
  have e: "ends (K(p \<mapsto> (Some ops, ps))) k q = (if k = ops \<and> q = ps then insert p (ends K k q) else ends K k q)"
    for k q
    using assms(2) by (auto simp: ends_def)
  have "p \<notin> ends K k q" for k q using assms(2) by (simp add: ends_def)
  then have "end_counts (K(p \<mapsto> (Some ops, ps))) (extra(ps := c)) q = end_counts K extra q" if "q \<noteq> 0" for q
    using assms(4) fin [OF that] by (auto simp: end_counts_def e)
  then show ?thesis using assms(1) fin by (auto simp: pipe_winv_def e)
qed

text \<open>What \<open>kmalloc\<close> promises here: addresses that are not in use, and not \<open>NULL\<close>.\<close>

definition fresh_mem ::
    "pipe_world vfs \<Rightarrow> ptr option \<Rightarrow> ptr option \<Rightarrow> ptr option \<Rightarrow> bool" where
  "fresh_mem s km_ps km_rf km_wf \<longleftrightarrow>
     (\<forall>ps. km_ps = Some ps \<longrightarrow> ps \<noteq> 0 \<and> pipes (world s) ps = None) \<and>
     (\<forall>r. km_rf = Some r \<longrightarrow> files s r = None \<and> km_wf \<noteq> Some r) \<and>
     (\<forall>w. km_wf = Some w \<longrightarrow> files s w = None)"

text \<open>The state after both ends are allocated and named: each is held once, and the pipe's counts are
  exactly its two ends.\<close>

lemma create_ends:
  assumes inv: "kind_inv (pipe_winv extra) held s" and fresh: "fresh_mem s (Some ps) (Some r) (Some w)"
  defines "s1 \<equiv> s\<lparr>world := (world s)\<lparr>pipes := (pipes (world s))(ps \<mapsto> new_pipe)\<rparr>\<rparr>"
  defines "s2 \<equiv> snd (file_alloc (Some r) (Some 1) ps O_RDONLY s1)"
  defines "s3 \<equiv> snd (file_alloc (Some w) (Some 2) ps O_WRONLY s2)"
  shows "file_alloc (Some r) (Some 1) ps O_RDONLY s1 = (Some r, s2)"
    and "file_alloc (Some w) (Some 2) ps O_WRONLY s2 = (Some w, s3)"
    and "kind_inv (pipe_winv (extra(ps := (0, 1)))) (hold [Some r] held) s2"
    and "\<exists>s4 s5. file_set_path (Some r) (Some (''pipe:[read]'' @ [CHR 0x00])) s3 = Some s4 \<and>
      file_set_path (Some w) (Some (''pipe:[write]'' @ [CHR 0x00])) s4 = Some s5 \<and>
      kind_inv (pipe_winv extra) (hold [Some r] (hold [Some w] held)) s5 \<and> procs s5 = procs s"
proof -
  have ps: "ps \<noteq> 0" "pipes (world s) ps = None" and r: "files s r = None" and w: "files s w = None"
    and rw: "r \<noteq> w"
    using fresh by (auto simp: fresh_mem_def)
  have v: "vfs_inv held s" and win: "pipe_winv extra (kinds s) (world s)"
    using inv by (simp_all add: kind_inv_def)
  have k1: "kinds s1 = kinds s" "files s1 = files s" "procs s1 = procs s"
    by (simp_all add: s1_def kinds_def)
  have v1: "vfs_inv held s1" using v by (simp add: vfs_inv_def refs_def k1 cong: option.case_cong)
  have w1: "pipe_winv (extra(ps := (1, 1))) (kinds s1) (world s1)"
    using new_pipe_winv [OF win ps] by (simp add: k1) (simp add: s1_def)
  have K1: "kinds s1 r = None" using r by (simp add: k1 kinds_def)
  have "pipe_winv ((extra(ps := (1, 1)))(ps := (0, 1))) ((kinds s1)(r \<mapsto> (Some 1, ps))) (world s1)"
    by (rule end_added [OF w1 K1 ps(1), of 1 0 1]) simp
  then have w2: "pipe_winv (extra(ps := (0, 1))) ((kinds s1)(r \<mapsto> (Some 1, ps))) (world s1)" by simp
  have r1: "files s1 r = None" using r by (simp add: k1)
  note a = alloc_kind [where winv' = "pipe_winv (extra(ps := (0, 1)))" and flags = O_RDONLY,
      OF v1 r1 w2, folded s2_def]
  show "file_alloc (Some r) (Some 1) ps O_RDONLY s1 = (Some r, s2)" by (rule a(1))
  show i2: "kind_inv (pipe_winv (extra(ps := (0, 1)))) (hold [Some r] held) s2" by (rule a(2))
  have v2: "vfs_inv (hold [Some r] held) s2" and w2': "pipe_winv (extra(ps := (0, 1))) (kinds s2) (world s2)"
    using i2 by (simp_all add: kind_inv_def)
  have f2: "files s2 w = None" using a(7) [of w] rw w by (simp add: k1)
  then have K2: "kinds s2 w = None" by (simp add: kinds_def)
  have "pipe_winv ((extra(ps := (0, 1)))(ps := (0, 0))) ((kinds s2)(w \<mapsto> (Some 2, ps))) (world s2)"
    by (rule end_added [OF w2' K2 ps(1), of 2 0 0]) simp
  moreover have "extra ps = (0, 0)" by (rule pipe_winv_gone(1) [OF win ps])
  then have "(extra(ps := (0, 1)))(ps := (0, 0)) = extra" by auto
  ultimately have "pipe_winv extra ((kinds s2)(w \<mapsto> (Some 2, ps))) (world s2)" by simp
  note b = alloc_kind [where winv' = "pipe_winv extra" and flags = O_WRONLY,
      OF v2 f2 this, folded s3_def]
  show "file_alloc (Some w) (Some 2) ps O_WRONLY s2 = (Some w, s3)" by (rule b(1))
  obtain fr where fr: "files s3 r = Some fr" using a(6) b(7) [of r] rw by auto
  obtain s4 where s4: "file_set_path (Some r) (Some (''pipe:[read]'' @ [CHR 0x00])) s3 = Some s4"
    "kind_inv (pipe_winv extra) (hold [Some w] (hold [Some r] held)) s4" "procs s4 = procs s3"
    "kinds s4 = kinds s3"
    using set_path_ok [OF b(2) fr, of "''pipe:[read]'' @ [CHR 0x00]"] by auto
  have "kinds s4 w \<noteq> None" using b(5) s4(4) by simp
  then obtain fw where fw: "files s4 w = Some fw" by (auto simp: kinds_def)
  obtain s5 where s5: "file_set_path (Some w) (Some (''pipe:[write]'' @ [CHR 0x00])) s4 = Some s5"
    "kind_inv (pipe_winv extra) (hold [Some w] (hold [Some r] held)) s5" "procs s5 = procs s4"
    using set_path_ok [OF s4(2) fw, of "''pipe:[write]'' @ [CHR 0x00]"] by auto
  show "\<exists>s4 s5. file_set_path (Some r) (Some (''pipe:[read]'' @ [CHR 0x00])) s3 = Some s4 \<and>
      file_set_path (Some w) (Some (''pipe:[write]'' @ [CHR 0x00])) s4 = Some s5 \<and>
      kind_inv (pipe_winv extra) (hold [Some r] (hold [Some w] held)) s5 \<and> procs s5 = procs s"
    using s4 s5 a(3) b(3) k1(3) by (auto simp: hold_commute)
qed

text \<open>The installation half, with its two unwinding paths.\<close>

lemma create_install:
  assumes inv: "kind_inv (pipe_winv extra) (hold [Some r] (hold [Some w] held)) s5"
    and a: "fd_alloc_install_on cur (Some r) s5 = (rfd, s6)"
    and b: "fd_alloc_install_on cur (Some w) s6 = (wfd, s7)"
  shows "rfd < 0 \<Longrightarrow> \<exists>x y t u. file_put (pipe_vt mb ws) (Some r) s6 = Some (x, t) \<and>
      file_put (pipe_vt mb ws) (Some w) t = Some (y, u) \<and> kind_inv (pipe_winv extra) held u"
    and "\<not> rfd < 0 \<Longrightarrow> wfd < 0 \<Longrightarrow> \<exists>x y t u. fd_close_on (pipe_vt mb ws) cur rfd s7 = Some (x, t) \<and>
      file_put (pipe_vt mb ws) (Some w) t = Some (y, u) \<and> kind_inv (pipe_winv extra) held u"
    and "\<not> rfd < 0 \<Longrightarrow> \<not> wfd < 0 \<Longrightarrow> kind_inv (pipe_winv extra) held s7 \<and>
      fd_get cur rfd s7 = Some r \<and> fd_get cur wfd s7 = Some w \<and> rfd \<noteq> wfd"
proof -
  note K = pipe_kind.put_ok [where mb = mb and ws = ws and extra = extra]
  have first: "if rfd \<ge> 0 then kind_inv (pipe_winv extra) (hold [Some w] held) s6 else s6 = s5"
    by (rule pipe_kind.install_ok [OF inv a])
  show "\<exists>x y t u. file_put (pipe_vt mb ws) (Some r) s6 = Some (x, t) \<and>
      file_put (pipe_vt mb ws) (Some w) t = Some (y, u) \<and> kind_inv (pipe_winv extra) held u" if "rfd < 0"
    using first that K [OF inv] K [where f = "Some w" and held = held] by (simp add: not_le) metis
  assume "\<not> rfd < 0"
  then have i6: "kind_inv (pipe_winv extra) (hold [Some w] held) s6" using first by simp
  have second: "if wfd \<ge> 0 then kind_inv (pipe_winv extra) held s7 else s7 = s6"
    by (rule pipe_kind.install_ok [OF i6 b])
  show "\<exists>x y t u. fd_close_on (pipe_vt mb ws) cur rfd s7 = Some (x, t) \<and>
      file_put (pipe_vt mb ws) (Some w) t = Some (y, u) \<and> kind_inv (pipe_winv extra) held u" if "wfd < 0"
    using second that pipe_kind.close_ok [where mb = mb and ws = ws, OF i6, of cur rfd]
      K [where f = "Some w" and held = held] by (simp add: not_le) metis
  assume "\<not> wfd < 0"
  note s1 = install_slot [OF _ a, of "hold [Some r] (hold [Some w] held)"]
    and s2 = install_slot [OF _ b, of "hold [Some w] held"]
  have "fd_get cur rfd s6 = Some r" using s1(1) inv \<open>\<not> rfd < 0\<close> by (simp add: kind_inv_def)
  moreover have "fd_get cur wfd s7 = Some w" "fd_get cur wfd s6 = None"
    using s2(1,2) i6 \<open>\<not> wfd < 0\<close> by (simp_all add: kind_inv_def)
  moreover have "rfd \<noteq> wfd \<Longrightarrow> fd_get cur rfd s7 = fd_get cur rfd s6"
    using s2(3) [of rfd] i6 \<open>\<not> wfd < 0\<close> by (simp add: kind_inv_def)
  ultimately show "kind_inv (pipe_winv extra) held s7 \<and> fd_get cur rfd s7 = Some r \<and>
      fd_get cur wfd s7 = Some w \<and> rfd \<noteq> wfd"
    using second \<open>\<not> wfd < 0\<close> by (cases "rfd = wfd") auto
qed

section \<open>Properties\<close>

definition demo_pipe :: pipe_state where
  "demo_pipe = \<lparr>buf = [7, 0, 5, 6], psize = 4, read_pos = 2, write_pos = 1, pcount = 3,
     readers = 1, writers = 1\<rparr>"

lemma demo_pipe_inv: "pipe_inv demo_pipe" "pipe_bytes demo_pipe = [5, 6, 7]"
  by (simp_all add: pipe_inv_def demo_pipe_def PIPE_BUF_SIZE_def pipe_bytes_def ring_contents_def upt_rec)

text \<open>C9: a pipe is a bounded FIFO of bytes. For every sequence of reads, writes and readiness queries in
  a context that does not sleep, the ring buffer answers exactly what a byte queue of the same
  capacity answers: bytes come out in the order they went in, none is lost or duplicated across the
  wrap of the ring, a full ring refuses with \<open>-EAGAIN\<close> and a pipe without readers with \<open>-EPIPE\<close>.\<close>

theorem pipe_refines_queue:
  assumes "pipe_inv ps"
  shows "pipe_inv (snd (run_ops pipe_step ps xs)) \<and>
    run_ops queue_step (pipe_abs ps) xs
      = (fst (run_ops pipe_step ps xs), pipe_abs (snd (run_ops pipe_step ps xs)))"
  using pipe_queue.run_inv [OF assms] pipe_queue.run_sim [OF assms] by blast

theorem pipe_refines_queue_witness:
  "pipe_inv demo_pipe \<and>
   fst (run_ops pipe_step demo_pipe [PWrite [8, 9], PRead 2, PRead 9])
     = fst (run_ops queue_step (pipe_abs demo_pipe) [PWrite [8, 9], PRead 2, PRead 9])"
  using pipe_refines_queue [OF demo_pipe_inv(1), of "[PWrite [8, 9], PRead 2, PRead 9]"] demo_pipe_inv(1)
  by simp

text \<open>C26: a read invents no end of file. For a count that is not a multiple of \<open>2^32\<close>, whatever the
  other parties do while the call sleeps: the answer 0 means an empty pipe without writers, a positive
  answer is the number of bytes taken from the front of the pipe, the only other answer is \<open>-EINTR\<close>,
  and a call that stays parked faces an empty pipe that still has a writer.\<close>

theorem pipe_read_no_false_eof:
  assumes "pipe_inv ps" and "wakes_ok ws" and "count mod 2 ^ 32 \<noteq> 0"
    and "pipe_read_fn ps count ws = (res, ps')"
  shows "case res of
      None \<Rightarrow> pcount ps' = 0 \<and> 0 < writers ps'
    | Some (r, bs) \<Rightarrow>
        (r = 0 \<longrightarrow> bs = [] \<and> pcount ps' = 0 \<and> writers ps' \<le> 0) \<and> (r < 0 \<longrightarrow> r = -4 \<and> bs = []) \<and>
        (0 < r \<longrightarrow> r = int (length bs) \<and> pipe_inv ps' \<and>
           (\<exists>q\<in>insert ps (snd ` set ws). pipe_bytes q = bs @ pipe_bytes ps'))"
proof -
  have c: "count \<noteq> 0" using assms(3) by auto
  obtain o1 q where rw: "read_wait ps ws = (o1, q)" by fastforce
  note w = read_wait_cases [of ps ws, unfolded rw]
  show ?thesis
  proof (cases "\<exists>u. o1 = Some (Inr u)")
    case True
    then have q: "pcount q \<noteq> 0" "q \<in> insert ps (snd ` set ws)" using w by auto
    have inv: "pipe_inv q" using q(2) assms(1,2) by (auto simp: wakes_ok_def list_all_iff)
    define k where "k = (if count mod 2 ^ 32 < pcount q then count mod 2 ^ 32 else pcount q)"
    have k: "k \<le> pcount q" "0 < k" using q(1) assms(3) by (auto simp: k_def)
    note t = pipe_take [OF inv k(1)]
    have "res = Some (int k, fst (ring_read k q))"
      "ps' = (snd (ring_read k q))\<lparr>pcount := pcount (snd (ring_read k q)) - k\<rparr>"
      using assms(4) c True by (auto simp: pipe_read_fn_def rw Let_def k_def split: prod.splits)
    moreover have "length (fst (ring_read k q)) = k" using t(1) k(1) by simp
    ultimately show ?thesis using t k(2) q(2) by auto
  next
    case False
    then show ?thesis
      using assms(4) c w
      by (auto simp: pipe_read_fn_def rw split: option.splits sum.splits)
  qed
qed

theorem pipe_read_no_false_eof_witness:
  "wakes_ok [(WAIT_OK, demo_pipe)] \<and>
   fst (pipe_read_fn (new_pipe) 2 [(WAIT_OK, demo_pipe)]) = Some (2, [5, 6])"
proof -
  obtain res ps' where r: "pipe_read_fn new_pipe 2 [(WAIT_OK, demo_pipe)] = (res, ps')" by fastforce
  have ok: "wakes_ok [(WAIT_OK, demo_pipe)]" using demo_pipe_inv(1) by (simp add: wakes_ok_def)
  have rr: "fst (ring_read 2 demo_pipe) = [5, 6]"
    using pipe_take(1) [OF demo_pipe_inv(1), of 2] demo_pipe_inv(2) by (simp add: demo_pipe_def)
  have n: "pcount demo_pipe = 3" "pcount new_pipe = 0" "writers new_pipe = 1"
    by (simp_all add: demo_pipe_def new_pipe_def)
  have "read_wait new_pipe [(WAIT_OK, demo_pipe)] = (Some (Inr ()), demo_pipe)"
    by (simp add: read_wait.simps n)
  then have "res = Some (2, [5, 6])"
    using r rr by (simp add: pipe_read_fn_def Let_def split_beta n prod_eq_iff)
  with pipe_read_no_false_eof [OF new_pipe_inv(1) ok _ r] ok r show ?thesis by simp
qed

text \<open>A count that is a multiple of \<open>2^32\<close> is truncated to 0, so a non-empty pipe answers 0, the end
  of file, and keeps its bytes.\<close>

theorem pipe_read_truncated_count:
  assumes "pipe_inv ps" and "pcount ps \<noteq> 0"
  shows "fst (pipe_read_fn ps (2 ^ 32 * m) ws) = Some (0, []) \<and>
    pipe_bytes (snd (pipe_read_fn ps (2 ^ 32 * m) ws)) = pipe_bytes ps"
  using assms
  by (auto simp: pipe_read_fn_def read_wait.simps [of ps ws] Let_def pipe_bytes_def)

theorem pipe_read_truncated_count_witness:
  "pcount demo_pipe \<noteq> 0 \<and> fst (pipe_read_fn demo_pipe 4294967296 []) = Some (0, [])"
  using pipe_read_truncated_count [OF demo_pipe_inv(1), of 1 "[]"] by (simp add: demo_pipe_def)

text \<open>C25: writes. For a buffer of at least one and fewer than \<open>2^32\<close> bytes (for a longer one the
  decision function clamps the answer to \<open>2^32 - 1\<close>, which need not be the number of bytes written): whatever the other parties do
  while a write sleeps, the bytes it put into the ring are a prefix of its buffer in order, a non-negative answer is exactly their number and is never 0, an
  error means no byte was written, \<open>SIGPIPE\<close> is raised exactly with \<open>-EPIPE\<close> and only on a pipe
  without readers, and a call that stays parked faces a full ring with a live reader.\<close>

theorem pipe_write_counts:
  assumes "pipe_inv ps" and "wakes_ok ws" and "inp \<noteq> []" and "length inp < 2 ^ 32"
    and "pipe_write_fn mb ps inp ws = (r, bs, sig, ps')"
  shows "pipe_inv ps' \<and> bs = take (length bs) inp \<and>
    write_answer mb (length inp) (length bs) r sig ps'"
proof -
  have "write_loop mb inp 0 False ps ws = (r, bs, sig, ps')"
    using assms(3,5) by (simp add: pipe_write_fn_def)
  from write_loop_spec [OF assms(1,2) _ assms(4) this] obtain k where
    "pipe_inv ps'" "bs = take k inp" "k \<le> length inp" "write_answer mb (length inp) k r sig ps'" by auto
  then show ?thesis by (simp add: min_absorb2)
qed

theorem pipe_write_counts_witness:
  "\<exists>bs sig ps'. pipe_write_fn False demo_pipe [1, 2] [] = (Some 1, bs, sig, ps') \<and> bs = [1] \<and> pipe_inv ps'"
proof -
  obtain r bs sig ps' where e: "pipe_write_fn False demo_pipe [1, 2] [] = (r, bs, sig, ps')"
    by (metis prod_cases4)
  have "min (length [1, 2 :: u8]) (psize demo_pipe - pcount demo_pipe) = 1" by (simp add: demo_pipe_def)
  then have "r = Some 1" "bs = [1]"
    using e write_nosleep [OF demo_pipe_inv(1), of "[1, 2]"]
    by (simp_all add: pipe_write_fn_def demo_pipe_def)
  with pipe_write_counts [OF demo_pipe_inv(1) _ _ _ e] show ?thesis by (auto simp: wakes_ok_def e)
qed

text \<open>C18: pipe lifetime. While every counted end is a live description, closing a descriptor or exiting a
  process keeps it so: after it a pipe's buffer is allocated exactly while some description is one of
  its ends, so it is neither freed under an open end nor kept after the last one.\<close>

theorem pipe_lifetime:
  assumes "kind_inv (pipe_winv (\<lambda>_. (0, 0))) held s"
    and "fd_close_on (pipe_vt mb ws) cur fd s = Some (r, t) \<or> fd_close_all (pipe_vt mb ws) cur s = Some t"
  shows "kind_inv (pipe_winv (\<lambda>_. (0, 0))) held t \<and>
    (\<forall>ps. ps \<noteq> 0 \<longrightarrow> (pipes (world t) ps = None \<longleftrightarrow> ends (kinds t) 1 ps = {} \<and> ends (kinds t) 2 ps = {}))"
proof -
  have inv: "kind_inv (pipe_winv (\<lambda>_. (0, 0))) held t"
    using pipe_kind.close_ok [where mb = mb and ws = ws, OF assms(1), of cur fd]
      pipe_kind.close_all_ok [where mb = mb and ws = ws, OF assms(1), of cur] assms(2) by auto
  then have win: "pipe_winv (\<lambda>_. (0, 0)) (kinds t) (world t)" by (simp add: kind_inv_def)
  have "pipes (world t) ps = None \<longleftrightarrow> ends (kinds t) 1 ps = {} \<and> ends (kinds t) 2 ps = {}"
    if "ps \<noteq> 0" for ps
  proof (cases "pipes (world t) ps")
    case None
    then show ?thesis using pipe_winv_gone [OF win that] by simp
  next
    case (Some st)
    then show ?thesis using pipe_winv_live(4) [OF win that] by (auto simp: end_counts_def)
  qed
  with inv show ?thesis by blast
qed

definition demo_pipe_vfs :: "pipe_world vfs" where
  "demo_pipe_vfs = fd_start 1 \<lparr>pipes = Map.empty, sigpipes = 0\<rparr>"

lemma demo_pipe_vfs_inv: "kind_inv (pipe_winv (\<lambda>_. (0, 0))) (\<lambda>_. 0) demo_pipe_vfs"
proof -
  have "pipe_winv (\<lambda>_. (0, 0)) (kinds demo_pipe_vfs) (world demo_pipe_vfs)"
    by (simp add: demo_pipe_vfs_def fd_start_def pipe_winv_def ends_def kinds_def end_counts_def pipe_ok_def)
  moreover have "vfs_inv (\<lambda>_. 0) demo_pipe_vfs" unfolding demo_pipe_vfs_def by (rule fd_start_inv)
  ultimately show ?thesis by (simp add: kind_inv_def)
qed

theorem pipe_lifetime_witness:
  "\<exists>t. fd_close_all (pipe_vt True []) (Some 0) demo_pipe_vfs = Some t \<and>
     kind_inv (pipe_winv (\<lambda>_. (0, 0))) (\<lambda>_. 0) t"
proof -
  obtain t where t: "fd_close_all (pipe_vt True []) (Some 0) demo_pipe_vfs = Some t"
    using pipe_kind.close_all_ok [OF demo_pipe_vfs_inv] by blast
  with pipe_lifetime [OF demo_pipe_vfs_inv] show ?thesis by blast
qed

text \<open>C27: creating a pipe. With fresh memory, \<open>pipe_create\<close> touches no freed object on any path; it
  answers 0 with two different descriptors, the first the read end and the second the write end, or
  -1; and on every path except the one where the second description cannot be allocated, references
  and pipe counts are exact afterwards, so a failure leaves nothing behind.\<close>

theorem pipe_create_spec:
  assumes inv: "kind_inv (pipe_winv extra) held s" and fresh: "fresh_mem s km_ps km_rf km_wf"
    and nofail: "km_wf \<noteq> None"
  shows "\<exists>rc pr t. pipe_create (pipe_vt mb ws) km_ps km_buf km_rf km_wf cur s = Some ((rc, pr), t) \<and>
    kind_inv (pipe_winv extra) held t \<and>
    (case pr of
       None \<Rightarrow> rc = -1
     | Some (rfd, wfd) \<Rightarrow> rc = 0 \<and> rfd \<noteq> wfd \<and> fd_get cur rfd t = km_rf \<and> fd_get cur wfd t = km_wf)"
proof (cases "km_ps = None \<or> km_buf = None \<or> km_rf = None")
  case True
  then show ?thesis
  proof (cases "km_ps = None \<or> km_buf = None")
    case False
    with True obtain ps where ps: "km_ps = Some ps" "km_buf \<noteq> None" "km_rf = None" by auto
    have "pipes (world s) ps = None" using fresh ps by (auto simp: fresh_mem_def)
    then have "(pipes (world s))(ps := None) = pipes (world s)" by auto
    then have "pipe_create (pipe_vt mb ws) km_ps km_buf km_rf km_wf cur s = Some ((-1, None), s)"
      using ps by (simp add: pipe_create_def file_alloc_def Let_def)
    with inv show ?thesis by auto
  qed (use inv in \<open>auto simp: pipe_create_def split: option.splits\<close>)
next
  case False
  then obtain ps b r w where km: "km_ps = Some ps" "km_buf = Some b" "km_rf = Some r" "km_wf = Some w"
    using nofail by auto
  define s1 where "s1 = s\<lparr>world := (world s)\<lparr>pipes := (pipes (world s))(ps \<mapsto> new_pipe)\<rparr>\<rparr>"
  define s2 where "s2 = snd (file_alloc (Some r) (Some 1) ps O_RDONLY s1)"
  define s3 where "s3 = snd (file_alloc (Some w) (Some 2) ps O_WRONLY s2)"
  note e = create_ends [OF inv fresh [unfolded km], folded s1_def, folded s2_def, folded s3_def]
  obtain s4 s5 where s45: "file_set_path (Some r) (Some (''pipe:[read]'' @ [CHR 0x00])) s3 = Some s4"
    "file_set_path (Some w) (Some (''pipe:[write]'' @ [CHR 0x00])) s4 = Some s5"
    and i5: "kind_inv (pipe_winv extra) (hold [Some r] (hold [Some w] held)) s5"
    using e(4) by blast
  obtain rfd s6 where a: "fd_alloc_install_on cur (Some r) s5 = (rfd, s6)" by fastforce
  obtain wfd s7 where b: "fd_alloc_install_on cur (Some w) s6 = (wfd, s7)" by fastforce
  note ins = create_install(1,2) [where mb = mb and ws = ws, OF i5 a b] create_install(3) [OF i5 a b]
  have pc: "pipe_create (pipe_vt mb ws) km_ps km_buf km_rf km_wf cur s =
      (if rfd < 0 then
         Option.bind (file_put (pipe_vt mb ws) (Some r) s6) (\<lambda>(_, t).
         map_option (\<lambda>(_, t). ((-1, None), t)) (file_put (pipe_vt mb ws) (Some w) t))
       else if wfd < 0 then
         Option.bind (fd_close_on (pipe_vt mb ws) cur rfd s7) (\<lambda>(_, t).
         map_option (\<lambda>(_, t). ((-1, None), t)) (file_put (pipe_vt mb ws) (Some w) t))
       else Some ((0, Some (rfd, wfd)), s7))"
    unfolding pipe_create_def km Let_def option.case s1_def [symmetric]
    by (simp add: e(1,2) s45 a b del: One_nat_def append_Cons)
  consider "rfd < 0" | "\<not> rfd < 0" "wfd < 0" | "\<not> rfd < 0" "\<not> wfd < 0" by blast
  then show ?thesis
  proof cases
    case 1
    from ins(1) [OF 1] 1 show ?thesis by (auto simp: pc)
  next
    case 2
    from ins(2) [OF 2] 2 show ?thesis by (auto simp: pc)
  next
    case 3
    then show ?thesis using ins(3) [OF 3] unfolding pc by (simp add: km)
  qed
qed

theorem pipe_create_spec_witness:
  "\<exists>t. pipe_create (pipe_vt True []) (Some 100) (Some 200) (Some 7) (Some 8) None demo_pipe_vfs
        = Some ((-1, None), t) \<and> kind_inv (pipe_winv (\<lambda>_. (0, 0))) (\<lambda>_. 0) t"
proof -
  have f: "fresh_mem demo_pipe_vfs (Some 100) (Some 7) (Some 8)"
    by (simp add: fresh_mem_def demo_pipe_vfs_def fd_start_def)
  have g: "fd_get None fd t = None" for fd and t :: "pipe_world vfs"
    by (simp add: fd_get_def proc_of_def)
  from pipe_create_spec [OF demo_pipe_vfs_inv f, of True "[]" "Some 200" None] show ?thesis
    by (auto simp: g split: option.splits) (metis not_Some_eq surj_pair)
qed

text \<open>The leaking path. When the description of the write end cannot be allocated, \<open>pipe_create\<close>
  puts the read end back and answers -1, but the pipe keeps counting one writer that no description
  stands for: its state and its 64 KB buffer stay allocated although no description is an end of it.\<close>

theorem pipe_create_leak:
  assumes inv: "kind_inv (pipe_winv (\<lambda>_. (0, 0))) held s" and r: "files s r = None"
    and ps: "ps \<noteq> 0" "pipes (world s) ps = None"
  shows "\<exists>t st. pipe_create (pipe_vt mb ws) (Some ps) (Some b) (Some r) None cur s = Some ((-1, None), t) \<and>
    pipes (world t) ps = Some st \<and> readers st = 0 \<and> writers st = 1 \<and>
    ends (kinds t) 1 ps = {} \<and> ends (kinds t) 2 ps = {}"
proof -
  let ?fl = "\<lparr>f_ops = Some 1, f_priv = ps, f_flags = O_RDONLY, refcount = 0, path = []\<rparr>"
  have win: "pipe_winv (\<lambda>_. (0, 0)) (kinds s) (world s)" using inv by (simp add: kind_inv_def)
  note g = pipe_winv_gone [OF win ps]
  let ?st = "new_pipe\<lparr>readers := 0\<rparr>"
  have pc: "pipe_create (pipe_vt mb ws) (Some ps) (Some b) (Some r) None cur s
      = Some ((-1, None), s\<lparr>files := (files s)(r := None),
          world := (world s)\<lparr>pipes := (pipes (world s))(ps \<mapsto> ?st)\<rparr>\<rparr>)"
    using ps by (simp add: pipe_create_def file_alloc_def file_put_def run_release_def pipe_vt_def
        pipe_read_ops_def pipe_release_read_def with_pipe_def pipe_maybe_free_def new_pipe_def Let_def)
  have "kinds (s\<lparr>files := (files s)(r := None), world := w\<rparr>) = kinds s" for w
    using r by (auto simp: kinds_def)
  with g pc show ?thesis by (simp add: new_pipe_def)
qed

theorem pipe_create_leak_witness:
  "\<exists>t. pipe_create (pipe_vt True []) (Some 100) (Some 200) (Some 7) None None demo_pipe_vfs
        = Some ((-1, None), t) \<and> pipes (world t) 100 \<noteq> None"
proof -
  have "files demo_pipe_vfs 7 = None" "(100::nat) \<noteq> 0" "pipes (world demo_pipe_vfs) 100 = None"
    by (simp_all add: demo_pipe_vfs_def fd_start_def)
  from pipe_create_leak [OF demo_pipe_vfs_inv this, of True "[]" 200 None] show ?thesis by auto
qed

end
