(* ===== verification/Msg.thy ===== *)
theory Msg
  imports MOS_Prelude
begin

text \<open>
  Message passing, \<open>kernel/ipc/msg.c\<close>: the table of channels, each with a heap-allocated server
  connection and eight client connections, the four-message receive queue of a connection, the
  system calls, process cleanup, and the name service.

  A connection is named by its place: the server connection of a channel or a client slot. A channel's
  id is its index in the table. Only the first \<open>size\<close> bytes of a message are ever read, so a message
  carries its payload. The \<open>peer\<close> pointer of a connection is set and never read; it is left out. The
  current process is its pid, \<open>None\<close> when there is none. A user pointer that faults is \<open>None\<close>.
\<close>

section \<open>State\<close>

definition MSG_MAX_CHANNELS :: nat where "MSG_MAX_CHANNELS = 16"
definition MSG_MAX_CONNECTIONS :: nat where "MSG_MAX_CONNECTIONS = 8"
definition MSG_MAX_SIZE :: nat where "MSG_MAX_SIZE = 4096"
definition MSG_QUEUE_SIZE :: nat where "MSG_QUEUE_SIZE = 4"

datatype msg_conn_state = MSG_CONN_FREE | MSG_CONN_PENDING | MSG_CONN_CONNECTED | MSG_CONN_CLOSED

datatype msg_chan_state = MSG_CHAN_FREE | MSG_CHAN_ACTIVE

record msg =
  sender_pid :: u32
  timestamp :: u64
  payload :: "u8 list"

record msg_queue =
  messages :: "msg list"
  qhead :: nat
  qtail :: nat
  qcount :: nat

record msg_connection =
  conn_id :: int
  conn_state :: msg_conn_state
  channel_id :: int
  owner_pid :: u32
  peer_pid :: u32
  recv_queue :: msg_queue

record msg_channel =
  chan_state :: msg_chan_state
  creator_pid :: u32
  server_conn :: "msg_connection option"
  connections :: "msg_connection list"
  num_connections :: u32

record msg_sys =
  msg_channels :: "msg_channel list"
  next_conn_id :: int

datatype conn_loc = Srv nat | Cli nat nat

section \<open>Helpers\<close>

definition blank_msg :: msg where "blank_msg = \<lparr>sender_pid = 0, timestamp = 0, payload = []\<rparr>"

definition empty_queue :: msg_queue where
  "empty_queue = \<lparr>messages = replicate MSG_QUEUE_SIZE blank_msg, qhead = 0, qtail = 0, qcount = 0\<rparr>"

text \<open>\<open>next_conn_id++\<close> on a 32-bit \<open>int\<close>: the machine wraps around (C leaves the overflow undefined).\<close>

definition MSG_ID_MAX :: int where "MSG_ID_MAX = 2 ^ 31 - 1"

definition next_id :: "int \<Rightarrow> int" where
  "next_id k = (if k = MSG_ID_MAX then - (2 ^ 31) else k + 1)"

definition zero_conn :: msg_connection where
  "zero_conn = \<lparr>conn_id = 0, conn_state = MSG_CONN_FREE, channel_id = 0, owner_pid = 0, peer_pid = 0,
     recv_queue = empty_queue\<rparr>"

definition zero_chan :: msg_channel where
  "zero_chan = \<lparr>chan_state = MSG_CHAN_FREE, creator_pid = 0, server_conn = None,
     connections = replicate MSG_MAX_CONNECTIONS zero_conn, num_connections = 0\<rparr>"

definition msg_get_channel :: "msg_sys \<Rightarrow> int \<Rightarrow> nat option" where
  "msg_get_channel s cid =
     (if cid < 0 \<or> cid \<ge> int MSG_MAX_CHANNELS then None
      else if chan_state (msg_channels s ! nat cid) = MSG_CHAN_FREE then None
      else Some (nat cid))"

text \<open>The search inside one channel, then over the table.\<close>

definition chan_find :: "msg_channel \<Rightarrow> int \<Rightarrow> nat \<Rightarrow> conn_loc option" where
  "chan_find ch cid c =
     (if chan_state ch = MSG_CHAN_FREE then None
      else if (case server_conn ch of None \<Rightarrow> False | Some sc \<Rightarrow> conn_id sc = cid) then Some (Srv c)
      else map_option (Cli c)
        (find_idx (\<lambda>cn. conn_state cn \<noteq> MSG_CONN_FREE \<and> conn_id cn = cid) (connections ch)))"

primrec find_from :: "msg_channel list \<Rightarrow> int \<Rightarrow> nat \<Rightarrow> conn_loc option" where
  "find_from [] cid c = None"
| "find_from (ch # chs) cid c =
     (case chan_find ch cid c of Some l \<Rightarrow> Some l | None \<Rightarrow> find_from chs cid (Suc c))"

definition msg_get_connection :: "msg_sys \<Rightarrow> int \<Rightarrow> conn_loc option" where
  "msg_get_connection s cid = find_from (msg_channels s) cid 0"

definition loc_chan :: "conn_loc \<Rightarrow> nat" where
  "loc_chan l = (case l of Srv c \<Rightarrow> c | Cli c i \<Rightarrow> c)"

definition conn_at :: "msg_sys \<Rightarrow> conn_loc \<Rightarrow> msg_connection option" where
  "conn_at s l =
     (case l of
        Srv c \<Rightarrow> server_conn (msg_channels s ! c)
      | Cli c i \<Rightarrow> Some (connections (msg_channels s ! c) ! i))"

definition upd_chan :: "nat \<Rightarrow> (msg_channel \<Rightarrow> msg_channel) \<Rightarrow> msg_sys \<Rightarrow> msg_sys" where
  "upd_chan c f s = s\<lparr>msg_channels := (msg_channels s)[c := f (msg_channels s ! c)]\<rparr>"

definition set_conn :: "conn_loc \<Rightarrow> msg_connection \<Rightarrow> msg_sys \<Rightarrow> msg_sys" where
  "set_conn l cn s =
     (case l of
        Srv c \<Rightarrow> upd_chan c (\<lambda>ch. ch\<lparr>server_conn := Some cn\<rparr>) s
      | Cli c i \<Rightarrow> upd_chan c (\<lambda>ch. ch\<lparr>connections := (connections ch)[i := cn]\<rparr>) s)"

text \<open>A free client slot gets a new id, the channel's id and an empty queue.\<close>

definition msg_alloc_connection :: "nat \<Rightarrow> msg_sys \<Rightarrow> nat option \<times> msg_sys" where
  "msg_alloc_connection c s =
     (case find_idx (\<lambda>cn. conn_state cn = MSG_CONN_FREE) (connections (msg_channels s ! c)) of
        None \<Rightarrow> (None, s)
      | Some i \<Rightarrow>
          (Some i,
           set_conn (Cli c i)
             ((connections (msg_channels s ! c) ! i)\<lparr>conn_id := next_conn_id s,
                channel_id := int c, recv_queue := empty_queue\<rparr>)
             (s\<lparr>next_conn_id := next_id (next_conn_id s)\<rparr>)))"

definition msg_queue_message ::
    "msg_connection \<Rightarrow> u8 list \<Rightarrow> u32 \<Rightarrow> u64 \<Rightarrow> int \<times> msg_connection" where
  "msg_queue_message cn data sender ticks =
     (let q = recv_queue cn in
      if qcount q \<ge> MSG_QUEUE_SIZE then (-1, cn)
      else
        let sz = (if length data > MSG_MAX_SIZE then MSG_MAX_SIZE else length data);
            m = \<lparr>sender_pid = sender, timestamp = ticks, payload = take sz data\<rparr>
        in (0, cn\<lparr>recv_queue := q\<lparr>messages := (messages q)[qtail q := m],
                  qtail := (qtail q + 1) mod MSG_QUEUE_SIZE, qcount := qcount q + 1\<rparr>\<rparr>))"

definition msg_dequeue_message ::
    "msg_connection \<Rightarrow> nat \<Rightarrow> (int \<times> u8 list) \<times> msg_connection" where
  "msg_dequeue_message cn max_len =
     (let q = recv_queue cn in
      if qcount q = 0 then ((0, []), cn)
      else
        let m = messages q ! qhead q;
            copy_len = (if length (payload m) < max_len then length (payload m) else max_len)
        in ((int copy_len, take copy_len (payload m)),
            cn\<lparr>recv_queue := q\<lparr>qhead := (qhead q + 1) mod MSG_QUEUE_SIZE, qcount := qcount q - 1\<rparr>\<rparr>))"

section \<open>System calls\<close>

definition msg_init :: "msg_sys \<Rightarrow> msg_sys" where
  "msg_init s = s\<lparr>msg_channels := replicate MSG_MAX_CHANNELS zero_chan\<rparr>"

definition sys_msg_create_channel :: "u32 option \<Rightarrow> bool \<Rightarrow> msg_sys \<Rightarrow> int \<times> msg_sys" where
  "sys_msg_create_channel cur kmalloc_ok s =
     (case cur of
        None \<Rightarrow> (-1, s)
      | Some pid \<Rightarrow>
          (case find_idx (\<lambda>ch. chan_state ch = MSG_CHAN_FREE) (msg_channels s) of
             None \<Rightarrow> (-1, s)
           | Some c \<Rightarrow>
               if \<not> kmalloc_ok then (-1, s)
               else
                 let sc = zero_conn\<lparr>conn_id := next_conn_id s, conn_state := MSG_CONN_CONNECTED,
                            channel_id := int c, owner_pid := pid\<rparr>
                 in (int c,
                     upd_chan c (\<lambda>ch. ch\<lparr>chan_state := MSG_CHAN_ACTIVE, creator_pid := pid,
                                       server_conn := Some sc, num_connections := 0\<rparr>)
                       (s\<lparr>next_conn_id := next_id (next_conn_id s)\<rparr>))))"

definition sys_msg_connect :: "u32 option \<Rightarrow> int \<Rightarrow> msg_sys \<Rightarrow> int \<times> msg_sys" where
  "sys_msg_connect cur cid s =
     (case cur of
        None \<Rightarrow> (-1, s)
      | Some pid \<Rightarrow>
          (case msg_get_channel s cid of
             None \<Rightarrow> (-1, s)
           | Some c \<Rightarrow>
               (case msg_alloc_connection c s of
                  (None, s1) \<Rightarrow> (-1, s1)
                | (Some i, s1) \<Rightarrow>
                    let ch = msg_channels s1 ! c;
                        cn = (connections ch ! i)\<lparr>conn_state := MSG_CONN_CONNECTED, owner_pid := pid,
                               peer_pid := creator_pid ch\<rparr>
                    in (conn_id cn,
                        upd_chan c (\<lambda>ch. ch\<lparr>num_connections := num_connections ch + 1\<rparr>)
                          (set_conn (Cli c i) cn s1)))))"

text \<open>The broadcast of a server: every connected client whose queue has room.\<close>

primrec bcast :: "u8 list \<Rightarrow> u32 \<Rightarrow> u64 \<Rightarrow> msg_connection list \<Rightarrow> msg_connection list" where
  "bcast data pid ticks [] = []"
| "bcast data pid ticks (cn # cns) =
     (if conn_state cn = MSG_CONN_CONNECTED then snd (msg_queue_message cn data pid ticks) else cn)
       # bcast data pid ticks cns"

text \<open>Who may use a connection: the checks \<open>sys_msg_send\<close> and \<open>sys_msg_recv\<close> share.\<close>

definition usable_conn :: "u32 \<Rightarrow> int \<Rightarrow> msg_sys \<Rightarrow> conn_loc option" where
  "usable_conn pid cid s =
     (case msg_get_connection s cid of
        None \<Rightarrow> None
      | Some l \<Rightarrow>
          (case conn_at s l of
             None \<Rightarrow> None
           | Some cn \<Rightarrow>
               if owner_pid cn \<noteq> pid then None
               else if conn_state cn \<noteq> MSG_CONN_CONNECTED then None
               else Some l))"

definition sys_msg_send ::
    "u32 option \<Rightarrow> u64 \<Rightarrow> int \<Rightarrow> u8 list \<Rightarrow> msg_sys \<Rightarrow> int \<times> msg_sys" where
  "sys_msg_send cur ticks cid data s =
     (case cur of
        None \<Rightarrow> (-1, s)
      | Some pid \<Rightarrow>
          if length data > MSG_MAX_SIZE then (-1, s)
          else
            (case usable_conn pid cid s of
               None \<Rightarrow> (-1, s)
             | Some l \<Rightarrow>
                 (case msg_get_channel s (channel_id (the (conn_at s l))) of
                    None \<Rightarrow> (-1, s)
                  | Some c \<Rightarrow>
                      (int (length data),
                       if l = Srv c then
                         upd_chan c (\<lambda>ch. ch\<lparr>connections := bcast data pid ticks (connections ch)\<rparr>) s
                       else
                         (case server_conn (msg_channels s ! c) of
                            None \<Rightarrow> s
                          | Some sc \<Rightarrow>
                              if conn_state sc = MSG_CONN_CONNECTED
                              then set_conn (Srv c) (snd (msg_queue_message sc data pid ticks)) s
                              else s)))))"

text \<open>Receiving. \<open>Received r bs\<close> is a return; \<open>Waiting\<close> has run out of scheduling rounds. A round is
  the clock at its timeout check and the state other processes leave after the yield. The server
  connection is heap memory: when it is gone after a yield, or another one stands in its place, the
  call reads freed memory.\<close>

datatype recv_result = Received int "u8 list" | Waiting | Use_after_free

definition same_conn :: "conn_loc \<Rightarrow> int \<Rightarrow> msg_sys \<Rightarrow> bool" where
  "same_conn l cid s =
     (case l of
        Srv c \<Rightarrow> (case server_conn (msg_channels s ! c) of None \<Rightarrow> False | Some sc \<Rightarrow> conn_id sc = cid)
      | Cli c i \<Rightarrow> True)"

definition take_msg :: "conn_loc \<Rightarrow> nat \<Rightarrow> msg_sys \<Rightarrow> (int \<times> u8 list) \<times> msg_sys" where
  "take_msg l len s =
     (let (r, cn) = msg_dequeue_message (the (conn_at s l)) len in (r, set_conn l cn s))"

fun recv_loop ::
    "conn_loc \<Rightarrow> int \<Rightarrow> nat \<Rightarrow> int \<Rightarrow> u64 \<Rightarrow> msg_sys \<Rightarrow> (u64 \<times> msg_sys) list \<Rightarrow> recv_result \<times> msg_sys" where
  "recv_loop l cid len timeout start_ms s rounds =
     (let ((r, bs), s1) = take_msg l len s in
      if r > 0 then (Received r bs, s1)
      else
        (case rounds of
           [] \<Rightarrow> (Waiting, s1)
         | (now, s2) # rest \<Rightarrow>
             if timeout > 0 \<and> unat (now - start_ms) \<ge> nat timeout then (Received 0 [], s1)
             else if \<not> same_conn l cid s2 then (Use_after_free, s2)
             else if conn_state (the (conn_at s2 l)) \<noteq> MSG_CONN_CONNECTED then (Received (-1) [], s2)
             else recv_loop l cid len timeout start_ms s2 rest))"

declare recv_loop.simps [simp del]

definition sys_msg_recv ::
    "u32 option \<Rightarrow> int \<Rightarrow> nat \<Rightarrow> int \<Rightarrow> u64 \<Rightarrow> (u64 \<times> msg_sys) list \<Rightarrow> msg_sys \<Rightarrow> recv_result \<times> msg_sys" where
  "sys_msg_recv cur cid len timeout start_ms rounds s =
     (case cur of
        None \<Rightarrow> (Received (-1) [], s)
      | Some pid \<Rightarrow>
          (case usable_conn pid cid s of
             None \<Rightarrow> (Received (-1) [], s)
           | Some l \<Rightarrow>
               let ((r, bs), s1) = take_msg l len s in
               if r > 0 then (Received r bs, s1)
               else if timeout = 0 then (Received 0 [], s1)
               else recv_loop l cid len timeout start_ms s1 rounds))"

definition sys_msg_destroy_channel :: "u32 option \<Rightarrow> int \<Rightarrow> msg_sys \<Rightarrow> int \<times> msg_sys" where
  "sys_msg_destroy_channel cur cid s =
     (case cur of
        None \<Rightarrow> (-1, s)
      | Some pid \<Rightarrow>
          (case msg_get_channel s cid of
             None \<Rightarrow> (-1, s)
           | Some c \<Rightarrow>
               if creator_pid (msg_channels s ! c) \<noteq> pid then (-1, s)
               else
                 (0, upd_chan c (\<lambda>ch. ch\<lparr>
                       connections := map (\<lambda>cn. if conn_state cn \<noteq> MSG_CONN_FREE
                                                then cn\<lparr>conn_state := MSG_CONN_CLOSED\<rparr> else cn)
                                        (connections ch),
                       server_conn := None, chan_state := MSG_CHAN_FREE, creator_pid := 0,
                       num_connections := 0\<rparr>) s)))"

definition sys_msg_close :: "u32 option \<Rightarrow> int \<Rightarrow> msg_sys \<Rightarrow> int \<times> msg_sys" where
  "sys_msg_close cur cid s =
     (case cur of
        None \<Rightarrow> (-1, s)
      | Some pid \<Rightarrow>
          (case msg_get_connection s cid of
             None \<Rightarrow> (-1, s)
           | Some l \<Rightarrow>
               (case conn_at s l of
                  None \<Rightarrow> (-1, s)
                | Some cn \<Rightarrow>
                    if owner_pid cn \<noteq> pid then (-1, s)
                    else
                      let chan = msg_get_channel s (channel_id cn) in
                      if chan \<noteq> None \<and> l = Srv (the chan) then
                        sys_msg_destroy_channel cur (int (the chan)) s
                      else
                        let s1 = set_conn l (cn\<lparr>conn_state := MSG_CONN_CLOSED\<rparr>) s in
                        (0, case chan of
                              None \<Rightarrow> s1
                            | Some c \<Rightarrow>
                                upd_chan c (\<lambda>ch. ch\<lparr>num_connections := num_connections ch - 1\<rparr>) s1))))"

definition sys_msg_accept :: "u32 option \<Rightarrow> int \<Rightarrow> msg_sys \<Rightarrow> int" where
  "sys_msg_accept cur cid s =
     (case cur of
        None \<Rightarrow> -1
      | Some pid \<Rightarrow>
          (case msg_get_channel s cid of
             None \<Rightarrow> -1
           | Some c \<Rightarrow>
               if creator_pid (msg_channels s ! c) \<noteq> pid then -1
               else (case server_conn (msg_channels s ! c) of None \<Rightarrow> -1 | Some sc \<Rightarrow> conn_id sc)))"

definition sys_msg_channel_info :: "int \<Rightarrow> msg_sys \<Rightarrow> int \<times> u32 option" where
  "sys_msg_channel_info cid s =
     (case msg_get_channel s cid of
        None \<Rightarrow> (-1, None)
      | Some c \<Rightarrow> (0, Some (num_connections (msg_channels s ! c))))"

text \<open>One channel of the cleanup of an exiting process.\<close>

definition orphan :: "u32 \<Rightarrow> msg_connection \<Rightarrow> bool" where
  "orphan pid cn \<longleftrightarrow> conn_state cn \<noteq> MSG_CONN_FREE \<and> owner_pid cn = pid"

definition cleanup_chan :: "u32 \<Rightarrow> msg_channel \<Rightarrow> msg_channel" where
  "cleanup_chan pid ch =
     (if chan_state ch = MSG_CHAN_FREE then ch
      else if creator_pid ch = pid then
        ch\<lparr>connections := map (\<lambda>cn. cn\<lparr>conn_state := MSG_CONN_FREE\<rparr>) (connections ch),
           server_conn := None, chan_state := MSG_CHAN_FREE, creator_pid := 0, num_connections := 0\<rparr>
      else
        ch\<lparr>connections := map (\<lambda>cn. if orphan pid cn then cn\<lparr>conn_state := MSG_CONN_FREE\<rparr> else cn)
                            (connections ch),
           num_connections := num_connections ch - of_nat (length (filter (orphan pid) (connections ch)))\<rparr>)"

definition msg_cleanup_process :: "u32 \<Rightarrow> msg_sys \<Rightarrow> msg_sys" where
  "msg_cleanup_process pid s = s\<lparr>msg_channels := map (cleanup_chan pid) (msg_channels s)\<rparr>"

section \<open>The name service\<close>

definition IPC_NAME_MAX_LEN :: nat where "IPC_NAME_MAX_LEN = 64"
definition IPC_NAME_MAX_ENTRIES :: nat where "IPC_NAME_MAX_ENTRIES = 32"

record ipc_name_entry =
  ename :: string
  echannel :: int
  eowner :: u32
  active :: bool

record name_service =
  g_name_table :: "ipc_name_entry list"
  g_name_table_inited :: bool

text \<open>\<open>strncpy_from_user\<close> copies at most 63 bytes and terminates; \<open>None\<close> is a fault. A name is the
  bytes before the terminator.\<close>

definition user_name :: "string option \<Rightarrow> string option" where
  "user_name u = map_option (\<lambda>n. take (IPC_NAME_MAX_LEN - 1) (takeWhile (\<lambda>c. c \<noteq> CHR 0x00) n)) u"

definition names_inited :: "name_service \<Rightarrow> name_service" where
  "names_inited ns =
     (if g_name_table_inited ns then ns
      else \<lparr>g_name_table = map (\<lambda>e. e\<lparr>active := False\<rparr>) (g_name_table ns), g_name_table_inited = True\<rparr>)"

definition sys_ipc_register_name ::
    "u32 option \<Rightarrow> string option \<Rightarrow> int \<Rightarrow> name_service \<Rightarrow> int \<times> name_service" where
  "sys_ipc_register_name cur uname cid ns0 =
     (if cid < 0 then (-1, ns0)
      else
        (case user_name uname of
           None \<Rightarrow> (-1, ns0)
         | Some name \<Rightarrow>
             let ns = names_inited ns0;
                 pid = (case cur of None \<Rightarrow> 0 | Some p \<Rightarrow> p);
                 tab = g_name_table ns
             in case find_idx (\<lambda>e. active e \<and> ename e = name) tab of
                  Some i \<Rightarrow>
                    if eowner (tab ! i) = pid
                    then (0, ns\<lparr>g_name_table := tab[i := (tab ! i)\<lparr>echannel := cid\<rparr>]\<rparr>)
                    else (-1, ns)
                | None \<Rightarrow>
                    (case find_idx (\<lambda>e. \<not> active e) tab of
                       None \<Rightarrow> (-1, ns)
                     | Some i \<Rightarrow>
                         (0, ns\<lparr>g_name_table := tab[i := \<lparr>ename = name, echannel = cid, eowner = pid,
                                                        active = True\<rparr>]\<rparr>))))"

definition sys_ipc_lookup_name :: "string option \<Rightarrow> name_service \<Rightarrow> int" where
  "sys_ipc_lookup_name uname ns =
     (case user_name uname of
        None \<Rightarrow> -1
      | Some name \<Rightarrow>
          (case find_idx (\<lambda>e. active e \<and> ename e = name) (g_name_table ns) of
             None \<Rightarrow> -1
           | Some i \<Rightarrow> echannel (g_name_table ns ! i)))"

section \<open>The receive queue as a bounded list\<close>

definition queue_ok :: "msg_queue \<Rightarrow> bool" where
  "queue_ok q \<longleftrightarrow> length (messages q) = MSG_QUEUE_SIZE \<and> qhead q < MSG_QUEUE_SIZE \<and>
     qcount q \<le> MSG_QUEUE_SIZE \<and> qtail q = (qhead q + qcount q) mod MSG_QUEUE_SIZE"

definition pending :: "msg_connection \<Rightarrow> msg list" where
  "pending cn = ring_contents (messages (recv_queue cn)) (qhead (recv_queue cn)) (qcount (recv_queue cn))"

datatype queue_op = Enq "u8 list" u32 u64 | Deq nat

type_synonym queue_out = "int \<times> u8 list"

definition conn_step :: "msg_connection \<Rightarrow> queue_op \<Rightarrow> queue_out \<times> msg_connection" where
  "conn_step cn x =
     (case x of
        Enq data pid ticks \<Rightarrow> (let (r, cn') = msg_queue_message cn data pid ticks in ((r, []), cn'))
      | Deq len \<Rightarrow> msg_dequeue_message cn len)"

definition list_step :: "msg list \<Rightarrow> queue_op \<Rightarrow> queue_out \<times> msg list" where
  "list_step ms x =
     (case x of
        Enq data pid ticks \<Rightarrow>
          if length ms \<ge> MSG_QUEUE_SIZE then ((-1, []), ms)
          else ((0, []), ms @ [\<lparr>sender_pid = pid, timestamp = ticks, payload = take MSG_MAX_SIZE data\<rparr>])
      | Deq len \<Rightarrow>
          (case ms of
             [] \<Rightarrow> ((0, []), [])
           | m # rest \<Rightarrow> ((int (min (length (payload m)) len), take len (payload m)), rest)))"

lemma length_pending [simp]: "length (pending cn) = qcount (recv_queue cn)"
  by (simp add: pending_def)

lemma enqueue_spec:
  assumes "queue_ok (recv_queue cn)" and "qcount (recv_queue cn) < MSG_QUEUE_SIZE"
    and "msg_queue_message cn data pid ticks = (r, cn')"
  shows "r = 0" and "queue_ok (recv_queue cn')"
    and "pending cn' = pending cn @ [\<lparr>sender_pid = pid, timestamp = ticks, payload = take MSG_MAX_SIZE data\<rparr>]"
    and "conn_id cn' = conn_id cn" and "conn_state cn' = conn_state cn"
    and "channel_id cn' = channel_id cn" and "owner_pid cn' = owner_pid cn"
proof -
  let ?q = "recv_queue cn"
  let ?m = "\<lparr>sender_pid = pid, timestamp = ticks, payload = take MSG_MAX_SIZE data\<rparr>"
  have sz: "take (if length data > MSG_MAX_SIZE then MSG_MAX_SIZE else length data) data
      = take MSG_MAX_SIZE data" by simp
  have eq: "r = 0" "cn' = cn\<lparr>recv_queue := ?q\<lparr>messages := (messages ?q)[qtail ?q := ?m],
      qtail := (qtail ?q + 1) mod MSG_QUEUE_SIZE, qcount := qcount ?q + 1\<rparr>\<rparr>"
    using assms(2,3) by (auto simp: msg_queue_message_def Let_def sz)
  have len: "length (messages ?q) = MSG_QUEUE_SIZE"
    and tl: "qtail ?q = (qhead ?q + qcount ?q) mod MSG_QUEUE_SIZE"
    using assms(1) by (simp_all add: queue_ok_def)
  show "r = 0" "conn_id cn' = conn_id cn" "conn_state cn' = conn_state cn"
    "channel_id cn' = channel_id cn" "owner_pid cn' = owner_pid cn" by (simp_all add: eq)
  show "queue_ok (recv_queue cn')"
    using assms(1,2) by (simp add: eq queue_ok_def mod_Suc_eq)
  show "pending cn' = pending cn @ [?m]"
    using ring_contents_put [of "qcount ?q" "messages ?q" "qhead ?q" ?m] assms(2) len tl
    by (simp add: pending_def eq)
qed

lemma enqueue_full:
  "MSG_QUEUE_SIZE \<le> qcount (recv_queue cn) \<Longrightarrow> msg_queue_message cn data pid ticks = (-1, cn)"
  by (simp add: msg_queue_message_def Let_def)

lemma dequeue_spec:
  assumes "queue_ok (recv_queue cn)" and "pending cn = m # rest"
    and "msg_dequeue_message cn len = ((r, bs), cn')"
  shows "r = int (min (length (payload m)) len)" and "bs = take len (payload m)"
    and "queue_ok (recv_queue cn')" and "pending cn' = rest"
    and "conn_id cn' = conn_id cn" and "conn_state cn' = conn_state cn"
    and "channel_id cn' = channel_id cn" and "owner_pid cn' = owner_pid cn"
proof -
  let ?q = "recv_queue cn"
  obtain k where k: "qcount ?q = Suc k" using assms(2) length_pending [of cn] by (cases "qcount ?q") auto
  have len: "length (messages ?q) = MSG_QUEUE_SIZE" and hd: "qhead ?q < MSG_QUEUE_SIZE"
    using assms(1) by (simp_all add: queue_ok_def)
  have p: "m = messages ?q ! qhead ?q"
    "rest = ring_contents (messages ?q) ((qhead ?q + 1) mod MSG_QUEUE_SIZE) k"
    using assms(2) hd by (simp_all add: pending_def k ring_contents_Suc len)
  have cn': "cn' = cn\<lparr>recv_queue := ?q\<lparr>qhead := (qhead ?q + 1) mod MSG_QUEUE_SIZE, qcount := k\<rparr>\<rparr>"
    and "r = int (min (length (payload m)) len)" and "bs = take len (payload m)"
    using assms(3) by (auto simp: msg_dequeue_message_def Let_def k p split: if_splits)
  then show "r = int (min (length (payload m)) len)" "bs = take len (payload m)"
    "conn_id cn' = conn_id cn" "conn_state cn' = conn_state cn"
    "channel_id cn' = channel_id cn" "owner_pid cn' = owner_pid cn" by simp_all
  show "pending cn' = rest" by (simp add: cn' pending_def p)
  have "0 < MSG_QUEUE_SIZE" by (simp add: MSG_QUEUE_SIZE_def)
  then show "queue_ok (recv_queue cn')"
    using assms(1) k by (simp add: cn' queue_ok_def mod_simps)
qed

lemma dequeue_empty: "pending cn = [] \<Longrightarrow> msg_dequeue_message cn len = ((0, []), cn)"
  using length_pending [of cn] by (simp add: msg_dequeue_message_def Let_def)

interpretation conn_queue: data_refinement "\<lambda>cn. queue_ok (recv_queue cn)" pending conn_step list_step
proof
  fix cn :: msg_connection and x
  assume ok: "queue_ok (recv_queue cn)"
  have "queue_ok (recv_queue (snd (conn_step cn x))) \<and>
      list_step (pending cn) x = (fst (conn_step cn x), pending (snd (conn_step cn x)))"
  proof (cases x)
    case (Enq data pid ticks)
    obtain r cn' where e: "msg_queue_message cn data pid ticks = (r, cn')" by fastforce
    show ?thesis
    proof (cases "qcount (recv_queue cn) < MSG_QUEUE_SIZE")
      case True
      then show ?thesis using enqueue_spec [OF ok True e] by (simp add: Enq conn_step_def list_step_def e)
    next
      case False
      then show ?thesis
        using enqueue_full [of cn data pid ticks] ok by (simp add: Enq conn_step_def list_step_def)
    qed
  next
    case (Deq len)
    obtain r bs cn' where d: "msg_dequeue_message cn len = ((r, bs), cn')" by (metis surj_pair)
    show ?thesis
    proof (cases "pending cn")
      case Nil
      then show ?thesis using dequeue_empty [OF Nil, of len] ok by (simp add: Deq conn_step_def list_step_def)
    next
      case (Cons m rest)
      then show ?thesis using dequeue_spec [OF ok Cons d] by (simp add: Deq conn_step_def list_step_def d)
    qed
  qed
  then show "queue_ok (recv_queue (snd (conn_step cn x)))"
    and "list_step (pending cn) x = (fst (conn_step cn x), pending (snd (conn_step cn x)))" by blast+
qed

section \<open>The invariant of the channel table\<close>

definition conn_ok :: "nat \<Rightarrow> msg_connection \<Rightarrow> bool" where
  "conn_ok c cn \<longleftrightarrow> queue_ok (recv_queue cn) \<and> (conn_state cn \<noteq> MSG_CONN_FREE \<longrightarrow> channel_id cn = int c)"

definition chan_ok :: "nat \<Rightarrow> msg_channel \<Rightarrow> bool" where
  "chan_ok c ch \<longleftrightarrow> length (connections ch) = MSG_MAX_CONNECTIONS \<and> list_all (conn_ok c) (connections ch) \<and>
     (case server_conn ch of
        None \<Rightarrow> chan_state ch = MSG_CHAN_FREE
      | Some sc \<Rightarrow> chan_state ch = MSG_CHAN_ACTIVE \<and> conn_state sc = MSG_CONN_CONNECTED \<and> conn_ok c sc \<and>
          owner_pid sc = creator_pid ch)"

text \<open>The id of the connection at a place, when there is one.\<close>

definition chan_live :: "msg_channel \<Rightarrow> conn_loc \<Rightarrow> int option" where
  "chan_live ch l =
     (case l of
        Srv c \<Rightarrow> map_option conn_id (server_conn ch)
      | Cli c i \<Rightarrow>
          if i < length (connections ch) \<and> conn_state (connections ch ! i) \<noteq> MSG_CONN_FREE
          then Some (conn_id (connections ch ! i)) else None)"

definition live_id :: "msg_sys \<Rightarrow> conn_loc \<Rightarrow> int option" where
  "live_id s l =
     (if loc_chan l < length (msg_channels s) then chan_live (msg_channels s ! loc_chan l) l else None)"

definition ids_ok :: "msg_sys \<Rightarrow> bool" where
  "ids_ok s \<longleftrightarrow>
     (\<forall>l k. live_id s l = Some k \<longrightarrow> k < next_conn_id s \<and> (\<forall>l'. live_id s l' = Some k \<longrightarrow> l' = l))"

text \<open>\<open>msg_inv\<close> is the shape of the table, \<open>msg_ids\<close> the shape with ids that are below the counter and different.
  The first is kept by every call; the second until the counter wraps around.\<close>

definition msg_ok :: "bool \<Rightarrow> msg_sys \<Rightarrow> bool" where
  "msg_ok b s \<longleftrightarrow> length (msg_channels s) = MSG_MAX_CHANNELS \<and>
     (\<forall>c<MSG_MAX_CHANNELS. chan_ok c (msg_channels s ! c)) \<and> (b \<longrightarrow> ids_ok s)"

abbreviation msg_inv :: "msg_sys \<Rightarrow> bool" where "msg_inv \<equiv> msg_ok False"
abbreviation msg_ids :: "msg_sys \<Rightarrow> bool" where "msg_ids \<equiv> msg_ok True"

lemma msg_ids_inv: "msg_ids s \<Longrightarrow> msg_inv s"
  by (simp add: msg_ok_def)

lemma ids_shrink:
  assumes "ids_ok s" and "next_conn_id s \<le> next_conn_id t"
    and "\<And>l k. live_id t l = Some k \<Longrightarrow> live_id s l = Some k"
  shows "ids_ok t"
  unfolding ids_ok_def
proof (intro allI impI)
  fix l k assume a: "live_id t l = Some k"
  note b = assms(3) [OF a]
  have "k < next_conn_id s" and u: "\<And>l'. live_id s l' = Some k \<Longrightarrow> l' = l"
    using assms(1) b unfolding ids_ok_def by blast+
  then show "k < next_conn_id t \<and> (\<forall>l'. live_id t l' = Some k \<longrightarrow> l' = l)"
    using assms(2,3) by fastforce
qed

lemma ids_new:
  assumes "ids_ok s" and "next_conn_id t = next_conn_id s + 1"
    and "\<And>l k. live_id t l = Some k \<Longrightarrow> l = l0 \<and> k = next_conn_id s \<or> live_id s l = Some k"
  shows "ids_ok t"
  unfolding ids_ok_def
proof (intro allI impI)
  fix l k assume a: "live_id t l = Some k"
  have old: "k' < next_conn_id s" "\<And>m'. live_id s m' = Some k' \<Longrightarrow> m' = m"
    if "live_id s m = Some k'" for m k'
    using assms(1) that unfolding ids_ok_def by blast+
  have "k < next_conn_id s + 1" using assms(3) [OF a] old(1) [of l k] by auto
  moreover have "l' = l" if "live_id t l' = Some k" for l'
    using assms(3) [OF a] assms(3) [OF that] old(1) [of l k] old(1) [of l' k] old(2) [of l k l'] by auto
  ultimately show "k < next_conn_id t \<and> (\<forall>l'. live_id t l' = Some k \<longrightarrow> l' = l)"
    using assms(2) by auto
qed

lemma live_upd_chan:
  "live_id (upd_chan c f s) l =
     (if loc_chan l = c \<and> c < length (msg_channels s) then chan_live (f (msg_channels s ! c)) l
      else live_id s l)"
  by (auto simp: live_id_def upd_chan_def)

lemma upd_chan_simps [simp]:
  "length (msg_channels (upd_chan c f s)) = length (msg_channels s)"
  "next_conn_id (upd_chan c f s) = next_conn_id s"
  by (simp_all add: upd_chan_def)

text \<open>A step that rewrites one channel and adds no connection.\<close>

lemma upd_chan_inv:
  assumes inv: "msg_ok b s" and c: "c < MSG_MAX_CHANNELS" and ok: "chan_ok c (f (msg_channels s ! c))"
    and live: "\<And>l k. chan_live (f (msg_channels s ! c)) l = Some k \<Longrightarrow> chan_live (msg_channels s ! c) l = Some k"
  shows "msg_ok b (upd_chan c f s)"
proof -
  have "ids_ok (upd_chan c f s)" if "ids_ok s"
  proof (rule ids_shrink)
    show "ids_ok s" by (rule that)
    show "live_id s l = Some k" if "live_id (upd_chan c f s) l = Some k" for l k
      using that [unfolded live_upd_chan] live by (auto simp: live_id_def split: if_splits)
  qed simp
  moreover have "chan_ok d (msg_channels (upd_chan c f s) ! d)" if "d < MSG_MAX_CHANNELS" for d
    using inv ok c that by (cases "d = c") (auto simp: upd_chan_def msg_ok_def)
  ultimately show ?thesis using inv by (simp add: msg_ok_def)
qed

text \<open>A step that rewrites one channel and puts a new connection with the next id at one place.\<close>

lemma new_conn_inv:
  assumes inv: "msg_ok b s" and c: "c < MSG_MAX_CHANNELS" and ok: "chan_ok c (f (msg_channels s ! c))"
    and live: "\<And>l k. loc_chan l = c \<Longrightarrow> chan_live (f (msg_channels s ! c)) l = Some k \<Longrightarrow>
      l = l0 \<and> k = next_conn_id s \<or> chan_live (msg_channels s ! c) l = Some k"
    and fit: "b \<Longrightarrow> next_conn_id s < MSG_ID_MAX"
  shows "msg_ok b (upd_chan c f (s\<lparr>next_conn_id := next_id (next_conn_id s)\<rparr>))"
proof -
  let ?s = "s\<lparr>next_conn_id := next_id (next_conn_id s)\<rparr>"
  have len: "length (msg_channels s) = MSG_MAX_CHANNELS" using inv by (simp add: msg_ok_def)
  have "ids_ok (upd_chan c f ?s)" if b
  proof (rule ids_new)
    show "ids_ok s" using inv that by (simp add: msg_ok_def)
    show "next_conn_id (upd_chan c f ?s) = next_conn_id s + 1" using fit [OF that] by (simp add: next_id_def)
    show "l = l0 \<and> k = next_conn_id s \<or> live_id s l = Some k" if "live_id (upd_chan c f ?s) l = Some k" for l k
      using that [unfolded live_upd_chan] live [of l k] c len by (auto simp: live_id_def split: if_splits)
  qed
  moreover have "chan_ok d (msg_channels (upd_chan c f ?s) ! d)" if "d < MSG_MAX_CHANNELS" for d
    using inv ok c that by (cases "d = c") (auto simp: upd_chan_def msg_ok_def)
  ultimately show ?thesis using len by (simp add: msg_ok_def)
qed

lemma msg_invD:
  assumes "msg_ok b s"
  shows "length (msg_channels s) = MSG_MAX_CHANNELS"
    and "c < MSG_MAX_CHANNELS \<Longrightarrow> chan_ok c (msg_channels s ! c)"
    and "b \<Longrightarrow> ids_ok s"
  using assms by (simp_all add: msg_ok_def)

lemma get_channelD:
  assumes "msg_get_channel s cid = Some c"
  shows "c < MSG_MAX_CHANNELS" and "cid = int c" and "chan_state (msg_channels s ! c) \<noteq> MSG_CHAN_FREE"
  using assms by (auto simp: msg_get_channel_def split: if_splits)

section \<open>Looking up a connection\<close>

lemma find_from_Some:
  assumes "find_from chs cid b = Some l"
  shows "\<exists>i<length chs. loc_chan l = b + i \<and> chan_find (chs ! i) cid (b + i) = Some l"
  using assms
proof (induction chs arbitrary: b)
  case Nil
  then show ?case by simp
next
  case (Cons ch chs)
  show ?case
  proof (cases "chan_find ch cid b")
    case None
    with Cons obtain i where "i < length chs" "loc_chan l = Suc b + i"
      "chan_find (chs ! i) cid (Suc b + i) = Some l" by fastforce
    then show ?thesis by (intro exI [of _ "Suc i"]) simp
  next
    case (Some l')
    then have "l' = l" using Cons.prems by simp
    moreover have "loc_chan l' = b"
      using Some by (auto simp: chan_find_def loc_chan_def split: if_splits option.splits)
    ultimately show ?thesis using Some by (intro exI [of _ 0]) simp
  qed
qed

text \<open>A found connection is live and has the id asked for.\<close>

lemma get_connectionD:
  assumes inv: "msg_ok b s" and "msg_get_connection s cid = Some l"
  shows "live_id s l = Some cid" and "loc_chan l < MSG_MAX_CHANNELS"
    and "\<exists>cn. conn_at s l = Some cn \<and> conn_id cn = cid \<and> conn_state cn \<noteq> MSG_CONN_FREE \<and>
      conn_ok (loc_chan l) cn"
    and "chan_state (msg_channels s ! loc_chan l) \<noteq> MSG_CHAN_FREE"
proof -
  obtain i where i: "i < length (msg_channels s)" "loc_chan l = i" "chan_find (msg_channels s ! i) cid i = Some l"
    using find_from_Some assms(2) by (fastforce simp: msg_get_connection_def)
  have len: "length (msg_channels s) = MSG_MAX_CHANNELS" by (rule msg_invD(1) [OF inv])
  then have ch: "chan_ok i (msg_channels s ! i)" using msg_invD(2) [OF inv] i by simp
  show "loc_chan l < MSG_MAX_CHANNELS" using i len by simp
  show "chan_state (msg_channels s ! loc_chan l) \<noteq> MSG_CHAN_FREE"
    using i by (auto simp: chan_find_def split: if_splits)
  have "live_id s l = Some cid \<and> (\<exists>cn. conn_at s l = Some cn \<and> conn_id cn = cid \<and>
      conn_state cn \<noteq> MSG_CONN_FREE \<and> conn_ok (loc_chan l) cn)"
  proof (cases l)
    case (Srv c)
    then obtain sc where "c = i" "server_conn (msg_channels s ! i) = Some sc" "conn_id sc = cid"
      using i by (auto simp: chan_find_def loc_chan_def split: if_splits option.splits)
    then show ?thesis
      using Srv ch i by (simp add: live_id_def chan_live_def conn_at_def loc_chan_def chan_ok_def)
  next
    case (Cli c j)
    then have c: "c = i" and j: "find_idx (\<lambda>cn. conn_state cn \<noteq> MSG_CONN_FREE \<and> conn_id cn = cid)
        (connections (msg_channels s ! i)) = Some j"
      using i by (auto simp: chan_find_def loc_chan_def split: if_splits option.splits)
    show ?thesis
      using find_idx_SomeD [OF j] Cli c ch i
      by (auto simp: live_id_def chan_live_def conn_at_def loc_chan_def chan_ok_def list_all_length)
  qed
  then show "live_id s l = Some cid" and "\<exists>cn. conn_at s l = Some cn \<and> conn_id cn = cid \<and>
      conn_state cn \<noteq> MSG_CONN_FREE \<and> conn_ok (loc_chan l) cn" by blast+
qed

section \<open>Every call keeps the invariant\<close>

lemma queue_message_keeps:
  fixes cn data pid ticks
  defines "cn' \<equiv> snd (msg_queue_message cn data pid ticks)"
  shows "conn_id cn' = conn_id cn" and "conn_state cn' = conn_state cn"
    and "channel_id cn' = channel_id cn" and "owner_pid cn' = owner_pid cn"
    and "conn_ok c cn \<Longrightarrow> conn_ok c cn'"
proof -
  show k: "conn_id cn' = conn_id cn" "conn_state cn' = conn_state cn"
    "channel_id cn' = channel_id cn" "owner_pid cn' = owner_pid cn"
    by (simp_all add: cn'_def msg_queue_message_def Let_def)
  assume ok: "conn_ok c cn"
  then have "queue_ok (recv_queue cn')"
    using conn_queue.step_inv [of cn "Enq data pid ticks"]
    by (simp add: conn_step_def conn_ok_def cn'_def split_beta)
  then show "conn_ok c cn'" using ok k by (simp add: conn_ok_def)
qed

lemma dequeue_keeps:
  fixes cn len
  defines "cn' \<equiv> snd (msg_dequeue_message cn len)"
  shows "conn_id cn' = conn_id cn" and "conn_state cn' = conn_state cn"
    and "channel_id cn' = channel_id cn" and "owner_pid cn' = owner_pid cn"
    and "conn_ok c cn \<Longrightarrow> conn_ok c cn'"
proof -
  show k: "conn_id cn' = conn_id cn" "conn_state cn' = conn_state cn"
    "channel_id cn' = channel_id cn" "owner_pid cn' = owner_pid cn"
    by (simp_all add: cn'_def msg_dequeue_message_def Let_def)
  assume ok: "conn_ok c cn"
  then have "queue_ok (recv_queue cn')"
    using conn_queue.step_inv [of cn "Deq len"] by (simp add: conn_step_def conn_ok_def cn'_def)
  then show "conn_ok c cn'" using ok k by (simp add: conn_ok_def)
qed

text \<open>Rewriting a connection in place, without a new id.\<close>

lemma set_conn_inv:
  assumes inv: "msg_ok b s" and c: "loc_chan l < MSG_MAX_CHANNELS" and at: "conn_at s l = Some cn"
    and live: "live_id s l = Some (conn_id cn)"
    and cn': "conn_id cn' = conn_id cn" "conn_ok (loc_chan l) cn'"
    and srv: "\<And>d. l = Srv d \<Longrightarrow> conn_state cn' = MSG_CONN_CONNECTED \<and> owner_pid cn' = owner_pid cn"
  shows "msg_ok b (set_conn l cn' s)"
proof (cases l)
  case (Srv d)
  then have d: "d < MSG_MAX_CHANNELS" "server_conn (msg_channels s ! d) = Some cn"
    using c at by (simp_all add: loc_chan_def conn_at_def)
  then show ?thesis
    unfolding Srv set_conn_def conn_loc.case
    using msg_invD(2) [OF inv d(1)] cn' srv [OF Srv] Srv
    by (intro upd_chan_inv [OF inv d(1)])
      (auto simp: chan_ok_def chan_live_def loc_chan_def split: conn_loc.splits)
next
  case (Cli d i)
  then have d: "d < MSG_MAX_CHANNELS" "cn = connections (msg_channels s ! d) ! i"
    and i: "i < length (connections (msg_channels s ! d))" "conn_state cn \<noteq> MSG_CONN_FREE"
    using c at live by (auto simp: loc_chan_def conn_at_def live_id_def chan_live_def split: if_splits)
  show ?thesis
    unfolding Cli set_conn_def conn_loc.case
  proof (rule upd_chan_inv [OF inv d(1)])
    show "chan_ok d ((msg_channels s ! d)\<lparr>connections := (connections (msg_channels s ! d))[i := cn']\<rparr>)"
      using msg_invD(2) [OF inv d(1)] cn'(2) Cli i(1)
      by (simp add: chan_ok_def loc_chan_def list_all_length nth_list_update split: option.splits)
    show "chan_live ((msg_channels s ! d)\<lparr>connections := (connections (msg_channels s ! d))[i := cn']\<rparr>) l' = Some k
        \<Longrightarrow> chan_live (msg_channels s ! d) l' = Some k" for l' k
      using cn'(1) i d(2)
      by (cases l') (auto simp: chan_live_def nth_list_update split: if_splits)
  qed
qed

lemma create_inv:
  assumes "msg_ok b s" and "b \<Longrightarrow> next_conn_id s < MSG_ID_MAX"
  shows "msg_ok b (snd (sys_msg_create_channel cur km s))"
proof (cases "\<exists>pid c. cur = Some pid \<and> km \<and> find_idx (\<lambda>ch. chan_state ch = MSG_CHAN_FREE) (msg_channels s) = Some c")
  case False
  then show ?thesis using assms by (auto simp: sys_msg_create_channel_def split: option.splits)
next
  case True
  then obtain pid c where c: "cur = Some pid" "km"
    "find_idx (\<lambda>ch. chan_state ch = MSG_CHAN_FREE) (msg_channels s) = Some c" by blast
  have lt: "c < MSG_MAX_CHANNELS" using find_idx_SomeD(1) [OF c(3)] msg_invD(1) [OF assms(1)] by simp
  show ?thesis
    using c msg_invD(2) [OF assms(1) lt]
    by (simp add: sys_msg_create_channel_def Let_def)
      (intro new_conn_inv [OF assms(1) lt _ _ assms(2), where ?l0.0 = "Srv c"],
       auto simp: chan_ok_def conn_ok_def zero_conn_def empty_queue_def queue_ok_def chan_live_def
         MSG_QUEUE_SIZE_def loc_chan_def split: conn_loc.splits)
qed

lemma connect_state:
  fixes pid :: u32
  assumes "msg_get_channel s cid = Some c"
    and "find_idx (\<lambda>cn. conn_state cn = MSG_CONN_FREE) (connections (msg_channels s ! c)) = Some i"
    and "c < length (msg_channels s)" and "i < length (connections (msg_channels s ! c))"
  defines "cn \<equiv> (connections (msg_channels s ! c) ! i)\<lparr>conn_id := next_conn_id s, channel_id := int c,
      recv_queue := empty_queue, conn_state := MSG_CONN_CONNECTED, owner_pid := pid,
      peer_pid := creator_pid (msg_channels s ! c)\<rparr>"
  shows "sys_msg_connect (Some pid) cid s = (next_conn_id s,
    upd_chan c (\<lambda>ch. ch\<lparr>connections := (connections ch)[i := cn], num_connections := num_connections ch + 1\<rparr>)
      (s\<lparr>next_conn_id := next_id (next_conn_id s)\<rparr>))"
  using assms
  by (simp add: sys_msg_connect_def msg_alloc_connection_def Let_def set_conn_def upd_chan_def cn_def)

lemma connect_inv:
  assumes "msg_ok b s" and "b \<Longrightarrow> next_conn_id s < MSG_ID_MAX"
  shows "msg_ok b (snd (sys_msg_connect cur cid s))"
proof (cases "\<exists>pid c i. cur = Some pid \<and> msg_get_channel s cid = Some c \<and>
    find_idx (\<lambda>cn. conn_state cn = MSG_CONN_FREE) (connections (msg_channels s ! c)) = Some i")
  case False
  then show ?thesis using assms
    by (auto simp: sys_msg_connect_def msg_alloc_connection_def split: option.splits)
next
  case True
  then obtain pid c i where c: "cur = Some pid" "msg_get_channel s cid = Some c"
    and fi: "find_idx (\<lambda>cn. conn_state cn = MSG_CONN_FREE) (connections (msg_channels s ! c)) = Some i"
    by blast
  have lt: "c < MSG_MAX_CHANNELS" by (rule get_channelD(1) [OF c(2)])
  note ok = msg_invD(2) [OF assms(1) lt]
  have len: "c < length (msg_channels s)" "i < length (connections (msg_channels s ! c))"
    using lt msg_invD(1) [OF assms(1)] find_idx_SomeD(1) [OF fi] by simp_all
  show ?thesis
    unfolding c(1) connect_state [OF c(2) fi len] snd_conv
  proof (rule new_conn_inv [OF assms(1) lt _ _ assms(2), where ?l0.0 = "Cli c i"])
    show "chan_ok c ((msg_channels s ! c)\<lparr>connections := (connections (msg_channels s ! c))[i :=
        (connections (msg_channels s ! c) ! i)\<lparr>conn_id := next_conn_id s, channel_id := int c,
          recv_queue := empty_queue, conn_state := MSG_CONN_CONNECTED, owner_pid := pid,
          peer_pid := creator_pid (msg_channels s ! c)\<rparr>],
        num_connections := num_connections (msg_channels s ! c) + 1\<rparr>)"
      using ok len(2) by (simp add: chan_ok_def list_all_length nth_list_update conn_ok_def queue_ok_def
          empty_queue_def MSG_QUEUE_SIZE_def split: option.splits)
  qed (use len(2) in \<open>auto simp: chan_live_def nth_list_update loc_chan_def split: conn_loc.splits if_splits\<close>)
qed

lemma bcast_nth:
  "i < length cns \<Longrightarrow> bcast data pid ticks cns ! i =
     (if conn_state (cns ! i) = MSG_CONN_CONNECTED then snd (msg_queue_message (cns ! i) data pid ticks)
      else cns ! i)"
  by (induction cns arbitrary: i) (auto simp: nth_Cons split: nat.splits)

lemma length_bcast [simp]: "length (bcast data pid ticks cns) = length cns"
  by (induction cns) simp_all

lemma usable_connD:
  assumes inv: "msg_ok b s" and "usable_conn pid cid s = Some l"
  shows "msg_get_connection s cid = Some l"
    and "\<exists>cn. conn_at s l = Some cn \<and> conn_id cn = cid \<and> owner_pid cn = pid \<and>
      conn_state cn = MSG_CONN_CONNECTED \<and> conn_ok (loc_chan l) cn"
    and "loc_chan l < MSG_MAX_CHANNELS" and "live_id s l = Some cid"
proof -
  show g: "msg_get_connection s cid = Some l"
    using assms(2) by (auto simp: usable_conn_def split: option.splits if_splits)
  then show "loc_chan l < MSG_MAX_CHANNELS" and "live_id s l = Some cid"
    using get_connectionD [OF inv] by blast+
  show "\<exists>cn. conn_at s l = Some cn \<and> conn_id cn = cid \<and> owner_pid cn = pid \<and>
      conn_state cn = MSG_CONN_CONNECTED \<and> conn_ok (loc_chan l) cn"
    using get_connectionD(3) [OF inv g] assms(2)
    by (auto simp: usable_conn_def g split: if_splits)
qed

lemma send_inv:
  assumes "msg_ok b s"
  shows "msg_ok b (snd (sys_msg_send cur ticks cid data s))"
proof (cases "\<exists>pid l c. cur = Some pid \<and> length data \<le> MSG_MAX_SIZE \<and> usable_conn pid cid s = Some l \<and>
    msg_get_channel s (channel_id (the (conn_at s l))) = Some c")
  case False
  then show ?thesis using assms by (auto simp: sys_msg_send_def split: option.splits)
next
  case True
  then obtain pid l c where c: "cur = Some pid" "length data \<le> MSG_MAX_SIZE" "usable_conn pid cid s = Some l"
    "msg_get_channel s (channel_id (the (conn_at s l))) = Some c" by blast
  have lt: "c < MSG_MAX_CHANNELS" by (rule get_channelD(1) [OF c(4)])
  note ok = msg_invD(2) [OF assms lt]
  have "msg_ok b (upd_chan c (\<lambda>ch. ch\<lparr>connections := bcast data pid ticks (connections ch)\<rparr>) s)"
    by (rule upd_chan_inv [OF assms lt])
      (use ok in \<open>auto simp: chan_ok_def list_all_length bcast_nth queue_message_keeps chan_live_def
         split: conn_loc.splits if_splits option.splits\<close>)
  moreover have "msg_ok b (set_conn (Srv c) (snd (msg_queue_message sc data pid ticks)) s)"
    if "server_conn (msg_channels s ! c) = Some sc" for sc
    using that ok lt msg_invD(1) [OF assms]
    by (intro set_conn_inv [OF assms, of "Srv c" sc])
      (auto simp: loc_chan_def conn_at_def live_id_def chan_live_def queue_message_keeps chan_ok_def)
  ultimately show ?thesis using c assms by (auto simp: sys_msg_send_def split: option.splits)
qed

lemma take_msg_inv:
  assumes inv: "msg_ok b s" and l: "loc_chan l < MSG_MAX_CHANNELS" "live_id s l = Some (conn_id cn)"
    and cn: "conn_at s l = Some cn" "conn_ok (loc_chan l) cn"
  shows "msg_ok b (snd (take_msg l len s))"
proof -
  have "conn_state cn = MSG_CONN_CONNECTED" if "l = Srv d" for d
    using that cn(1) l(1) msg_invD(2) [OF inv, of d] by (auto simp: conn_at_def loc_chan_def chan_ok_def)
  then show ?thesis
    using cn dequeue_keeps [where cn = cn and len = len]
    by (auto simp: take_msg_def split_beta intro!: set_conn_inv [OF inv l(1) cn(1) l(2)])
qed

text \<open>The calls that receive without waiting, and the queue they leave.\<close>

lemma recv_inv:
  assumes "msg_ok b s" and "timeout = 0"
  shows "msg_ok b (snd (sys_msg_recv cur cid len timeout start_ms rounds s))"
proof (cases "\<exists>pid l. cur = Some pid \<and> usable_conn pid cid s = Some l")
  case False
  then show ?thesis using assms by (auto simp: sys_msg_recv_def split: option.splits)
next
  case True
  then obtain pid l where l: "cur = Some pid" "usable_conn pid cid s = Some l" by blast
  note u = usable_connD [OF assms(1) l(2)]
  obtain cn where cn: "conn_at s l = Some cn" "conn_id cn = cid" "conn_ok (loc_chan l) cn"
    using u(2) by blast
  have "msg_ok b (snd (take_msg l len s))"
    by (rule take_msg_inv [OF assms(1) u(3) _ cn(1,3)]) (simp add: u(4) cn(2))
  then show ?thesis using l assms(2) by (auto simp: sys_msg_recv_def split: prod.splits)
qed

lemma destroy_inv:
  assumes "msg_ok b s"
  shows "msg_ok b (snd (sys_msg_destroy_channel cur cid s))"
proof (cases "\<exists>pid c. cur = Some pid \<and> msg_get_channel s cid = Some c \<and> creator_pid (msg_channels s ! c) = pid")
  case False
  then show ?thesis using assms by (auto simp: sys_msg_destroy_channel_def split: option.splits)
next
  case True
  then obtain pid c where c: "cur = Some pid" "msg_get_channel s cid = Some c"
    "creator_pid (msg_channels s ! c) = pid" by blast
  have lt: "c < MSG_MAX_CHANNELS" by (rule get_channelD(1) [OF c(2)])
  show ?thesis
    using c msg_invD(2) [OF assms lt]
    by (simp add: sys_msg_destroy_channel_def)
      (intro upd_chan_inv [OF assms lt],
       auto simp: chan_ok_def list_all_length conn_ok_def chan_live_def split: conn_loc.splits if_splits)
qed

lemma close_inv:
  assumes "msg_ok b s"
  shows "msg_ok b (snd (sys_msg_close cur cid s))"
proof (cases "\<exists>pid l cn. cur = Some pid \<and> msg_get_connection s cid = Some l \<and> conn_at s l = Some cn \<and>
    owner_pid cn = pid")
  case False
  then show ?thesis using assms by (auto simp: sys_msg_close_def split: option.splits)
next
  case True
  then obtain pid l cn where l: "cur = Some pid" "msg_get_connection s cid = Some l"
    "conn_at s l = Some cn" "owner_pid cn = pid" by blast
  note g = get_connectionD [OF assms l(2)]
  have cn: "conn_id cn = cid" "conn_ok (loc_chan l) cn" "conn_state cn \<noteq> MSG_CONN_FREE"
    using g(3) l(3) by auto
  have ch: "msg_get_channel s (channel_id cn) = Some (loc_chan l)"
    using cn(2,3) g(2,4) by (simp add: conn_ok_def msg_get_channel_def)
  show ?thesis
  proof (cases l)
    case (Srv d)
    then show ?thesis using l ch destroy_inv [OF assms] by (simp add: sys_msg_close_def loc_chan_def)
  next
    case (Cli d i)
    define t where "t = set_conn l (cn\<lparr>conn_state := MSG_CONN_CLOSED\<rparr>) s"
    have d: "d < MSG_MAX_CHANNELS" using g(2) Cli by (simp add: loc_chan_def)
    have t: "msg_ok b t"
      unfolding t_def using g cn l(3) Cli by (intro set_conn_inv [OF assms]) (auto simp: conn_ok_def)
    have "msg_ok b (upd_chan d (\<lambda>ch. ch\<lparr>num_connections := num_connections ch - 1\<rparr>) t)"
      by (rule upd_chan_inv [OF t d])
        (use msg_invD(2) [OF t d] in \<open>auto simp: chan_ok_def chan_live_def split: conn_loc.splits option.splits\<close>)
    then show ?thesis using l ch Cli by (simp add: sys_msg_close_def loc_chan_def Let_def t_def)
  qed
qed

lemma cleanup_inv:
  assumes "msg_ok b s"
  shows "msg_ok b (msg_cleanup_process pid s)"
proof -
  have len: "length (msg_channels s) = MSG_MAX_CHANNELS" by (rule msg_invD(1) [OF assms])
  have ok: "chan_ok c (cleanup_chan pid ch)" if "chan_ok c ch" for c ch
    using that by (auto simp: cleanup_chan_def chan_ok_def list_all_length conn_ok_def split: option.splits)
  have live: "chan_live (cleanup_chan pid ch) l = Some k \<Longrightarrow> chan_live ch l = Some k" for ch l k
    by (auto simp: cleanup_chan_def chan_live_def split: conn_loc.splits if_splits)
  have "ids_ok (msg_cleanup_process pid s)" if b
    by (rule ids_shrink [OF msg_invD(3) [OF assms that]])
      (auto simp: msg_cleanup_process_def live_id_def len split: if_splits intro: live)
  then show ?thesis
    using ok msg_invD(2) [OF assms] len by (simp add: msg_ok_def msg_cleanup_process_def)
qed

text \<open>The system calls of any process, in any order, and the cleanup of an exiting one.\<close>

datatype msg_call =
    Create u32 bool | Connect u32 int | Send u32 u64 int "u8 list" | Recv u32 int nat
  | Close u32 int | Destroy u32 int | Cleanup u32

definition msg_call :: "msg_call \<Rightarrow> msg_sys \<Rightarrow> msg_sys" where
  "msg_call x s =
     (case x of
        Create pid km \<Rightarrow> snd (sys_msg_create_channel (Some pid) km s)
      | Connect pid cid \<Rightarrow> snd (sys_msg_connect (Some pid) cid s)
      | Send pid ticks cid data \<Rightarrow> snd (sys_msg_send (Some pid) ticks cid data s)
      | Recv pid cid len \<Rightarrow> snd (sys_msg_recv (Some pid) cid len 0 0 [] s)
      | Close pid cid \<Rightarrow> snd (sys_msg_close (Some pid) cid s)
      | Destroy pid cid \<Rightarrow> snd (sys_msg_destroy_channel (Some pid) cid s)
      | Cleanup pid \<Rightarrow> msg_cleanup_process pid s)"

text \<open>The calls that take an id.\<close>

definition makes_id :: "msg_call \<Rightarrow> bool" where
  "makes_id x = (case x of Create _ _ \<Rightarrow> True | Connect _ _ \<Rightarrow> True | _ \<Rightarrow> False)"

lemma msg_call_inv:
  assumes "msg_ok b s" and "b \<Longrightarrow> makes_id x \<Longrightarrow> next_conn_id s < MSG_ID_MAX"
  shows "msg_ok b (msg_call x s)"
  using assms
  by (cases x) (simp_all add: msg_call_def makes_id_def create_inv connect_inv send_inv recv_inv close_inv
      destroy_inv cleanup_inv)

lemma fold_call_inv: "msg_inv s \<Longrightarrow> msg_inv (fold msg_call xs s)"
  by (induction xs arbitrary: s) (auto simp: msg_call_inv)

lemma msg_call_next:
  "next_conn_id (msg_call x s) = next_conn_id s \<or>
   makes_id x \<and> next_conn_id (msg_call x s) = next_id (next_conn_id s)"
proof -
  have conn: "next_conn_id (set_conn l cn t) = next_conn_id t" for l cn t
    by (simp add: set_conn_def split: conn_loc.splits)
  have recv: "next_conn_id t' = next_conn_id t" if "take_msg l len t = (x, t')" for l len t x t'
    using that by (auto simp: take_msg_def conn split: prod.splits)
  have destroy: "next_conn_id (snd (sys_msg_destroy_channel cur cid t)) = next_conn_id t" for cur cid t
    by (simp add: sys_msg_destroy_channel_def split: option.splits)
  show ?thesis
    by (cases x) (auto simp: msg_call_def makes_id_def sys_msg_create_channel_def sys_msg_connect_def
        msg_alloc_connection_def sys_msg_send_def sys_msg_recv_def sys_msg_close_def msg_cleanup_process_def
        conn recv destroy Let_def split: option.splits conn_loc.splits prod.splits if_splits)
qed

lemma fold_call_ids:
  assumes "msg_ids s" and "next_conn_id s + int (length (filter makes_id xs)) \<le> MSG_ID_MAX"
  shows "msg_ids (fold msg_call xs s)"
  using assms
proof (induction xs arbitrary: s)
  case Nil
  then show ?case by simp
next
  case (Cons x xs)
  then have "msg_ids (msg_call x s)" by (intro msg_call_inv) auto
  moreover have "next_conn_id (msg_call x s) + int (length (filter makes_id xs)) \<le> MSG_ID_MAX"
    using msg_call_next [of x s] Cons.prems(2) by (auto simp: next_id_def split: if_splits)
  ultimately show ?case using Cons.IH by simp
qed

lemma msg_init_inv [simp]: "msg_ok b (msg_init s)"
proof -
  have "chan_ok c zero_chan" for c
    by (auto simp: zero_chan_def chan_ok_def zero_conn_def conn_ok_def queue_ok_def empty_queue_def
        MSG_QUEUE_SIZE_def list_all_length)
  moreover have "live_id (msg_init s) l = None" for l
    by (auto simp: live_id_def msg_init_def chan_live_def zero_chan_def zero_conn_def split: conn_loc.splits)
  ultimately show ?thesis by (simp add: msg_ok_def msg_init_def ids_ok_def)
qed

text \<open>Ids identify connections: a live connection of an active channel is the one its id finds.\<close>

lemma find_from_None:
  assumes "find_from chs cid b = None" and "i < length chs"
  shows "chan_find (chs ! i) cid (b + i) = None"
  using assms
proof (induction chs arbitrary: b i)
  case Nil
  then show ?case by simp
next
  case (Cons ch chs)
  have h: "chan_find ch cid b = None" "find_from chs cid (Suc b) = None"
    using Cons.prems(1) by (auto split: option.splits)
  show ?case
  proof (cases i)
    case 0
    then show ?thesis using h by simp
  next
    case (Suc j)
    then show ?thesis using Cons.IH [OF h(2), of j] Cons.prems(2) by simp
  qed
qed

lemma get_connection_complete:
  assumes inv: "msg_ids s" and live: "live_id s l = Some cid"
    and act: "chan_state (msg_channels s ! loc_chan l) \<noteq> MSG_CHAN_FREE"
  shows "msg_get_connection s cid = Some l"
proof (cases "msg_get_connection s cid")
  case (Some l')
  then have "live_id s l' = Some cid" by (rule get_connectionD(1) [OF inv])
  then have "l' = l" using msg_invD(3) [OF inv TrueI] live unfolding ids_ok_def by blast
  then show ?thesis using Some by simp
next
  case None
  have c: "loc_chan l < length (msg_channels s)" using live by (simp add: live_id_def split: if_splits)
  have cl: "chan_live (msg_channels s ! loc_chan l) l = Some cid" using live c by (simp add: live_id_def)
  have none: "chan_find (msg_channels s ! loc_chan l) cid (loc_chan l) = None"
    using find_from_None [of _ cid 0 "loc_chan l"] None c by (simp add: msg_get_connection_def)
  show ?thesis
  proof (cases l)
    case (Srv d)
    then show ?thesis using cl none act by (auto simp: chan_find_def chan_live_def loc_chan_def split: if_splits)
  next
    case (Cli d i)
    have i: "i < length (connections (msg_channels s ! loc_chan l))"
      "conn_state (connections (msg_channels s ! loc_chan l) ! i) \<noteq> MSG_CONN_FREE"
      "conn_id (connections (msg_channels s ! loc_chan l) ! i) = cid"
      using cl Cli by (auto simp: chan_live_def split: if_splits)
    have "find_idx (\<lambda>cn. conn_state cn \<noteq> MSG_CONN_FREE \<and> conn_id cn = cid)
        (connections (msg_channels s ! loc_chan l)) = None"
      using none act by (auto simp: chan_find_def split: if_splits option.splits)
    from find_idx_None_nth [OF this i(1)] i show ?thesis by simp
  qed
qed

section \<open>Slots are not recycled\<close>

text \<open>No call except the process cleanup makes a used client slot free again.\<close>

definition slots_used :: "nat \<Rightarrow> msg_sys \<Rightarrow> bool" where
  "slots_used c s \<longleftrightarrow> c < length (msg_channels s) \<and>
     list_all (\<lambda>cn. conn_state cn \<noteq> MSG_CONN_FREE) (connections (msg_channels s ! c))"

lemma slots_used_upd:
  assumes "slots_used c s"
    and "\<And>ch. list_all (\<lambda>cn. conn_state cn \<noteq> MSG_CONN_FREE) (connections ch) \<Longrightarrow>
          list_all (\<lambda>cn. conn_state cn \<noteq> MSG_CONN_FREE) (connections (f ch))"
  shows "slots_used c (upd_chan d f s)"
  using assms by (cases "d = c") (auto simp: slots_used_def upd_chan_def)

lemma slots_used_next [simp]: "slots_used c (s\<lparr>next_conn_id := n\<rparr>) = slots_used c s"
  by (simp add: slots_used_def)

lemma list_all_update: "list_all P xs \<Longrightarrow> P v \<Longrightarrow> list_all P (xs[i := v])"
  using set_update_subset_insert [of xs i v] by (auto simp: list_all_iff)

lemma slots_used_set_conn:
  assumes "slots_used c s" and "conn_state cn \<noteq> MSG_CONN_FREE"
  shows "slots_used c (set_conn l cn s)"
  unfolding set_conn_def using assms
  by (cases l) (auto intro!: slots_used_upd list_all_update)

lemma slots_used_call:
  assumes inv: "msg_ok b s" and used: "slots_used c s" and x: "\<And>pid. x \<noteq> Cleanup pid"
  shows "slots_used c (msg_call x s)"
proof (cases x)
  case (Create pid km)
  then show ?thesis using used
    by (auto simp: msg_call_def sys_msg_create_channel_def Let_def split: option.splits intro!: slots_used_upd)
next
  case (Connect pid cid)
  show ?thesis
  proof (cases "\<exists>d i. msg_get_channel s cid = Some d \<and>
      find_idx (\<lambda>cn. conn_state cn = MSG_CONN_FREE) (connections (msg_channels s ! d)) = Some i")
    case False
    then show ?thesis using Connect used
      by (auto simp: msg_call_def sys_msg_connect_def msg_alloc_connection_def split: option.splits)
  next
    case True
    then obtain d i where d: "msg_get_channel s cid = Some d"
      "find_idx (\<lambda>cn. conn_state cn = MSG_CONN_FREE) (connections (msg_channels s ! d)) = Some i" by blast
    have len: "d < length (msg_channels s)" "i < length (connections (msg_channels s ! d))"
      using get_channelD(1) [OF d(1)] msg_invD(1) [OF inv] find_idx_SomeD(1) [OF d(2)] by simp_all
    show ?thesis
      unfolding Connect msg_call_def msg_call.case connect_state [OF d len] snd_conv
      using used by (intro slots_used_upd) (auto intro: list_all_update)
  qed
next
  case (Send pid ticks cid data)
  have "slots_used c (set_conn (Srv d) (snd (msg_queue_message sc data pid ticks)) s)"
    if "conn_state sc = MSG_CONN_CONNECTED" for d sc
    using that queue_message_keeps(2) [of sc data pid ticks] by (intro slots_used_set_conn [OF used]) simp
  moreover have "slots_used c (upd_chan d (\<lambda>ch. ch\<lparr>connections := bcast data pid ticks (connections ch)\<rparr>) s)" for d
    by (rule slots_used_upd [OF used]) (auto simp: list_all_length bcast_nth queue_message_keeps)
  ultimately show ?thesis using Send used
    by (auto simp: msg_call_def sys_msg_send_def split: option.splits)
next
  case (Recv pid cid len)
  show ?thesis
  proof (cases "usable_conn pid cid s")
    case None
    then show ?thesis using Recv used by (simp add: msg_call_def sys_msg_recv_def)
  next
    case (Some l)
    obtain cn where cn: "conn_at s l = Some cn" "conn_state cn = MSG_CONN_CONNECTED"
      using usable_connD(2) [OF inv Some] by blast
    have "slots_used c (snd (take_msg l len s))"
      using cn dequeue_keeps(2) [where cn = cn and len = len]
      by (auto simp: take_msg_def split_beta intro!: slots_used_set_conn [OF used])
    then show ?thesis using Recv Some by (auto simp: msg_call_def sys_msg_recv_def split: prod.splits)
  qed
next
  case (Close pid cid)
  have "slots_used c (snd (sys_msg_destroy_channel cur k s))" for cur k
    using used by (auto simp: sys_msg_destroy_channel_def split: option.splits intro!: slots_used_upd
        simp: list_all_length)
  moreover have "slots_used c (set_conn l (cn\<lparr>conn_state := MSG_CONN_CLOSED\<rparr>) s)" for l cn
    by (rule slots_used_set_conn [OF used]) simp
  ultimately show ?thesis using Close used
    by (auto simp: msg_call_def sys_msg_close_def Let_def split: option.splits intro!: slots_used_upd)
next
  case (Destroy pid cid)
  then show ?thesis
    using used by (auto simp: msg_call_def sys_msg_destroy_channel_def split: option.splits
        intro!: slots_used_upd simp: list_all_length)
qed (use x in auto)

lemma connect_fails:
  assumes "slots_used c s"
  shows "fst (sys_msg_connect (Some pid) (int c) s) = -1"
proof -
  have "find_idx (\<lambda>cn. conn_state cn = MSG_CONN_FREE) (connections (msg_channels s ! c)) = None"
    using assms by (simp add: slots_used_def find_idx_None_iff list_all_iff)
  then show ?thesis
    by (auto simp: sys_msg_connect_def msg_alloc_connection_def msg_get_channel_def split: option.splits)
qed

section \<open>Names\<close>

definition names_ok :: "name_service \<Rightarrow> bool" where
  "names_ok ns \<longleftrightarrow> g_name_table_inited ns \<and>
     (\<forall>i j. i < length (g_name_table ns) \<longrightarrow> j < length (g_name_table ns) \<longrightarrow>
        active (g_name_table ns ! i) \<longrightarrow> active (g_name_table ns ! j) \<longrightarrow>
        ename (g_name_table ns ! i) = ename (g_name_table ns ! j) \<longrightarrow> i = j)"

lemma names_find:
  assumes "names_ok ns"
  shows "find_idx (\<lambda>e. active e \<and> ename e = n) (g_name_table ns) = Some i \<longleftrightarrow>
    i < length (g_name_table ns) \<and> active (g_name_table ns ! i) \<and> ename (g_name_table ns ! i) = n"
proof
  assume r: "i < length (g_name_table ns) \<and> active (g_name_table ns ! i) \<and> ename (g_name_table ns ! i) = n"
  then obtain k where k: "find_idx (\<lambda>e. active e \<and> ename e = n) (g_name_table ns) = Some k"
    using find_idx_None_nth [of "\<lambda>e. active e \<and> ename e = n" "g_name_table ns" i] by fastforce
  have "k < length (g_name_table ns)" "active (g_name_table ns ! k)" "ename (g_name_table ns ! k) = n"
    using find_idx_SomeD(1,2) [OF k] by auto
  then have "k = i" using assms r unfolding names_ok_def by blast
  then show "find_idx (\<lambda>e. active e \<and> ename e = n) (g_name_table ns) = Some i" using k by simp
qed (auto dest: find_idx_SomeD)

text \<open>Rewriting one entry so that it is active under name \<open>n\<close>, when no other active entry has it.\<close>

lemma names_set:
  assumes ok: "names_ok ns" and i: "i < length (g_name_table ns)" and e: "active e" "ename e = n"
    and own: "\<not> active (g_name_table ns ! i) \<or> ename (g_name_table ns ! i) = n"
    and free: "\<And>j. j < length (g_name_table ns) \<Longrightarrow> j \<noteq> i \<Longrightarrow> active (g_name_table ns ! j) \<Longrightarrow>
      ename (g_name_table ns ! j) \<noteq> n"
  defines "ns' \<equiv> ns\<lparr>g_name_table := (g_name_table ns)[i := e]\<rparr>"
  shows "names_ok ns'"
    and "user_name u = Some n \<Longrightarrow> sys_ipc_lookup_name u ns' = echannel e"
    and "user_name u \<noteq> Some n \<Longrightarrow> sys_ipc_lookup_name u ns' = sys_ipc_lookup_name u ns"
proof -
  have uniq: "a = b" if "a < length (g_name_table ns)" "b < length (g_name_table ns)"
    "active (g_name_table ns' ! a)" "active (g_name_table ns' ! b)"
    "ename (g_name_table ns' ! a) = ename (g_name_table ns' ! b)" for a b
  proof (rule ccontr)
    assume "a \<noteq> b"
    have at: "g_name_table ns' ! k = (if k = i then e else g_name_table ns ! k)"
      if "k < length (g_name_table ns)" for k
      using that by (simp add: ns'_def)
    consider "a = i" | "b = i" | "a \<noteq> i" "b \<noteq> i" by blast
    then show False
    proof cases
      case 1
      then show False using free [of b] that e \<open>a \<noteq> b\<close> by (simp add: at)
    next
      case 2
      then show False using free [of a] that e \<open>a \<noteq> b\<close> by (simp add: at)
    next
      case 3
      then have "a = b" using that ok unfolding names_ok_def by (simp add: at)
      then show False using \<open>a \<noteq> b\<close> by simp
    qed
  qed
  have "g_name_table_inited ns'" "length (g_name_table ns') = length (g_name_table ns)"
    using ok by (simp_all add: ns'_def names_ok_def)
  then show ok': "names_ok ns'" unfolding names_ok_def using uniq by metis
  show "sys_ipc_lookup_name u ns' = echannel e" if "user_name u = Some n"
  proof -
    have "find_idx (\<lambda>e. active e \<and> ename e = n) (g_name_table ns') = Some i"
      unfolding names_find [OF ok'] using i e by (simp add: ns'_def)
    then show ?thesis using that i by (simp add: sys_ipc_lookup_name_def ns'_def)
  qed
  show "sys_ipc_lookup_name u ns' = sys_ipc_lookup_name u ns" if "user_name u \<noteq> Some n"
  proof (cases "user_name u")
    case None
    then show ?thesis by (simp add: sys_ipc_lookup_name_def)
  next
    case (Some m)
    then have m: "m \<noteq> n" using that by simp
    have same: "find_idx (\<lambda>e. active e \<and> ename e = m) (g_name_table ns') = Some k \<longleftrightarrow>
        find_idx (\<lambda>e. active e \<and> ename e = m) (g_name_table ns) = Some k" for k
      unfolding names_find [OF ok'] names_find [OF ok] using m e own i
      by (auto simp: ns'_def nth_list_update)
    show ?thesis
    proof (cases "find_idx (\<lambda>e. active e \<and> ename e = m) (g_name_table ns)")
      case None
      then have "find_idx (\<lambda>e. active e \<and> ename e = m) (g_name_table ns') = None"
        using same by (metis not_Some_eq)
      then show ?thesis using None Some by (simp add: sys_ipc_lookup_name_def)
    next
      case (Some k)
      then have k: "find_idx (\<lambda>e. active e \<and> ename e = m) (g_name_table ns') = Some k" using same by simp
      have "k \<noteq> i" using find_idx_SomeD(2) [OF k] m e i by (auto simp: ns'_def)
      then show ?thesis using k Some \<open>user_name u = Some m\<close> by (simp add: sys_ipc_lookup_name_def ns'_def)
    qed
  qed
qed

section \<open>Properties\<close>

text \<open>A table with one channel: process 5 serves, process 9 is its only client.\<close>

definition demo_calls :: "msg_call list" where
  "demo_calls = [Create 5 True, Connect 9 0]"

definition demo_srv :: msg_connection where
  "demo_srv = zero_conn\<lparr>conn_id := 1, conn_state := MSG_CONN_CONNECTED, channel_id := 0, owner_pid := 5\<rparr>"

definition demo_cli :: msg_connection where
  "demo_cli = zero_conn\<lparr>conn_id := 2, channel_id := 0, recv_queue := empty_queue,
     conn_state := MSG_CONN_CONNECTED, owner_pid := 9, peer_pid := 5\<rparr>"

definition demo_msg :: msg_sys where
  "demo_msg = \<lparr>msg_channels = (replicate MSG_MAX_CHANNELS zero_chan)[0 := \<lparr>chan_state = MSG_CHAN_ACTIVE,
       creator_pid = 5, server_conn = Some demo_srv,
       connections = (replicate MSG_MAX_CONNECTIONS zero_conn)[0 := demo_cli], num_connections = 1\<rparr>],
     next_conn_id = 3\<rparr>"

definition msg_start :: msg_sys where
  "msg_start = msg_init \<lparr>msg_channels = [], next_conn_id = 1\<rparr>"

lemma demo_msg_calls: "fold msg_call demo_calls msg_start = demo_msg"
proof -
  have 1: "msg_call (Create 5 True) msg_start = msg_start\<lparr>msg_channels := (replicate MSG_MAX_CHANNELS zero_chan)[0 :=
      zero_chan\<lparr>chan_state := MSG_CHAN_ACTIVE, creator_pid := 5, server_conn := Some demo_srv,
        num_connections := 0\<rparr>], next_conn_id := 2\<rparr>"
    by (simp add: msg_call_def sys_msg_create_channel_def msg_start_def msg_init_def MSG_MAX_CHANNELS_def
        numeral_nat zero_chan_def upd_chan_def demo_srv_def zero_conn_def Let_def next_id_def MSG_ID_MAX_def)
  have "msg_call (Connect 9 0) (msg_call (Create 5 True) msg_start) = demo_msg"
    unfolding 1
    by (simp add: msg_call_def sys_msg_connect_def msg_get_channel_def msg_alloc_connection_def set_conn_def
        upd_chan_def MSG_MAX_CHANNELS_def MSG_MAX_CONNECTIONS_def zero_chan_def Let_def demo_msg_def
        demo_cli_def zero_conn_def numeral_nat msg_start_def msg_init_def next_id_def
        MSG_ID_MAX_def)
  then show ?thesis by (simp add: demo_calls_def)
qed

lemma demo_msg_ids: "msg_ids demo_msg"
  unfolding demo_msg_calls [symmetric]
  by (rule fold_call_ids) (simp_all add: msg_start_def, simp add: msg_init_def demo_calls_def makes_id_def MSG_ID_MAX_def)

lemmas demo_msg_inv = msg_ids_inv [OF demo_msg_ids]

text \<open>C31: receive queues are FIFO. For every sequence of sends to and receives from a connection, its
  ring of four messages answers like a list of at most four: messages come out whole (up to the
  receiver's buffer) and in the order they were queued, and a fifth is refused.\<close>

theorem msg_queue_refines_list:
  assumes "queue_ok (recv_queue cn)"
  shows "queue_ok (recv_queue (snd (run_ops conn_step cn xs))) \<and>
    run_ops list_step (pending cn) xs
      = (fst (run_ops conn_step cn xs), pending (snd (run_ops conn_step cn xs)))"
  using conn_queue.run_inv [OF assms] conn_queue.run_sim [OF assms] by blast

theorem msg_queue_refines_list_witness:
  "queue_ok (recv_queue demo_srv) \<and>
   fst (run_ops conn_step demo_srv [Enq [1, 2] 9 0, Enq [3] 9 1, Deq 10, Deq 10])
     = [(0, []), (0, []), (2, [1, 2]), (1, [3])]"
proof -
  have ok: "queue_ok (recv_queue demo_srv)"
    by (simp add: demo_srv_def zero_conn_def empty_queue_def queue_ok_def MSG_QUEUE_SIZE_def)
  have "pending demo_srv = []" by (simp add: pending_def demo_srv_def zero_conn_def empty_queue_def)
  with msg_queue_refines_list [OF ok, of "[Enq [1, 2] 9 0, Enq [3] 9 1, Deq 10, Deq 10]"] ok show ?thesis
    by (simp add: list_step_def MSG_QUEUE_SIZE_def MSG_MAX_SIZE_def)
qed

text \<open>C14: the channel table. After any sequence of system calls by any processes from the initial table, each run to
  its end before the next (\<open>msg.c\<close> takes no lock) and with receives that do not wait, the table is well formed
  (every active channel has a connected server owned by its creator, queues are consistent, connections carry their
  channel's number). And as long as fewer than \<open>2^31 - 1\<close> of the calls have created a channel or a connection, so
  that the 32-bit id counter has not wrapped around, ids identify connections: a live connection of an active channel
  is the one that its id finds.\<close>

theorem msg_table_invariant:
  "msg_inv (fold msg_call xs msg_start) \<and>
   (length (filter makes_id xs) < 2 ^ 31 - 1 \<longrightarrow>
     (\<forall>l k. live_id (fold msg_call xs msg_start) l = Some k \<longrightarrow>
        chan_state (msg_channels (fold msg_call xs msg_start) ! loc_chan l) \<noteq> MSG_CHAN_FREE \<longrightarrow>
        msg_get_connection (fold msg_call xs msg_start) k = Some l))"
proof -
  have "msg_inv (fold msg_call xs msg_start)"
    unfolding msg_start_def by (rule fold_call_inv [OF msg_init_inv])
  moreover have "msg_ids (fold msg_call xs msg_start)" if "length (filter makes_id xs) < 2 ^ 31 - 1"
  proof (rule fold_call_ids)
    show "msg_ids msg_start" by (simp add: msg_start_def)
    have "next_conn_id msg_start = 1" by (simp add: msg_start_def msg_init_def)
    moreover have "int (length (filter makes_id xs)) < 2 ^ 31 - 1" using that by simp
    ultimately show "next_conn_id msg_start + int (length (filter makes_id xs)) \<le> MSG_ID_MAX"
      by (simp add: MSG_ID_MAX_def)
  qed
  ultimately show ?thesis using get_connection_complete by blast
qed

theorem msg_table_invariant_witness:
  "msg_get_connection demo_msg 2 = Some (Cli 0 0)"
proof -
  have "live_id demo_msg (Cli 0 0) = Some 2"
    and "chan_state (msg_channels demo_msg ! loc_chan (Cli 0 0)) \<noteq> MSG_CHAN_FREE"
    and "length (filter makes_id demo_calls) < 2 ^ 31 - 1"
    by (simp_all add: live_id_def loc_chan_def demo_msg_def chan_live_def demo_cli_def
        MSG_MAX_CHANNELS_def MSG_MAX_CONNECTIONS_def demo_calls_def makes_id_def)
  with msg_table_invariant [of demo_calls] show ?thesis by (simp add: demo_msg_calls)
qed

text \<open>Once the counter has wrapped around it meets ids that are still in use: a connect then hands out the id of a
  live connection, and two connections answer to one id.\<close>

theorem msg_id_reused:
  fixes pid :: u32
  assumes inv: "msg_inv s" and ch: "msg_get_channel s cid = Some c"
    and i: "find_idx (\<lambda>cn. conn_state cn = MSG_CONN_FREE) (connections (msg_channels s ! c)) = Some i"
    and live: "live_id s l = Some (next_conn_id s)"
  defines "t \<equiv> snd (sys_msg_connect (Some pid) cid s)"
  shows "fst (sys_msg_connect (Some pid) cid s) = next_conn_id s \<and> l \<noteq> Cli c i \<and>
    live_id t l = Some (next_conn_id s) \<and> live_id t (Cli c i) = Some (next_conn_id s)"
proof -
  have c: "c < length (msg_channels s)" and il: "i < length (connections (msg_channels s ! c))"
    using get_channelD(1) [OF ch] msg_invD(1) [OF inv] find_idx_SomeD(1) [OF i] by simp_all
  note st = connect_state [OF ch i c il, of pid]
  have ne: "l \<noteq> Cli c i"
    using live find_idx_SomeD(2) [OF i] c il by (auto simp: live_id_def chan_live_def loc_chan_def)
  let ?cn = "(connections (msg_channels s ! c) ! i)\<lparr>conn_id := next_conn_id s, channel_id := int c,
      recv_queue := empty_queue, conn_state := MSG_CONN_CONNECTED, owner_pid := pid,
      peer_pid := creator_pid (msg_channels s ! c)\<rparr>"
  have at: "live_id t m = (if loc_chan m = c
      then chan_live ((msg_channels s ! c)\<lparr>connections := (connections (msg_channels s ! c))[i := ?cn],
        num_connections := num_connections (msg_channels s ! c) + 1\<rparr>) m else live_id s m)" for m
    using c unfolding t_def st snd_conv live_upd_chan by (simp add: live_id_def)
  have "live_id t l = Some (next_conn_id s)"
    unfolding at using live c ne
    by (cases l) (auto simp: chan_live_def live_id_def loc_chan_def nth_list_update split: if_splits)
  moreover have "live_id t (Cli c i) = Some (next_conn_id s)"
    unfolding at using il by (simp add: chan_live_def loc_chan_def)
  ultimately show ?thesis using ne st by simp
qed

text \<open>One receive of the server: it takes the oldest message.\<close>

lemma server_recv:
  assumes inv: "msg_ids u" and c: "c < MSG_MAX_CHANNELS" and srv: "server_conn (msg_channels u ! c) = Some sc"
    and p: "pending sc = m # ms"
  shows "\<exists>res u' sc'. sys_msg_recv (Some (owner_pid sc)) (conn_id sc) len 0 start_ms rounds u = (res, u') \<and>
    msg_ids u' \<and> server_conn (msg_channels u' ! c) = Some sc' \<and> owner_pid sc' = owner_pid sc \<and>
    conn_id sc' = conn_id sc \<and> pending sc' = ms \<and>
    (0 < length (payload m) \<and> 0 < len \<longrightarrow>
       res = Received (int (min (length (payload m)) len)) (take len (payload m)))"
proof -
  have ok: "chan_state (msg_channels u ! c) = MSG_CHAN_ACTIVE" "conn_state sc = MSG_CONN_CONNECTED"
    "queue_ok (recv_queue sc)" and len: "c < length (msg_channels u)"
    using msg_invD(1) [OF inv] msg_invD(2) [OF inv c] c srv by (auto simp: chan_ok_def conn_ok_def)
  have "live_id u (Srv c) = Some (conn_id sc)"
    using srv len by (simp add: live_id_def loc_chan_def chan_live_def)
  then have "msg_get_connection u (conn_id sc) = Some (Srv c)"
    using get_connection_complete [OF inv] ok(1) by (simp add: loc_chan_def)
  then have usable: "usable_conn (owner_pid sc) (conn_id sc) u = Some (Srv c)"
    using srv ok(2) by (simp add: usable_conn_def conn_at_def)
  obtain n bs sc' where d: "msg_dequeue_message sc len = ((n, bs), sc')" by (metis surj_pair)
  note ds = dequeue_spec [OF ok(3) p d]
  obtain res u' where run:
    "sys_msg_recv (Some (owner_pid sc)) (conn_id sc) len 0 start_ms rounds u = (res, u')" by fastforce
  have "msg_ids u'" using recv_inv [OF inv, of 0 "Some (owner_pid sc)" "conn_id sc" len start_ms rounds] run by simp
  moreover have "u' = set_conn (Srv c) sc' u" "n > 0 \<Longrightarrow> res = Received n bs"
    using run usable srv d by (auto simp: sys_msg_recv_def take_msg_def conn_at_def Let_def split: if_splits)
  ultimately show ?thesis
    using run ds len by (intro exI [of _ res] exI [of _ u'] exI [of _ sc']) (auto simp: set_conn_def upd_chan_def)
qed

lemma server_recv_nth:
  fixes start_ms :: u64 and rounds :: "(u64 \<times> msg_sys) list"
  assumes "msg_ids u" and "c < MSG_MAX_CHANNELS" and "server_conn (msg_channels u ! c) = Some sc"
    and "pending sc = ms @ [m]" and "0 < length (payload m)" and "0 < len"
  defines "recv \<equiv> sys_msg_recv (Some (owner_pid sc)) (conn_id sc) len 0 start_ms rounds"
  shows "fst (recv (((\<lambda>v. snd (recv v)) ^^ length ms) u)) =
    Received (int (min (length (payload m)) len)) (take len (payload m))"
  unfolding recv_def using assms(1-6)
proof (induction ms arbitrary: u sc)
  case Nil
  then show ?case using server_recv [of u c sc m "[]" len start_ms rounds] by auto
next
  case (Cons m' ms)
  have p: "pending sc = m' # (ms @ [m])" using Cons.prems(4) by simp
  obtain res u' sc' where step:
    "sys_msg_recv (Some (owner_pid sc)) (conn_id sc) len 0 start_ms rounds u = (res, u')"
    "msg_ids u'" "server_conn (msg_channels u' ! c) = Some sc'" "owner_pid sc' = owner_pid sc"
    "conn_id sc' = conn_id sc" "pending sc' = ms @ [m]"
    using server_recv [OF Cons.prems(1-3) p, of len start_ms rounds] by blast
  show ?case
    using Cons.IH [OF step(2) Cons.prems(2) step(3,6) Cons.prems(5,6)] step(1,4,5)
    by (simp del: funpow.simps add: funpow_Suc_right)
qed

text \<open>C32: from client to server. When ids are different (\<open>msg_ids\<close>) and a client sends 1 to 4096 bytes over a usable
  connection, the call answers the length in every case. With fewer than four messages waiting in the server's queue
  the message goes behind them: after as many receives of the server as messages were waiting, the next one, with a
  buffer large enough, returns exactly those bytes. With four waiting the message is dropped and nothing changes.\<close>

theorem msg_send_then_recv:
  fixes start_ms :: u64 and rounds :: "(u64 \<times> msg_sys) list"
  assumes inv: "msg_ids s" and cl: "usable_conn cpid ccid s = Some (Cli c i)"
    and srv: "server_conn (msg_channels s ! c) = Some sc"
    and data: "0 < length data" "length data \<le> MSG_MAX_SIZE" "length data \<le> len"
    and t: "sys_msg_send (Some cpid) ticks ccid data s = (r, t)"
  defines "recv \<equiv> sys_msg_recv (Some (owner_pid sc)) (conn_id sc) len 0 start_ms rounds"
  shows "r = int (length data) \<and>
    (if length (pending sc) < MSG_QUEUE_SIZE
     then fst (recv (((\<lambda>u. snd (recv u)) ^^ length (pending sc)) t)) = Received (int (length data)) data
     else t = s)"
proof -
  note u = usable_connD [OF inv cl]
  have c: "c < MSG_MAX_CHANNELS" using u(3) by (simp add: loc_chan_def)
  note ok = msg_invD(2) [OF inv c]
  have act: "chan_state (msg_channels s ! c) = MSG_CHAN_ACTIVE" and con: "conn_state sc = MSG_CONN_CONNECTED"
    and q: "queue_ok (recv_queue sc)"
    using ok srv by (auto simp: chan_ok_def conn_ok_def)
  have ch: "msg_get_channel s (channel_id (the (conn_at s (Cli c i)))) = Some c"
    using u(2) c act by (auto simp: conn_ok_def msg_get_channel_def loc_chan_def)
  obtain z sc' where e: "msg_queue_message sc data cpid ticks = (z, sc')" by fastforce
  have rt: "r = int (length data)" "t = set_conn (Srv c) sc' s"
    using t cl ch data(2) srv con e by (auto simp: sys_msg_send_def)
  have len: "c < length (msg_channels s)" using c msg_invD(1) [OF inv] by simp
  show ?thesis
  proof (cases "length (pending sc) < MSG_QUEUE_SIZE")
    case True
    then have room: "qcount (recv_queue sc) < MSG_QUEUE_SIZE" by simp
    note en = enqueue_spec [OF q room e]
    have "msg_ids t" using send_inv [OF inv, of "Some cpid" ticks ccid data] t by simp
    moreover have "server_conn (msg_channels t ! c) = Some sc'"
      using len by (simp add: rt set_conn_def upd_chan_def)
    moreover have "pending sc' = pending sc @ [\<lparr>sender_pid = cpid, timestamp = ticks, payload = data\<rparr>]"
      using en(3) data(2) by simp
    ultimately show ?thesis
      using server_recv_nth [OF _ c, of t sc' "pending sc" _ len start_ms rounds] rt(1) en(4,7) data True
      by (simp add: recv_def)
  next
    case False
    then have "sc' = sc" using enqueue_full [of sc data cpid ticks] e by simp
    moreover have "(msg_channels s ! c)\<lparr>server_conn := Some sc\<rparr> = msg_channels s ! c" using srv by simp
    ultimately have "t = s" by (simp add: rt(2) set_conn_def upd_chan_def)
    then show ?thesis using rt(1) False by simp
  qed
qed

theorem msg_send_then_recv_witness:
  "fst (sys_msg_recv (Some 5) 1 100 0 0 [] (snd (sys_msg_send (Some 9) 7 2 [1, 2, 3] demo_msg)))
     = Received 3 [1, 2, 3]"
proof -
  have g: "msg_get_connection demo_msg 2 = Some (Cli 0 0)"
    using get_connection_complete [OF demo_msg_ids, of "Cli 0 0" 2]
    by (simp add: live_id_def loc_chan_def demo_msg_def chan_live_def demo_cli_def
        MSG_MAX_CHANNELS_def MSG_MAX_CONNECTIONS_def)
  have u: "usable_conn 9 2 demo_msg = Some (Cli 0 0)"
    unfolding usable_conn_def g
    by (simp add: conn_at_def demo_msg_def demo_cli_def MSG_MAX_CHANNELS_def MSG_MAX_CONNECTIONS_def)
  have sc: "server_conn (msg_channels demo_msg ! 0) = Some demo_srv" "pending demo_srv = []"
    by (simp_all add: demo_msg_def MSG_MAX_CHANNELS_def pending_def demo_srv_def zero_conn_def empty_queue_def)
  obtain r t where rt: "sys_msg_send (Some 9) 7 2 [1, 2, 3] demo_msg = (r, t)" by fastforce
  have srv: "owner_pid demo_srv = 5" "conn_id demo_srv = 1" by (simp_all add: demo_srv_def)
  have "(0::nat) < MSG_QUEUE_SIZE" "3 \<le> MSG_MAX_SIZE" by (simp_all add: MSG_QUEUE_SIZE_def MSG_MAX_SIZE_def)
  then show ?thesis
    using msg_send_then_recv [OF demo_msg_ids u sc(1) _ _ _ rt, of 100 0 "[]", unfolded sc(2) srv] by (simp add: rt)
qed

text \<open>C33: client slots are used up. Once all eight client slots of a channel have been used, no sequence of
  system calls makes room again (closing a connection, closing the channel and creating it anew
  included): every later connect to that channel number fails. Only the cleanup of an exiting process,
  which nothing in the kernel calls, would free a slot.\<close>

theorem msg_slots_exhausted:
  assumes "msg_inv s" and "slots_used c s" and "\<forall>x\<in>set xs. \<forall>pid. x \<noteq> Cleanup pid"
  shows "fst (sys_msg_connect (Some pid) (int c) (fold msg_call xs s)) = -1"
proof -
  have "slots_used c (fold msg_call xs s)"
    using assms
  proof (induction xs arbitrary: s)
    case Nil
    then show ?case by simp
  next
    case (Cons x xs)
    then show ?case using slots_used_call [of False s c x] msg_call_inv [of False s x] by simp
  qed
  then show ?thesis by (rule connect_fails)
qed

definition demo_full :: msg_sys where
  "demo_full = fold msg_call (Create 5 True # replicate 8 (Connect 9 0)) msg_start"

lemma demo_full_used: "slots_used 0 demo_full"
  by (simp add: demo_full_def slots_used_def msg_call_def sys_msg_create_channel_def sys_msg_connect_def
      msg_get_channel_def msg_alloc_connection_def set_conn_def upd_chan_def MSG_MAX_CHANNELS_def
      MSG_MAX_CONNECTIONS_def zero_chan_def zero_conn_def Let_def numeral_nat msg_start_def msg_init_def)

theorem msg_slots_exhausted_witness:
  "fst (sys_msg_connect (Some 7) 0
     (fold msg_call [Close 9 2, Close 9 3, Close 5 1, Create 5 True] demo_full)) = -1"
proof -
  have "msg_inv demo_full"
    unfolding demo_full_def msg_start_def by (rule fold_call_inv [OF msg_init_inv])
  from msg_slots_exhausted [OF this demo_full_used, of "[Close 9 2, Close 9 3, Close 5 1, Create 5 True]" 7]
  show ?thesis by simp
qed

text \<open>Closing twice. Closing a client connection leaves it findable by its id, so a second close by
  the same process succeeds and counts it down again: with one connection the 32-bit count of the
  channel wraps to its maximum.\<close>

theorem msg_double_close_underflow:
  assumes inv: "msg_ids s" and g: "msg_get_connection s cid = Some (Cli c i)"
    and o: "owner_pid (connections (msg_channels s ! c) ! i) = pid"
    and n: "num_connections (msg_channels s ! c) = 1"
  defines "t \<equiv> snd (sys_msg_close (Some pid) cid s)"
  shows "fst (sys_msg_close (Some pid) cid t) = 0 \<and>
    num_connections (msg_channels (snd (sys_msg_close (Some pid) cid t)) ! c) = 0xFFFFFFFF"
proof -
  have close: "sys_msg_close (Some pid) cid u = (0, upd_chan c (\<lambda>ch. ch\<lparr>num_connections := num_connections ch - 1\<rparr>)
      (set_conn (Cli c i) ((connections (msg_channels u ! c) ! i)\<lparr>conn_state := MSG_CONN_CLOSED\<rparr>) u))"
    if "msg_ids u" "msg_get_connection u cid = Some (Cli c i)"
      "owner_pid (connections (msg_channels u ! c) ! i) = pid" for u
  proof -
    note d = get_connectionD [OF that(1,2)]
    have "msg_get_channel u (channel_id (connections (msg_channels u ! c) ! i)) = Some c"
      using d by (auto simp: conn_ok_def conn_at_def loc_chan_def msg_get_channel_def)
    then show ?thesis using that by (simp add: sys_msg_close_def conn_at_def Let_def)
  qed
  note d = get_connectionD [OF inv g]
  have c: "c < length (msg_channels s)" using d(2) msg_invD(1) [OF inv] by (simp add: loc_chan_def)
  have i: "i < length (connections (msg_channels s ! c))"
    using d(1) by (auto simp: live_id_def chan_live_def loc_chan_def split: if_splits)
  have t: "t = upd_chan c (\<lambda>ch. ch\<lparr>num_connections := num_connections ch - 1\<rparr>)
      (set_conn (Cli c i) ((connections (msg_channels s ! c) ! i)\<lparr>conn_state := MSG_CONN_CLOSED\<rparr>) s)"
    unfolding t_def by (simp add: close [OF inv g o])
  have it: "msg_ids t" unfolding t_def by (rule close_inv [OF inv])
  have facts: "num_connections (msg_channels t ! c) = 0" "c < length (msg_channels t)"
    "owner_pid (connections (msg_channels t ! c) ! i) = pid"
    "chan_state (msg_channels t ! c) = chan_state (msg_channels s ! c)"
    "live_id t (Cli c i) = Some cid"
    using c i n o d(1,3) by (auto simp: t set_conn_def upd_chan_def live_id_def loc_chan_def chan_live_def
        conn_at_def split: if_splits)
  have gt: "msg_get_connection t cid = Some (Cli c i)"
    using get_connection_complete [OF it facts(5)] facts(4) d(4) by (simp add: loc_chan_def)
  have "num_connections (msg_channels (snd (sys_msg_close (Some pid) cid t)) ! c) = 0 - 1"
    using facts(1,2) by (simp add: close [OF it gt facts(3)] set_conn_def upd_chan_def)
  then show ?thesis by (simp add: close [OF it gt facts(3)])
qed

theorem msg_double_close_underflow_witness:
  "num_connections (msg_channels (snd (sys_msg_close (Some 9) 2 (snd (sys_msg_close (Some 9) 2 demo_msg)))) ! 0)
     = 0xFFFFFFFF"
proof -
  have g: "msg_get_connection demo_msg 2 = Some (Cli 0 0)"
    using get_connection_complete [OF demo_msg_ids, of "Cli 0 0" 2]
    by (simp add: live_id_def loc_chan_def demo_msg_def chan_live_def demo_cli_def
        MSG_MAX_CHANNELS_def MSG_MAX_CONNECTIONS_def)
  have "owner_pid (connections (msg_channels demo_msg ! 0) ! 0) = 9" "num_connections (msg_channels demo_msg ! 0) = 1"
    by (simp_all add: demo_msg_def demo_cli_def MSG_MAX_CHANNELS_def MSG_MAX_CONNECTIONS_def)
  from msg_double_close_underflow [OF demo_msg_ids g this] show ?thesis by simp
qed

text \<open>The name service. A successful registration makes the name resolve to the channel, changes no
  other name, and keeps names unique among the active entries; a name registered by another process
  is refused without a change to what any name resolves to.\<close>

theorem ipc_register_then_lookup:
  assumes ok: "names_ok ns" and r: "sys_ipc_register_name cur (Some n) cid ns = (r, ns')"
  shows "names_ok ns' \<and> (r = 0 \<longrightarrow> sys_ipc_lookup_name (Some n) ns' = cid) \<and>
    (r \<noteq> 0 \<longrightarrow> ns' = ns) \<and>
    (\<forall>m. user_name (Some m) \<noteq> user_name (Some n) \<longrightarrow>
       sys_ipc_lookup_name (Some m) ns' = sys_ipc_lookup_name (Some m) ns)"
proof -
  obtain name where name: "user_name (Some n) = Some name" by (simp add: user_name_def)
  have ini: "names_inited ns = ns" using ok by (simp add: names_inited_def names_ok_def)
  note reg = r [unfolded sys_ipc_register_name_def name ini Let_def option.case]
  let ?F = "find_idx (\<lambda>e. active e \<and> ename e = name) (g_name_table ns)"
  let ?G = "find_idx (\<lambda>e. \<not> active e) (g_name_table ns)"
  consider (refused) "r = -1" "ns' = ns"
    | (again) i where "?F = Some i" "r = 0"
        "ns' = ns\<lparr>g_name_table := (g_name_table ns)[i := (g_name_table ns ! i)\<lparr>echannel := cid\<rparr>]\<rparr>"
    | (new) i pid where "?F = None" "?G = Some i" "r = 0"
        "ns' = ns\<lparr>g_name_table := (g_name_table ns)[i := \<lparr>ename = name, echannel = cid, eowner = pid,
          active = True\<rparr>]\<rparr>"
    using reg by (cases ?F; cases ?G) (auto split: if_splits)
  then show ?thesis
  proof cases
    case refused
    then show ?thesis using ok by simp
  next
    case (again i)
    note f = again(1) [unfolded names_find [OF ok]]
    have free: "ename (g_name_table ns ! j) \<noteq> name"
      if "j < length (g_name_table ns)" "j \<noteq> i" "active (g_name_table ns ! j)" for j
      using ok f that unfolding names_ok_def by metis
    let ?e = "(g_name_table ns ! i)\<lparr>echannel := cid\<rparr>"
    have e: "active ?e" "ename ?e = name" "echannel ?e = cid"
      and own: "\<not> active (g_name_table ns ! i) \<or> ename (g_name_table ns ! i) = name" using f by simp_all
    note st = names_set [OF ok conjunct1 [OF f] e(1,2) own free, folded again(3)]
    have ok': "names_ok ns'" and l: "sys_ipc_lookup_name (Some n) ns' = cid"
      and other: "\<And>u. user_name u \<noteq> Some name \<Longrightarrow> sys_ipc_lookup_name u ns' = sys_ipc_lookup_name u ns"
      using st(1) st(2) [OF _ _ _ name] st(3) e(3) by simp_all
    show ?thesis using ok' l again(2) by (simp add: name other)
  next
    case (new i pid)
    have i: "i < length (g_name_table ns)" "\<not> active (g_name_table ns ! i)"
      using find_idx_SomeD(1,2) [OF new(2)] by auto
    have free: "ename (g_name_table ns ! j) \<noteq> name"
      if "j < length (g_name_table ns)" "j \<noteq> i" "active (g_name_table ns ! j)" for j
      using find_idx_None_nth [OF new(1) that(1)] that(3) by simp
    let ?e = "\<lparr>ename = name, echannel = cid, eowner = pid, active = True\<rparr>"
    have e: "active ?e" "ename ?e = name" "echannel ?e = cid"
      and own: "\<not> active (g_name_table ns ! i) \<or> ename (g_name_table ns ! i) = name" using i by simp_all
    note st = names_set [OF ok i(1) e(1,2) own free, folded new(4)]
    have ok': "names_ok ns'" and l: "sys_ipc_lookup_name (Some n) ns' = cid"
      and other: "\<And>u. user_name u \<noteq> Some name \<Longrightarrow> sys_ipc_lookup_name u ns' = sys_ipc_lookup_name u ns"
      using st(1) st(2) [OF _ _ _ name] st(3) e(3) by simp_all
    show ?thesis using ok' l new(3) by (simp add: name other)
  qed
qed

theorem ipc_register_then_lookup_witness:
  "\<exists>ns'. sys_ipc_register_name (Some 5) (Some ''audio'') 3
       \<lparr>g_name_table = [\<lparr>ename = [], echannel = 0, eowner = 0, active = False\<rparr>], g_name_table_inited = True\<rparr>
     = (0, ns') \<and> sys_ipc_lookup_name (Some ''audio'') ns' = 3"
proof -
  let ?ns = "\<lparr>g_name_table = [\<lparr>ename = [], echannel = 0, eowner = 0, active = False\<rparr>], g_name_table_inited = True\<rparr>"
  have ok: "names_ok ?ns" by (simp add: names_ok_def)
  obtain r ns' where r: "sys_ipc_register_name (Some 5) (Some ''audio'') 3 ?ns = (r, ns')" by fastforce
  moreover have "r = 0"
    using r by (auto simp: sys_ipc_register_name_def user_name_def names_inited_def Let_def)
  ultimately show ?thesis using ipc_register_then_lookup [OF ok r] by auto
qed

end
