(* ===== verification/Futex.thy ===== *)
theory Futex
  imports MOS_Prelude
begin

text \<open>
  Futexes, after \<open>kernel/sync/futex.c\<close> and \<open>futex.h\<close>: 256 hash buckets of waiters taken from a pool of 256.
  A bucket's doubly linked list is the list of its nodes, as pool indices. A blocking \<open>futex_wait\<close> is two steps,
  up to the first park and one round of its park loop; what other tasks and the timer do in between is a sequence
  of events (\<open>futex_step\<close>). The bucket lock makes every other operation one step. \<open>proc_wake\<close> is recorded.
\<close>

unbundle bit_operations_syntax

section \<open>Data\<close>

definition FUTEX_HASH_BUCKETS :: nat where "FUTEX_HASH_BUCKETS = 256"
definition FUTEX_HASH_MASK :: u32 where "FUTEX_HASH_MASK = 255"
definition FUTEX_WAITER_POOL_SIZE :: nat where "FUTEX_WAITER_POOL_SIZE = 256"
definition FUTEX_EAGAIN :: int where "FUTEX_EAGAIN = 11"
definition FUTEX_EFAULT :: int where "FUTEX_EFAULT = 14"
definition FUTEX_EINVAL :: int where "FUTEX_EINVAL = 22"
definition FUTEX_ETIMEDOUT :: int where "FUTEX_ETIMEDOUT = 110"

text \<open>Tasks are numbered. \<open>w_addr\<close> is a user address.\<close>

record waiter =
  w_addr :: u64
  w_proc :: "nat option"
  w_bitset :: u32
  w_timeout_ms :: u64
  w_timed_out :: bool
  w_done :: bool
  w_on_bucket :: bool

record bucket =
  b_waiters :: "nat list"
  b_count :: u32

record futex =
  buckets :: "bucket list"
  pool :: "waiter list"
  free_bitmap :: "u32 list"
  wait_count :: u64
  wake_count :: u64
  timeout_count :: u64
  woken_log :: "nat list"

definition zero_waiter :: waiter where
  "zero_waiter = \<lparr>w_addr = 0, w_proc = None, w_bitset = 0, w_timeout_ms = 0, w_timed_out = False,
     w_done = False, w_on_bucket = False\<rparr>"

definition futex_init :: "futex \<Rightarrow> futex" where
  "futex_init s = s\<lparr>buckets := replicate FUTEX_HASH_BUCKETS \<lparr>b_waiters = [], b_count = 0\<rparr>,
     free_bitmap := replicate (FUTEX_WAITER_POOL_SIZE div 32) 0\<rparr>"

definition futex_hash :: "u64 \<Rightarrow> nat" where
  "futex_hash a = unat (ucast (drop_bit 2 a XOR drop_bit 12 a) AND FUTEX_HASH_MASK)"

section \<open>The waiter pool\<close>

text \<open>The first clear bit, words that are full skipped.\<close>

primrec scan_words :: "u32 list \<Rightarrow> nat list \<Rightarrow> nat option" where
  "scan_words bm [] = None"
| "scan_words bm (i # is) =
     (if bm ! i \<noteq> 0xFFFFFFFF
      then (case List.find (\<lambda>j. bm ! i AND push_bit j 1 = 0) [0..<32] of
              Some j \<Rightarrow> Some (i * 32 + j)
            | None \<Rightarrow> scan_words bm is)
      else scan_words bm is)"

definition take_slot :: "u32 list \<Rightarrow> (nat \<times> u32 list) option" where
  "take_slot bm = map_option (\<lambda>k. (k, bm[k div 32 := bm ! (k div 32) OR push_bit (k mod 32) 1]))
     (scan_words bm [0..<FUTEX_WAITER_POOL_SIZE div 32])"

definition alloc_waiter :: "futex \<Rightarrow> (nat \<times> futex) option" where
  "alloc_waiter s = map_option (\<lambda>(k, bm). (k, s\<lparr>free_bitmap := bm, pool := (pool s)[k := zero_waiter]\<rparr>))
     (take_slot (free_bitmap s))"

definition give_slot :: "nat \<Rightarrow> u32 list \<Rightarrow> u32 list" where
  "give_slot k bm = bm[k div 32 := bm ! (k div 32) AND NOT (push_bit (k mod 32) 1)]"

definition free_waiter :: "nat \<Rightarrow> futex \<Rightarrow> futex" where
  "free_waiter k s =
     (if k \<ge> FUTEX_WAITER_POOL_SIZE then s else s\<lparr>free_bitmap := give_slot k (free_bitmap s)\<rparr>)"

section \<open>Bucket lists\<close>

definition upd_waiter :: "nat \<Rightarrow> (waiter \<Rightarrow> waiter) \<Rightarrow> futex \<Rightarrow> futex" where
  "upd_waiter k f s = s\<lparr>pool := (pool s)[k := f (pool s ! k)]\<rparr>"

definition upd_bucket :: "nat \<Rightarrow> (bucket \<Rightarrow> bucket) \<Rightarrow> futex \<Rightarrow> futex" where
  "upd_bucket b f s = s\<lparr>buckets := (buckets s)[b := f (buckets s ! b)]\<rparr>"

definition add_waiter :: "nat \<Rightarrow> nat \<Rightarrow> futex \<Rightarrow> futex" where
  "add_waiter b k s =
     upd_waiter k (\<lambda>w. w\<lparr>w_on_bucket := True\<rparr>)
       (upd_bucket b (\<lambda>bk. bk\<lparr>b_waiters := k # b_waiters bk, b_count := b_count bk + 1\<rparr>) s)"

definition remove_waiter :: "nat \<Rightarrow> nat \<Rightarrow> futex \<Rightarrow> futex" where
  "remove_waiter b k s =
     (if \<not> w_on_bucket (pool s ! k) then s
      else upd_waiter k (\<lambda>w. w\<lparr>w_on_bucket := False\<rparr>)
             (upd_bucket b (\<lambda>bk. bk\<lparr>b_waiters := remove1 k (b_waiters bk), b_count := b_count bk - 1\<rparr>) s))"

definition proc_wake :: "nat option \<Rightarrow> futex \<Rightarrow> futex" where
  "proc_wake p s = (case p of None \<Rightarrow> s | Some t \<Rightarrow> s\<lparr>woken_log := woken_log s @ [t]\<rparr>)"

section \<open>Waiting\<close>

text \<open>\<open>valid\<close> stands for \<open>validate_user_ptr\<close> of a writable 4-byte word of the caller.\<close>

definition validate_futex_addr :: "(u64 \<Rightarrow> bool) \<Rightarrow> u64 \<Rightarrow> bool" where
  "validate_futex_addr valid addr =
     (if addr = 0 then False else if addr AND 0x3 \<noteq> 0 then False else valid addr)"

text \<open>Up to the park: \<open>Inl\<close> an answer, \<open>Inr\<close> the bucket and the waiter of the parked task.\<close>

definition futex_wait_start ::
    "(u64 \<Rightarrow> bool) \<Rightarrow> (u64 \<Rightarrow> u32) \<Rightarrow> u64 \<Rightarrow> nat option \<Rightarrow> u64 \<Rightarrow> u32 \<Rightarrow> u64 \<Rightarrow> u32 \<Rightarrow> futex \<Rightarrow>
       (int + nat \<times> nat) \<times> futex" where
  "futex_wait_start valid mem now self addr val timeout bitset s =
     (if \<not> validate_futex_addr valid addr then (Inl (- FUTEX_EFAULT), s)
      else if bitset = 0 then (Inl (- FUTEX_EINVAL), s)
      else if self = None then (Inl (- FUTEX_EINVAL), s)
      else
        let b = futex_hash addr in
        if mem addr \<noteq> val then (Inl (- FUTEX_EAGAIN), s)
        else
          (case alloc_waiter s of
             None \<Rightarrow> (Inl (- FUTEX_EINVAL), s)
           | Some (k, s1) \<Rightarrow>
               let s2 = upd_waiter k (\<lambda>w. w\<lparr>w_addr := addr, w_proc := self, w_bitset := bitset,
                          w_timed_out := False, w_done := False,
                          w_timeout_ms := (if timeout \<noteq> 0 then now + timeout else 0)\<rparr>) s1;
                   s3 = add_waiter b k s2
               in (Inr (b, k), s3\<lparr>wait_count := wait_count s3 + 1\<rparr>)))"

text \<open>One round of the park loop after the task was scheduled again: \<open>None\<close> parks it once more.\<close>

definition futex_wait_resume :: "nat \<Rightarrow> nat \<Rightarrow> futex \<Rightarrow> int option \<times> futex" where
  "futex_wait_resume b k s =
     (if \<not> w_done (pool s ! k) then (None, s)
      else
        let s1 = remove_waiter b k s; timed_out = w_timed_out (pool s1 ! k); s2 = free_waiter k s1 in
        if timed_out then (Some (- FUTEX_ETIMEDOUT), s2\<lparr>timeout_count := timeout_count s2 + 1\<rparr>)
        else (Some 0, s2))"

section \<open>Waking\<close>

text \<open>The loop over a bucket; \<open>next\<close> is read before the waiter is unlinked, so the loop visits the nodes of the
  list as it was.\<close>

primrec wake_loop :: "nat \<Rightarrow> u64 \<Rightarrow> int \<Rightarrow> u32 \<Rightarrow> nat list \<Rightarrow> int \<Rightarrow> futex \<Rightarrow> int \<times> futex" where
  "wake_loop b addr count bitset [] woken s = (woken, s)"
| "wake_loop b addr count bitset (k # ks) woken s =
     (if \<not> woken < count then (woken, s)
      else if w_addr (pool s ! k) = addr \<and> w_bitset (pool s ! k) AND bitset \<noteq> 0
      then
        let s1 = upd_waiter k (\<lambda>w. w\<lparr>w_done := True\<rparr>) (remove_waiter b k s);
            s2 = proc_wake (w_proc (pool s1 ! k)) s1
        in wake_loop b addr count bitset ks (woken + 1) (s2\<lparr>wake_count := wake_count s2 + 1\<rparr>)
      else wake_loop b addr count bitset ks woken s)"

definition futex_wake :: "(u64 \<Rightarrow> bool) \<Rightarrow> u64 \<Rightarrow> int \<Rightarrow> u32 \<Rightarrow> futex \<Rightarrow> int \<times> futex" where
  "futex_wake valid addr count bitset s =
     (if \<not> validate_futex_addr valid addr then (- FUTEX_EFAULT, s)
      else if count \<le> 0 then (0, s)
      else if bitset = 0 then (- FUTEX_EINVAL, s)
      else
        let b = futex_hash addr in
        wake_loop b addr count bitset (b_waiters (buckets s ! b)) 0 s)"

definition futex_wake_addr :: "(u64 \<Rightarrow> bool) \<Rightarrow> u64 \<Rightarrow> int \<Rightarrow> futex \<Rightarrow> futex" where
  "futex_wake_addr valid addr count s = snd (futex_wake valid addr count 0xFFFFFFFF s)"

primrec requeue_loop ::
    "nat \<Rightarrow> nat \<Rightarrow> u64 \<Rightarrow> u64 \<Rightarrow> int \<Rightarrow> int \<Rightarrow> nat list \<Rightarrow> int \<Rightarrow> int \<Rightarrow> futex \<Rightarrow> (int \<times> int) \<times> futex" where
  "requeue_loop b1 b2 addr addr2 wakes requeues [] woken requeued s = ((woken, requeued), s)"
| "requeue_loop b1 b2 addr addr2 wakes requeues (k # ks) woken requeued s =
     (if w_addr (pool s ! k) = addr then
        if woken < wakes then
          let s1 = upd_waiter k (\<lambda>w. w\<lparr>w_done := True\<rparr>) (remove_waiter b1 k s);
              s2 = proc_wake (w_proc (pool s1 ! k)) s1
          in requeue_loop b1 b2 addr addr2 wakes requeues ks (woken + 1) requeued
               (s2\<lparr>wake_count := wake_count s2 + 1\<rparr>)
        else if requeued < requeues then
          requeue_loop b1 b2 addr addr2 wakes requeues ks woken (requeued + 1)
            (add_waiter b2 k (upd_waiter k (\<lambda>w. w\<lparr>w_addr := addr2\<rparr>) (remove_waiter b1 k s)))
        else requeue_loop b1 b2 addr addr2 wakes requeues ks woken requeued s
      else requeue_loop b1 b2 addr addr2 wakes requeues ks woken requeued s)"

definition futex_requeue :: "(u64 \<Rightarrow> bool) \<Rightarrow> u64 \<Rightarrow> u64 \<Rightarrow> int \<Rightarrow> int \<Rightarrow> futex \<Rightarrow> int \<times> futex" where
  "futex_requeue valid addr addr2 wakes requeues s =
     (if \<not> validate_futex_addr valid addr \<or> \<not> validate_futex_addr valid addr2 then (- FUTEX_EFAULT, s)
      else
        let h1 = futex_hash addr; h2 = futex_hash addr2;
            ((woken, requeued), s') =
              requeue_loop h1 h2 addr addr2 wakes requeues (b_waiters (buckets s ! h1)) 0 0 s
        in (woken + requeued, s'))"

definition futex_cmp_requeue ::
    "(u64 \<Rightarrow> bool) \<Rightarrow> (u64 \<Rightarrow> u32) \<Rightarrow> u64 \<Rightarrow> u64 \<Rightarrow> u32 \<Rightarrow> int \<Rightarrow> int \<Rightarrow> futex \<Rightarrow> int \<times> futex" where
  "futex_cmp_requeue valid mem addr addr2 expected wakes requeues s =
     (if \<not> validate_futex_addr valid addr then (- FUTEX_EFAULT, s)
      else if mem addr \<noteq> expected then (- FUTEX_EAGAIN, s)
      else futex_requeue valid addr addr2 wakes requeues s)"

section \<open>The timer\<close>

definition expired :: "u64 \<Rightarrow> waiter \<Rightarrow> bool" where
  "expired now w \<longleftrightarrow> w_timeout_ms w > 0 \<and> sint (now - w_timeout_ms w) \<ge> 0 \<and> \<not> w_done w"

primrec tick_loop :: "u64 \<Rightarrow> nat \<Rightarrow> nat list \<Rightarrow> futex \<Rightarrow> futex" where
  "tick_loop now b [] s = s"
| "tick_loop now b (k # ks) s =
     (if expired now (pool s ! k)
      then
        let s1 = upd_waiter k (\<lambda>w. w\<lparr>w_timed_out := True, w_done := True\<rparr>) (remove_waiter b k s)
        in tick_loop now b ks (proc_wake (w_proc (pool s1 ! k)) s1)
      else tick_loop now b ks s)"

definition tick_bucket :: "u64 \<Rightarrow> nat \<Rightarrow> futex \<Rightarrow> futex" where
  "tick_bucket now b s =
     (if b_count (buckets s ! b) = 0 then s else tick_loop now b (b_waiters (buckets s ! b)) s)"

definition futex_tick :: "u64 \<Rightarrow> futex \<Rightarrow> futex" where
  "futex_tick now s = fold (tick_bucket now) [0..<FUTEX_HASH_BUCKETS] s"

section \<open>The system call\<close>

definition to_int :: "u32 \<Rightarrow> int" where "to_int v = sint v"

definition sys_futex ::
    "(u64 \<Rightarrow> bool) \<Rightarrow> (u64 \<Rightarrow> u32) \<Rightarrow> u64 \<Rightarrow> nat option \<Rightarrow> u64 \<Rightarrow> u32 \<Rightarrow> u32 \<Rightarrow> u64 \<Rightarrow> u64 \<Rightarrow> u32 \<Rightarrow> futex \<Rightarrow>
       (int + nat \<times> nat) \<times> futex" where
  "sys_futex valid mem now self addr op val timeout addr2 val3 s =
     (let cmd = op AND 0x7F; ret = (\<lambda>(rc, s'). (Inl rc, s')) in
      if cmd = 0 then futex_wait_start valid mem now self addr val timeout 0xFFFFFFFF s
      else if cmd = 1 then ret (futex_wake valid addr (to_int val) 0xFFFFFFFF s)
      else if cmd = 3 then ret (futex_requeue valid addr addr2 (to_int val) (to_int (ucast timeout)) s)
      else if cmd = 4 then
        ret (futex_cmp_requeue valid mem addr addr2 val3 (to_int val) (to_int (ucast timeout)) s)
      else if cmd = 9 then futex_wait_start valid mem now self addr val timeout val3 s
      else if cmd = 10 then ret (futex_wake valid addr (to_int val) val3 s)
      else (Inl (- FUTEX_EINVAL), s))"

section \<open>The interface of a slot pool\<close>

text \<open>A pool hands out free slots. A client that records who holds which slot keeps the record exact.\<close>

locale slot_pool =
  fixes ok :: "'b \<Rightarrow> bool"
    and used :: "'b \<Rightarrow> nat set"
    and cap :: nat
    and alloc :: "'b \<Rightarrow> (nat \<times> 'b) option"
    and release :: "nat \<Rightarrow> 'b \<Rightarrow> 'b"
  assumes alloc_slot: "ok b \<Longrightarrow> alloc b = Some (k, b') \<Longrightarrow> k < cap \<and> k \<notin> used b \<and> used b' = insert k (used b) \<and> ok b'"
    and alloc_full: "ok b \<Longrightarrow> alloc b = None \<Longrightarrow> used b = {..<cap}"
    and release_slot: "ok b \<Longrightarrow> k < cap \<Longrightarrow> used (release k b) = used b - {k} \<and> ok (release k b)"
begin

definition tracked :: "('p \<rightharpoonup> nat) \<Rightarrow> 'b \<Rightarrow> bool" where
  "tracked h b \<longleftrightarrow> ok b \<and> ran h = used b \<and> inj_on h (dom h)"

lemma tracked_take:
  assumes "tracked h b" and "alloc b = Some (k, b')" and "h p = None"
  shows "tracked (h(p \<mapsto> k)) b'" and "k \<notin> ran h"
proof -
  have k: "k \<notin> used b" "used b' = insert k (used b)" "ok b'" using alloc_slot assms by (auto simp: tracked_def)
  then show "k \<notin> ran h" using assms(1) by (simp add: tracked_def)
  moreover have "inj_on (h(p \<mapsto> k)) (dom h)"
    using assms(1,3) by (auto simp: tracked_def inj_on_def)
  moreover have "(h(p \<mapsto> k)) ` (dom h - {p}) \<subseteq> Some ` ran h" by (auto simp: ran_def)
  then have "Some k \<notin> (h(p \<mapsto> k)) ` (dom h - {p})" using \<open>k \<notin> ran h\<close> by blast
  ultimately have "inj_on (h(p \<mapsto> k)) (dom (h(p \<mapsto> k)))" by simp
  moreover have "ran (h(p \<mapsto> k)) = insert k (ran h)" using assms(3) by (rule ran_map_upd)
  ultimately show "tracked (h(p \<mapsto> k)) b'"
    using k assms(1) by (simp add: tracked_def)
qed

lemma tracked_give:
  assumes "tracked h b" and "h p = Some k" and "k < cap"
  shows "tracked (h(p := None)) (release k b)"
proof -
  have r: "used (release k b) = used b - {k}" "ok (release k b)" using release_slot assms by (auto simp: tracked_def)
  have "q = p" if "h q = Some k" for q
    using assms(1,2) that unfolding tracked_def by (metis domI inj_onD)
  then have "(\<exists>q. (h(p := None)) q = Some x) \<longleftrightarrow> (\<exists>q. h q = Some x) \<and> x \<noteq> k" for x
    using assms(2) by (metis fun_upd_apply option.distinct(1) option.inject)
  then have "ran (h(p := None)) = ran h - {k}" by (simp add: ran_def set_eq_iff)
  moreover have "inj_on (h(p := None)) (dom (h(p := None)))"
    using assms(1) by (auto simp: tracked_def intro!: inj_on_fun_updI intro: inj_on_subset)
  ultimately show ?thesis using r assms(1) by (simp add: tracked_def)
qed

lemma full_tracked:
  assumes "tracked h b" and "alloc b = None"
  shows "ran h = {..<cap}"
  using assms alloc_full by (simp add: tracked_def)

end

section \<open>The bitmap is a slot pool\<close>

definition slots_ok :: "u32 list \<Rightarrow> bool" where "slots_ok bm \<longleftrightarrow> length bm = 8"
definition slots_used :: "u32 list \<Rightarrow> nat set" where
  "slots_used bm = {k. k < FUTEX_WAITER_POOL_SIZE \<and> bit (bm ! (k div 32)) (k mod 32)}"

lemma and_push_bit_1: "(w :: u32) AND push_bit j 1 = 0 \<longleftrightarrow> \<not> bit w j" if "j < 32"
proof -
  have "w AND push_bit j 1 = (if bit w j then push_bit j 1 else 0)"
    by (rule bit_word_eqI) (auto simp: bit_and_iff bit_exp_iff)
  moreover have "push_bit j (1 :: u32) \<noteq> 0"
  proof
    assume "push_bit j (1 :: u32) = 0"
    then show False using that by simp
  qed
  ultimately show ?thesis by simp
qed

lemma full_word: "(\<forall>j<32. bit (w :: u32) j) \<longleftrightarrow> w = 0xFFFFFFFF"
proof -
  have m: "(0xFFFFFFFF :: u32) = mask 32" by (simp add: mask_eq_exp_minus_1)
  show ?thesis
  proof
    assume a: "\<forall>j<32. bit w j"
    show "w = 0xFFFFFFFF" unfolding m by (rule bit_word_eqI) (use a in \<open>auto simp: bit_mask_iff\<close>)
  next
    assume "w = 0xFFFFFFFF"
    then show "\<forall>j<32. bit w j" unfolding m by (simp add: bit_mask_iff)
  qed
qed

lemma scan_words_spec:
  assumes "scan_words bm is = r"
  shows "case r of None \<Rightarrow> \<forall>i\<in>set is. \<forall>j<32. bit (bm ! i) j
    | Some k \<Rightarrow> k div 32 \<in> set is \<and> \<not> bit (bm ! (k div 32)) (k mod 32)"
  using assms
proof (induction "is" arbitrary: r)
  case (Cons i "is")
  show ?case
  proof (cases "bm ! i = 0xFFFFFFFF")
    case True
    then show ?thesis using Cons.IH [of r] Cons.prems full_word [of "bm ! i"] by (cases r) auto
  next
    case False
    then obtain j where j: "j < 32" "\<not> bit (bm ! i) j" using full_word by blast
    then have "List.find (\<lambda>j. bm ! i AND push_bit j 1 = 0) [0..<32] \<noteq> None"
      using and_push_bit_1 [of j "bm ! i"] by (auto simp: find_None_iff simp del: push_bit_of_1)
    then obtain k where k: "List.find (\<lambda>j. bm ! i AND push_bit j 1 = 0) [0..<32] = Some k" by blast
    then have "k < 32" "bm ! i AND push_bit k 1 = 0" by (auto simp: find_Some_iff simp del: push_bit_of_1)
    then have "k < 32" "\<not> bit (bm ! i) k" using and_push_bit_1 by blast+
    moreover have "r = Some (i * 32 + k)" using Cons.prems False k by simp
    ultimately show ?thesis by simp
  qed
qed simp

interpretation waiter_slots: slot_pool slots_ok slots_used FUTEX_WAITER_POOL_SIZE take_slot give_slot
proof (unfold_locales, goal_cases)
  case (1 bm k bm')
  then have len: "length bm = 8" by (simp add: slots_ok_def)
  obtain scan: "scan_words bm [0..<FUTEX_WAITER_POOL_SIZE div 32] = Some k"
    and bm': "bm' = bm[k div 32 := bm ! (k div 32) OR push_bit (k mod 32) 1]"
    using 1 by (auto simp: take_slot_def)
  have k: "k div 32 < 8" "\<not> bit (bm ! (k div 32)) (k mod 32)"
    using scan_words_spec [OF scan] by (auto simp: FUTEX_WAITER_POOL_SIZE_def)
  then have "k < FUTEX_WAITER_POOL_SIZE" by (simp add: FUTEX_WAITER_POOL_SIZE_def)
  moreover have "j \<in> slots_used bm' \<longleftrightarrow> j = k \<or> j \<in> slots_used bm" for j
  proof (cases "j div 32 = k div 32")
    case True
    then have "j = k \<longleftrightarrow> j mod 32 = k mod 32" by (metis div_mult_mod_eq)
    then show ?thesis
      using True k len \<open>k < FUTEX_WAITER_POOL_SIZE\<close>
      by (auto simp: slots_used_def bm' bit_or_iff bit_exp_iff)
  next
    case False
    then show ?thesis by (auto simp: slots_used_def bm')
  qed
  ultimately show ?case using k len by (auto simp: slots_used_def slots_ok_def bm')
next
  case (2 bm)
  then have "scan_words bm [0..<FUTEX_WAITER_POOL_SIZE div 32] = None" by (auto simp: take_slot_def)
  then have "\<forall>i<8. \<forall>j<32. bit (bm ! i) j"
    using scan_words_spec [of bm "[0..<FUTEX_WAITER_POOL_SIZE div 32]" None] by (simp add: FUTEX_WAITER_POOL_SIZE_def)
  then show ?case by (auto simp: slots_used_def FUTEX_WAITER_POOL_SIZE_def)
next
  case (3 bm k)
  then have k: "k div 32 < 8" "length bm = 8" by (auto simp: FUTEX_WAITER_POOL_SIZE_def slots_ok_def)
  have "j \<in> slots_used (give_slot k bm) \<longleftrightarrow> j \<in> slots_used bm \<and> j \<noteq> k" for j
  proof (cases "j div 32 = k div 32")
    case True
    then have "j = k \<longleftrightarrow> j mod 32 = k mod 32" by (metis div_mult_mod_eq)
    then show ?thesis
      using True k by (auto simp: slots_used_def give_slot_def bit_and_iff bit_not_iff_eq bit_exp_iff)
  next
    case False
    then show ?thesis by (auto simp: slots_used_def give_slot_def)
  qed
  then show ?case using k by (auto simp: slots_ok_def give_slot_def)
qed

section \<open>The waiting queues\<close>

abbreviation waiters :: "futex \<Rightarrow> nat \<Rightarrow> nat list" where "waiters s b \<equiv> b_waiters (buckets s ! b)"

text \<open>Every bucket holds exactly the linked waiters whose address hashes to it, each once, none of them released.\<close>

definition futex_ok :: "futex \<Rightarrow> bool" where
  "futex_ok s \<longleftrightarrow> length (buckets s) = FUTEX_HASH_BUCKETS \<and> length (pool s) = FUTEX_WAITER_POOL_SIZE \<and>
     (\<forall>b<FUTEX_HASH_BUCKETS. distinct (waiters s b) \<and> b_count (buckets s ! b) = of_nat (length (waiters s b)) \<and>
        (\<forall>k. k \<in> set (waiters s b) \<longleftrightarrow> k < FUTEX_WAITER_POOL_SIZE \<and> w_on_bucket (pool s ! k) \<and>
            futex_hash (w_addr (pool s ! k)) = b)) \<and>
     (\<forall>k<FUTEX_WAITER_POOL_SIZE. w_on_bucket (pool s ! k) \<longrightarrow> \<not> w_done (pool s ! k))"

text \<open>The tasks that wait on an address, the latest first.\<close>

definition futex_queue :: "futex \<Rightarrow> u64 \<Rightarrow> nat list" where
  "futex_queue s a = filter (\<lambda>k. w_addr (pool s ! k) = a) (waiters s (futex_hash a))"

lemma futex_hash_less: "futex_hash a < FUTEX_HASH_BUCKETS"
proof -
  have m: "FUTEX_HASH_MASK = mask 8" by (simp add: FUTEX_HASH_MASK_def mask_eq_exp_minus_1)
  have "futex_hash a = unat (take_bit 8 (ucast (drop_bit 2 a XOR drop_bit 12 a) :: u32))"
    by (simp only: futex_hash_def m take_bit_eq_mask)
  also have "\<dots> < 2 ^ 8" by (simp only: unsigned_take_bit_eq take_bit_nat_less_exp)
  finally show ?thesis by (simp add: FUTEX_HASH_BUCKETS_def)
qed

lemma futex_okD:
  assumes "futex_ok s"
  shows "length (buckets s) = FUTEX_HASH_BUCKETS" and "length (pool s) = FUTEX_WAITER_POOL_SIZE"
    and "\<And>b. b < FUTEX_HASH_BUCKETS \<Longrightarrow> distinct (waiters s b)"
    and "\<And>b. b < FUTEX_HASH_BUCKETS \<Longrightarrow> b_count (buckets s ! b) = of_nat (length (waiters s b))"
    and "\<And>b k. b < FUTEX_HASH_BUCKETS \<Longrightarrow> k \<in> set (waiters s b) \<Longrightarrow>
          k < FUTEX_WAITER_POOL_SIZE \<and> w_on_bucket (pool s ! k) \<and> futex_hash (w_addr (pool s ! k)) = b"
    and "\<And>k. k < FUTEX_WAITER_POOL_SIZE \<Longrightarrow> w_on_bucket (pool s ! k) \<Longrightarrow>
          k \<in> set (waiters s (futex_hash (w_addr (pool s ! k)))) \<and> \<not> w_done (pool s ! k)"
  using assms futex_hash_less unfolding futex_ok_def by blast+

lemma waiter_iff:
  "futex_ok s \<Longrightarrow> b < FUTEX_HASH_BUCKETS \<Longrightarrow> k \<in> set (waiters s b) \<longleftrightarrow> k < FUTEX_WAITER_POOL_SIZE \<and>
     w_on_bucket (pool s ! k) \<and> futex_hash (w_addr (pool s ! k)) = b"
  by (simp add: futex_ok_def)

lemma upd_simps [simp]:
  "buckets (upd_waiter k f s) = buckets s" "pool (upd_bucket b g s) = pool s"
  "pool (upd_waiter k f s) = (pool s)[k := f (pool s ! k)]"
  "buckets (upd_bucket b g s) = (buckets s)[b := g (buckets s ! b)]"
  "free_bitmap (upd_waiter k f s) = free_bitmap s" "free_bitmap (upd_bucket b g s) = free_bitmap s"
  "woken_log (upd_waiter k f s) = woken_log s" "woken_log (upd_bucket b g s) = woken_log s"
  by (simp_all add: upd_waiter_def upd_bucket_def)

lemma wake_simps [simp]:
  "buckets (proc_wake p s) = buckets s" "pool (proc_wake p s) = pool s" "free_bitmap (proc_wake p s) = free_bitmap s"
  "woken_log (proc_wake p s) = woken_log s @ (case p of None \<Rightarrow> [] | Some t \<Rightarrow> [t])"
  by (simp_all add: proc_wake_def split: option.splits)

lemma futex_ok_cong: "buckets s = buckets t \<Longrightarrow> pool s = pool t \<Longrightarrow> futex_ok s = futex_ok t"
  by (simp add: futex_ok_def)

text \<open>Waiters \<open>ws\<close> leave bucket \<open>b1\<close> and are changed by \<open>f\<close>; waiters \<open>ms\<close> move to the head of \<open>b2\<close> with address
  \<open>a2\<close>; nothing else changes.\<close>

definition effect ::
    "nat \<Rightarrow> u64 \<Rightarrow> (waiter \<Rightarrow> waiter) \<Rightarrow> nat list \<Rightarrow> nat list \<Rightarrow> futex \<Rightarrow> futex \<Rightarrow> bool" where
  "effect b2 a2 f ws ms s s' \<longleftrightarrow> futex_ok s' \<and> free_bitmap s' = free_bitmap s \<and>
     woken_log s' = woken_log s @ List.map_filter (\<lambda>k. w_proc (pool s ! k)) ws \<and>
     (\<forall>j<FUTEX_WAITER_POOL_SIZE. pool s' ! j =
        (if j \<in> set ws then f ((pool s ! j)\<lparr>w_on_bucket := False\<rparr>)
         else if j \<in> set ms then (pool s ! j)\<lparr>w_addr := a2, w_on_bucket := True\<rparr> else pool s ! j)) \<and>
     (\<forall>c<FUTEX_HASH_BUCKETS. waiters s' c =
        (if c = b2 then rev ms else []) @ filter (\<lambda>k. k \<notin> set ws \<and> k \<notin> set ms) (waiters s c))"

lemma map_filter_ext: "(\<And>x. x \<in> set xs \<Longrightarrow> f x = g x) \<Longrightarrow> List.map_filter f xs = List.map_filter g xs"
  by (induction xs) (auto simp: map_filter_simps split: option.splits)

lemma map_filter_app: "List.map_filter f (xs @ ys) = List.map_filter f xs @ List.map_filter f ys"
  by (induction xs) (auto simp: map_filter_simps split: option.splits)

lemma effect_refl: "futex_ok s \<Longrightarrow> effect b2 a2 f [] [] s s"
  by (simp add: effect_def map_filter_simps)

definition releases :: "(waiter \<Rightarrow> waiter) \<Rightarrow> bool" where
  "releases f \<longleftrightarrow> (\<forall>w. w_done (f w) \<and> w_on_bucket (f w) = w_on_bucket w \<and> w_addr (f w) = w_addr w \<and> w_proc (f w) = w_proc w)"

lemma unlinked:
  assumes ok: "futex_ok s" and b: "b < FUTEX_HASH_BUCKETS" and k: "k \<in> set (waiters s b)" and c: "c < FUTEX_HASH_BUCKETS"
  defines "bks \<equiv> (buckets s)[b := (buckets s ! b)\<lparr>b_waiters := remove1 k (waiters s b),
      b_count := b_count (buckets s ! b) - 1\<rparr>]"
  shows "b_waiters (bks ! c) = filter (\<lambda>j. j \<noteq> k) (waiters s c)"
    and "b_count (bks ! c) = of_nat (length (b_waiters (bks ! c)))"
proof -
  note d = futex_okD [OF ok]
  have rem: "remove1 k (waiters s b) = filter (\<lambda>j. j \<noteq> k) (waiters s b)"
    using d(3) [OF b] by (simp add: distinct_remove1_removeAll removeAll_filter_not_eq) (metis (mono_tags) eq_commute)
  have len: "length (waiters s b) = Suc (length (remove1 k (waiters s b)))"
    using k by (simp add: length_remove1 Suc_leI) (metis Suc_pred length_pos_if_in_set)
  have "b_waiters (bks ! c) = filter (\<lambda>j. j \<noteq> k) (waiters s c) \<and> b_count (bks ! c) = of_nat (length (b_waiters (bks ! c)))"
  proof (cases "c = b")
    case True
    then show ?thesis using d(1,4) c rem len by (simp add: bks_def)
  next
    case False
    then have "k \<notin> set (waiters s c)" using d(5) [OF c] d(5) [OF b k] by blast
    then have "filter (\<lambda>j. j \<noteq> k) (waiters s c) = waiters s c" by (metis (mono_tags, lifting) filter_True)
    then show ?thesis using False d(4) [OF c] by (simp add: bks_def)
  qed
  then show "b_waiters (bks ! c) = filter (\<lambda>j. j \<noteq> k) (waiters s c)"
    and "b_count (bks ! c) = of_nat (length (b_waiters (bks ! c)))" by simp_all
qed

lemma unlink_effect:
  assumes ok: "futex_ok s" and b: "b < FUTEX_HASH_BUCKETS" and k: "k \<in> set (waiters s b)" and f: "releases f"
  defines "s1 \<equiv> upd_waiter k f (remove_waiter b k s)"
  shows "effect b2 a2 f [k] [] s (proc_wake (w_proc (pool s1 ! k)) s1)"
proof -
  note d = futex_okD [OF ok]
  have kk: "k < FUTEX_WAITER_POOL_SIZE" "w_on_bucket (pool s ! k)" "futex_hash (w_addr (pool s ! k)) = b"
    using d(5) [OF b k] by simp_all
  have pool: "pool s1 = (pool s)[k := f ((pool s ! k)\<lparr>w_on_bucket := False\<rparr>)]"
    and bks: "buckets s1 = (buckets s)[b := (buckets s ! b)\<lparr>b_waiters := remove1 k (waiters s b),
        b_count := b_count (buckets s ! b) - 1\<rparr>]"
    and rest: "free_bitmap s1 = free_bitmap s" "woken_log s1 = woken_log s"
    using kk d(2) by (simp_all add: s1_def remove_waiter_def)
  have pj: "pool s1 ! j = (if j = k then f ((pool s ! k)\<lparr>w_on_bucket := False\<rparr>) else pool s ! j)"
    if "j < FUTEX_WAITER_POOL_SIZE" for j using that d(2) by (simp add: pool nth_list_update)
  have wc: "waiters s1 c = filter (\<lambda>j. j \<noteq> k) (waiters s c)" if c: "c < FUTEX_HASH_BUCKETS" for c
    using unlinked(1) [OF ok b k c] by (simp add: bks)
  have "b_count (buckets s1 ! c) = of_nat (length (waiters s1 c))" if c: "c < FUTEX_HASH_BUCKETS" for c
    using unlinked(2) [OF ok b k c] by (simp add: bks)
  moreover have "j \<in> set (waiters s1 c) \<longleftrightarrow> j < FUTEX_WAITER_POOL_SIZE \<and> w_on_bucket (pool s1 ! j) \<and>
            futex_hash (w_addr (pool s1 ! j)) = c" if c: "c < FUTEX_HASH_BUCKETS" for c j
  proof (cases "j < FUTEX_WAITER_POOL_SIZE")
    case True
    then show ?thesis
      using wc [OF c] waiter_iff [OF ok c, of j] pj [OF True] f by (cases "j = k") (simp_all add: releases_def)
  qed (use wc [OF c] waiter_iff [OF ok c, of j] in simp)
  moreover have "\<not> w_done (pool s1 ! j)" if "j < FUTEX_WAITER_POOL_SIZE" "w_on_bucket (pool s1 ! j)" for j
    using pj [OF that(1)] that d(6) f by (auto simp: releases_def split: if_splits)
  ultimately have ok1: "futex_ok s1"
    using d(1,2,3) wc by (simp add: futex_ok_def pool bks)
  have "w_proc (pool s1 ! k) = w_proc (pool s ! k)" using pj [OF kk(1)] f by (simp add: releases_def)
  then show ?thesis
    using ok1 rest wc pj futex_ok_cong [of "proc_wake (w_proc (pool s1 ! k)) s1" s1]
    by (auto simp: effect_def map_filter_simps split: option.splits)
qed

lemma move_effect:
  assumes ok: "futex_ok s" and b: "b < FUTEX_HASH_BUCKETS" and k: "k \<in> set (waiters s b)"
  shows "effect (futex_hash a2) a2 f [] [k] s
           (add_waiter (futex_hash a2) k (upd_waiter k (\<lambda>w. w\<lparr>w_addr := a2\<rparr>) (remove_waiter b k s)))"
proof -
  note d = futex_okD [OF ok]
  let ?h = "futex_hash a2"
  define s1 where "s1 = upd_waiter k (\<lambda>w. w\<lparr>w_addr := a2\<rparr>) (remove_waiter b k s)"
  define s2 where "s2 = add_waiter ?h k s1"
  have kk: "k < FUTEX_WAITER_POOL_SIZE" "w_on_bucket (pool s ! k)" "futex_hash (w_addr (pool s ! k)) = b"
    using d(5) [OF b k] by simp_all
  have h: "?h < FUTEX_HASH_BUCKETS" using futex_hash_less .
  have bks: "buckets s1 = (buckets s)[b := (buckets s ! b)\<lparr>b_waiters := remove1 k (waiters s b),
        b_count := b_count (buckets s ! b) - 1\<rparr>]"
    and rest: "free_bitmap s2 = free_bitmap s" "woken_log s2 = woken_log s"
    and bks2: "buckets s2 = (buckets s1)[?h := (buckets s1 ! ?h)\<lparr>b_waiters := k # waiters s1 ?h,
        b_count := b_count (buckets s1 ! ?h) + 1\<rparr>]"
    and pl: "pool s2 = (pool s)[k := (pool s ! k)\<lparr>w_addr := a2, w_on_bucket := True\<rparr>]"
    using kk d(2) by (simp_all add: s1_def s2_def remove_waiter_def add_waiter_def)
  have pj: "pool s2 ! j = (if j = k then (pool s ! k)\<lparr>w_addr := a2, w_on_bucket := True\<rparr> else pool s ! j)"
    if "j < FUTEX_WAITER_POOL_SIZE" for j using that d(2) by (simp add: pl nth_list_update)
  have wc1: "waiters s1 c = filter (\<lambda>j. j \<noteq> k) (waiters s c)" if c: "c < FUTEX_HASH_BUCKETS" for c
    using unlinked(1) [OF ok b k c] by (simp add: bks)
  have cnt1: "b_count (buckets s1 ! c) = of_nat (length (waiters s1 c))" if c: "c < FUTEX_HASH_BUCKETS" for c
    using unlinked(2) [OF ok b k c] by (simp add: bks)
  have len1: "length (buckets s1) = FUTEX_HASH_BUCKETS" using d(1) by (simp add: bks)
  have wc: "waiters s2 c = (if c = ?h then [k] else []) @ filter (\<lambda>j. j \<noteq> k) (waiters s c)"
    if c: "c < FUTEX_HASH_BUCKETS" for c
    using wc1 [OF c] wc1 [OF h] len1 h by (cases "c = ?h") (simp_all add: bks2)
  have "b_count (buckets s2 ! c) = of_nat (length (waiters s2 c))" if c: "c < FUTEX_HASH_BUCKETS" for c
    using cnt1 [OF c] cnt1 [OF h] len1 h by (cases "c = ?h") (simp_all add: bks2)
  moreover have "j \<in> set (waiters s2 c) \<longleftrightarrow> j < FUTEX_WAITER_POOL_SIZE \<and> w_on_bucket (pool s2 ! j) \<and>
            futex_hash (w_addr (pool s2 ! j)) = c" if c: "c < FUTEX_HASH_BUCKETS" for c j
  proof (cases "j < FUTEX_WAITER_POOL_SIZE")
    case True
    then show ?thesis
      using wc [OF c] waiter_iff [OF ok c, of j] pj [OF True] by (cases "j = k") auto
  qed (use wc [OF c] waiter_iff [OF ok c, of j] kk(1) in auto)
  moreover have "\<not> w_done (pool s2 ! j)" if "j < FUTEX_WAITER_POOL_SIZE" "w_on_bucket (pool s2 ! j)" for j
    using pj [OF that(1)] that d(6) kk(1,2) by (auto split: if_splits)
  moreover have "distinct (waiters s2 c)" if "c < FUTEX_HASH_BUCKETS" for c
    using wc [OF that] d(3) [OF that] by simp
  ultimately have "futex_ok s2" using d(2) len1 by (simp add: futex_ok_def pl bks2)
  then show ?thesis
    using rest wc pj by (simp add: effect_def map_filter_simps s2_def [symmetric] s1_def [symmetric])
qed

lemma effect_trans:
  assumes e1: "effect b2 a2 f ws ms s s1" and e2: "effect b2 a2 f ws' ms' s1 s2"
    and dis: "(set ws \<union> set ms) \<inter> (set ws' \<union> set ms') = {}" and small: "set ws' \<subseteq> {..<FUTEX_WAITER_POOL_SIZE}"
  shows "effect b2 a2 f (ws @ ws') (ms @ ms') s s2"
proof -
  have p1: "pool s1 ! j = pool s ! j" if "j < FUTEX_WAITER_POOL_SIZE" "j \<in> set ws' \<union> set ms'" for j
    using e1 dis that unfolding effect_def by auto
  have "List.map_filter (\<lambda>k. w_proc (pool s1 ! k)) ws' = List.map_filter (\<lambda>k. w_proc (pool s ! k)) ws'"
    using p1 small by (intro map_filter_ext) auto
  moreover have same: "(\<lambda>x. x \<notin> set ws \<and> x \<notin> set ms \<and> x \<notin> set ws' \<and> x \<notin> set ms')
      = (\<lambda>x. x \<notin> set ws \<and> x \<notin> set ws' \<and> x \<notin> set ms \<and> x \<notin> set ms')" by auto
  moreover have "filter (\<lambda>k. k \<notin> set ws' \<and> k \<notin> set ms') (rev ms) = rev ms"
    using dis by (intro filter_True) auto
  moreover have "pool s2 ! j = (if j \<in> set (ws @ ws') then f ((pool s ! j)\<lparr>w_on_bucket := False\<rparr>)
         else if j \<in> set (ms @ ms') then (pool s ! j)\<lparr>w_addr := a2, w_on_bucket := True\<rparr> else pool s ! j)"
    if j: "j < FUTEX_WAITER_POOL_SIZE" for j
  proof (cases "j \<in> set ws' \<union> set ms'")
    case True
    then have "j \<notin> set ws" "j \<notin> set ms" using dis by auto
    then show ?thesis using e2 p1 [OF j True] j True unfolding effect_def by auto
  next
    case False
    then show ?thesis using e1 e2 j unfolding effect_def by auto
  qed
  ultimately show ?thesis
    using e1 e2 unfolding effect_def map_filter_app by (simp add: conj_assoc same)
qed

text \<open>One waiter leaves: what the rest of the loop sees.\<close>

lemma effect_single:
  assumes "effect b2 a2 f ws ms s s1" and "b < FUTEX_HASH_BUCKETS" and "set ks \<subseteq> set (waiters s b)"
    and "futex_ok s" and "set ks \<inter> (set ws \<union> set ms) = {}"
  shows "set ks \<subseteq> set (waiters s1 b)" and "\<And>j. j \<in> set ks \<Longrightarrow> pool s1 ! j = pool s ! j"
    and "futex_ok s1" and "set ks \<subseteq> {..<FUTEX_WAITER_POOL_SIZE}"
proof -
  show small: "set ks \<subseteq> {..<FUTEX_WAITER_POOL_SIZE}" using futex_okD(5) [OF assms(4,2)] assms(3) by blast
  show "futex_ok s1" using assms(1) by (simp add: effect_def)
  have "waiters s1 b = (if b = b2 then rev ms else []) @ filter (\<lambda>k. k \<notin> set ws \<and> k \<notin> set ms) (waiters s b)"
    using assms(1,2) unfolding effect_def by blast
  then show "set ks \<subseteq> set (waiters s1 b)" using assms(3,5) by auto
  show "pool s1 ! j = pool s ! j" if "j \<in> set ks" for j
  proof -
    have "j < FUTEX_WAITER_POOL_SIZE" "j \<notin> set ws" "j \<notin> set ms" using that small assms(5) by auto
    then show ?thesis using assms(1) unfolding effect_def by simp
  qed
qed

abbreviation set_done :: "waiter \<Rightarrow> waiter" where "set_done w \<equiv> w\<lparr>w_done := True\<rparr>"
abbreviation set_timed_out :: "waiter \<Rightarrow> waiter" where "set_timed_out w \<equiv> w\<lparr>w_timed_out := True, w_done := True\<rparr>"

lemma releases_done: "releases set_done" "releases set_timed_out"
  by (simp_all add: releases_def)

lemma effect_count: "effect b2 a2 f ws ms s (s1\<lparr>wake_count := n\<rparr>) = effect b2 a2 f ws ms s s1"
  by (simp add: effect_def futex_ok_def)

definition hits :: "futex \<Rightarrow> u64 \<Rightarrow> u32 \<Rightarrow> nat list \<Rightarrow> nat list" where
  "hits s addr bitset ks = filter (\<lambda>k. w_addr (pool s ! k) = addr \<and> w_bitset (pool s ! k) AND bitset \<noteq> 0) ks"

lemma wake_loop_effect:
  assumes "futex_ok s" and b: "b < FUTEX_HASH_BUCKETS" and "distinct ks" and "set ks \<subseteq> set (waiters s b)"
  shows "\<exists>s'. wake_loop b addr count bitset ks woken s =
      (woken + int (length (take (nat (count - woken)) (hits s addr bitset ks))), s') \<and>
      effect b2 a2 set_done (take (nat (count - woken)) (hits s addr bitset ks)) [] s s'"
  using assms(1,3,4)
proof (induction ks arbitrary: s woken)
  case Nil
  then show ?case by (simp add: hits_def effect_refl)
next
  case (Cons k ks)
  have k: "k \<in> set (waiters s b)" using Cons.prems(3) by simp
  consider "\<not> woken < count" | "woken < count" "\<not> (w_addr (pool s ! k) = addr \<and> w_bitset (pool s ! k) AND bitset \<noteq> 0)"
    | "woken < count" "w_addr (pool s ! k) = addr \<and> w_bitset (pool s ! k) AND bitset \<noteq> 0" by blast
  then show ?case
  proof cases
    case 1
    then show ?thesis using Cons.prems(1) by (simp add: effect_refl)
  next
    case 2
    have "wake_loop b addr count bitset (k # ks) woken s = wake_loop b addr count bitset ks woken s"
      using 2 by auto
    moreover have "hits s addr bitset (k # ks) = hits s addr bitset ks" using 2(2) by (auto simp: hits_def)
    ultimately show ?thesis using Cons.IH [of s woken] Cons.prems by simp
  next
    case 3
    let ?s1 = "upd_waiter k set_done (remove_waiter b k s)"
    define s2 where "s2 = proc_wake (w_proc (pool ?s1 ! k)) ?s1"
    define s3 where "s3 = s2\<lparr>wake_count := wake_count s2 + 1\<rparr>"
    have e: "effect b2 a2 set_done [k] [] s s3"
      using unlink_effect [OF Cons.prems(1) b k releases_done(1), of b2 a2] effect_count by (simp add: s3_def s2_def)
    have dis: "set ks \<inter> (set [k] \<union> set []) = {}" using Cons.prems(2) by auto
    have sub: "set ks \<subseteq> set (waiters s b)" using Cons.prems(3) by simp
    note es = effect_single [OF e b sub Cons.prems(1) dis]
    have same: "hits s3 addr bitset ks = hits s addr bitset ks"
      unfolding hits_def by (rule filter_cong) (simp_all add: es(2))
    have n: "nat (count - woken) = Suc (nat (count - (woken + 1)))" using 3(1) by simp
    define hs where "hs = take (nat (count - (woken + 1))) (hits s addr bitset ks)"
    obtain s' where s': "wake_loop b addr count bitset ks (woken + 1) s3 = (woken + 1 + int (length hs), s')"
      "effect b2 a2 set_done hs [] s3 s'"
      using Cons.IH [OF es(3) _ es(1), of "woken + 1"] Cons.prems(2) unfolding same hs_def [symmetric] by auto
    have hsub: "set hs \<subseteq> set ks" unfolding hs_def hits_def by (auto dest: in_set_takeD)
    have "effect b2 a2 set_done ([k] @ hs) ([] @ []) s s'"
      by (rule effect_trans [OF e s'(2)]) (use dis hsub es(4) in auto)
    moreover have "take (nat (count - woken)) (hits s addr bitset (k # ks)) = k # hs"
      using 3(2) by (simp add: hits_def n hs_def)
    moreover have "wake_loop b addr count bitset (k # ks) woken s = wake_loop b addr count bitset ks (woken + 1) s3"
      using 3 by (simp add: s2_def s3_def Let_def)
    ultimately show ?thesis using s'(1) by simp
  qed
qed

lemma requeue_loop_effect:
  fixes addr :: u64 and wakes requeues woken requeued :: int
  assumes "futex_ok s" and b: "b < FUTEX_HASH_BUCKETS" and "distinct ks" and "set ks \<subseteq> set (waiters s b)"
  defines "mine \<equiv> filter (\<lambda>k. w_addr (pool s ! k) = addr) ks"
  defines "ws \<equiv> take (nat (wakes - woken)) mine"
  defines "ms \<equiv> take (nat (requeues - requeued)) (drop (nat (wakes - woken)) mine)"
  shows "\<exists>s'. requeue_loop b (futex_hash a2) addr a2 wakes requeues ks woken requeued s =
      ((woken + int (length ws), requeued + int (length ms)), s') \<and> effect (futex_hash a2) a2 set_done ws ms s s'"
  using assms(1,3,4) unfolding ws_def ms_def mine_def
proof (induction ks arbitrary: s woken requeued)
  case Nil
  then show ?case by (simp add: effect_refl)
next
  case (Cons k ks)
  let ?h = "futex_hash a2"
  have k: "k \<in> set (waiters s b)" and sub: "set ks \<subseteq> set (waiters s b)" using Cons.prems(3) by simp_all
  have dis: "set ks \<inter> (set [k] \<union> set []) = {}" "set ks \<inter> (set [] \<union> set [k]) = {}" and ds: "distinct ks"
    using Cons.prems(2) by auto
  consider "w_addr (pool s ! k) \<noteq> addr" | "w_addr (pool s ! k) = addr" "woken < wakes"
    | "w_addr (pool s ! k) = addr" "\<not> woken < wakes" "requeued < requeues"
    | "w_addr (pool s ! k) = addr" "\<not> woken < wakes" "\<not> requeued < requeues" by blast
  then show ?case
  proof cases
    case 1
    then show ?thesis using Cons.IH [OF Cons.prems(1) ds sub, of woken requeued] by simp
  next
    case 2
    let ?s1 = "upd_waiter k set_done (remove_waiter b k s)"
    define s2 where "s2 = proc_wake (w_proc (pool ?s1 ! k)) ?s1"
    define s3 where "s3 = s2\<lparr>wake_count := wake_count s2 + 1\<rparr>"
    have e: "effect ?h a2 set_done [k] [] s s3"
      using unlink_effect [OF Cons.prems(1) b k releases_done(1), of ?h a2] effect_count by (simp add: s3_def s2_def)
    note es = effect_single [OF e b sub Cons.prems(1) dis(1)]
    have same: "filter (\<lambda>k. w_addr (pool s3 ! k) = addr) ks = filter (\<lambda>k. w_addr (pool s ! k) = addr) ks"
      by (rule filter_cong) (simp_all add: es(2))
    define m where "m = filter (\<lambda>k. w_addr (pool s ! k) = addr) ks"
    have n: "nat (wakes - woken) = Suc (nat (wakes - (woken + 1)))" using 2(2) by simp
    define w' m' where "w' = take (nat (wakes - (woken + 1))) m"
      and "m' = take (nat (requeues - requeued)) (drop (nat (wakes - (woken + 1))) m)"
    obtain s' where s': "requeue_loop b ?h addr a2 wakes requeues ks (woken + 1) requeued s3 =
        ((woken + 1 + int (length w'), requeued + int (length m')), s')" "effect ?h a2 set_done w' m' s3 s'"
      using Cons.IH [OF es(3) ds es(1), of "woken + 1" requeued] unfolding same m_def [symmetric] w'_def [symmetric] m'_def [symmetric]
      by blast
    have hsub: "set w' \<subseteq> set ks" "set m' \<subseteq> set ks" unfolding w'_def m'_def m_def by (auto dest!: in_set_takeD in_set_dropD)
    have "effect ?h a2 set_done ([k] @ w') ([] @ m') s s'"
      by (rule effect_trans [OF e s'(2)]) (use dis hsub es(4) in auto)
    moreover have "requeue_loop b ?h addr a2 wakes requeues (k # ks) woken requeued s
        = requeue_loop b ?h addr a2 wakes requeues ks (woken + 1) requeued s3"
      using 2 by (simp add: s2_def s3_def Let_def)
    ultimately show ?thesis using s'(1) 2(1) by (simp add: n m_def [symmetric] w'_def [symmetric] m'_def [symmetric])
  next
    case 3
    let ?s1 = "add_waiter ?h k (upd_waiter k (\<lambda>w. w\<lparr>w_addr := a2\<rparr>) (remove_waiter b k s))"
    have e: "effect ?h a2 set_done [] [k] s ?s1" using move_effect [OF Cons.prems(1) b k] .
    note es = effect_single [OF e b sub Cons.prems(1) dis(2)]
    have same: "filter (\<lambda>k. w_addr (pool ?s1 ! k) = addr) ks = filter (\<lambda>k. w_addr (pool s ! k) = addr) ks"
      by (rule filter_cong) (simp_all add: es(2))
    define m where "m = filter (\<lambda>k. w_addr (pool s ! k) = addr) ks"
    have n: "nat (wakes - woken) = 0" "nat (requeues - requeued) = Suc (nat (requeues - (requeued + 1)))" using 3(2,3) by simp_all
    define m' where "m' = take (nat (requeues - (requeued + 1))) m"
    obtain s' where s': "requeue_loop b ?h addr a2 wakes requeues ks woken (requeued + 1) ?s1 =
        ((woken, requeued + 1 + int (length m')), s')" "effect ?h a2 set_done [] m' ?s1 s'"
      using Cons.IH [OF es(3) ds es(1), of woken "requeued + 1"] unfolding same m_def [symmetric] n(1)
      by (auto simp: m'_def [symmetric])
    have hsub: "set m' \<subseteq> set ks" unfolding m'_def m_def by (auto dest!: in_set_takeD)
    have "effect ?h a2 set_done ([] @ []) ([k] @ m') s s'"
      by (rule effect_trans [OF e s'(2)]) (use dis hsub es(4) in auto)
    then show ?thesis using s'(1) 3 by (simp add: n m_def [symmetric] m'_def [symmetric])
  next
    case 4
    then have n: "nat (wakes - woken) = 0" "nat (requeues - requeued) = 0" by simp_all
    show ?thesis using Cons.IH [OF Cons.prems(1) ds sub, of woken requeued] 4 by (simp add: n)
  qed
qed

lemma tick_loop_effect:
  assumes "futex_ok s" and b: "b < FUTEX_HASH_BUCKETS" and "distinct ks" and "set ks \<subseteq> set (waiters s b)"
  shows "effect b2 a2 set_timed_out (filter (\<lambda>k. expired now (pool s ! k)) ks) [] s (tick_loop now b ks s)"
  using assms(1,3,4)
proof (induction ks arbitrary: s)
  case Nil
  then show ?case by (simp add: effect_refl)
next
  case (Cons k ks)
  have k: "k \<in> set (waiters s b)" and sub: "set ks \<subseteq> set (waiters s b)" and ds: "distinct ks" using Cons.prems(2,3) by simp_all
  show ?case
  proof (cases "expired now (pool s ! k)")
    case False
    then show ?thesis using Cons.IH [OF Cons.prems(1) ds sub] by simp
  next
    case True
    let ?s1 = "upd_waiter k set_timed_out (remove_waiter b k s)"
    define s2 where "s2 = proc_wake (w_proc (pool ?s1 ! k)) ?s1"
    have e: "effect b2 a2 set_timed_out [k] [] s s2"
      using unlink_effect [OF Cons.prems(1) b k releases_done(2), of b2 a2] by (simp add: s2_def)
    have dis: "set ks \<inter> (set [k] \<union> set []) = {}" using Cons.prems(2) by auto
    note es = effect_single [OF e b sub Cons.prems(1) dis]
    have same: "filter (\<lambda>k. expired now (pool s2 ! k)) ks = filter (\<lambda>k. expired now (pool s ! k)) ks"
      by (rule filter_cong) (simp_all add: es(2))
    have "effect b2 a2 set_timed_out ([k] @ filter (\<lambda>k. expired now (pool s ! k)) ks) ([] @ []) s (tick_loop now b ks s2)"
      by (rule effect_trans [OF e Cons.IH [OF es(3) ds es(1), unfolded same]]) (use dis es(4) in auto)
    then show ?thesis using True by (simp add: s2_def Let_def)
  qed
qed

section \<open>The operations on the queues\<close>

lemma waiters_bound: "futex_ok s \<Longrightarrow> b < FUTEX_HASH_BUCKETS \<Longrightarrow> length (waiters s b) \<le> FUTEX_WAITER_POOL_SIZE"
proof -
  assume a: "futex_ok s" "b < FUTEX_HASH_BUCKETS"
  have "set (waiters s b) \<subseteq> {..<FUTEX_WAITER_POOL_SIZE}" using futex_okD(5) [OF a] by blast
  then have "card (set (waiters s b)) \<le> FUTEX_WAITER_POOL_SIZE" using card_mono [of "{..<FUTEX_WAITER_POOL_SIZE}"] by force
  then show ?thesis using distinct_card [OF futex_okD(3) [OF a]] by simp
qed

lemma count_zero: "futex_ok s \<Longrightarrow> b < FUTEX_HASH_BUCKETS \<Longrightarrow> b_count (buckets s ! b) = 0 \<longleftrightarrow> waiters s b = []"
proof -
  assume a: "futex_ok s" "b < FUTEX_HASH_BUCKETS"
  have "unat (b_count (buckets s ! b)) = length (waiters s b)"
    using waiters_bound [OF a] by (simp add: futex_okD(4) [OF a] unat_of_nat FUTEX_WAITER_POOL_SIZE_def)
  then show ?thesis by (metis length_0_conv unat_eq_zero)
qed

lemma queue_mem:
  "futex_ok s \<Longrightarrow> k \<in> set (futex_queue s a) \<longleftrightarrow>
     k < FUTEX_WAITER_POOL_SIZE \<and> w_on_bucket (pool s ! k) \<and> w_addr (pool s ! k) = a"
  using waiter_iff [OF _ futex_hash_less] by (auto simp: futex_queue_def)

text \<open>An effect seen through the queues.\<close>

lemma effect_queue:
  assumes ok: "futex_ok s" and e: "effect (futex_hash a2) a2 f ws ms s s'"
    and sub: "set ws \<union> set ms \<subseteq> {k. k < FUTEX_WAITER_POOL_SIZE \<and> w_on_bucket (pool s ! k)}" and f: "releases f"
  shows "futex_queue s' a = (if a = a2 then rev ms else []) @ filter (\<lambda>k. k \<notin> set ws \<and> k \<notin> set ms) (futex_queue s a)"
proof -
  let ?b = "futex_hash a"
  have b: "?b < FUTEX_HASH_BUCKETS" using futex_hash_less .
  have ok': "futex_ok s'" using e by (simp add: effect_def)
  have w: "waiters s' ?b = (if ?b = futex_hash a2 then rev ms else []) @
      filter (\<lambda>k. k \<notin> set ws \<and> k \<notin> set ms) (waiters s ?b)" using e b unfolding effect_def by blast
  have dis: "set ws \<inter> set ms = {}"
  proof -
    have "k \<notin> set ws" if "k \<in> set ms" for k
    proof
      assume "k \<in> set ws"
      then have k: "k < FUTEX_WAITER_POOL_SIZE" and "pool s' ! k = f ((pool s ! k)\<lparr>w_on_bucket := False\<rparr>)"
        using sub e unfolding effect_def by auto
      then have "\<not> w_on_bucket (pool s' ! k)" using f by (simp add: releases_def)
      moreover have "waiters s' (futex_hash a2) = rev ms @ filter (\<lambda>k. k \<notin> set ws \<and> k \<notin> set ms) (waiters s (futex_hash a2))"
        using e futex_hash_less unfolding effect_def by simp
      then have "k \<in> set (waiters s' (futex_hash a2))" using that by simp
      ultimately show False using waiter_iff [OF ok' futex_hash_less] by blast
    qed
    then show ?thesis by blast
  qed
  have am: "w_addr (pool s' ! k) = a2" if "k \<in> set ms" for k
  proof -
    have "k < FUTEX_WAITER_POOL_SIZE" "k \<notin> set ws" using that sub dis by auto
    then show ?thesis using e that unfolding effect_def by simp
  qed
  have same: "w_addr (pool s' ! k) = w_addr (pool s ! k)"
    if "k \<in> set (waiters s ?b)" "k \<notin> set ws" "k \<notin> set ms" for k
  proof -
    have "k < FUTEX_WAITER_POOL_SIZE" using futex_okD(5) [OF ok b that(1)] by simp
    then show ?thesis using e that(2,3) unfolding effect_def by simp
  qed
  have "filter (\<lambda>k. w_addr (pool s' ! k) = a) (filter (\<lambda>k. k \<notin> set ws \<and> k \<notin> set ms) (waiters s ?b))
      = filter (\<lambda>k. k \<notin> set ws \<and> k \<notin> set ms) (futex_queue s a)"
    unfolding futex_queue_def filter_filter by (rule filter_cong [OF refl]) (use same in metis)
  moreover have "filter (\<lambda>k. w_addr (pool s' ! k) = a) (if ?b = futex_hash a2 then rev ms else [])
      = (if a = a2 then rev ms else [])"
    using am by (auto simp: filter_id_conv filter_empty_conv)
  ultimately show ?thesis unfolding futex_queue_def w filter_append by simp
qed

lemma hits_queue: "hits s addr bitset (waiters s (futex_hash addr)) = filter (\<lambda>k. w_bitset (pool s ! k) AND bitset \<noteq> 0) (futex_queue s addr)"
  by (simp add: hits_def futex_queue_def conj_commute)

lemma wake_effect:
  assumes ok: "futex_ok s" and "validate_futex_addr valid addr" and "0 < count" and "bitset \<noteq> 0"
  defines "ws \<equiv> take (nat count) (filter (\<lambda>k. w_bitset (pool s ! k) AND bitset \<noteq> 0) (futex_queue s addr))"
  shows "\<exists>s'. futex_wake valid addr count bitset s = (int (length ws), s') \<and>
     effect (futex_hash addr) addr set_done ws [] s s' \<and>
     (\<forall>a. futex_queue s' a = filter (\<lambda>k. k \<notin> set ws) (futex_queue s a))"
proof -
  let ?b = "futex_hash addr"
  have b: "?b < FUTEX_HASH_BUCKETS" using futex_hash_less .
  obtain s' where s': "wake_loop ?b addr count bitset (waiters s ?b) 0 s = (int (length ws), s')"
    "effect ?b addr set_done ws [] s s'"
    using wake_loop_effect [OF ok b futex_okD(3) [OF ok b] subset_refl, of addr count bitset 0]
    by (auto simp: hits_queue ws_def)
  have "set ws \<subseteq> {k. k < FUTEX_WAITER_POOL_SIZE \<and> w_on_bucket (pool s ! k)}"
    using queue_mem [OF ok] by (auto simp: ws_def dest: in_set_takeD)
  then have "futex_queue s' a = filter (\<lambda>k. k \<notin> set ws) (futex_queue s a)" for a
    using effect_queue [OF ok s'(2) _ releases_done(1)] by simp
  then show ?thesis using assms(2-4) s' by (simp add: futex_wake_def)
qed

lemma requeue_effect:
  fixes wakes requeues :: int
  assumes ok: "futex_ok s" and "validate_futex_addr valid addr" and "validate_futex_addr valid addr2"
  defines "ws \<equiv> take (nat wakes) (futex_queue s addr)"
  defines "ms \<equiv> take (nat requeues) (drop (nat wakes) (futex_queue s addr))"
  shows "\<exists>s'. futex_requeue valid addr addr2 wakes requeues s = (int (length ws) + int (length ms), s') \<and>
     effect (futex_hash addr2) addr2 set_done ws ms s s' \<and>
     (\<forall>a. futex_queue s' a = (if a = addr2 then rev ms else []) @ filter (\<lambda>k. k \<notin> set ws \<and> k \<notin> set ms) (futex_queue s a))"
proof -
  let ?b = "futex_hash addr"
  have b: "?b < FUTEX_HASH_BUCKETS" using futex_hash_less .
  obtain s' where s': "requeue_loop ?b (futex_hash addr2) addr addr2 wakes requeues (waiters s ?b) 0 0 s
      = ((int (length ws), int (length ms)), s')" "effect (futex_hash addr2) addr2 set_done ws ms s s'"
    using requeue_loop_effect [OF ok b futex_okD(3) [OF ok b] subset_refl, of addr2 addr wakes requeues 0 0]
    by (auto simp: futex_queue_def [symmetric] ws_def ms_def)
  have "set ws \<union> set ms \<subseteq> {k. k < FUTEX_WAITER_POOL_SIZE \<and> w_on_bucket (pool s ! k)}"
    using queue_mem [OF ok] by (auto simp: ws_def ms_def dest!: in_set_takeD in_set_dropD)
  then have "futex_queue s' a = (if a = addr2 then rev ms else []) @ filter (\<lambda>k. k \<notin> set ws \<and> k \<notin> set ms) (futex_queue s a)" for a
    using effect_queue [OF ok s'(2) _ releases_done(1)] by simp
  then show ?thesis using assms(2,3) s' by (simp add: futex_requeue_def)
qed

text \<open>The timer sweep, bucket by bucket.\<close>

lemma tick_bucket_effect:
  assumes "futex_ok s" and b: "b < FUTEX_HASH_BUCKETS"
  shows "effect b2 a2 set_timed_out (filter (\<lambda>k. expired now (pool s ! k)) (waiters s b)) [] s (tick_bucket now b s)"
  using tick_loop_effect [OF assms futex_okD(3) [OF assms] subset_refl, of b2 a2 now] count_zero [OF assms]
  by (auto simp: tick_bucket_def effect_refl [OF assms(1)])

definition swept :: "u64 \<Rightarrow> nat \<Rightarrow> futex \<Rightarrow> futex \<Rightarrow> bool" where
  "swept now n s t \<longleftrightarrow> futex_ok t \<and> free_bitmap t = free_bitmap s \<and>
     (\<forall>j<FUTEX_WAITER_POOL_SIZE. pool t ! j =
        (if w_on_bucket (pool s ! j) \<and> futex_hash (w_addr (pool s ! j)) < n \<and> expired now (pool s ! j)
         then set_timed_out ((pool s ! j)\<lparr>w_on_bucket := False\<rparr>) else pool s ! j)) \<and>
     (\<forall>c<FUTEX_HASH_BUCKETS. waiters t c =
        (if c < n then filter (\<lambda>k. \<not> expired now (pool s ! k)) (waiters s c) else waiters s c))"

lemma tick_swept:
  assumes ok: "futex_ok s" and "n \<le> FUTEX_HASH_BUCKETS"
  shows "swept now n s (fold (tick_bucket now) [0..<n] s)"
  using assms(2)
proof (induction n)
  case 0
  then show ?case using ok by (simp add: swept_def)
next
  case (Suc n)
  define t where "t = fold (tick_bucket now) [0..<n] s"
  have IH: "swept now n s t" and n: "n < FUTEX_HASH_BUCKETS" using Suc by (simp_all add: t_def)
  have okt: "futex_ok t" using IH by (simp add: swept_def)
  have wn: "waiters t n = waiters s n" using IH n by (simp add: swept_def)
  have pn: "pool t ! k = pool s ! k" if "k \<in> set (waiters s n)" for k
    using IH futex_okD(5) [OF ok n that] by (simp add: swept_def)
  define ws where "ws = filter (\<lambda>k. expired now (pool s ! k)) (waiters s n)"
  have "filter (\<lambda>k. expired now (pool t ! k)) (waiters t n) = ws"
    unfolding ws_def wn by (rule filter_cong) (simp_all add: pn)
  then have e: "effect 0 0 set_timed_out ws [] t (tick_bucket now n t)" using tick_bucket_effect [OF okt n, of 0 0 now] by simp
  have mem: "j \<in> set ws \<longleftrightarrow> w_on_bucket (pool s ! j) \<and> futex_hash (w_addr (pool s ! j)) = n \<and> expired now (pool s ! j)"
    if "j < FUTEX_WAITER_POOL_SIZE" for j
    using waiter_iff [OF ok n, of j] that by (auto simp: ws_def)
  have pool: "pool (tick_bucket now n t) ! j =
        (if w_on_bucket (pool s ! j) \<and> futex_hash (w_addr (pool s ! j)) < Suc n \<and> expired now (pool s ! j)
         then set_timed_out ((pool s ! j)\<lparr>w_on_bucket := False\<rparr>) else pool s ! j)" if j: "j < FUTEX_WAITER_POOL_SIZE" for j
  proof (cases "j \<in> set ws")
    case True
    then have "pool t ! j = pool s ! j" using pn by (simp add: ws_def)
    then show ?thesis using e j True mem [OF j] unfolding effect_def by simp
  next
    case False
    then have "pool (tick_bucket now n t) ! j = pool t ! j" using e j unfolding effect_def by simp
    then show ?thesis using IH j False mem [OF j] unfolding swept_def by (auto simp: less_Suc_eq)
  qed
  have "waiters (tick_bucket now n t) c = (if c < Suc n then filter (\<lambda>k. \<not> expired now (pool s ! k)) (waiters s c) else waiters s c)"
    if c: "c < FUTEX_HASH_BUCKETS" for c
  proof (cases "c = n")
    case True
    have "waiters (tick_bucket now n t) c = filter (\<lambda>k. k \<notin> set ws) (waiters s n)"
      using e c wn True unfolding effect_def by simp
    also have "\<dots> = filter (\<lambda>k. \<not> expired now (pool s ! k)) (waiters s n)"
      by (rule filter_cong) (auto simp: ws_def)
    finally show ?thesis using True by simp
  next
    case False
    have "set (waiters t c) \<inter> set ws = {}"
      using futex_okD(5) [OF okt c] futex_okD(5) [OF okt n] False by (auto simp: ws_def wn [symmetric])
    then have "filter (\<lambda>k. k \<notin> set ws) (waiters t c) = waiters t c" by (intro filter_True) auto
    then have "waiters (tick_bucket now n t) c = waiters t c" using e c unfolding effect_def by simp
    then show ?thesis using IH c False unfolding swept_def by (simp add: less_Suc_eq)
  qed
  then show ?case
    using e pool IH by (simp add: swept_def t_def [symmetric] effect_def)
qed

lemma tick_queue:
  assumes ok: "futex_ok s"
  shows "futex_queue (futex_tick now s) a = filter (\<lambda>k. \<not> expired now (pool s ! k)) (futex_queue s a)"
proof -
  have sw: "swept now FUTEX_HASH_BUCKETS s (futex_tick now s)" using tick_swept [OF ok order_refl] by (simp add: futex_tick_def)
  let ?b = "futex_hash a"
  have b: "?b < FUTEX_HASH_BUCKETS" using futex_hash_less .
  have "waiters (futex_tick now s) ?b = filter (\<lambda>k. \<not> expired now (pool s ! k)) (waiters s ?b)"
    using sw b unfolding swept_def by simp
  moreover have "pool (futex_tick now s) ! k = pool s ! k" if "k \<in> set (waiters s ?b)" "\<not> expired now (pool s ! k)" for k
    using sw futex_okD(5) [OF ok b that(1)] that(2) unfolding swept_def by simp
  ultimately show ?thesis
    unfolding futex_queue_def by (simp add: filter_filter) (rule filter_cong [OF refl], metis)
qed

section \<open>Events\<close>

record fworld =
  fx :: futex
  umem :: "u64 \<Rightarrow> u32"
  parked :: "nat \<Rightarrow> (nat \<times> nat) option"

text \<open>A store by user code, a system call of task \<open>p\<close> at time \<open>now\<close>, a round of the scheduler for a parked
  task, the timer, and the wake-up at the exit of a thread. The sweep of the timer locks one bucket at a time:
  \<open>Tick_bucket\<close> is its work on one bucket, with any other step in between; \<open>Tick\<close> is a sweep that nothing interrupts.
  \<open>futex_cmp_requeue\<close> reads the word before it takes the bucket locks; a store in between makes it the
  \<open>futex_requeue\<close> that is a step of its own here, in the state at that later time.\<close>

datatype fevent =
    Store u64 u32
  | Syscall nat u64 u64 u32 u32 u64 u64 u32
  | Resume nat
  | Tick u64
  | Tick_bucket u64 nat
  | Thread_exit u64

inductive futex_step :: "(u64 \<Rightarrow> bool) \<Rightarrow> fworld \<Rightarrow> fevent \<Rightarrow> int option \<Rightarrow> fworld \<Rightarrow> bool" for valid where
  store: "futex_step valid w (Store a v) None (w\<lparr>umem := (umem w)(a := v)\<rparr>)"
| answer: "parked w p = None \<Longrightarrow>
     sys_futex valid (umem w) now (Some p) addr op val timeout addr2 val3 (fx w) = (Inl rc, s') \<Longrightarrow>
     futex_step valid w (Syscall p now addr op val timeout addr2 val3) (Some rc) (w\<lparr>fx := s'\<rparr>)"
| park: "parked w p = None \<Longrightarrow>
     sys_futex valid (umem w) now (Some p) addr op val timeout addr2 val3 (fx w) = (Inr bk, s') \<Longrightarrow>
     futex_step valid w (Syscall p now addr op val timeout addr2 val3) None
       (w\<lparr>fx := s', parked := (parked w)(p \<mapsto> bk)\<rparr>)"
| return: "parked w p = Some (b, k) \<Longrightarrow> futex_wait_resume b k (fx w) = (Some rc, s') \<Longrightarrow>
     futex_step valid w (Resume p) (Some rc) (w\<lparr>fx := s', parked := (parked w)(p := None)\<rparr>)"
| again: "parked w p = Some (b, k) \<Longrightarrow> futex_wait_resume b k (fx w) = (None, s') \<Longrightarrow>
     futex_step valid w (Resume p) None (w\<lparr>fx := s'\<rparr>)"
| tick: "futex_step valid w (Tick now) None (w\<lparr>fx := futex_tick now (fx w)\<rparr>)"
| tick_one: "b < FUTEX_HASH_BUCKETS \<Longrightarrow> futex_step valid w (Tick_bucket now b) None (w\<lparr>fx := tick_bucket now b (fx w)\<rparr>)"
| thread_exit: "futex_step valid w (Thread_exit a) None (w\<lparr>fx := futex_wake_addr valid a 1 (fx w)\<rparr>)"

inductive_cases futex_stepE: "futex_step valid w e r w'"

definition futex_boot :: futex where
  "futex_boot = futex_init \<lparr>buckets = [], pool = replicate FUTEX_WAITER_POOL_SIZE zero_waiter, free_bitmap = [],
     wait_count = 0, wake_count = 0, timeout_count = 0, woken_log = []\<rparr>"

inductive futex_reach :: "(u64 \<Rightarrow> bool) \<Rightarrow> fworld \<Rightarrow> bool" for valid where
  boot: "futex_reach valid \<lparr>fx = futex_boot, umem = m, parked = (\<lambda>_. None)\<rparr>"
| step: "futex_reach valid w \<Longrightarrow> futex_step valid w e r w' \<Longrightarrow> futex_reach valid w'"

abbreviation holder :: "fworld \<Rightarrow> nat \<Rightarrow> nat option" where
  "holder w \<equiv> (\<lambda>p. map_option snd (parked w p))"

definition world_ok :: "fworld \<Rightarrow> bool" where
  "world_ok w \<longleftrightarrow> futex_ok (fx w) \<and> waiter_slots.tracked (holder w) (free_bitmap (fx w)) \<and>
     (\<forall>p b k. parked w p = Some (b, k) \<longrightarrow> k < FUTEX_WAITER_POOL_SIZE \<and> w_proc (pool (fx w) ! k) = Some p \<and>
        (w_on_bucket (pool (fx w) ! k) \<or> w_done (pool (fx w) ! k))) \<and>
     (\<forall>k<FUTEX_WAITER_POOL_SIZE. w_on_bucket (pool (fx w) ! k) \<longrightarrow> k \<in> slots_used (free_bitmap (fx w)))"

lemma world_pool:
  assumes "world_ok w" and "futex_ok s'" and "free_bitmap s' = free_bitmap (fx w)"
    and "\<And>k. k < FUTEX_WAITER_POOL_SIZE \<Longrightarrow> w_proc (pool s' ! k) = w_proc (pool (fx w) ! k) \<and>
          (w_on_bucket (pool (fx w) ! k) \<or> w_done (pool (fx w) ! k) \<longrightarrow> w_on_bucket (pool s' ! k) \<or> w_done (pool s' ! k)) \<and>
          (w_on_bucket (pool s' ! k) \<longrightarrow> w_on_bucket (pool (fx w) ! k))"
  shows "world_ok (w\<lparr>fx := s'\<rparr>)"
  using assms unfolding world_ok_def by simp metis

lemma world_effect:
  assumes "world_ok w" and e: "effect b2 a2 f ws ms (fx w) s'" and f: "releases f"
    and ms: "\<And>k. k \<in> set ms \<Longrightarrow> w_on_bucket (pool (fx w) ! k)"
  shows "world_ok (w\<lparr>fx := s'\<rparr>)"
proof (rule world_pool [OF assms(1)])
  show "futex_ok s'" "free_bitmap s' = free_bitmap (fx w)" using e by (simp_all add: effect_def)
  fix k
  assume k: "k < FUTEX_WAITER_POOL_SIZE"
  then have "pool s' ! k = (if k \<in> set ws then f ((pool (fx w) ! k)\<lparr>w_on_bucket := False\<rparr>)
         else if k \<in> set ms then (pool (fx w) ! k)\<lparr>w_addr := a2, w_on_bucket := True\<rparr> else pool (fx w) ! k)"
    using e unfolding effect_def by blast
  then show "w_proc (pool s' ! k) = w_proc (pool (fx w) ! k) \<and>
          (w_on_bucket (pool (fx w) ! k) \<or> w_done (pool (fx w) ! k) \<longrightarrow> w_on_bucket (pool s' ! k) \<or> w_done (pool s' ! k)) \<and>
          (w_on_bucket (pool s' ! k) \<longrightarrow> w_on_bucket (pool (fx w) ! k))"
    using f ms by (simp add: releases_def)
qed

lemma world_wake:
  assumes "world_ok w" and "futex_wake valid addr count bitset (fx w) = (rc, s')"
  shows "world_ok (w\<lparr>fx := s'\<rparr>)"
proof (cases "validate_futex_addr valid addr \<and> 0 < count \<and> bitset \<noteq> 0")
  case True
  have ok: "futex_ok (fx w)" using assms(1) by (simp add: world_ok_def)
  show ?thesis using wake_effect [OF ok, of valid addr count bitset] True assms world_effect [OF assms(1) _ releases_done(1), of _ _ _ "[]"]
    by force
next
  case False
  then have "s' = fx w" using assms(2) by (auto simp: futex_wake_def split: if_splits)
  then show ?thesis using assms(1) by simp
qed

lemma world_requeue:
  assumes "world_ok w" and "futex_requeue valid addr addr2 wakes requeues (fx w) = (rc, s')"
  shows "world_ok (w\<lparr>fx := s'\<rparr>)"
proof (cases "validate_futex_addr valid addr \<and> validate_futex_addr valid addr2")
  case True
  have ok: "futex_ok (fx w)" using assms(1) by (simp add: world_ok_def)
  obtain s1 where "futex_requeue valid addr addr2 wakes requeues (fx w) = (rc, s1)"
    "effect (futex_hash addr2) addr2 set_done (take (nat wakes) (futex_queue (fx w) addr))
       (take (nat requeues) (drop (nat wakes) (futex_queue (fx w) addr))) (fx w) s1"
    using requeue_effect [OF ok, of valid addr addr2 wakes requeues] True assms(2) by force
  moreover have "w_on_bucket (pool (fx w) ! k)"
    if "k \<in> set (take (nat requeues) (drop (nat wakes) (futex_queue (fx w) addr)))" for k
    using queue_mem [OF ok] that by (auto dest!: in_set_takeD in_set_dropD)
  ultimately show ?thesis using world_effect [OF assms(1) _ releases_done(1)] assms(2) by simp
next
  case False
  then have "s' = fx w" using assms(2) by (auto simp: futex_requeue_def split: if_splits)
  then show ?thesis using assms(1) by simp
qed

lemma world_tick: "world_ok w \<Longrightarrow> world_ok (w\<lparr>fx := futex_tick now (fx w)\<rparr>)"
proof -
  assume w: "world_ok w"
  then have ok: "futex_ok (fx w)" by (simp add: world_ok_def)
  have sw: "swept now FUTEX_HASH_BUCKETS (fx w) (futex_tick now (fx w))"
    using tick_swept [OF ok order_refl] by (simp add: futex_tick_def)
  show ?thesis
    by (rule world_pool [OF w]) (use sw in \<open>simp_all add: swept_def\<close>)
qed

lemma world_tick_bucket:
  assumes "world_ok w" and "b < FUTEX_HASH_BUCKETS"
  shows "world_ok (w\<lparr>fx := tick_bucket now b (fx w)\<rparr>)"
proof (rule world_effect [OF assms(1)])
  have ok: "futex_ok (fx w)" using assms(1) by (simp add: world_ok_def)
  show "effect 0 0 set_timed_out (filter (\<lambda>k. expired now (pool (fx w) ! k)) (waiters (fx w) b)) [] (fx w) (tick_bucket now b (fx w))"
    by (rule tick_bucket_effect [OF ok assms(2)])
qed (simp_all add: releases_done)

text \<open>Starting to wait.\<close>

definition new_waiter :: "u64 \<Rightarrow> nat option \<Rightarrow> u32 \<Rightarrow> u64 \<Rightarrow> waiter" where
  "new_waiter addr self bitset deadline = \<lparr>w_addr = addr, w_proc = self, w_bitset = bitset, w_timeout_ms = deadline,
     w_timed_out = False, w_done = False, w_on_bucket = True\<rparr>"

lemma wait_start_cases:
  assumes ok: "futex_ok s" and slots: "slots_ok (free_bitmap s)"
    and used: "\<forall>k<FUTEX_WAITER_POOL_SIZE. w_on_bucket (pool s ! k) \<longrightarrow> k \<in> slots_used (free_bitmap s)"
    and run: "futex_wait_start valid mem now (Some p) addr val timeout bitset s = (res, s')"
  obtains (refused) rc where "res = Inl rc" "rc < 0" "s' = s"
      "\<not> validate_futex_addr valid addr \<or> bitset = 0 \<or> mem addr \<noteq> val \<or> take_slot (free_bitmap s) = None"
    | (parks) k where "res = Inr (futex_hash addr, k)" "validate_futex_addr valid addr" "bitset \<noteq> 0" "mem addr = val"
      "k < FUTEX_WAITER_POOL_SIZE" "k \<notin> slots_used (free_bitmap s)" "take_slot (free_bitmap s) = Some (k, free_bitmap s')"
      "futex_ok s'" "\<And>j. j < FUTEX_WAITER_POOL_SIZE \<Longrightarrow> pool s' ! j = (if j = k
          then new_waiter addr (Some p) bitset (if timeout \<noteq> 0 then now + timeout else 0) else pool s ! j)"
      "\<And>c. c < FUTEX_HASH_BUCKETS \<Longrightarrow> waiters s' c = (if c = futex_hash addr then [k] else []) @ waiters s c"
proof (cases "validate_futex_addr valid addr \<and> bitset \<noteq> 0 \<and> mem addr = val \<and> take_slot (free_bitmap s) \<noteq> None")
  case False
  have "\<exists>rc. res = Inl rc \<and> rc < 0 \<and> s' = s"
  proof (cases "take_slot (free_bitmap s)")
    case None
    then have "alloc_waiter s = None" by (simp add: alloc_waiter_def)
    then show ?thesis
      using run by (auto simp: futex_wait_start_def FUTEX_EFAULT_def FUTEX_EINVAL_def FUTEX_EAGAIN_def Let_def split: if_splits)
  next
    case (Some kb)
    then have "\<not> (validate_futex_addr valid addr \<and> bitset \<noteq> 0 \<and> mem addr = val)" using False by simp
    then show ?thesis
      using run by (auto simp: futex_wait_start_def FUTEX_EFAULT_def FUTEX_EINVAL_def FUTEX_EAGAIN_def Let_def split: if_splits)
  qed
  then show thesis using that(1) False by blast
next
  case True
  note d = futex_okD [OF ok]
  let ?h = "futex_hash addr"
  have h: "?h < FUTEX_HASH_BUCKETS" using futex_hash_less .
  obtain k bm where t: "take_slot (free_bitmap s) = Some (k, bm)" using True by auto
  have k: "k < FUTEX_WAITER_POOL_SIZE" "k \<notin> slots_used (free_bitmap s)" using waiter_slots.alloc_slot [OF slots t] by simp_all
  then have off: "\<not> w_on_bucket (pool s ! k)" using used by blast
  have run': "res = Inr (?h, k)" "free_bitmap s' = bm"
    and pl: "pool s' = (pool s)[k := new_waiter addr (Some p) bitset (if timeout \<noteq> 0 then now + timeout else 0)]"
    and bks: "buckets s' = (buckets s)[?h := (buckets s ! ?h)\<lparr>b_waiters := k # waiters s ?h,
        b_count := b_count (buckets s ! ?h) + 1\<rparr>]"
    using run True t k(1) d(2) by (auto simp: futex_wait_start_def alloc_waiter_def add_waiter_def new_waiter_def zero_waiter_def Let_def)
  have pj: "pool s' ! j = (if j = k then new_waiter addr (Some p) bitset (if timeout \<noteq> 0 then now + timeout else 0) else pool s ! j)"
    if "j < FUTEX_WAITER_POOL_SIZE" for j using that d(2) by (simp add: pl nth_list_update)
  have wc: "waiters s' c = (if c = ?h then [k] else []) @ waiters s c" if "c < FUTEX_HASH_BUCKETS" for c
    using that d(1) h by (cases "c = ?h") (simp_all add: bks)
  have out: "k \<notin> set (waiters s c)" if "c < FUTEX_HASH_BUCKETS" for c using waiter_iff [OF ok that] off by blast
  have "distinct (waiters s' c)" if "c < FUTEX_HASH_BUCKETS" for c
    using wc [OF that] d(3) [OF that] out [OF that] by auto
  moreover have "b_count (buckets s' ! c) = of_nat (length (waiters s' c))" if c: "c < FUTEX_HASH_BUCKETS" for c
    using d(4) [OF c] d(1) h c by (cases "c = ?h") (simp_all add: bks)
  moreover have "j \<in> set (waiters s' c) \<longleftrightarrow> j < FUTEX_WAITER_POOL_SIZE \<and> w_on_bucket (pool s' ! j) \<and>
            futex_hash (w_addr (pool s' ! j)) = c" if c: "c < FUTEX_HASH_BUCKETS" for c j
  proof (cases "j < FUTEX_WAITER_POOL_SIZE")
    case True
    then show ?thesis
      using wc [OF c] waiter_iff [OF ok c, of j] pj [OF True] off by (cases "j = k") (auto simp: new_waiter_def)
  qed (use wc [OF c] waiter_iff [OF ok c, of j] k(1) in auto)
  moreover have "\<not> w_done (pool s' ! j)" if "j < FUTEX_WAITER_POOL_SIZE" "w_on_bucket (pool s' ! j)" for j
    using pj [OF that(1)] that d(6) by (auto simp: new_waiter_def split: if_splits)
  ultimately have "futex_ok s'" using d(1,2) by (simp add: futex_ok_def pl bks)
  then show thesis using that(2) [OF run'(1) _ _ _ k _ _ pj wc] True t run'(2) by simp
qed

lemma world_wait:
  assumes w: "world_ok w" and p: "parked w p = None"
    and run: "futex_wait_start valid mem now (Some p) addr val timeout bitset (fx w) = (res, s')"
  shows "res = Inl rc \<Longrightarrow> world_ok (w\<lparr>fx := s'\<rparr>)"
    and "res = Inr bk \<Longrightarrow> world_ok (w\<lparr>fx := s', parked := (parked w)(p \<mapsto> bk)\<rparr>)"
proof -
  have ok: "futex_ok (fx w)" and slots: "slots_ok (free_bitmap (fx w))"
    and used: "\<forall>k<FUTEX_WAITER_POOL_SIZE. w_on_bucket (pool (fx w) ! k) \<longrightarrow> k \<in> slots_used (free_bitmap (fx w))"
    and tr: "waiter_slots.tracked (holder w) (free_bitmap (fx w))"
    using w by (auto simp: world_ok_def waiter_slots.tracked_def)
  have "(\<forall>rc. res = Inl rc \<longrightarrow> world_ok (w\<lparr>fx := s'\<rparr>)) \<and>
      (\<forall>bk. res = Inr bk \<longrightarrow> world_ok (w\<lparr>fx := s', parked := (parked w)(p \<mapsto> bk)\<rparr>))"
    using ok slots used run
  proof (cases rule: wait_start_cases)
    case (refused rc)
    then show ?thesis using w by simp
  next
    case (parks k)
    have hp: "holder w p = None" using p by simp
    note tk = waiter_slots.tracked_take [OF tr parks(7) hp]
    have hol: "(holder w)(p \<mapsto> k) = holder (w\<lparr>fx := s', parked := (parked w)(p \<mapsto> (futex_hash addr, k))\<rparr>)"
      by (auto simp: fun_eq_iff)
    have "slots_used (free_bitmap s') = insert k (slots_used (free_bitmap (fx w)))"
      using waiter_slots.alloc_slot [OF slots parks(7)] by simp
    then have used': "j \<in> slots_used (free_bitmap s')" if "j < FUTEX_WAITER_POOL_SIZE" "w_on_bucket (pool s' ! j)" for j
      using parks(9) [OF that(1)] that used by (auto split: if_splits)
    have other: "j \<noteq> k" if "parked w q = Some (b, j)" for q b j
    proof -
      have "j \<in> ran (holder w)" using that by (auto simp: ran_def)
      then show ?thesis using tk(2) by auto
    qed
    have "world_ok (w\<lparr>fx := s', parked := (parked w)(p \<mapsto> (futex_hash addr, k))\<rparr>)"
      using w parks(5,8) parks(9) other used' tk(1) unfolding hol
      by (auto simp: world_ok_def new_waiter_def)
    then show ?thesis using parks(1) by simp
  qed
  then show "res = Inl rc \<Longrightarrow> world_ok (w\<lparr>fx := s'\<rparr>)"
    and "res = Inr bk \<Longrightarrow> world_ok (w\<lparr>fx := s', parked := (parked w)(p \<mapsto> bk)\<rparr>)" by blast+
qed

lemma world_syscall:
  assumes w: "world_ok w" and p: "parked w p = None"
    and run: "sys_futex valid mem now (Some p) addr op val timeout addr2 val3 (fx w) = (res, s')"
  shows "res = Inl rc \<Longrightarrow> world_ok (w\<lparr>fx := s'\<rparr>)"
    and "res = Inr bk \<Longrightarrow> world_ok (w\<lparr>fx := s', parked := (parked w)(p \<mapsto> bk)\<rparr>)"
proof -
  let ?c = "op AND 0x7F"
  consider "?c = 0" | "?c = 1" | "?c = 3" | "?c = 4" | "?c = 9" | "?c = 10"
    | "?c \<noteq> 0" "?c \<noteq> 1" "?c \<noteq> 3" "?c \<noteq> 4" "?c \<noteq> 9" "?c \<noteq> 10" by blast
  then have "(\<forall>rc. res = Inl rc \<longrightarrow> world_ok (w\<lparr>fx := s'\<rparr>)) \<and>
      (\<forall>bk. res = Inr bk \<longrightarrow> world_ok (w\<lparr>fx := s', parked := (parked w)(p \<mapsto> bk)\<rparr>))"
  proof cases
    case 1
    then have "futex_wait_start valid mem now (Some p) addr val timeout 0xFFFFFFFF (fx w) = (res, s')"
      using run by (simp add: sys_futex_def)
    then show ?thesis using world_wait [OF w p] by blast
  next
    case 2
    then show ?thesis using run world_wake [OF w] by (auto simp: sys_futex_def split: prod.splits)
  next
    case 3
    then show ?thesis using run world_requeue [OF w] by (auto simp: sys_futex_def split: prod.splits)
  next
    case 4
    then show ?thesis using run w world_requeue [OF w]
      by (auto simp: sys_futex_def futex_cmp_requeue_def split: prod.splits if_splits)
  next
    case 5
    then have "futex_wait_start valid mem now (Some p) addr val timeout val3 (fx w) = (res, s')"
      using run by (simp add: sys_futex_def)
    then show ?thesis using world_wait [OF w p] by blast
  next
    case 6
    then show ?thesis using run world_wake [OF w] by (auto simp: sys_futex_def split: prod.splits)
  next
    case 7
    then show ?thesis using run w by (auto simp: sys_futex_def Let_def)
  qed
  then show "res = Inl rc \<Longrightarrow> world_ok (w\<lparr>fx := s'\<rparr>)"
    and "res = Inr bk \<Longrightarrow> world_ok (w\<lparr>fx := s', parked := (parked w)(p \<mapsto> bk)\<rparr>)" by blast+
qed

lemma resume_cases:
  assumes w: "world_ok w" and p: "parked w p = Some (b, k)"
  shows "futex_wait_resume b k (fx w) =
    (if w_done (pool (fx w) ! k)
     then (Some (if w_timed_out (pool (fx w) ! k) then - FUTEX_ETIMEDOUT else 0),
           (fx w)\<lparr>free_bitmap := give_slot k (free_bitmap (fx w)),
             timeout_count := (if w_timed_out (pool (fx w) ! k) then timeout_count (fx w) + 1 else timeout_count (fx w))\<rparr>)
     else (None, fx w))"
proof -
  have k: "k < FUTEX_WAITER_POOL_SIZE" using w p unfolding world_ok_def by blast
  have ok: "futex_ok (fx w)" using w by (simp add: world_ok_def)
  have "w_done (pool (fx w) ! k) \<Longrightarrow> remove_waiter b k (fx w) = fx w"
    using futex_okD(6) [OF ok k] by (auto simp: remove_waiter_def)
  then show ?thesis using k by (simp add: futex_wait_resume_def free_waiter_def Let_def)
qed

lemma world_resume:
  assumes w: "world_ok w" and p: "parked w p = Some (b, k)" and run: "futex_wait_resume b k (fx w) = (Some rc, s')"
  shows "world_ok (w\<lparr>fx := s', parked := (parked w)(p := None)\<rparr>)"
proof -
  have k: "k < FUTEX_WAITER_POOL_SIZE" using w p unfolding world_ok_def by blast
  have dn: "w_done (pool (fx w) ! k)" and bm: "free_bitmap s' = give_slot k (free_bitmap (fx w))"
    and same: "pool s' = pool (fx w)" "buckets s' = buckets (fx w)"
    using run resume_cases [OF w p] by (auto split: if_splits)
  have tr: "waiter_slots.tracked (holder w) (free_bitmap (fx w))" and ok: "futex_ok (fx w)" using w by (simp_all add: world_ok_def)
  have hp: "holder w p = Some k" using p by simp
  have hol: "(holder w)(p := None) = holder (w\<lparr>fx := s', parked := (parked w)(p := None)\<rparr>)" by (auto simp: fun_eq_iff)
  have tr': "waiter_slots.tracked (holder (w\<lparr>fx := s', parked := (parked w)(p := None)\<rparr>)) (free_bitmap s')"
    using waiter_slots.tracked_give [OF tr hp k] unfolding hol bm .
  have "slots_used (free_bitmap s') = slots_used (free_bitmap (fx w)) - {k}"
    using waiter_slots.release_slot [OF _ k] tr by (simp add: bm waiter_slots.tracked_def)
  moreover have "\<not> w_on_bucket (pool (fx w) ! k)" using futex_okD(6) [OF ok k] dn by blast
  ultimately have "j \<in> slots_used (free_bitmap s')" if "j < FUTEX_WAITER_POOL_SIZE" "w_on_bucket (pool s' ! j)" for j
    using w that unfolding world_ok_def same by auto
  then show ?thesis
    using w tr' futex_ok_cong [OF same(2,1)] by (auto simp: world_ok_def same)
qed

lemma boot_ok: "world_ok \<lparr>fx = futex_boot, umem = m, parked = (\<lambda>_. None)\<rparr>"
proof -
  have "futex_ok futex_boot"
    by (auto simp: futex_ok_def futex_boot_def futex_init_def zero_waiter_def)
  moreover have "slots_used (free_bitmap futex_boot) = {}" "slots_ok (free_bitmap futex_boot)"
    by (auto simp: slots_used_def slots_ok_def futex_boot_def futex_init_def FUTEX_WAITER_POOL_SIZE_def)
  ultimately show ?thesis
    by (simp add: world_ok_def waiter_slots.tracked_def) (simp add: futex_boot_def futex_init_def zero_waiter_def)
qed

lemma step_world_ok: "futex_step valid w e r w' \<Longrightarrow> world_ok w \<Longrightarrow> world_ok w'"
proof (induction rule: futex_step.induct)
  case (store w a v)
  then show ?case by (simp add: world_ok_def)
next
  case (answer w p now addr op val timeout addr2 val3 rc s')
  then show ?case using world_syscall(1) by blast
next
  case (park w p now addr op val timeout addr2 val3 bk s')
  then show ?case using world_syscall(2) by blast
next
  case (return w p b k rc s')
  then show ?case using world_resume by blast
next
  case (again w p b k s')
  then show ?case using resume_cases [OF again(3,1)] by (auto split: if_splits)
next
  case (tick w now)
  then show ?case by (rule world_tick)
next
  case (tick_one b w now)
  then show ?case using world_tick_bucket by blast
next
  case (thread_exit w a)
  then show ?case using world_wake [OF thread_exit] by (metis futex_wake_addr_def prod.collapse)
qed

lemma reach_ok: "futex_reach valid w \<Longrightarrow> world_ok w"
  by (induction rule: futex_reach.induct) (use boot_ok step_world_ok in blast)+

section \<open>A demonstration state\<close>

text \<open>Task 5 waits without a deadline, task 6 with one.\<close>

definition demo_boot :: fworld where
  "demo_boot = \<lparr>fx = futex_boot, umem = (\<lambda>_. 0), parked = (\<lambda>_. None)\<rparr>"

lemma demo_wait:
  assumes "futex_reach (\<lambda>_. True) w" and "parked w p = None" and "umem w = (\<lambda>_. 0)"
    and free: "take_slot (free_bitmap (fx w)) \<noteq> None"
  obtains w' k where "futex_reach (\<lambda>_. True) w'" and "parked w' = (parked w)(p \<mapsto> (futex_hash 0x1000, k))"
    and "umem w' = (\<lambda>_. 0)" and "k \<in> set (futex_queue (fx w') 0x1000)"
    and "pool (fx w') ! k = new_waiter 0x1000 (Some p) 0xFFFFFFFF (if timeout \<noteq> 0 then now + timeout else 0)"
proof -
  have wok: "world_ok w" using reach_ok [OF assms(1)] .
  then have ok: "futex_ok (fx w)" "slots_ok (free_bitmap (fx w))"
    "\<forall>k<FUTEX_WAITER_POOL_SIZE. w_on_bucket (pool (fx w) ! k) \<longrightarrow> k \<in> slots_used (free_bitmap (fx w))"
    by (auto simp: world_ok_def waiter_slots.tracked_def)
  obtain res s' where run: "sys_futex (\<lambda>_. True) (umem w) now (Some p) 0x1000 0 0 timeout 0 0 (fx w) = (res, s')" by fastforce
  then have run': "futex_wait_start (\<lambda>_. True) (umem w) now (Some p) 0x1000 0 timeout 0xFFFFFFFF (fx w) = (res, s')"
    by (simp add: sys_futex_def)
  have valid: "validate_futex_addr (\<lambda>_. True) 0x1000" by (simp add: validate_futex_addr_def)
  from ok run' show thesis
  proof (cases rule: wait_start_cases)
    case (refused rc)
    then show thesis using valid assms(3) free by simp
  next
    case (parks k)
    have st: "futex_step (\<lambda>_. True) w (Syscall p now 0x1000 0 0 timeout 0 0) None
        (w\<lparr>fx := s', parked := (parked w)(p \<mapsto> (futex_hash 0x1000, k))\<rparr>)"
      using run by (intro futex_step.park [OF assms(2)]) (simp add: parks(1))
    have "k \<in> set (futex_queue s' 0x1000)"
      using parks(5,8) parks(9) [OF parks(5)] by (simp add: queue_mem new_waiter_def)
    then show thesis
      using that [OF futex_reach.step [OF assms(1) st]] parks(9) [OF parks(5)] assms(3) by simp
  qed
qed

lemma boot_free: "take_slot (free_bitmap futex_boot) \<noteq> None"
proof
  assume "take_slot (free_bitmap futex_boot) = None"
  moreover have "slots_used (free_bitmap futex_boot) = {}" "slots_ok (free_bitmap futex_boot)"
    by (auto simp: slots_used_def slots_ok_def futex_boot_def futex_init_def FUTEX_WAITER_POOL_SIZE_def)
  ultimately show False using waiter_slots.alloc_full [of "free_bitmap futex_boot"] by (simp add: FUTEX_WAITER_POOL_SIZE_def lessThan_empty_iff)
qed

lemma demo_waiting:
  obtains w k where "futex_reach (\<lambda>_. True) w" and "parked w 5 = Some (futex_hash 0x1000, k)"
    and "k \<in> set (futex_queue (fx w) 0x1000)" and "pool (fx w) ! k = new_waiter 0x1000 (Some 5) 0xFFFFFFFF 30"
proof -
  have "futex_reach (\<lambda>_. True) demo_boot" unfolding demo_boot_def by (rule futex_reach.boot)
  then obtain w k where "futex_reach (\<lambda>_. True) w" and "parked w = (parked demo_boot)(5 \<mapsto> (futex_hash 0x1000, k))"
    and "umem w = (\<lambda>_. 0)" and "k \<in> set (futex_queue (fx w) 0x1000)"
    and "pool (fx w) ! k = new_waiter 0x1000 (Some 5) 0xFFFFFFFF (if (20 :: u64) \<noteq> 0 then 10 + 20 else 0)"
    by (rule demo_wait [where p = 5 and now = 10 and timeout = 20]) (simp_all add: demo_boot_def boot_free)
  then show thesis using that by simp
qed

section \<open>Properties\<close>

text \<open>C2: no wake-up is lost. In every state that any interleaving of stores, futex calls, timer sweeps (bucket by bucket), thread exits
  and scheduling of parked tasks can reach: a task parked in \<open>futex_wait\<close> holds a waiter of its own; either
  that waiter is in the queue of its address, where a wake-up or the timer finds it, or it has been released
  and the next time the task runs its call returns, with 0 or \<open>-ETIMEDOUT\<close>. And every queue
  consists of waiters of parked tasks.\<close>

theorem futex_no_lost_wakeup:
  assumes "futex_reach valid w"
  shows "(\<forall>p b k. parked w p = Some (b, k) \<longrightarrow> w_proc (pool (fx w) ! k) = Some p \<and>
            (\<forall>q. q \<noteq> p \<longrightarrow> holder w q \<noteq> Some k) \<and>
            (if w_done (pool (fx w) ! k)
             then (\<forall>a. k \<notin> set (futex_queue (fx w) a)) \<and>
               (\<exists>s'. futex_step valid w (Resume p)
                  (Some (if w_timed_out (pool (fx w) ! k) then - FUTEX_ETIMEDOUT else 0))
                  (w\<lparr>fx := s', parked := (parked w)(p := None)\<rparr>))
             else k \<in> set (futex_queue (fx w) (w_addr (pool (fx w) ! k))))) \<and>
         (\<forall>a. \<forall>k\<in>set (futex_queue (fx w) a). \<exists>p. holder w p = Some k)"
proof (intro conjI allI impI ballI)
  have wok: "world_ok w" using reach_ok [OF assms] .
  then have ok: "futex_ok (fx w)" and tr: "waiter_slots.tracked (holder w) (free_bitmap (fx w))" by (simp_all add: world_ok_def)
  fix p b k
  assume p: "parked w p = Some (b, k)"
  then have k: "k < FUTEX_WAITER_POOL_SIZE" "w_proc (pool (fx w) ! k) = Some p"
    "w_on_bucket (pool (fx w) ! k) \<or> w_done (pool (fx w) ! k)" using wok unfolding world_ok_def by blast+
  show "w_proc (pool (fx w) ! k) = Some p" using k(2) .
  show "holder w q \<noteq> Some k" if "q \<noteq> p" for q
  proof
    assume "holder w q = Some k"
    moreover have "holder w p = Some k" using p by simp
    ultimately show False using tr that unfolding waiter_slots.tracked_def by (metis domI inj_onD)
  qed
  show "if w_done (pool (fx w) ! k)
     then (\<forall>a. k \<notin> set (futex_queue (fx w) a)) \<and>
       (\<exists>s'. futex_step valid w (Resume p) (Some (if w_timed_out (pool (fx w) ! k) then - FUTEX_ETIMEDOUT else 0))
          (w\<lparr>fx := s', parked := (parked w)(p := None)\<rparr>))
     else k \<in> set (futex_queue (fx w) (w_addr (pool (fx w) ! k)))"
    using k futex_okD(6) [OF ok k(1)] queue_mem [OF ok] resume_cases [OF wok p] futex_step.return [OF p]
    by (auto split: if_splits)
next
  have wok: "world_ok w" using reach_ok [OF assms] .
  fix a k
  assume "k \<in> set (futex_queue (fx w) a)"
  then have "k \<in> ran (holder w)"
    using wok queue_mem [of "fx w" k a] by (auto simp: world_ok_def waiter_slots.tracked_def)
  then show "\<exists>p. holder w p = Some k" by (auto simp: ran_def)
qed

theorem futex_no_lost_wakeup_witness:
  "\<exists>(w :: fworld) k. parked w 5 = Some (futex_hash 0x1000, k) \<and> \<not> w_done (pool (fx w) ! k) \<and>
     k \<in> set (futex_queue (fx w) (w_addr (pool (fx w) ! k)))"
proof (rule demo_waiting)
  fix w k
  assume "futex_reach (\<lambda>_. True) w" "parked w 5 = Some (futex_hash 0x1000, k)"
    "pool (fx w) ! k = new_waiter 0x1000 (Some 5) 0xFFFFFFFF 30"
  then show ?thesis
    using conjunct1 [OF futex_no_lost_wakeup [of "\<lambda>_. True" w], rule_format, of 5 "futex_hash 0x1000" k]
    by (intro exI [of _ w] exI [of _ k]) (simp add: new_waiter_def)
qed

text \<open>C22: waking. In a reachable state \<open>futex_wake\<close> on a valid address releases exactly the first \<open>count\<close> tasks, the
  latest first, of those that wait on this address with a common bit, makes them runnable in that order and answers
  how many they were; all other waiters, of this and of every other address that shares the bucket, stay
  as they are. A bad address answers \<open>-EFAULT\<close>, a count below one 0.\<close>

theorem futex_wake_spec:
  fixes addr :: u64 and bitset :: u32
  assumes "futex_reach valid w"
  defines "q \<equiv> filter (\<lambda>k. w_bitset (pool (fx w) ! k) AND bitset \<noteq> 0) (futex_queue (fx w) addr)"
  shows "if \<not> validate_futex_addr valid addr then futex_wake valid addr count bitset (fx w) = (- FUTEX_EFAULT, fx w)
     else if count \<le> 0 then futex_wake valid addr count bitset (fx w) = (0, fx w)
     else if bitset = 0 then futex_wake valid addr count bitset (fx w) = (- FUTEX_EINVAL, fx w)
     else \<exists>s'. futex_wake valid addr count bitset (fx w) = (min count (int (length q)), s') \<and>
       woken_log s' = woken_log (fx w) @ List.map_filter (\<lambda>k. w_proc (pool (fx w) ! k)) (take (nat count) q) \<and>
       (\<forall>k<FUTEX_WAITER_POOL_SIZE. pool s' ! k = (if k \<in> set (take (nat count) q)
          then (pool (fx w) ! k)\<lparr>w_on_bucket := False, w_done := True\<rparr> else pool (fx w) ! k)) \<and>
       (\<forall>a. futex_queue s' a = filter (\<lambda>k. k \<notin> set (take (nat count) q)) (futex_queue (fx w) a))"
proof (cases "validate_futex_addr valid addr \<and> 0 < count \<and> bitset \<noteq> 0")
  case True
  have ok: "futex_ok (fx w)" using reach_ok [OF assms(1)] by (simp add: world_ok_def)
  obtain s' where s': "futex_wake valid addr count bitset (fx w) = (int (length (take (nat count) q)), s')"
    "effect (futex_hash addr) addr set_done (take (nat count) q) [] (fx w) s'"
    "\<forall>a. futex_queue s' a = filter (\<lambda>k. k \<notin> set (take (nat count) q)) (futex_queue (fx w) a)"
    using wake_effect [OF ok, of valid addr count bitset] True unfolding q_def by blast
  have "int (length (take (nat count) q)) = min count (int (length q))" using True by auto
  then show ?thesis using True s' by (auto simp: effect_def)
qed (auto simp: futex_wake_def)

theorem futex_wake_spec_witness:
  "\<exists>(w :: fworld) s' k. k \<in> set (futex_queue (fx w) 0x1000) \<and> futex_wake (\<lambda>_. True) 0x1000 1 0xFFFFFFFF (fx w) = (1, s')"
proof (rule demo_waiting)
  fix w k
  assume w: "futex_reach (\<lambda>_. True) w" and k: "k \<in> set (futex_queue (fx w) 0x1000)"
    "pool (fx w) ! k = new_waiter 0x1000 (Some 5) 0xFFFFFFFF 30"
  define q where "q = filter (\<lambda>k. w_bitset (pool (fx w) ! k) AND 0xFFFFFFFF \<noteq> 0) (futex_queue (fx w) 0x1000)"
  have "k \<in> set q" using k by (simp add: q_def new_waiter_def)
  then have "min 1 (int (length q)) = 1" by (cases q) auto
  then have "\<exists>s'. futex_wake (\<lambda>_. True) 0x1000 1 0xFFFFFFFF (fx w) = (1, s')"
    using futex_wake_spec [OF w, where addr = "0x1000" and count = 1 and bitset = "0xFFFFFFFF", folded q_def] by (auto simp: validate_futex_addr_def)
  then show ?thesis using k(1) by blast
qed

text \<open>C16: requeueing. In a reachable state \<open>futex_requeue\<close> on valid addresses releases the first \<open>wakes\<close> tasks of the first
  address and moves the next \<open>requeues\<close> ones, without waking them, to the front of the second one's queue, the
  last moved first; the answer counts both; all other waiters keep their place, also when the two addresses share
  a bucket or are the same.\<close>

theorem futex_requeue_spec:
  fixes wakes requeues :: int
  assumes "futex_reach valid w" and "validate_futex_addr valid addr" and "validate_futex_addr valid addr2"
  defines "ws \<equiv> take (nat wakes) (futex_queue (fx w) addr)"
    and "ms \<equiv> take (nat requeues) (drop (nat wakes) (futex_queue (fx w) addr))"
  shows "\<exists>s'. futex_requeue valid addr addr2 wakes requeues (fx w) = (int (length ws) + int (length ms), s') \<and>
     woken_log s' = woken_log (fx w) @ List.map_filter (\<lambda>k. w_proc (pool (fx w) ! k)) ws \<and>
     (\<forall>k<FUTEX_WAITER_POOL_SIZE. pool s' ! k =
        (if k \<in> set ws then (pool (fx w) ! k)\<lparr>w_on_bucket := False, w_done := True\<rparr>
         else if k \<in> set ms then (pool (fx w) ! k)\<lparr>w_addr := addr2, w_on_bucket := True\<rparr> else pool (fx w) ! k)) \<and>
     (\<forall>a. futex_queue s' a = (if a = addr2 then rev ms else []) @
        filter (\<lambda>k. k \<notin> set ws \<and> k \<notin> set ms) (futex_queue (fx w) a))"
proof -
  have ok: "futex_ok (fx w)" using reach_ok [OF assms(1)] by (simp add: world_ok_def)
  show ?thesis
    using requeue_effect [OF ok assms(2,3), of wakes requeues] unfolding ws_def [symmetric] ms_def [symmetric] effect_def by auto
qed

theorem futex_requeue_spec_witness:
  "\<exists>(w :: fworld) s' k. k \<in> set (futex_queue (fx w) 0x1000) \<and> k \<in> set (futex_queue s' 0x2000) \<and>
     snd (futex_requeue (\<lambda>_. True) 0x1000 0x2000 0 1000 (fx w)) = s'"
proof (rule demo_waiting)
  fix w k
  assume w: "futex_reach (\<lambda>_. True) w" and k: "k \<in> set (futex_queue (fx w) 0x1000)"
  have ok: "futex_ok (fx w)" using reach_ok [OF w] by (simp add: world_ok_def)
  have len: "length (futex_queue (fx w) 0x1000) \<le> 1000"
    unfolding futex_queue_def
    by (rule le_trans [OF length_filter_le le_trans [OF waiters_bound [OF ok futex_hash_less]]]) (simp add: FUTEX_WAITER_POOL_SIZE_def)
  have v: "validate_futex_addr (\<lambda>_. True) 0x1000" "validate_futex_addr (\<lambda>_. True) 0x2000" by (simp_all add: validate_futex_addr_def)
  define q where "q = futex_queue (fx w) 0x1000"
  have "nat 1000 = 1000" by simp
  then have q: "take (nat 1000) (drop (nat 0) q) = q" using len by (simp add: q_def)
  obtain s' where s': "snd (futex_requeue (\<lambda>_. True) 0x1000 0x2000 0 1000 (fx w)) = s'"
    and "futex_queue s' 0x2000 = rev q @ filter (\<lambda>k. k \<notin> set (take (nat 0) q) \<and> k \<notin> set q) (futex_queue (fx w) 0x2000)"
    using futex_requeue_spec [OF w v, where wakes = 0 and requeues = 1000, folded q_def, unfolded q] by auto
  then have "k \<in> set (futex_queue s' 0x2000)" using k by (simp add: q_def)
  then show ?thesis using k s' by blast
qed

text \<open>C34: time-outs. In a reachable state a timer sweep at time \<open>now\<close> releases exactly the queued waiters whose deadline
  is not 0 and not ahead (in 64-bit modular distance), marks them as timed out, and leaves every other waiter
  and the order of each queue alone.\<close>

theorem futex_tick_spec:
  assumes "futex_reach valid w"
  shows "(\<forall>a. futex_queue (futex_tick now (fx w)) a = filter (\<lambda>k. \<not> expired now (pool (fx w) ! k)) (futex_queue (fx w) a)) \<and>
     (\<forall>k<FUTEX_WAITER_POOL_SIZE. pool (futex_tick now (fx w)) ! k =
        (if w_on_bucket (pool (fx w) ! k) \<and> expired now (pool (fx w) ! k)
         then (pool (fx w) ! k)\<lparr>w_on_bucket := False, w_timed_out := True, w_done := True\<rparr> else pool (fx w) ! k))"
proof -
  have ok: "futex_ok (fx w)" using reach_ok [OF assms(1)] by (simp add: world_ok_def)
  have "swept now FUTEX_HASH_BUCKETS (fx w) (futex_tick now (fx w))" using tick_swept [OF ok order_refl] by (simp add: futex_tick_def)
  then show ?thesis using tick_queue [OF ok] futex_hash_less by (simp add: swept_def)
qed

theorem futex_tick_spec_witness:
  "\<exists>(w :: fworld) k. k \<in> set (futex_queue (fx w) 0x1000) \<and> k \<notin> set (futex_queue (futex_tick 31 (fx w)) 0x1000) \<and>
     k \<in> set (futex_queue (futex_tick 29 (fx w)) 0x1000)"
proof (rule demo_waiting)
  fix w k
  assume w: "futex_reach (\<lambda>_. True) w" and k: "k \<in> set (futex_queue (fx w) 0x1000)"
    "pool (fx w) ! k = new_waiter 0x1000 (Some 5) 0xFFFFFFFF 30"
  have "expired 31 (pool (fx w) ! k)" "\<not> expired 29 (pool (fx w) ! k)" by (simp_all add: k(2) expired_def new_waiter_def)
  then show ?thesis
    using futex_tick_spec [OF w, of 31] futex_tick_spec [OF w, of 29] k(1) by (intro exI [of _ w] exI [of _ k]) simp
qed

end
