(* ===== verification/CText.thy ===== *)
theory CText
  imports MOS_Prelude "HOL-Library.Char_ord"
begin

text \<open>
  C strings and decimals, as the text files of the kernel use them: a \<open>char\<close> array read up to its first NUL, digits,
  the digits of a number, and text without blanks. Strings are char lists.
\<close>

section \<open>C strings\<close>

definition NUL :: char where "NUL = CHR 0x00"
definition cstr :: "string \<Rightarrow> string" where "cstr a = takeWhile (\<lambda>c. c \<noteq> NUL) a"

lemma cstr_no_nul: "NUL \<notin> set (cstr s)" by (auto simp: cstr_def dest: set_takeWhileD)

lemma cstr_idem: "NUL \<notin> set s \<Longrightarrow> cstr s = s" unfolding cstr_def takeWhile_eq_all_conv by blast

section \<open>Text without blanks\<close>

text \<open>The bytes that are neither blanks nor control characters.\<close>

definition graphic :: "string \<Rightarrow> bool" where "graphic s \<longleftrightarrow> (\<forall>c\<in>set s. CHR 0x20 < c \<and> c < CHR 0x7F)"

named_theorems graph \<open>what graphic text is made of\<close>

lemma graphic_Nil [graph]: "graphic []" by (simp add: graphic_def)
lemma graphic_Cons [graph]: "graphic (c # s) \<longleftrightarrow> CHR 0x20 < c \<and> c < CHR 0x7F \<and> graphic s" by (auto simp: graphic_def)
lemma graphic_append [graph]: "graphic (s @ t) \<longleftrightarrow> graphic s \<and> graphic t" by (auto simp: graphic_def)

lemma graphic_no_nl: "graphic s \<Longrightarrow> c \<in> set s \<Longrightarrow> c \<noteq> CHR 0x0A \<and> c \<noteq> CHR 0x0D \<and> c \<noteq> NUL"
  by (auto simp: graphic_def less_char_def NUL_def)

lemma graphic_cstr: "graphic s \<Longrightarrow> cstr s = s"
  unfolding cstr_def takeWhile_eq_all_conv using graphic_no_nl by blast

section \<open>Decimals\<close>

definition digit :: "char \<Rightarrow> bool" where "digit c \<longleftrightarrow> CHR ''0'' \<le> c \<and> c \<le> CHR ''9''"
definition digit_val :: "char \<Rightarrow> u32" where "digit_val c = of_nat (of_char c - 48)"

definition digit_char :: "nat \<Rightarrow> char" where "digit_char n = char_of (48 + n)"

text \<open>The digits, the lowest first.\<close>

fun digits_rev :: "nat \<Rightarrow> string" where
  "digits_rev v = (if v = 0 then [] else digit_char (v mod 10) # digits_rev (v div 10))"
declare digits_rev.simps [simp del]

lemma digit_char: "n < 10 \<Longrightarrow> digit (digit_char n) \<and> digit_val (digit_char n) = of_nat n \<and>
    CHR 0x20 < digit_char n \<and> digit_char n < CHR 0x7F \<and> digit_char n \<noteq> CHR '':''"
proof -
  assume n: "n < 10"
  then have c: "(of_char (digit_char n) :: nat) = 48 + n" by (simp add: digit_char_def)
  have "digit_char n \<noteq> CHR '':''"
  proof
    assume "digit_char n = CHR '':''"
    then have "(of_char (digit_char n) :: nat) = of_char CHR '':''" by simp
    then show False using c n by simp
  qed
  then show ?thesis using n by (auto simp: c digit_def digit_val_def less_char_def less_eq_char_def)
qed

lemma digits_ok: "list_all digit (digits_rev n) \<and> graphic (digits_rev n)"
proof (induction n rule: digits_rev.induct)
  case (1 v)
  have "v mod 10 < 10" by simp
  then show ?case using 1 digit_char [of "v mod 10"] by (simp add: digits_rev.simps [of v] graph)
qed

lemma length_digits: "n < 10 ^ k \<Longrightarrow> length (digits_rev n) \<le> k"
proof (induction k arbitrary: n)
  case (Suc k)
  then show ?case by (simp add: digits_rev.simps [of n])
qed (simp add: digits_rev.simps)

definition dec :: "'a::len word \<Rightarrow> string" where
  "dec v = rev ((if v = 0 then [CHR ''0''] else []) @ digits_rev (unat v))"

lemma dec_digits: "list_all digit (dec v)" "graphic (dec v)" "dec v \<noteq> []"
proof -
  have "digit CHR ''0''" by (simp add: digit_def less_eq_char_def)
  then show "list_all digit (dec v)" using digits_ok [of "unat v"] by (simp add: dec_def list_all_rev)
  show "graphic (dec v)" using digits_ok [of "unat v"] by (auto simp: dec_def graphic_def less_char_def)
  have "digits_rev (unat v) \<noteq> []" if "v \<noteq> 0" using that by (simp add: digits_rev.simps unat_eq_zero)
  then show "dec v \<noteq> []" by (simp add: dec_def)
qed

lemma length_dec: "length (dec (v :: u32)) \<le> 10"
proof -
  have "unat v < 10 ^ 10" using unsigned_less [of v, where 'a = nat] by simp
  then show ?thesis using length_digits by (simp add: dec_def digits_rev.simps [of 0])
qed

end
