(* ===== verification/Cron.thy ===== *)
theory Cron
  imports CText
begin

text \<open>
  The job scheduler, after \<open>kernel/proc/cron.c\<close> and \<open>cron.h\<close>: a table of 32 jobs, each with the owner the kernel
  stamped on it, their serialisation into \<open>/CONFIG/CRON.CFG\<close> through a 4096-byte buffer, the parser that reads the
  file at boot, and the firing of due jobs by the worker. Strings are char lists; a \<open>char\<close> array keeps its NULs
  and \<open>cstr\<close> reads it as a C string. The clocks, the file system, the ELF check and the user table are the fields
  of an environment; what a job does (callback, launch, event) is recorded in \<open>fired\<close>.
\<close>

unbundle bit_operations_syntax

section \<open>Data\<close>

definition CRON_MAX_JOBS :: nat where "CRON_MAX_JOBS = 32"
definition CRON_LABEL_MAX :: nat where "CRON_LABEL_MAX = 32"
definition CRON_TARGET_MAX :: nat where "CRON_TARGET_MAX = 64"
definition CRON_TYPE_ONESHOT :: u8 where "CRON_TYPE_ONESHOT = 0"
definition CRON_TYPE_INTERVAL :: u8 where "CRON_TYPE_INTERVAL = 1"
definition CRON_TYPE_DAILY :: u8 where "CRON_TYPE_DAILY = 2"
definition CRON_TYPE_WEEKLY :: u8 where "CRON_TYPE_WEEKLY = 3"
definition CRON_ACT_CALLBACK :: u8 where "CRON_ACT_CALLBACK = 0"
definition CRON_ACT_LAUNCH :: u8 where "CRON_ACT_LAUNCH = 1"
definition CRON_ACT_EVENT :: u8 where "CRON_ACT_EVENT = 2"
definition CRON_CB_MAX :: nat where "CRON_CB_MAX = 16"
definition BUF_SIZE :: nat where "BUF_SIZE = 4096"

text \<open>\<open>strncpy\<close> into a zeroed array of \<open>n + 1\<close> bytes.\<close>

definition strncpy :: "nat \<Rightarrow> string \<Rightarrow> string" where
  "strncpy n s = take n (cstr s @ replicate n NUL) @ [NUL]"

record cron_job =
  job_id :: u32
  job_type :: u8
  job_action :: u8
  job_enabled :: u8
  job_weekday :: u8
  job_hour :: u8
  job_minute :: u8
  job_reserved :: string
  job_interval_ms :: u32
  job_run_count :: u32
  job_next_fire :: u64
  job_target :: string
  job_label :: string

record cron_slot =
  slot_job :: cron_job
  slot_used :: bool
  slot_persist :: bool
  slot_pending :: bool
  slot_wall_key :: u32
  slot_owner :: u32

text \<open>A callback's function and context are numbers.\<close>

record cron_cb =
  cb_name :: string
  cb_fn :: nat
  cb_ctx :: u64

text \<open>What firing does: a callback runs, an AI key is provisioned, a program starts as a user, an event is logged.\<close>

datatype cron_effect =
    RanCallback nat u32 u64
  | ProvisionedKey u32 u32 string
  | Launched string string u32
  | Event string u32

record cron =
  g_jobs :: "cron_slot list"
  g_inited :: bool
  g_next_id :: u32
  g_cron_wake :: bool
  g_cbs :: "cron_cb list"
  fs_mounted :: bool
  cron_cfg :: "string option"
  fired :: "cron_effect list"

record cron_env =
  timer_ticks :: u64
  g_timer_hz :: u32
  rtc_hour :: int
  rtc_minute :: int
  rtc_day :: int
  rtc_weekday :: int
  fat_write :: "string \<Rightarrow> string option \<Rightarrow> int \<times> string option"
  fat_read :: "string \<Rightarrow> string option"
  elf_validate :: "string \<Rightarrow> int"
  user_lookup :: "u32 \<Rightarrow> (u32 \<times> string) option"

definition zero_job :: cron_job where
  "zero_job = \<lparr>job_id = 0, job_type = 0, job_action = 0, job_enabled = 0, job_weekday = 0, job_hour = 0,
     job_minute = 0, job_reserved = replicate 2 NUL, job_interval_ms = 0, job_run_count = 0, job_next_fire = 0,
     job_target = replicate CRON_TARGET_MAX NUL, job_label = replicate CRON_LABEL_MAX NUL\<rparr>"

definition zero_slot :: cron_slot where
  "zero_slot = \<lparr>slot_job = zero_job, slot_used = False, slot_persist = False, slot_pending = False,
     slot_wall_key = 0, slot_owner = 0\<rparr>"

section \<open>Numbers and text\<close>

primrec atou_from :: "u32 \<Rightarrow> string \<Rightarrow> u32" where
  "atou_from v [] = v"
| "atou_from v (c # cs) = (if digit c then atou_from (v * 10 + digit_val c) cs else v)"

definition cron_atou :: "string \<Rightarrow> u32" where "cron_atou s = atou_from 0 s"

text \<open>The output buffer holds the bytes written so far; an append beyond \<open>cap - 1\<close> is dropped.\<close>

definition app_char :: "nat \<Rightarrow> char \<Rightarrow> string \<Rightarrow> string" where
  "app_char cap c buf = (if length buf < cap - 1 then buf @ [c] else buf)"

primrec cron_app_str :: "nat \<Rightarrow> string \<Rightarrow> string \<Rightarrow> string" where
  "cron_app_str cap [] buf = buf"
| "cron_app_str cap (c # cs) buf = (if length buf < cap - 1 then cron_app_str cap cs (buf @ [c]) else buf)"

definition cron_app_u :: "nat \<Rightarrow> u32 \<Rightarrow> string \<Rightarrow> string" where
  "cron_app_u cap v buf =
     (let tmp = (if v = 0 then [CHR ''0''] else []) @ digits_rev (unat v) in cron_app_str cap (rev tmp) buf)"

definition cron_app_2d :: "nat \<Rightarrow> u8 \<Rightarrow> string \<Rightarrow> string" where
  "cron_app_2d cap v buf =
     app_char cap (digit_char (unat v mod 10)) (app_char cap (digit_char (unat v div 10 mod 10)) buf)"

definition HX :: string where "HX = ''0123456789ABCDEF''"

definition esc_plain :: "char \<Rightarrow> bool" where
  "esc_plain c \<longleftrightarrow> CHR 0x20 < c \<and> c < CHR 0x7F \<and> c \<noteq> CHR ''%''"

definition esc_char :: "char \<Rightarrow> string" where
  "esc_char c = (if esc_plain c then [c] else [CHR ''%'', HX ! (of_char c div 16), HX ! (of_char c mod 16)])"

primrec cron_app_esc :: "nat \<Rightarrow> string \<Rightarrow> string \<Rightarrow> string" where
  "cron_app_esc cap [] buf = buf"
| "cron_app_esc cap (c # cs) buf =
     (if length buf < cap - 4 then cron_app_esc cap cs (buf @ esc_char c) else buf)"

definition cron_hexval :: "char \<Rightarrow> nat option" where
  "cron_hexval c =
     (if CHR ''0'' \<le> c \<and> c \<le> CHR ''9'' then Some (of_char c - 48)
      else if CHR ''A'' \<le> c \<and> c \<le> CHR ''F'' then Some (of_char c - 65 + 10)
      else if CHR ''a'' \<le> c \<and> c \<le> CHR ''f'' then Some (of_char c - 97 + 10)
      else None)"

text \<open>Decoding; a malformed escape is left as it is.\<close>

fun cron_unescape :: "string \<Rightarrow> string" where
  "cron_unescape (c # a # b # cs) =
     (if c = CHR ''%'' \<and> cron_hexval a \<noteq> None \<and> cron_hexval b \<noteq> None
      then char_of (the (cron_hexval a) * 16 + the (cron_hexval b)) # cron_unescape cs
      else c # cron_unescape (a # b # cs))"
| "cron_unescape cs = cs"

definition cron_ms_to_ticks :: "cron_env \<Rightarrow> u32 \<Rightarrow> u64" where
  "cron_ms_to_ticks e ms =
     (let hz = (if g_timer_hz e \<noteq> 0 then g_timer_hz e else 250);
          t = ucast ms * ucast hz div 1000
      in if t \<noteq> 0 then t else 1)"

definition cron_type_name :: "u8 \<Rightarrow> string" where
  "cron_type_name t =
     (if t = CRON_TYPE_ONESHOT then ''ONESHOT'' else if t = CRON_TYPE_INTERVAL then ''INTERVAL''
      else if t = CRON_TYPE_DAILY then ''DAILY'' else if t = CRON_TYPE_WEEKLY then ''WEEKLY'' else ''?'')"

definition cron_act_name :: "u8 \<Rightarrow> string" where
  "cron_act_name a =
     (if a = CRON_ACT_CALLBACK then ''callback'' else if a = CRON_ACT_LAUNCH then ''launch''
      else if a = CRON_ACT_EVENT then ''event'' else ''?'')"

section \<open>The callback registry\<close>

definition cron_register_callback :: "string option \<Rightarrow> nat option \<Rightarrow> u64 \<Rightarrow> cron \<Rightarrow> int \<times> cron" where
  "cron_register_callback name fn ctx s =
     (case (name, fn) of
        (Some nm, Some f) \<Rightarrow>
          (case find_idx (\<lambda>c. cstr (cb_name c) = cstr nm) (g_cbs s) of
             Some i \<Rightarrow> (0, s\<lparr>g_cbs := (g_cbs s)[i := (g_cbs s ! i)\<lparr>cb_fn := f, cb_ctx := ctx\<rparr>]\<rparr>)
           | None \<Rightarrow>
               if length (g_cbs s) \<ge> CRON_CB_MAX then (- 2, s)
               else (0, s\<lparr>g_cbs := g_cbs s @ [\<lparr>cb_name = strncpy 23 nm, cb_fn = f, cb_ctx = ctx\<rparr>]\<rparr>))
      | _ \<Rightarrow> (- 1, s))"

definition cron_find_cb :: "string \<Rightarrow> cron \<Rightarrow> cron_cb option" where
  "cron_find_cb name s = map_option (nth (g_cbs s)) (find_idx (\<lambda>c. cstr (cb_name c) = cstr name) (g_cbs s))"

section \<open>Slots\<close>

definition cron_alloc_slot :: "cron \<Rightarrow> nat option" where
  "cron_alloc_slot s = find_idx (\<lambda>x. \<not> slot_used x) (g_jobs s)"

definition cron_find_id :: "u32 \<Rightarrow> cron \<Rightarrow> nat option" where
  "cron_find_id i s = find_idx (\<lambda>x. slot_used x \<and> job_id (slot_job x) = i) (g_jobs s)"

definition tick_based :: "u8 \<Rightarrow> bool" where "tick_based t \<longleftrightarrow> t = CRON_TYPE_INTERVAL \<or> t = CRON_TYPE_ONESHOT"

definition cron_schedule_first :: "cron_env \<Rightarrow> cron_slot \<Rightarrow> cron_slot" where
  "cron_schedule_first e x =
     (let j = slot_job x in
      x\<lparr>slot_job := j\<lparr>job_next_fire :=
         (if tick_based (job_type j) then timer_ticks e + cron_ms_to_ticks e (job_interval_ms j) else 0)\<rparr>\<rparr>)"

section \<open>Saving\<close>

definition cron_hdr :: string where
  "cron_hdr = ''# MayteraOS cron jobs (#265). Auto-generated; edit with care.'' @ [CHR 0x0A] @
     ''# uid=<owner> <TYPE> <WHEN> <ACTION> <TARGET> [label]'' @ [CHR 0x0A] @
     ''# TARGET and label are %XX-escaped (#698). uid= is mandatory;'' @ [CHR 0x0A] @
     ''# a line without it is REJECTED, never assumed to be root'' @ [CHR 0x27] @ ''s.'' @ [CHR 0x0A]"

definition app_when :: "nat \<Rightarrow> cron_job \<Rightarrow> string \<Rightarrow> string" where
  "app_when cap j buf =
     (if tick_based (job_type j) then cron_app_u cap (job_interval_ms j div 1000) buf
      else if job_type j = CRON_TYPE_DAILY then
        cron_app_2d cap (job_minute j) (app_char cap CHR '':'' (cron_app_2d cap (job_hour j) buf))
      else if job_type j = CRON_TYPE_WEEKLY then
        cron_app_2d cap (job_minute j) (app_char cap CHR '':'' (cron_app_2d cap (job_hour j)
          (app_char cap CHR '':'' (cron_app_u cap (ucast (job_weekday j)) buf))))
      else buf)"

definition app_slot :: "nat \<Rightarrow> cron_slot \<Rightarrow> string \<Rightarrow> string" where
  "app_slot cap x buf =
     (if \<not> slot_used x \<or> \<not> slot_persist x then buf
      else
        let j = slot_job x;
            b1 = app_char cap CHR '' '' (cron_app_u cap (slot_owner x) (cron_app_str cap ''uid='' buf));
            b2 = app_char cap CHR '' '' (cron_app_str cap (cron_type_name (job_type j)) b1);
            b3 = app_char cap CHR '' '' (app_when cap j b2);
            b4 = app_char cap CHR '' '' (cron_app_str cap (cron_act_name (job_action j)) b3);
            b5 = cron_app_esc cap (cstr (job_target j)) b4;
            b6 = (if cstr (job_label j) \<noteq> [] then cron_app_esc cap (cstr (job_label j)) (app_char cap CHR '' '' b5) else b5)
        in app_char cap CHR 0x0A b6)"

definition cron_text :: "cron_slot list \<Rightarrow> string" where
  "cron_text xs = fold (app_slot BUF_SIZE) xs (cron_app_str BUF_SIZE cron_hdr [])"

definition cron_save :: "cron_env \<Rightarrow> cron \<Rightarrow> int \<times> cron" where
  "cron_save e s =
     (if \<not> fs_mounted s then (- 1, s)
      else let (rc, f) = fat_write e (cron_text (g_jobs s)) (cron_cfg s) in (rc, s\<lparr>cron_cfg := f\<rparr>))"

section \<open>Adding, removing, enabling, listing\<close>

primrec field_ok :: "string \<Rightarrow> nat \<Rightarrow> bool \<Rightarrow> bool" where
  "field_ok s 0 allow_space = False"
| "field_ok s (Suc n) allow_space =
     (case s of
        [] \<Rightarrow> False
      | c # cs \<Rightarrow>
          if c = NUL then True
          else if c < CHR 0x20 \<or> c = CHR 0x7F then False
          else if c = CHR '' '' \<and> \<not> allow_space then False
          else field_ok cs n allow_space)"

definition cron_field_ok :: "string \<Rightarrow> nat \<Rightarrow> bool \<Rightarrow> bool" where
  "cron_field_ok s mx allow_space = field_ok s mx allow_space"

text \<open>\<open>cron_add_common\<close> once the registry is initialised.\<close>

definition cron_add_core :: "cron_env \<Rightarrow> cron_job option \<Rightarrow> bool \<Rightarrow> u32 \<Rightarrow> cron \<Rightarrow> int \<times> cron" where
  "cron_add_core e job persist owner s =
     (case job of
        None \<Rightarrow> (- 1, s)
      | Some j0 \<Rightarrow>
          if job_type j0 > CRON_TYPE_WEEKLY \<or> job_action j0 > CRON_ACT_EVENT then (- 2, s)
          else
            let jc = j0\<lparr>job_target := (job_target j0)[CRON_TARGET_MAX - 1 := NUL],
                       job_label := (job_label j0)[CRON_LABEL_MAX - 1 := NUL]\<rparr>
            in
            if job_target jc ! 0 = NUL then (- 5, s)
            else if \<not> cron_field_ok (job_target jc) CRON_TARGET_MAX False \<or>
                    \<not> cron_field_ok (job_label jc) CRON_LABEL_MAX True then (- 6, s)
            else if take 4 (job_target jc) = ''uid='' then (- 6, s)
            else
              case cron_alloc_slot s of
                None \<Rightarrow> (- 3, s)
              | Some i \<Rightarrow>
                  let x = cron_schedule_first e
                        (zero_slot\<lparr>slot_job := jc\<lparr>job_id := g_next_id s, job_run_count := 0\<rparr>, slot_used := True,
                           slot_persist := persist, slot_wall_key := 0xFFFFFFFF, slot_owner := owner\<rparr>);
                      s1 = s\<lparr>g_jobs := (g_jobs s)[i := x], g_next_id := g_next_id s + 1\<rparr>
                  in
                  if persist then
                    (let (rc, s2) = cron_save e s1
                     in if rc \<noteq> 0 then (- 1, s2) else (sint (job_id (slot_job x)), s2))
                  else (sint (job_id (slot_job x)), s1))"

section \<open>Loading\<close>

definition is_blank :: "char \<Rightarrow> bool" where "is_blank c \<longleftrightarrow> c = CHR '' '' \<or> c = CHR 0x09"

text \<open>One field of at most \<open>n - 1\<close> bytes, and the rest of the line.\<close>

definition cron_field :: "nat \<Rightarrow> string \<Rightarrow> (string \<times> string) option" where
  "cron_field n p =
     (let p1 = dropWhile is_blank p in
      if p1 = [] then None
      else Some (take (n - 1) (takeWhile (\<lambda>c. \<not> is_blank c) p1), dropWhile (\<lambda>c. \<not> is_blank c) p1))"

text \<open>\<open>strchr\<close>: the rest of a C string from the first \<open>c\<close>.\<close>

definition strchr :: "string \<Rightarrow> char \<Rightarrow> string option" where
  "strchr s c = (case dropWhile (\<lambda>d. d \<noteq> c) s of [] \<Rightarrow> None | r \<Rightarrow> Some r)"

definition cron_parse_hhmm :: "string \<Rightarrow> (int \<times> int) option" where
  "cron_parse_hhmm s =
     (case strchr s CHR '':'' of
        None \<Rightarrow> None
      | Some c \<Rightarrow>
          let hh = sint (cron_atou s); mm = sint (cron_atou (tl c)) in
          if hh \<ge> 0 \<and> hh < 24 \<and> mm \<ge> 0 \<and> mm < 60 then Some (hh, mm) else None)"

definition parse_owner :: "string \<Rightarrow> u32 option" where
  "parse_owner f =
     (if take 4 f \<noteq> ''uid='' \<or> drop 4 f = [] then None
      else if list_all digit (drop 4 f) then Some (cron_atou (drop 4 f)) else None)"

definition parse_type :: "string \<Rightarrow> u8 option" where
  "parse_type f =
     (if f = ''INTERVAL'' then Some CRON_TYPE_INTERVAL else if f = ''ONESHOT'' then Some CRON_TYPE_ONESHOT
      else if f = ''DAILY'' then Some CRON_TYPE_DAILY else if f = ''WEEKLY'' then Some CRON_TYPE_WEEKLY else None)"

definition parse_when :: "string \<Rightarrow> cron_job \<Rightarrow> cron_job option" where
  "parse_when f j =
     (if tick_based (job_type j) then
        let ms = cron_atou f * 1000 in if ms = 0 then None else Some (j\<lparr>job_interval_ms := ms\<rparr>)
      else if job_type j = CRON_TYPE_DAILY then
        map_option (\<lambda>(hh, mm). j\<lparr>job_hour := of_int hh, job_minute := of_int mm\<rparr>) (cron_parse_hhmm f)
      else
        (case strchr f CHR '':'' of
           None \<Rightarrow> None
         | Some c1 \<Rightarrow>
             map_option (\<lambda>(hh, mm). j\<lparr>job_weekday := ucast (cron_atou f mod 7), job_hour := of_int hh,
               job_minute := of_int mm\<rparr>) (cron_parse_hhmm (tl c1))))"

definition parse_action :: "string \<Rightarrow> u8 option" where
  "parse_action f =
     (if f = ''callback'' then Some CRON_ACT_CALLBACK else if f = ''launch'' then Some CRON_ACT_LAUNCH
      else if f = ''event'' then Some CRON_ACT_EVENT else None)"

text \<open>What a line says: nothing, or a job and its owner.\<close>

definition parse_fields :: "string \<Rightarrow> (cron_job \<times> u32) option" where
  "parse_fields line =
     (let ls = dropWhile (\<lambda>c. is_blank c \<or> c = CHR 0x0D) line in
      if ls = [] \<or> hd ls = CHR ''#'' then None
      else
        case cron_field 24 ls of None \<Rightarrow> None | Some (ownf, c1) \<Rightarrow>
        case parse_owner (cstr ownf) of None \<Rightarrow> None | Some owner \<Rightarrow>
        case cron_field 16 c1 of None \<Rightarrow> None | Some (typef, c2) \<Rightarrow>
        case cron_field 24 c2 of None \<Rightarrow> None | Some (whenf, c3) \<Rightarrow>
        case cron_field 16 c3 of None \<Rightarrow> None | Some (actf, c4) \<Rightarrow>
        case cron_field CRON_TARGET_MAX c4 of None \<Rightarrow> None | Some (targf, c5) \<Rightarrow>
        let target = cron_unescape (cstr targf);
            labelf = take (CRON_LABEL_MAX - 1) (takeWhile (\<lambda>c. c \<noteq> CHR 0x0D \<and> c \<noteq> CHR 0x0A) (dropWhile is_blank c5))
        in
        case parse_type (cstr typef) of None \<Rightarrow> None | Some t \<Rightarrow>
        case parse_when (cstr whenf) (zero_job\<lparr>job_enabled := 1, job_type := t\<rparr>) of None \<Rightarrow> None | Some j \<Rightarrow>
        case parse_action (cstr actf) of None \<Rightarrow> None | Some a \<Rightarrow>
        Some (j\<lparr>job_action := a, job_target := strncpy (CRON_TARGET_MAX - 1) target,
                job_label := strncpy (CRON_LABEL_MAX - 1) (cron_unescape (cstr labelf))\<rparr>, owner))"

definition cron_parse_line :: "cron_env \<Rightarrow> string \<Rightarrow> cron \<Rightarrow> cron" where
  "cron_parse_line e line s =
     (case parse_fields line of None \<Rightarrow> s | Some (j, owner) \<Rightarrow> snd (cron_add_core e (Some j) True owner s))"

text \<open>The lines of a file, without their newlines.\<close>

function load_lines :: "cron_env \<Rightarrow> string \<Rightarrow> cron \<Rightarrow> cron" where
  "load_lines e p s =
     (if p = [] then s
      else load_lines e (drop 1 (dropWhile (\<lambda>c. c \<noteq> CHR 0x0A) p))
             (cron_parse_line e (takeWhile (\<lambda>c. c \<noteq> CHR 0x0A) p) s))"
  by pat_completeness auto
termination
proof (relation "measure (\<lambda>(e, p, s). length p)")
  fix e :: cron_env and p :: string and s :: cron
  assume "p \<noteq> []"
  moreover have "length (dropWhile (\<lambda>c. c \<noteq> CHR 0x0A) p) \<le> length p" by (rule length_dropWhile_le)
  ultimately show "((e, drop 1 (dropWhile (\<lambda>c. c \<noteq> CHR 0x0A) p), cron_parse_line e (takeWhile (\<lambda>c. c \<noteq> CHR 0x0A) p) s), e, p, s)
      \<in> measure (\<lambda>(e, p, s). length p)" by (cases p) auto
qed simp
declare load_lines.simps [simp del]

definition cron_load :: "cron_env \<Rightarrow> cron \<Rightarrow> cron" where
  "cron_load e s =
     (if \<not> fs_mounted s then s
      else case cron_cfg s of None \<Rightarrow> s | Some data \<Rightarrow> if data = [] then s else load_lines e data s)"

definition cb_heartbeat :: nat where "cb_heartbeat = 1"
definition cb_backup :: nat where "cb_backup = 2"
definition cb_selftest :: nat where "cb_selftest = 3"

definition cron_init :: "cron_env \<Rightarrow> cron \<Rightarrow> cron" where
  "cron_init e s =
     (if g_inited s then s
      else
        let s1 = s\<lparr>g_inited := True, g_jobs := replicate CRON_MAX_JOBS zero_slot, g_cbs := [], g_next_id := 1\<rparr>;
            s2 = snd (cron_register_callback (Some ''heartbeat'') (Some cb_heartbeat) 0 s1);
            s3 = snd (cron_register_callback (Some ''backup'') (Some cb_backup) 0 s2);
            s4 = snd (cron_register_callback (Some ''selftest'') (Some cb_selftest) 0 s3)
        in cron_load e s4)"

definition cron_add_common :: "cron_env \<Rightarrow> cron_job option \<Rightarrow> bool \<Rightarrow> u32 \<Rightarrow> cron \<Rightarrow> int \<times> cron" where
  "cron_add_common e job persist owner s = cron_add_core e job persist owner (cron_init e s)"

text \<open>\<open>caller\<close> is the effective uid of the calling user process, \<open>None\<close> for a kernel thread.\<close>

definition cron_add :: "cron_env \<Rightarrow> u32 option \<Rightarrow> cron_job option \<Rightarrow> cron \<Rightarrow> int \<times> cron" where
  "cron_add e caller job s =
     (case caller of None \<Rightarrow> (- 4, s) | Some uid \<Rightarrow> cron_add_common e job True uid s)"

definition cron_add_volatile :: "cron_env \<Rightarrow> cron_job option \<Rightarrow> cron \<Rightarrow> int \<times> cron" where
  "cron_add_volatile e job s = cron_add_common e job False 0 s"

definition cron_remove :: "cron_env \<Rightarrow> u32 \<Rightarrow> cron \<Rightarrow> int \<times> cron" where
  "cron_remove e i s =
     (case cron_find_id i s of
        None \<Rightarrow> (- 1, s)
      | Some k \<Rightarrow>
          let s1 = s\<lparr>g_jobs := (g_jobs s)[k := zero_slot]\<rparr> in
          if slot_persist (g_jobs s ! k) then
            (let (rc, s2) = cron_save e s1 in if rc \<noteq> 0 then (- 1, s2) else (0, s2))
          else (0, s1))"

definition cron_enable :: "cron_env \<Rightarrow> u32 \<Rightarrow> int \<Rightarrow> cron \<Rightarrow> int \<times> cron" where
  "cron_enable e i enable s =
     (case cron_find_id i s of
        None \<Rightarrow> (- 1, s)
      | Some k \<Rightarrow>
          let x = (g_jobs s ! k)\<lparr>slot_job := (slot_job (g_jobs s ! k))\<lparr>job_enabled := (if enable \<noteq> 0 then 1 else 0)\<rparr>\<rparr>;
              y = (if enable \<noteq> 0 \<and> tick_based (job_type (slot_job x)) then cron_schedule_first e x else x);
              s1 = s\<lparr>g_jobs := (g_jobs s)[k := y]\<rparr>
          in
          if slot_persist y then
            (let (rc, s2) = cron_save e s1 in if rc \<noteq> 0 then (- 1, s2) else (0, s2))
          else (0, s1))"

text \<open>\<open>out\<close> says whether the caller gave a buffer.\<close>

definition cron_list :: "bool \<Rightarrow> int \<Rightarrow> cron \<Rightarrow> cron_job list" where
  "cron_list out mx s = (if \<not> out \<or> mx \<le> 0 then [] else take (nat mx) (map slot_job (filter slot_used (g_jobs s))))"

section \<open>Firing\<close>

definition cron_launch_program :: "cron_env \<Rightarrow> string \<Rightarrow> u32 \<Rightarrow> cron \<Rightarrow> cron" where
  "cron_launch_program e path owner s =
     (if \<not> fs_mounted s then s
      else case fat_read e path of None \<Rightarrow> s | Some data \<Rightarrow>
        if data = [] then s
        else if elf_validate e data \<noteq> 0 then s
        else
          let key = (if owner = 0 then [ProvisionedKey 0 0 ''/'']
                     else case user_lookup e owner of
                            Some (gid, home) \<Rightarrow> if home \<noteq> [] then [ProvisionedKey owner gid home] else []
                          | None \<Rightarrow> [])
          in s\<lparr>fired := fired s @ key @ [Launched path data owner]\<rparr>)"

definition cron_fire_action :: "cron_env \<Rightarrow> cron_slot \<Rightarrow> cron \<Rightarrow> cron" where
  "cron_fire_action e x s =
     (let j = slot_job x in
      if job_action j = CRON_ACT_CALLBACK then
        (case cron_find_cb (job_target j) s of
           Some c \<Rightarrow> s\<lparr>fired := fired s @ [RanCallback (cb_fn c) (job_id j) (cb_ctx c)]\<rparr>
         | None \<Rightarrow> s)
      else if job_action j = CRON_ACT_LAUNCH then cron_launch_program e (cstr (job_target j)) (slot_owner x) s
      else if job_action j = CRON_ACT_EVENT then s\<lparr>fired := fired s @ [Event (cstr (job_target j)) (job_id j)]\<rparr>
      else s)"

definition upd_slot :: "nat \<Rightarrow> (cron_slot \<Rightarrow> cron_slot) \<Rightarrow> cron \<Rightarrow> cron" where
  "upd_slot k f s = s\<lparr>g_jobs := (g_jobs s)[k := f (g_jobs s ! k)]\<rparr>"

definition upd_job :: "(cron_job \<Rightarrow> cron_job) \<Rightarrow> cron_slot \<Rightarrow> cron_slot" where
  "upd_job f x = x\<lparr>slot_job := f (slot_job x)\<rparr>"

definition cron_fire :: "cron_env \<Rightarrow> nat \<Rightarrow> cron \<Rightarrow> cron" where
  "cron_fire e k s =
     upd_slot k (upd_job (\<lambda>j. j\<lparr>job_run_count := job_run_count j + 1\<rparr>)) (cron_fire_action e (g_jobs s ! k) s)"

definition wall_key :: "cron_env \<Rightarrow> u32" where
  "wall_key e = of_int (((rtc_day e * 24) + rtc_hour e) * 60 + rtc_minute e)"

text \<open>Is the job due, and the slot after the test.\<close>

definition cron_due :: "cron_env \<Rightarrow> cron_slot \<Rightarrow> bool \<times> cron_slot" where
  "cron_due e x =
     (let j = slot_job x in
      if tick_based (job_type j) then (job_next_fire j \<noteq> 0 \<and> timer_ticks e \<ge> job_next_fire j, x)
      else if job_type j = CRON_TYPE_DAILY \<or> job_type j = CRON_TYPE_WEEKLY then
        (if rtc_hour e = uint (job_hour j) \<and> rtc_minute e = uint (job_minute j) \<and> wall_key e \<noteq> slot_wall_key x \<and>
            (job_type j = CRON_TYPE_DAILY \<or> rtc_weekday e = uint (job_weekday j))
         then (True, x\<lparr>slot_wall_key := wall_key e\<rparr>) else (False, x))
      else (False, x))"

definition cron_rearm :: "cron_env \<Rightarrow> nat \<Rightarrow> cron \<Rightarrow> cron" where
  "cron_rearm e k s =
     (let x = g_jobs s ! k; j = slot_job x in
      if job_type j = CRON_TYPE_ONESHOT then
        let s1 = upd_slot k (upd_job (\<lambda>j. j\<lparr>job_enabled := 0, job_next_fire := 0\<rparr>)) s
        in if slot_persist x then snd (cron_save e s1) else s1
      else if job_type j = CRON_TYPE_INTERVAL then
        let step = cron_ms_to_ticks e (job_interval_ms j); next = job_next_fire j + step
        in upd_slot k (upd_job (\<lambda>j. j\<lparr>job_next_fire :=
             (if next \<le> timer_ticks e then timer_ticks e + step else next)\<rparr>)) s
      else s)"

definition run_slot :: "cron_env \<Rightarrow> nat \<Rightarrow> cron \<Rightarrow> cron" where
  "run_slot e k s =
     (let x = g_jobs s ! k in
      if \<not> slot_used x \<or> job_enabled (slot_job x) = 0 then s
      else
        let (fire, x1) = cron_due e x in
        if \<not> fire then s
        else cron_rearm e k (cron_fire e k (upd_slot k (\<lambda>_. x1\<lparr>slot_pending := False\<rparr>) s)))"

definition cron_run_due :: "cron_env \<Rightarrow> cron \<Rightarrow> cron" where
  "cron_run_due e s = fold (run_slot e) [0..<CRON_MAX_JOBS] s"

definition tick_slot :: "cron_env \<Rightarrow> nat \<Rightarrow> cron \<Rightarrow> cron" where
  "tick_slot e k s =
     (let x = g_jobs s ! k; j = slot_job x in
      if \<not> slot_used x \<or> job_enabled j = 0 then s
      else if job_type j \<noteq> CRON_TYPE_INTERVAL \<and> job_type j \<noteq> CRON_TYPE_ONESHOT then s
      else if job_next_fire j \<noteq> 0 \<and> timer_ticks e \<ge> job_next_fire j
      then (upd_slot k (\<lambda>x. x\<lparr>slot_pending := True\<rparr>) s)\<lparr>g_cron_wake := True\<rparr>
      else s)"

definition cron_tick :: "cron_env \<Rightarrow> cron \<Rightarrow> cron" where
  "cron_tick e s = (if \<not> g_inited s then s else fold (tick_slot e) [0..<CRON_MAX_JOBS] s)"

text \<open>One round of the worker's loop.\<close>

definition cron_worker_round :: "cron_env \<Rightarrow> cron \<Rightarrow> cron" where
  "cron_worker_round e s = (cron_run_due e s)\<lparr>g_cron_wake := False\<rparr>"

definition selftest_job :: "u8 \<Rightarrow> u32 \<Rightarrow> string \<Rightarrow> cron_job" where
  "selftest_job t ms label = zero_job\<lparr>job_type := t, job_action := CRON_ACT_CALLBACK, job_enabled := 1,
     job_interval_ms := ms, job_target := strncpy (CRON_TARGET_MAX - 1) ''selftest'',
     job_label := strncpy (CRON_LABEL_MAX - 1) label\<rparr>"

definition cron_selftest_worker :: "cron_env \<Rightarrow> cron \<Rightarrow> cron" where
  "cron_selftest_worker e s =
     (case fat_read e ''/CONFIG/CRONTEST.CFG'' of
        None \<Rightarrow> s
      | Some _ \<Rightarrow>
          snd (cron_add_volatile e (Some (selftest_job CRON_TYPE_INTERVAL 2000 ''test-interval''))
            (snd (cron_add_volatile e (Some (selftest_job CRON_TYPE_ONESHOT 3000 ''test-oneshot'')) s))))"

end
