(* ===== verification/Cron_Text.thy ===== *)
theory Cron_Text
  imports Cron
begin

text \<open>
  The text of the job file: escapes and decimals and their inverses, what \<open>cron_save\<close> appends to its buffer however
  full it is (\<open>app_slot_cut\<close>, \<open>app_slot_all\<close>), files as lists of lines (\<open>load_lines_text\<close>), and what the reader
  makes of a complete or cut line (\<open>parse_fields_head\<close>, \<open>parse_cut\<close>).
\<close>

section \<open>Text\<close>

lemma graphic_not_blank: "graphic s \<Longrightarrow> c \<in> set s \<Longrightarrow> \<not> is_blank c"
  by (auto simp: graphic_def is_blank_def less_char_def)

lemma hex_cases: "n < 16 \<Longrightarrow> n \<in> {0,1,2,3,4,5,6,7,8,9,10,11,12,13,14,15::nat}"
  by (auto simp: numeral_eq_Suc less_Suc_eq)

lemma HX_graphic: "n < 16 \<Longrightarrow> CHR 0x20 < HX ! n \<and> HX ! n < CHR 0x7F"
  by (drule hex_cases) (auto simp: HX_def less_char_def)

lemma HX_hexval: "n < 16 \<Longrightarrow> cron_hexval (HX ! n) = Some n"
  by (drule hex_cases) (auto simp: HX_def cron_hexval_def less_eq_char_def)

subsection \<open>Escapes\<close>

definition esc :: "string \<Rightarrow> string" where "esc s = concat (map esc_char s)"

lemma esc_simps [simp]: "esc [] = []" "esc (c # s) = esc_char c @ esc s" "esc (s @ t) = esc s @ esc t"
  by (simp_all add: esc_def)

lemma code_div: "of_char c div 16 < (16 :: nat)" "of_char c mod 16 < (16 :: nat)"
  using nat_of_char_less_256 [of c] by (auto intro: less_mult_imp_div_less)

lemma esc_char_graphic: "graphic (esc_char c)"
  using HX_graphic [OF code_div(1), of c] HX_graphic [OF code_div(2), of c]
  by (auto simp: esc_char_def esc_plain_def graph)

lemma esc_graphic [graph]: "graphic (esc s)"
  by (induction s) (simp_all add: graph esc_char_graphic)

lemma length_esc_char: "0 < length (esc_char c)" "length (esc_char c) \<le> 3" by (auto simp: esc_char_def)

lemma length_esc: "length s \<le> length (esc s)"
proof (induction s)
  case (Cons c s)
  then show ?case using length_esc_char(1) [of c] by (simp del: length_greater_0_conv)
qed simp

lemma unescape_plain: "c \<noteq> CHR ''%'' \<Longrightarrow> cron_unescape (c # cs) = c # cron_unescape cs"
proof (cases "(c # cs)" rule: cron_unescape.cases)
  case (1 c' a b cs')
  assume "c \<noteq> CHR ''%''"
  then show ?thesis using 1 by simp
qed auto

lemma unescape_esc_char: "cron_unescape (esc_char c @ r) = c # cron_unescape r"
proof (cases "esc_plain c")
  case True
  then show ?thesis by (simp add: esc_char_def unescape_plain esc_plain_def)
next
  case False
  have "char_of ((of_char c :: nat) div 16 * 16 + of_char c mod 16) = c"
    using div_mult_mod_eq [of "of_char c :: nat" 16] by (simp add: mult.commute)
  then show ?thesis using False HX_hexval [OF code_div(1)] HX_hexval [OF code_div(2)] by (simp add: esc_char_def)
qed

lemma unescape_esc: "cron_unescape (esc s) = s"
  by (induction s) (simp_all add: unescape_esc_char)

subsection \<open>Decimals\<close>

lemma atou_snoc: "list_all digit s \<Longrightarrow> atou_from v (s @ t) = atou_from (atou_from v s) t"
  by (induction s arbitrary: v) auto

lemma atou_digits: "atou_from 0 (rev (digits_rev n)) = of_nat n"
proof (induction n rule: digits_rev.induct)
  case (1 v)
  show ?case
  proof (cases "v = 0")
    case False
    have m: "v mod 10 < 10" by simp
    have "atou_from 0 (rev (digits_rev v)) = of_nat (v div 10) * 10 + of_nat (v mod 10)"
      using 1 [OF False] False digits_ok [of "v div 10"] digit_char [OF m]
      by (simp add: digits_rev.simps [of v] atou_snoc list_all_rev)
    also have "\<dots> = (of_nat (v div 10 * 10 + v mod 10) :: u32)" by (simp only: of_nat_add of_nat_mult of_nat_numeral)
    finally show ?thesis by simp
  qed (simp add: digits_rev.simps)
qed

lemma atou_dec: "cron_atou (dec v) = v"
proof (cases "v = 0")
  case True
  have "digit CHR ''0'' \<and> digit_val CHR ''0'' = 0" by (simp add: digit_def digit_val_def less_eq_char_def)
  then show ?thesis using True by (simp add: dec_def cron_atou_def digits_rev.simps)
qed (simp add: dec_def cron_atou_def atou_digits)

lemma atou_stop: "list_all digit s \<Longrightarrow> \<not> digit c \<Longrightarrow> cron_atou (s @ c # t) = cron_atou s"
  unfolding cron_atou_def by (simp add: atou_snoc)

definition two :: "u8 \<Rightarrow> string" where "two v = [digit_char (unat v div 10 mod 10), digit_char (unat v mod 10)]"

lemma two_ok: "list_all digit (two v)" "graphic (two v)" "CHR '':'' \<notin> set (two v)"
  using digit_char [of "unat v div 10 mod 10"] digit_char [of "unat v mod 10"] by (auto simp: two_def graph)

lemma atou_two: "unat v < 100 \<Longrightarrow> cron_atou (two v) = ucast v"
proof -
  assume v: "unat v < 100"
  then have "unat v div 10 mod 10 = unat v div 10" by simp
  then have "cron_atou (two v) = of_nat (unat v div 10) * 10 + of_nat (unat v mod 10)"
    using digit_char [of "unat v div 10 mod 10"] digit_char [of "unat v mod 10"] by (simp add: two_def cron_atou_def)
  also have "\<dots> = (of_nat (unat v div 10 * 10 + unat v mod 10) :: u32)" by (simp only: of_nat_add of_nat_mult of_nat_numeral)
  also have "unat v div 10 * 10 + unat v mod 10 = unat v" by (rule div_mult_mod_eq)
  finally show ?thesis by simp
qed

lemma colon_not_digit: "\<not> digit CHR '':''" by (simp add: digit_def less_eq_char_def)

section \<open>What is written\<close>

text \<open>Appending as much as fits.\<close>

definition fit :: "nat \<Rightarrow> string \<Rightarrow> string \<Rightarrow> string" where "fit cap s buf = buf @ take (cap - 1 - length buf) s"

lemma fit_fit: "fit cap t (fit cap s buf) = fit cap (s @ t) buf"
  by (auto simp: fit_def min_def)

lemma length_fit: "length buf \<le> cap - 1 \<Longrightarrow> length (fit cap s buf) \<le> cap - 1"
  by (simp add: fit_def)

lemma fit_all: "length (buf @ s) \<le> cap - 1 \<Longrightarrow> fit cap s buf = buf @ s" by (simp add: fit_def)

lemma app_char_fit: "app_char cap c buf = fit cap [c] buf" by (auto simp: app_char_def fit_def take_Cons')

lemma app_str_fit: "cron_app_str cap s buf = fit cap s buf"
  by (induction s arbitrary: buf) (auto simp: fit_def take_Cons' )

lemma app_u_fit: "cron_app_u cap v buf = fit cap (dec v) buf"
  by (simp add: cron_app_u_def app_str_fit dec_def)

lemma app_2d_fit: "cron_app_2d cap v buf = fit cap (two v) buf"
  by (simp add: cron_app_2d_def app_char_fit fit_fit two_def)

lemmas app_fit = app_char_fit app_str_fit app_u_fit app_2d_fit fit_fit

lemma app_esc_some: "\<exists>k. cron_app_esc cap s buf = buf @ esc (take k s)"
proof (induction s arbitrary: buf)
  case (Cons c s)
  show ?case
  proof (cases "length buf < cap - 4")
    case True
    obtain k where "cron_app_esc cap s (buf @ esc_char c) = (buf @ esc_char c) @ esc (take k s)" using Cons.IH by blast
    then show ?thesis using True by (intro exI [of _ "Suc k"]) simp
  qed (auto intro: exI [of _ 0])
qed simp

lemma app_esc_length: "length buf \<le> cap - 1 \<Longrightarrow> 4 \<le> cap \<Longrightarrow> length (cron_app_esc cap s buf) \<le> cap - 1"
proof (induction s arbitrary: buf)
  case (Cons c s)
  then show ?case using length_esc_char(2) [of c] by simp
qed simp

lemma app_esc_full: "length buf \<ge> cap - 4 \<Longrightarrow> cron_app_esc cap s buf = buf" by (cases s) auto

lemma app_esc_all: "length (buf @ esc s) \<le> cap - 4 \<Longrightarrow> cron_app_esc cap s buf = buf @ esc s"
proof (induction s arbitrary: buf)
  case (Cons c s)
  then show ?case using length_esc_char(1) [of c] by (auto simp del: length_greater_0_conv)
qed simp

text \<open>The first four fields of a job's line, and the line.\<close>

definition when_text :: "cron_job \<Rightarrow> string" where
  "when_text j =
     (if tick_based (job_type j) then dec (job_interval_ms j div 1000)
      else if job_type j = CRON_TYPE_DAILY then two (job_hour j) @ CHR '':'' # two (job_minute j)
      else if job_type j = CRON_TYPE_WEEKLY
      then dec (ucast (job_weekday j) :: u32) @ CHR '':'' # two (job_hour j) @ CHR '':'' # two (job_minute j)
      else [])"

definition head_text :: "cron_slot \<Rightarrow> string" where
  "head_text x = (''uid='' @ dec (slot_owner x)) @ CHR '' '' # cron_type_name (job_type (slot_job x)) @
     CHR '' '' # when_text (slot_job x) @ CHR '' '' # cron_act_name (job_action (slot_job x)) @ CHR '' '' # []"

definition line_text :: "cron_slot \<Rightarrow> string" where
  "line_text x = head_text x @ esc (cstr (job_target (slot_job x))) @
     (if cstr (job_label (slot_job x)) \<noteq> [] then CHR '' '' # esc (cstr (job_label (slot_job x))) else [])"

definition stored :: "cron_slot \<Rightarrow> bool" where "stored x \<longleftrightarrow> slot_used x \<and> slot_persist x"

lemma app_when_fit: "app_when cap j buf = fit cap (when_text j) buf"
  by (simp add: app_when_def when_text_def app_fit fit_all) (simp add: fit_def)

definition tail_app :: "nat \<Rightarrow> cron_slot \<Rightarrow> string \<Rightarrow> string" where
  "tail_app cap x b4 = (let j = slot_job x; b5 = cron_app_esc cap (cstr (job_target j)) b4
     in if cstr (job_label j) \<noteq> [] then cron_app_esc cap (cstr (job_label j)) (fit cap [CHR '' ''] b5) else b5)"

lemma app_slot_tail:
  "stored x \<Longrightarrow> app_slot cap x buf = fit cap [CHR 0x0A] (tail_app cap x (fit cap (head_text x) buf))"
  by (simp add: app_slot_def stored_def tail_app_def Let_def app_fit app_when_fit head_text_def)

lemma tail_app_length: "length b \<le> cap - 1 \<Longrightarrow> 4 \<le> cap \<Longrightarrow> length (tail_app cap x b) \<le> cap - 1"
  unfolding tail_app_def Let_def by (cases "cstr (job_label (slot_job x)) = []") (simp_all only: app_esc_length length_fit if_True if_False not_True_eq_False not_False_eq_True simp_thms)

lemma fit_some: "\<exists>k. fit cap s buf = buf @ take k s" by (auto simp: fit_def)

lemma tail_app_some: "\<exists>t. CHR 0x0A \<notin> set t \<and> tail_app cap x b = b @ t"
proof -
  have nl: "CHR 0x0A \<notin> set (esc s)" for s using esc_graphic graphic_no_nl by blast
  define tg where "tg = cstr (job_target (slot_job x))"
  define lb where "lb = cstr (job_label (slot_job x))"
  obtain k where k: "cron_app_esc cap tg b = b @ esc (take k tg)" using app_esc_some by blast
  obtain n where n: "fit cap [CHR '' ''] (b @ esc (take k tg)) = (b @ esc (take k tg)) @ take n [CHR '' '']" using fit_some by blast
  obtain m where m: "cron_app_esc cap lb ((b @ esc (take k tg)) @ take n [CHR '' ''])
      = ((b @ esc (take k tg)) @ take n [CHR '' '']) @ esc (take m lb)" using app_esc_some by blast
  show ?thesis
  proof (cases "lb = []")
    case True
    then have "tail_app cap x b = b @ esc (take k tg)" using k by (simp add: tail_app_def tg_def lb_def Let_def)
    then show ?thesis using nl by blast
  next
    case False
    then have "tail_app cap x b = b @ (esc (take k tg) @ take n [CHR '' ''] @ esc (take m lb))"
      using k n m by (simp add: tail_app_def tg_def [symmetric] lb_def [symmetric] Let_def)
    moreover have "CHR 0x0A \<notin> set (esc (take k tg) @ take n [CHR '' ''] @ esc (take m lb))"
      using nl by (auto dest: in_set_takeD)
    ultimately show ?thesis by blast
  qed
qed

lemma tail_app_full: "length b = cap - 1 \<Longrightarrow> tail_app cap x b = b"
  by (simp add: tail_app_def Let_def app_esc_full fit_def)

text \<open>However full the buffer is, a line is complete, or it is cut inside its head or after it and is the last.\<close>

definition cut_of :: "cron_slot \<Rightarrow> string \<Rightarrow> bool" where
  "cut_of x l \<longleftrightarrow> CHR 0x0A \<notin> set l \<and> ((\<exists>n. l = take n (head_text x)) \<or> (\<exists>t. l = head_text x @ t))"

lemma type_name_graphic: "graphic (cron_type_name t)"
  by (auto simp: cron_type_name_def graphic_def less_char_def)

lemma act_name_graphic: "graphic (cron_act_name a)"
  by (auto simp: cron_act_name_def graphic_def less_char_def)

lemma when_graphic: "graphic (when_text j)"
  using dec_digits(2) two_ok(2) by (auto simp: when_text_def graph less_char_def)

lemma owner_graphic: "graphic (''uid='' @ dec v)"
  using dec_digits(2) by (auto simp: graph less_char_def)

lemma head_no_nl: "CHR 0x0A \<notin> set (head_text x)"
proof -
  have "CHR 0x0A \<notin> set s" if "graphic s" for s using graphic_no_nl [OF that] by blast
  then have "CHR 0x0A \<notin> set (cron_type_name t)" "CHR 0x0A \<notin> set (cron_act_name a)" "CHR 0x0A \<notin> set (when_text j)"
    "CHR 0x0A \<notin> set (dec v)" for t a j v
    using type_name_graphic act_name_graphic when_graphic dec_digits(2) by blast+
  then show ?thesis by (simp add: head_text_def)
qed

lemma app_slot_cut:
  assumes "stored x" and "length buf \<le> cap - 1" and "4 \<le> cap"
  obtains l where "cut_of x l" and "app_slot cap x buf = buf @ l @ [CHR 0x0A]" and "length (app_slot cap x buf) \<le> cap - 1"
  | l where "cut_of x l" and "app_slot cap x buf = buf @ l" and "length (app_slot cap x buf) = cap - 1"
proof (cases "length (buf @ head_text x) \<le> cap - 1")
  case True
  obtain t where t: "CHR 0x0A \<notin> set t" "tail_app cap x (buf @ head_text x) = (buf @ head_text x) @ t"
    using tail_app_some by blast
  have cut: "cut_of x (head_text x @ t)" using t(1) head_no_nl by (auto simp: cut_of_def)
  have a: "app_slot cap x buf = fit cap [CHR 0x0A] (buf @ head_text x @ t)"
    using app_slot_tail [OF assms(1)] True t(2) by (simp add: fit_all)
  have len: "length (buf @ head_text x @ t) \<le> cap - 1" using tail_app_length [OF True assms(3), of x] t(2) by simp
  show thesis
  proof (cases "length (buf @ head_text x @ t) < cap - 1")
    case True
    then have "app_slot cap x buf = buf @ (head_text x @ t) @ [CHR 0x0A]" using a by (simp add: fit_all)
    then show thesis using that(1) [OF cut] True by simp
  next
    case False
    then have "app_slot cap x buf = buf @ (head_text x @ t)" using a by (simp add: fit_def)
    then show thesis using that(2) [OF cut] False len by simp
  qed
next
  case False
  define l where "l = take (cap - 1 - length buf) (head_text x)"
  have l: "fit cap (head_text x) buf = buf @ l" "length (buf @ l) = cap - 1" using False assms(2) by (auto simp: fit_def l_def)
  have "CHR 0x0A \<notin> set l" using head_no_nl by (auto simp: l_def dest: in_set_takeD)
  then have "cut_of x l" by (auto simp: cut_of_def l_def)
  moreover have "app_slot cap x buf = buf @ l"
    using app_slot_tail [OF assms(1)] l tail_app_full [OF l(2)] by (simp add: fit_def)
  ultimately show thesis using that(2) l(2) by simp
qed

lemma app_slot_all:
  assumes "stored x" and "length (buf @ line_text x) + 4 \<le> cap"
  shows "app_slot cap x buf = buf @ line_text x @ [CHR 0x0A]"
proof -
  define j where "j = slot_job x"
  have len: "length (buf @ head_text x @ esc (cstr (job_target j)) @ (if cstr (job_label j) \<noteq> [] then CHR '' '' # esc (cstr (job_label j)) else [])) + 4 \<le> cap"
    using assms(2) by (simp only: line_text_def j_def append_assoc)
  have h: "fit cap (head_text x) buf = buf @ head_text x" using len by (intro fit_all) simp
  have t: "cron_app_esc cap (cstr (job_target j)) (buf @ head_text x) = buf @ head_text x @ esc (cstr (job_target j))"
    using len app_esc_all [of "buf @ head_text x" "cstr (job_target j)" cap] by simp
  have "tail_app cap x (buf @ head_text x) = buf @ line_text x"
  proof (cases "cstr (job_label j) = []")
    case True
    then show ?thesis using t by (simp add: tail_app_def line_text_def j_def Let_def)
  next
    case False
    have "fit cap [CHR '' ''] (buf @ head_text x @ esc (cstr (job_target j)))
        = buf @ head_text x @ esc (cstr (job_target j)) @ [CHR '' '']"
      using len False by (subst fit_all) auto
    moreover have "cron_app_esc cap (cstr (job_label j)) (buf @ head_text x @ esc (cstr (job_target j)) @ [CHR '' ''])
        = buf @ line_text x"
      using len False by (subst app_esc_all) (auto simp: line_text_def j_def)
    ultimately show ?thesis using t False by (simp add: tail_app_def j_def Let_def)
  qed
  then show ?thesis using app_slot_tail [OF assms(1), of cap buf] h assms(2) by (simp add: fit_all)
qed

section \<open>Files as lines\<close>

definition lines_text :: "string list \<Rightarrow> string \<Rightarrow> string" where
  "lines_text ls r = concat (map (\<lambda>l. l @ [CHR 0x0A]) ls) @ r"

lemma lines_text_simps [simp]:
  "lines_text [] r = r" "lines_text (l # ls) r = l @ CHR 0x0A # lines_text ls r"
  by (simp_all add: lines_text_def)

lemma lines_text_snoc: "lines_text ls (l @ [CHR 0x0A]) = lines_text (ls @ [l]) []"
  by (simp add: lines_text_def)

lemma lines_text_app: "lines_text ls [] @ r = lines_text ls r" by (simp add: lines_text_def)

lemma take_lines:
  "\<exists>ls' r'. take n (lines_text ls r) = lines_text ls' r' \<and> (\<forall>l'\<in>set (r' # ls'). \<exists>l\<in>set (r # ls). \<exists>m. l' = take m l)"
proof (induction ls arbitrary: n)
  case Nil
  have "take n (lines_text [] r) = lines_text [] (take n r)" by simp
  then show ?case by (intro exI [of _ "[]"] exI [of _ "take n r"]) auto
next
  case (Cons l ls)
  show ?case
  proof (cases "n \<le> length l")
    case True
    then have "take n (lines_text (l # ls) r) = lines_text [] (take n l)" by simp
    then show ?thesis by (intro exI [of _ "[]"] exI [of _ "take n l"]) auto
  next
    case False
    obtain ls' r' where "take (n - length l - 1) (lines_text ls r) = lines_text ls' r'"
      and *: "\<forall>l'\<in>set (r' # ls'). \<exists>l\<in>set (r # ls). \<exists>m. l' = take m l" using Cons.IH by blast
    then have "take n (lines_text (l # ls) r) = lines_text (l # ls') r'" using False by (simp add: take_Cons')
    moreover have "\<exists>m. l = take m l" by (rule exI [of _ "length l"]) simp
    ultimately show ?thesis using * by (intro exI [of _ "l # ls'"] exI [of _ r']) auto
  qed
qed

lemma parse_line_Nil: "cron_parse_line e [] s = s" by (simp add: cron_parse_line_def parse_fields_def)

lemma load_lines_text:
  assumes "\<forall>l\<in>set (r # ls). CHR 0x0A \<notin> set l"
  shows "load_lines e (lines_text ls r) s = fold (cron_parse_line e) (ls @ [r]) s"
  using assms
proof (induction ls arbitrary: s)
  case Nil
  then have "takeWhile (\<lambda>c. c \<noteq> CHR 0x0A) r = r" "dropWhile (\<lambda>c. c \<noteq> CHR 0x0A) r = []"
    by (auto simp: takeWhile_eq_all_conv dropWhile_eq_Nil_conv)
  then have "load_lines e r s = cron_parse_line e r s" if "r \<noteq> []"
    using that by (subst load_lines.simps) (simp only: if_False drop_Nil load_lines.simps [of e "[]"] if_True refl)
  then show ?case by (cases "r = []") (simp_all add: load_lines.simps [of e "[]"] parse_line_Nil)
next
  case (Cons l ls)
  define p where "p = l @ CHR 0x0A # lines_text ls r"
  have "\<forall>c\<in>set l. c \<noteq> CHR 0x0A" using Cons.prems by auto
  then have "takeWhile (\<lambda>c. c \<noteq> CHR 0x0A) p = l" "dropWhile (\<lambda>c. c \<noteq> CHR 0x0A) p = CHR 0x0A # lines_text ls r"
    by (simp_all add: p_def takeWhile_append2 dropWhile_append2)
  moreover have "p \<noteq> []" by (simp add: p_def)
  ultimately have "load_lines e p s = load_lines e (lines_text ls r) (cron_parse_line e l s)"
    by (simp add: load_lines.simps [of e p])
  then show ?case using Cons by (simp add: p_def)
qed

section \<open>What is read back\<close>

definition sep :: "string \<Rightarrow> bool" where "sep r \<longleftrightarrow> r = [] \<or> is_blank (hd r)"

lemma blank_space [simp]: "is_blank CHR '' ''" by (simp add: is_blank_def)

lemma cron_field_space [simp]: "cron_field n (CHR '' '' # p) = cron_field n p" by (simp add: cron_field_def)

lemma cron_field_word:
  assumes "graphic w" and "w \<noteq> []" and "sep r"
  shows "cron_field n (w @ r) = Some (take (n - 1) w, r)"
proof -
  have nb: "\<forall>c\<in>set w. \<not> is_blank c" using graphic_not_blank [OF assms(1)] by blast
  have "dropWhile is_blank (w @ r) = w @ r" using assms(2) nb by (cases w) auto
  moreover have "takeWhile (\<lambda>c. \<not> is_blank c) (w @ r) = w" "dropWhile (\<lambda>c. \<not> is_blank c) (w @ r) = r"
    using nb assms(3) by (cases r; simp add: sep_def)+
  ultimately show ?thesis using assms(2) by (simp add: cron_field_def)
qed

lemma cron_field_short:
  "graphic w \<Longrightarrow> w \<noteq> [] \<Longrightarrow> length w < n \<Longrightarrow> cron_field n (w @ CHR '' '' # r) = Some (w, CHR '' '' # r)"
  using cron_field_word [of w "CHR '' '' # r" n] by (simp add: sep_def)

lemma parse_owner_dec: "parse_owner (''uid='' @ dec v) = Some v"
  using dec_digits [of v] by (simp add: parse_owner_def atou_dec)

definition known :: "cron_job \<Rightarrow> bool" where
  "known j \<longleftrightarrow> job_type j \<le> CRON_TYPE_WEEKLY \<and> job_action j \<le> CRON_ACT_EVENT"

lemma known_type: "t \<le> CRON_TYPE_WEEKLY \<Longrightarrow> t \<in> {CRON_TYPE_ONESHOT, CRON_TYPE_INTERVAL, CRON_TYPE_DAILY, CRON_TYPE_WEEKLY}"
proof -
  assume "t \<le> CRON_TYPE_WEEKLY"
  then have "unat t \<le> 3" by (simp add: word_le_nat_alt CRON_TYPE_WEEKLY_def)
  then have "unat t = 0 \<or> unat t = 1 \<or> unat t = 2 \<or> unat t = 3" by auto
  then show ?thesis
    by (auto simp: CRON_TYPE_WEEKLY_def CRON_TYPE_DAILY_def CRON_TYPE_INTERVAL_def CRON_TYPE_ONESHOT_def word_unat_eq_iff)
qed

lemma known_action: "a \<le> CRON_ACT_EVENT \<Longrightarrow> a \<in> {CRON_ACT_CALLBACK, CRON_ACT_LAUNCH, CRON_ACT_EVENT}"
proof -
  assume "a \<le> CRON_ACT_EVENT"
  then have "unat a \<le> 2" by (simp add: word_le_nat_alt CRON_ACT_EVENT_def)
  then have "unat a = 0 \<or> unat a = 1 \<or> unat a = 2" by auto
  then show ?thesis by (auto simp: CRON_ACT_CALLBACK_def CRON_ACT_LAUNCH_def CRON_ACT_EVENT_def word_unat_eq_iff)
qed

lemmas type_defs = CRON_TYPE_ONESHOT_def CRON_TYPE_INTERVAL_def CRON_TYPE_DAILY_def CRON_TYPE_WEEKLY_def
lemmas act_defs = CRON_ACT_CALLBACK_def CRON_ACT_LAUNCH_def CRON_ACT_EVENT_def

lemma parse_type_name: "t \<le> CRON_TYPE_WEEKLY \<Longrightarrow> parse_type (cron_type_name t) = Some t"
  by (drule known_type) (auto simp: parse_type_def cron_type_name_def type_defs)

lemma parse_act_name: "a \<le> CRON_ACT_EVENT \<Longrightarrow> parse_action (cron_act_name a) = Some a"
  by (drule known_action) (auto simp: parse_action_def cron_act_name_def act_defs)

lemma parse_when_type: "parse_when f j = Some j' \<Longrightarrow> job_type j' = job_type j"
  by (auto simp: parse_when_def Let_def split: if_splits option.splits)

lemma when_length: "length (when_text j) < 23" using length_dec [of "job_interval_ms j div 1000"] length_dec [of "ucast (job_weekday j)"]
  by (simp add: when_text_def two_def)

lemma when_nonempty: "known j \<Longrightarrow> when_text j \<noteq> []"
  using known_type [of "job_type j"] dec_digits(3) by (auto simp: known_def when_text_def tick_based_def)

lemma name_lengths: "length (cron_type_name t) < 15" "cron_type_name t \<noteq> []" "length (cron_act_name a) < 15" "cron_act_name a \<noteq> []"
  by (simp_all add: cron_type_name_def cron_act_name_def)

text \<open>Whatever follows the head of a job's line, the line says this job's owner, type and action.\<close>

lemma parse_fields_head:
  assumes "known (slot_job x)"
  shows "parse_fields (head_text x @ t) =
     (case cron_field CRON_TARGET_MAX t of None \<Rightarrow> None | Some (targf, c5) \<Rightarrow>
      case parse_when (when_text (slot_job x)) (zero_job\<lparr>job_enabled := 1, job_type := job_type (slot_job x)\<rparr>) of None \<Rightarrow> None
      | Some j \<Rightarrow> Some (j\<lparr>job_action := job_action (slot_job x),
            job_target := strncpy (CRON_TARGET_MAX - 1) (cron_unescape (cstr targf)),
            job_label := strncpy (CRON_LABEL_MAX - 1) (cron_unescape (cstr (take (CRON_LABEL_MAX - 1)
              (takeWhile (\<lambda>c. c \<noteq> CHR 0x0D \<and> c \<noteq> CHR 0x0A) (dropWhile is_blank c5)))))\<rparr>, slot_owner x))"
proof -
  define j where "j = slot_job x"
  define w1 where "w1 = ''uid='' @ dec (slot_owner x)"
  define w2 where "w2 = cron_type_name (job_type j)"
  define w3 where "w3 = when_text j"
  define w4 where "w4 = cron_act_name (job_action j)"
  define r4 where "r4 = CHR '' '' # t"
  define r3 where "r3 = CHR '' '' # w4 @ r4"
  define r2 where "r2 = CHR '' '' # w3 @ r3"
  define r1 where "r1 = CHR '' '' # w2 @ r2"
  have s: "sep r1" "sep r2" "sep r3" "sep r4" by (simp_all add: sep_def r1_def r2_def r3_def r4_def)
  have g: "graphic w1" "graphic w2" "graphic w3" "graphic w4"
    by (simp_all only: w1_def w2_def w3_def w4_def owner_graphic type_name_graphic when_graphic act_name_graphic)
  have n: "w1 \<noteq> []" "w2 \<noteq> []" "w3 \<noteq> []" "w4 \<noteq> []"
    using when_nonempty assms by (simp_all add: w1_def w2_def w3_def w4_def name_lengths j_def)
  have l: "take 23 w1 = w1" "take 15 w2 = w2" "take 23 w3 = w3" "take 15 w4 = w4"
    using length_dec [of "slot_owner x"] when_length [of j] name_lengths(1) [of "job_type j"] name_lengths(3) [of "job_action j"]
    by (simp_all add: w1_def w2_def w3_def w4_def)
  have f: "cron_field 24 (w1 @ r1) = Some (w1, r1)" "cron_field 16 r1 = Some (w2, r2)" "cron_field 24 r2 = Some (w3, r3)"
    "cron_field 16 r3 = Some (w4, r4)"
    using cron_field_word [OF g(1) n(1) s(1), of 24] cron_field_word [OF g(2) n(2) s(2), of 16]
      cron_field_word [OF g(3) n(3) s(3), of 24] cron_field_word [OF g(4) n(4) s(4), of 16]
    by (simp_all add: l r1_def r2_def r3_def)
  have c: "cstr w1 = w1" "cstr w2 = w2" "cstr w3 = w3" "cstr w4 = w4" using g graphic_cstr by blast+
  have p: "parse_owner w1 = Some (slot_owner x)" "parse_type w2 = Some (job_type j)" "parse_action w4 = Some (job_action j)"
    using assms parse_owner_dec by (simp_all only: w1_def w2_def w4_def parse_type_name parse_act_name known_def j_def)
  have h: "head_text x @ t = w1 @ r1"
    by (simp add: head_text_def w1_def w2_def w3_def w4_def r1_def r2_def r3_def r4_def j_def)
  have hd: "dropWhile (\<lambda>c. is_blank c \<or> c = CHR 0x0D) (w1 @ r1) = w1 @ r1" "w1 @ r1 \<noteq> []" "hd (w1 @ r1) \<noteq> CHR ''#''"
    by (simp_all add: w1_def is_blank_def)
  show ?thesis
    unfolding parse_fields_def Let_def h hd(1) f c p option.case prod.case
    using hd(2,3) p f(3,4) c by (simp add: r4_def w3_def j_def split: option.split prod.split)
qed

lemma parse_fields_identity:
  assumes "known (slot_job x)" and "parse_fields (head_text x @ t) = Some (j, u)"
  shows "u = slot_owner x \<and> job_type j = job_type (slot_job x) \<and> job_action j = job_action (slot_job x)"
  using assms(2) parse_when_type unfolding parse_fields_head [OF assms(1)]
  by (fastforce split: option.splits prod.splits)

text \<open>Fields are maximal runs of other bytes than blanks; a line of fewer than five says nothing.\<close>

primrec fields_in :: "bool \<Rightarrow> string \<Rightarrow> nat" where
  "fields_in b [] = 0"
| "fields_in b (c # cs) = (if is_blank c then fields_in False cs else (if b then 0 else 1) + fields_in True cs)"

lemma fields_in_take: "fields_in b (take n s) \<le> fields_in b s"
proof (induction s arbitrary: b n)
  case (Cons c s)
  show ?case by (cases n) (auto intro: Cons.IH)
qed simp

lemma fields_in_False: "fields_in False s \<le> Suc (fields_in True s)" by (cases s) auto

lemma fields_in_True: "fields_in True s \<le> fields_in False s" by (cases s) auto

lemma fields_in_skip: "fields_in False (dropWhile (\<lambda>c. is_blank c \<or> c = CHR 0x0D) s) \<le> fields_in False s"
proof (induction s)
  case (Cons c s)
  show ?case
  proof (cases "is_blank c \<or> c = CHR 0x0D")
    case True
    then show ?thesis using Cons.IH fields_in_False [of s] by (auto intro: le_trans)
  qed auto
qed simp

lemma fields_in_word: "graphic w \<Longrightarrow> w \<noteq> [] \<Longrightarrow> fields_in False (w @ r) = Suc (fields_in True r)"
proof -
  assume g: "graphic w" and n: "w \<noteq> []"
  have "\<forall>c\<in>set w. \<not> is_blank c" using graphic_not_blank [OF g] by blast
  then have "fields_in True (w @ r) = fields_in True r" "\<forall>c\<in>set w. \<not> is_blank c" by (induction w) auto
  then show ?thesis using n by (cases w) auto
qed

lemma fields_in_blanks: "fields_in False (dropWhile is_blank p) = fields_in False p"
  by (induction p) auto

lemma fields_in_rest: "fields_in True p = fields_in False (dropWhile (\<lambda>c. \<not> is_blank c) p)"
  by (induction p) auto

lemma cron_field_count: "cron_field n p = Some (f, p') \<Longrightarrow> fields_in False p = Suc (fields_in False p')"
proof -
  assume f: "cron_field n p = Some (f, p')"
  define q where "q = dropWhile is_blank p"
  have q: "q \<noteq> []" "p' = dropWhile (\<lambda>c. \<not> is_blank c) q" using f by (auto simp: cron_field_def q_def Let_def split: if_splits)
  then have "\<not> is_blank (hd q)" unfolding q_def using hd_dropWhile by blast
  then have "fields_in False q = Suc (fields_in True q)" using q(1) by (cases q) auto
  then show ?thesis using fields_in_rest [of q] q(2) fields_in_blanks [of p] by (simp add: q_def)
qed

lemma parse_fields_five:
  assumes "parse_fields l = Some r"
  shows "5 \<le> fields_in False l"
proof -
  define ls where "ls = dropWhile (\<lambda>c. is_blank c \<or> c = CHR 0x0D) l"
  obtain f1 c1 f2 c2 f3 c3 f4 c4 f5 c5 where "cron_field 24 ls = Some (f1, c1)" "cron_field 16 c1 = Some (f2, c2)"
    "cron_field 24 c2 = Some (f3, c3)" "cron_field 16 c3 = Some (f4, c4)" "cron_field CRON_TARGET_MAX c4 = Some (f5, c5)"
    using assms unfolding parse_fields_def Let_def ls_def by (fastforce split: if_splits option.splits prod.splits)
  then have "5 \<le> fields_in False ls" by (auto dest!: cron_field_count)
  then show ?thesis using fields_in_skip [of l] unfolding ls_def by linarith
qed

lemma fields_in_word_space: "graphic w \<Longrightarrow> w \<noteq> [] \<Longrightarrow> fields_in False (w @ CHR '' '' # r) = Suc (fields_in False r)"
  by (simp add: fields_in_word)

lemma fields_in_head:
  assumes "known (slot_job x)"
  shows "fields_in False (head_text x) = 4"
proof -
  define w1 where "w1 = ''uid='' @ dec (slot_owner x)"
  have "graphic w1" "w1 \<noteq> []" using owner_graphic by (simp_all add: w1_def del: append.simps)
  then show ?thesis unfolding head_text_def w1_def [symmetric]
    by (simp add: fields_in_word_space when_nonempty [OF assms] name_lengths type_name_graphic act_name_graphic when_graphic)
qed

lemma parse_cut:
  assumes "known (slot_job x)" and "cut_of x l" and "parse_fields l = Some (j, u)"
  shows "u = slot_owner x \<and> job_type j = job_type (slot_job x) \<and> job_action j = job_action (slot_job x)"
proof -
  have "l \<noteq> take n (head_text x)" for n
    using parse_fields_five [OF assms(3)] fields_in_take [of False n "head_text x"] fields_in_head [OF assms(1)] by auto
  then obtain t where "l = head_text x @ t" using assms(2) by (auto simp: cut_of_def)
  then show ?thesis using parse_fields_identity [OF assms(1)] assms(3) by blast
qed

end
