(* ===== verification/Cron_Jobs.thy ===== *)
theory Cron_Jobs
  imports Cron_Text
begin

text \<open>
  The scheduler under any sequence of calls and reboots (\<open>cron_step\<close>): every job belongs to someone who asked for it
  (\<open>granted\<close>), the table is well formed (\<open>table_ok\<close>), a worker round slot by slot (\<open>run_due_parts\<close>), and the
  table that a saved file loads (\<open>loaded_all\<close>).
\<close>

section \<open>Calls and reboots\<close>

datatype cron_op =
    CAdd "u32 option" "cron_job option"
  | CAddVolatile "cron_job option"
  | CRegister "string option" "nat option" u64
  | CRemove u32
  | CEnable u32 int
  | CTick
  | CRound
  | CReboot bool

text \<open>What a reboot leaves: the disk. The log of what was fired is kept for the statements.\<close>

definition cron_boot :: "bool \<Rightarrow> string option \<Rightarrow> cron_effect list \<Rightarrow> cron" where
  "cron_boot mounted cfg log = \<lparr>g_jobs = replicate CRON_MAX_JOBS zero_slot, g_inited = False, g_next_id = 1,
     g_cron_wake = False, g_cbs = [], fs_mounted = mounted, cron_cfg = cfg, fired = log\<rparr>"

fun cron_step :: "cron_env \<times> cron_op \<Rightarrow> cron \<Rightarrow> cron" where
  "cron_step (e, CAdd caller job) s = snd (cron_add e caller job s)"
| "cron_step (e, CAddVolatile job) s = snd (cron_add_volatile e job s)"
| "cron_step (e, CRegister name fn ctx) s = snd (cron_register_callback name fn ctx s)"
| "cron_step (e, CRemove i) s = snd (cron_remove e i s)"
| "cron_step (e, CEnable i enable) s = snd (cron_enable e i enable s)"
| "cron_step (e, CTick) s = cron_tick e s"
| "cron_step (e, CRound) s = cron_worker_round e s"
| "cron_step (e, CReboot mounted) s = cron_init e (cron_boot mounted (cron_cfg s) (fired s))"

definition cron_run :: "(cron_env \<times> cron_op) list \<Rightarrow> cron \<Rightarrow> cron" where
  "cron_run ops s = fold cron_step ops s"

section \<open>Who asked for what\<close>

type_synonym grant = "u32 \<times> u8 \<times> u8"

definition key :: "u32 \<Rightarrow> cron_job \<Rightarrow> grant" where "key u j = (u, job_type j, job_action j)"

text \<open>Owner, type and action of the jobs that the calls of a sequence ask for.\<close>

definition asks :: "cron_op \<Rightarrow> grant set" where
  "asks op = (case op of CAdd (Some u) (Some j) \<Rightarrow> {key u j} | CAddVolatile (Some j) \<Rightarrow> {key 0 j} | _ \<Rightarrow> {})"

definition asked :: "(cron_env \<times> cron_op) list \<Rightarrow> grant set" where
  "asked ops = (\<Union>(e, op)\<in>set ops. asks op)"

text \<open>A write leaves the old file or a prefix of the new one.\<close>

definition torn_writes :: "cron_env \<Rightarrow> bool" where
  "torn_writes e \<longleftrightarrow> (\<forall>d f. snd (fat_write e d f) = f \<or> (\<exists>n. snd (fat_write e d f) = Some (take n d)))"

text \<open>Lines that give no job but those asked for, and neither does a prefix of them.\<close>

definition line_ok :: "grant set \<Rightarrow> string \<Rightarrow> bool" where
  "line_ok G l \<longleftrightarrow> CHR 0x0A \<notin> set l \<and> (l = [] \<or> hd l = CHR ''#'' \<or>
     (\<exists>x. known (slot_job x) \<and> key (slot_owner x) (slot_job x) \<in> G \<and> cut_of x l))"

definition disk_ok :: "grant set \<Rightarrow> string option \<Rightarrow> bool" where
  "disk_ok G cfg \<longleftrightarrow> (\<forall>d. cfg = Some d \<longrightarrow> (\<exists>ls r. d = lines_text ls r \<and> (\<forall>l\<in>set (r # ls). line_ok G l)))"

definition slot_granted :: "grant set \<Rightarrow> cron_slot \<Rightarrow> bool" where
  "slot_granted G x \<longleftrightarrow> (slot_used x \<longrightarrow> known (slot_job x) \<and> key (slot_owner x) (slot_job x) \<in> G)"

definition granted :: "grant set \<Rightarrow> cron \<Rightarrow> bool" where
  "granted G s \<longleftrightarrow> length (g_jobs s) = CRON_MAX_JOBS \<and> (\<forall>x\<in>set (g_jobs s). slot_granted G x) \<and> disk_ok G (cron_cfg s) \<and>
     (\<forall>p d u. Launched p d u \<in> set (fired s) \<longrightarrow> (\<exists>t. (u, t, CRON_ACT_LAUNCH) \<in> G))"

lemma granted_length: "granted G s \<Longrightarrow> length (g_jobs s) = CRON_MAX_JOBS" by (simp add: granted_def)

lemma line_ok_take:
  assumes "line_ok G l"
  shows "line_ok G (take m l)"
proof -
  have nl: "CHR 0x0A \<notin> set (take m l)" using assms by (auto simp: line_ok_def dest: in_set_takeD)
  consider "l = [] \<or> hd l = CHR ''#''"
    | x n where "known (slot_job x)" "key (slot_owner x) (slot_job x) \<in> G" "l = take n (head_text x)"
    | x t where "known (slot_job x)" "key (slot_owner x) (slot_job x) \<in> G" "l = head_text x @ t"
    using assms by (auto simp: line_ok_def cut_of_def)
  then show ?thesis
  proof cases
    case 1
    then have "take m l = [] \<or> hd (take m l) = CHR ''#''" by (cases l; cases m) auto
    then show ?thesis using nl by (auto simp: line_ok_def)
  next
    case (2 x n)
    then have "take m l = take (min m n) (head_text x)" by (simp add: take_take)
    then have "cut_of x (take m l)" using nl unfolding cut_of_def by blast
    then show ?thesis using 2(1,2) nl unfolding line_ok_def by blast
  next
    case (3 x t)
    have "take m l = take m (head_text x) \<or> take m l = head_text x @ take (m - length (head_text x)) t"
      unfolding 3(3) take_append by (cases "m \<le> length (head_text x)") simp_all
    then have "cut_of x (take m l)" using nl unfolding cut_of_def by blast
    then show ?thesis using 3(1,2) nl unfolding line_ok_def by blast
  qed
qed

lemma disk_ok_Some: "disk_ok G (Some d) \<longleftrightarrow> (\<exists>ls r. d = lines_text ls r \<and> (\<forall>l\<in>set (r # ls). line_ok G l))"
  by (simp add: disk_ok_def)

lemma disk_ok_take: "disk_ok G (Some d) \<Longrightarrow> disk_ok G (Some (take n d))"
proof -
  assume "disk_ok G (Some d)"
  then obtain ls r where d: "d = lines_text ls r" "\<forall>l\<in>set (r # ls). line_ok G l" unfolding disk_ok_Some by blast
  obtain ls' r' where t: "take n d = lines_text ls' r'" "\<forall>l'\<in>set (r' # ls'). \<exists>l\<in>set (r # ls). \<exists>m. l' = take m l"
    using take_lines d(1) by blast
  have "\<forall>l'\<in>set (r' # ls'). line_ok G l'"
  proof
    fix l'
    assume "l' \<in> set (r' # ls')"
    then obtain l m where "l \<in> set (r # ls)" "l' = take m l" using t(2) by meson
    then show "line_ok G l'" using d(2) line_ok_take by metis
  qed
  then show ?thesis using t(1) unfolding disk_ok_Some by blast
qed

lemma fold_keeps: "(\<And>k t. k \<in> set ks \<Longrightarrow> P t \<Longrightarrow> P (f k t)) \<Longrightarrow> P s \<Longrightarrow> P (fold f ks s)"
  by (induction ks arbitrary: s) auto

text \<open>What is saved.\<close>

definition buf_ok :: "grant set \<Rightarrow> string \<Rightarrow> bool" where
  "buf_ok G buf \<longleftrightarrow> length buf \<le> BUF_SIZE - 1 \<and>
     (\<exists>ls r. buf = lines_text ls r \<and> (\<forall>l\<in>set (r # ls). line_ok G l) \<and> (r = [] \<or> length buf = BUF_SIZE - 1))"

lemma app_slot_full:
  assumes "length buf = cap - 1"
  shows "app_slot cap x buf = buf"
proof (cases "stored x")
  case True
  have "fit cap s buf = buf" for s using assms by (simp add: fit_def)
  then show ?thesis using app_slot_tail [OF True] tail_app_full [OF assms] by simp
qed (auto simp: app_slot_def stored_def)

lemma app_slot_ok:
  assumes "buf_ok G buf" and "slot_granted G x"
  shows "buf_ok G (app_slot BUF_SIZE x buf)"
proof (cases "stored x \<and> length buf \<noteq> BUF_SIZE - 1")
  case True
  obtain ls where ls: "buf = lines_text ls []" "\<forall>l\<in>set ls. line_ok G l" and len: "length buf \<le> BUF_SIZE - 1"
    using assms(1) True by (auto simp: buf_ok_def)
  have g: "line_ok G l" if "cut_of x l" for l
    using assms(2) True that by (auto simp: line_ok_def slot_granted_def stored_def cut_of_def)
  have 4: "4 \<le> BUF_SIZE" by (simp add: BUF_SIZE_def)
  have e: "line_ok G []" by (simp add: line_ok_def)
  show ?thesis
  proof (rule app_slot_cut [OF conjunct1 [OF True] len 4])
    fix l
    assume l: "cut_of x l" "app_slot BUF_SIZE x buf = buf @ l @ [CHR 0x0A]" "length (app_slot BUF_SIZE x buf) \<le> BUF_SIZE - 1"
    then have "app_slot BUF_SIZE x buf = lines_text (ls @ [l]) []"
      using lines_text_app [of ls "l @ [CHR 0x0A]"] ls(1) by (simp add: lines_text_snoc)
    then show ?thesis using l g ls(2) e unfolding buf_ok_def by (intro conjI exI [of _ "ls @ [l]"] exI [of _ "[]"]) auto
  next
    fix l
    assume l: "cut_of x l" "app_slot BUF_SIZE x buf = buf @ l" "length (app_slot BUF_SIZE x buf) = BUF_SIZE - 1"
    then have "app_slot BUF_SIZE x buf = lines_text ls l" using lines_text_app [of ls l] ls(1) by simp
    then show ?thesis using l g ls(2) unfolding buf_ok_def by (intro conjI exI [of _ ls] exI [of _ l]) auto
  qed
next
  case False
  moreover have "app_slot BUF_SIZE x buf = buf" if "\<not> stored x" using that by (auto simp: app_slot_def stored_def)
  ultimately have "app_slot BUF_SIZE x buf = buf" using app_slot_full by blast
  then show ?thesis using assms(1) by simp
qed

definition hdr_lines :: "string list" where
  "hdr_lines = [''# MayteraOS cron jobs (#265). Auto-generated; edit with care.'',
     ''# uid=<owner> <TYPE> <WHEN> <ACTION> <TARGET> [label]'',
     ''# TARGET and label are %XX-escaped (#698). uid= is mandatory;'',
     ''# a line without it is REJECTED, never assumed to be root'' @ [CHR 0x27] @ ''s.'']"

lemma hdr_text: "cron_hdr = lines_text hdr_lines []" by (simp add: cron_hdr_def hdr_lines_def)

lemma hdr_fits: "cron_app_str BUF_SIZE cron_hdr [] = cron_hdr"
  by (simp add: app_str_fit fit_def BUF_SIZE_def cron_hdr_def)

lemma hdr_length: "length cron_hdr \<le> BUF_SIZE - 1" by (simp add: BUF_SIZE_def cron_hdr_def)

lemma hdr_line_ok: "l \<in> set hdr_lines \<Longrightarrow> CHR 0x0A \<notin> set l \<and> hd l = CHR ''#''"
  by (auto simp: hdr_lines_def)

lemma cron_text_ok:
  assumes "\<forall>x\<in>set xs. slot_granted G x"
  shows "disk_ok G (Some (cron_text xs))"
proof -
  have "buf_ok G cron_hdr"
    using hdr_text hdr_length hdr_line_ok unfolding buf_ok_def
    by (intro conjI exI [of _ hdr_lines] exI [of _ "[]"]) (auto simp: line_ok_def)
  then have "buf_ok G (cron_text xs)"
    unfolding cron_text_def hdr_fits using assms app_slot_ok by (auto intro: fold_keeps)
  then show ?thesis by (auto simp: buf_ok_def disk_ok_def)
qed

lemma save_granted:
  assumes "granted G s" and "torn_writes e"
  shows "granted G (snd (cron_save e s))"
proof -
  define d where "d = cron_text (g_jobs s)"
  have d: "disk_ok G (Some d)" using assms(1) cron_text_ok by (auto simp: granted_def d_def)
  obtain rc f where w: "fat_write e d (cron_cfg s) = (rc, f)" by fastforce
  have "f = cron_cfg s \<or> (\<exists>n. f = Some (take n d))" using assms(2) w unfolding torn_writes_def by (metis snd_conv)
  then have "disk_ok G f" using assms(1) disk_ok_take [OF d] by (auto simp: granted_def)
  then show ?thesis using assms(1) w by (auto simp: cron_save_def granted_def d_def)
qed

lemma save_parts: "g_jobs (snd (cron_save e s)) = g_jobs s" "fired (snd (cron_save e s)) = fired s"
    "g_cbs (snd (cron_save e s)) = g_cbs s" "g_inited (snd (cron_save e s)) = g_inited s"
    "g_next_id (snd (cron_save e s)) = g_next_id s" "fs_mounted (snd (cron_save e s)) = fs_mounted s"
    "g_cron_wake (snd (cron_save e s)) = g_cron_wake s"
  by (auto simp: cron_save_def split: prod.splits)

text \<open>Every operation keeps the grants.\<close>

lemma set_slot_granted:
  assumes "granted G s" and "slot_granted G x"
  shows "granted G (s\<lparr>g_jobs := (g_jobs s)[k := x]\<rparr>)"
  using assms set_update_subset_insert [of "g_jobs s" k x] by (auto simp: granted_def)

lemma granted_upd: "granted G s \<Longrightarrow> granted G (s\<lparr>g_next_id := n\<rparr>)" "granted G s \<Longrightarrow> granted G (s\<lparr>g_cbs := cbs\<rparr>)"
    "granted G s \<Longrightarrow> granted G (s\<lparr>g_cron_wake := b\<rparr>)" "granted G s \<Longrightarrow> granted G (s\<lparr>g_inited := b\<rparr>)"
  by (simp_all add: granted_def)

lemma schedule_key: "slot_granted G (cron_schedule_first e x) = slot_granted G x"
  by (simp add: cron_schedule_first_def Let_def slot_granted_def known_def key_def)

text \<open>What adding a job does, seen from outside.\<close>

definition terminated :: "cron_job \<Rightarrow> cron_job" where
  "terminated j = j\<lparr>job_target := (job_target j)[CRON_TARGET_MAX - 1 := NUL],
     job_label := (job_label j)[CRON_LABEL_MAX - 1 := NUL]\<rparr>"

definition job_ok :: "cron_job \<Rightarrow> bool" where
  "job_ok j \<longleftrightarrow> known j \<and> job_target j ! 0 \<noteq> NUL \<and> cron_field_ok (job_target j) CRON_TARGET_MAX False \<and>
     cron_field_ok (job_label j) CRON_LABEL_MAX True \<and> take 4 (job_target j) \<noteq> ''uid=''"

definition new_slot :: "cron_env \<Rightarrow> bool \<Rightarrow> u32 \<Rightarrow> u32 \<Rightarrow> cron_job \<Rightarrow> cron_slot" where
  "new_slot e persist owner n j = cron_schedule_first e
     (zero_slot\<lparr>slot_job := (terminated j)\<lparr>job_id := n, job_run_count := 0\<rparr>, slot_used := True,
        slot_persist := persist, slot_wall_key := 0xFFFFFFFF, slot_owner := owner\<rparr>)"

definition put_slot :: "nat \<Rightarrow> cron_slot \<Rightarrow> cron \<Rightarrow> cron" where
  "put_slot i x s = s\<lparr>g_jobs := (g_jobs s)[i := x], g_next_id := g_next_id s + 1\<rparr>"

lemma add_core_accept:
  fixes e :: cron_env and persist :: bool and owner :: u32
  assumes "job_ok (terminated j)" and "cron_alloc_slot s = Some i"
  defines "s1 \<equiv> put_slot i (new_slot e persist owner (g_next_id s) j) s"
  shows "cron_add_core e (Some j) persist owner s =
        (if persist then (if fst (cron_save e s1) \<noteq> 0 then - 1 else sint (g_next_id s), snd (cron_save e s1))
         else (sint (g_next_id s), s1))"
proof -
  have k: "\<not> (job_type j > CRON_TYPE_WEEKLY \<or> job_action j > CRON_ACT_EVENT)"
    using assms(1) by (auto simp: job_ok_def known_def terminated_def)
  have "job_id (slot_job (new_slot e p owner (g_next_id s) j)) = g_next_id s" for p
    by (simp add: new_slot_def cron_schedule_first_def Let_def)
  then show ?thesis
    using assms(1) unfolding cron_add_core_def assms(2) option.case Let_def if_not_P [OF k] terminated_def [symmetric]
      new_slot_def [symmetric] put_slot_def [symmetric] s1_def [symmetric] by (simp add: job_ok_def split: prod.split)
qed

lemma add_core_cases:
  obtains rc where "cron_add_core e job persist owner s = (rc, s)" and "rc < 0"
  | j i s1 where "job = Some j" and "job_ok (terminated j)" and "cron_alloc_slot s = Some i"
    and "s1 = put_slot i (new_slot e persist owner (g_next_id s) j) s"
    and "cron_add_core e job persist owner s =
        (if persist then (if fst (cron_save e s1) \<noteq> 0 then - 1 else sint (g_next_id s), snd (cron_save e s1))
         else (sint (g_next_id s), s1))"
proof (cases "\<exists>j i. job = Some j \<and> job_ok (terminated j) \<and> cron_alloc_slot s = Some i")
  case True
  then show thesis using that(2) add_core_accept by blast
next
  case False
  then have "\<exists>rc. cron_add_core e job persist owner s = (rc, s) \<and> rc < 0"
    unfolding cron_add_core_def Let_def terminated_def [symmetric]
    by (auto simp: job_ok_def known_def terminated_def not_less split: option.split)
  then show thesis using that(1) by blast
qed

lemma new_slot_key: "slot_owner (new_slot e p u n j) = u" "slot_used (new_slot e p u n j)" "slot_persist (new_slot e p u n j) = p"
    "job_type (slot_job (new_slot e p u n j)) = job_type j" "job_action (slot_job (new_slot e p u n j)) = job_action j"
    "job_target (slot_job (new_slot e p u n j)) = job_target (terminated j)"
    "job_label (slot_job (new_slot e p u n j)) = job_label (terminated j)"
    "job_id (slot_job (new_slot e p u n j)) = n"
  by (simp_all add: new_slot_def cron_schedule_first_def Let_def terminated_def)

lemma add_core_granted:
  assumes "granted G s" and "torn_writes e" and "\<And>j. job = Some j \<Longrightarrow> key owner j \<in> G"
  shows "granted G (snd (cron_add_core e job persist owner s))"
proof (cases rule: add_core_cases [of e job persist owner s])
  case (2 j i s1)
  have "known j" using 2(2) by (simp add: job_ok_def known_def terminated_def)
  then have "slot_granted G (new_slot e persist owner (g_next_id s) j)"
    using assms(3) [OF 2(1)] by (simp add: slot_granted_def new_slot_key key_def known_def)
  then have "granted G s1" using set_slot_granted [OF assms(1)] granted_upd(1) 2(4) by (fastforce simp: put_slot_def)
  then show ?thesis using save_granted assms(2) 2(5) by (auto split: if_splits)
qed (use assms in simp)

lemma parse_line_granted:
  assumes "granted G s" and "torn_writes e" and "line_ok G l"
  shows "granted G (cron_parse_line e l s)"
proof (cases "parse_fields l")
  case (Some r)
  obtain j u where r: "r = (j, u)" by (cases r)
  have "parse_fields l = None" if "l = [] \<or> hd l = CHR ''#''"
    using that by (cases l) (auto simp: parse_fields_def Let_def is_blank_def)
  then obtain x where "known (slot_job x)" "key (slot_owner x) (slot_job x) \<in> G" "cut_of x l"
    using assms(3) Some by (auto simp: line_ok_def)
  then have "key u j \<in> G" using parse_cut Some r by (fastforce simp: key_def)
  then show ?thesis using add_core_granted [OF assms(1,2), of "Some j" u True] Some r by (simp add: cron_parse_line_def)
qed (use assms in \<open>simp add: cron_parse_line_def\<close>)

lemma load_granted:
  assumes "granted G s" and "torn_writes e"
  shows "granted G (cron_load e s)"
proof (cases "fs_mounted s \<and> (\<exists>d. cron_cfg s = Some d \<and> d \<noteq> [])")
  case True
  then obtain d where d: "cron_cfg s = Some d" "d \<noteq> []" "fs_mounted s" by blast
  then obtain ls r where l: "d = lines_text ls r" "\<forall>l\<in>set (r # ls). line_ok G l"
    using assms(1) by (auto simp: granted_def disk_ok_def)
  have "\<forall>l\<in>set (r # ls). CHR 0x0A \<notin> set l" using l(2) unfolding line_ok_def by blast
  then have "cron_load e s = fold (cron_parse_line e) (ls @ [r]) s"
    using d load_lines_text l(1) by (simp add: cron_load_def)
  moreover have "\<forall>l\<in>set (ls @ [r]). line_ok G l" using l(2) by simp
  then have "granted G (fold (cron_parse_line e) (ls @ [r]) s)"
    using parse_line_granted [OF _ assms(2)] assms(1) by (intro fold_keeps [of _ "granted G"]) auto
  ultimately show ?thesis by metis
qed (use assms in \<open>auto simp: cron_load_def split: option.splits\<close>)

lemma register_granted: "granted G s \<Longrightarrow> granted G (snd (cron_register_callback nm f c s))"
  by (auto simp: cron_register_callback_def granted_upd split: option.splits)

lemma zero_granted: "slot_granted G zero_slot" by (simp add: slot_granted_def zero_slot_def)

lemma init_granted:
  assumes "granted G s" and "torn_writes e"
  shows "granted G (cron_init e s)"
proof -
  have "granted G (s\<lparr>g_inited := True, g_jobs := replicate CRON_MAX_JOBS zero_slot, g_cbs := [], g_next_id := 1\<rparr>)"
    using assms(1) zero_granted by (auto simp: granted_def)
  then show ?thesis using assms by (auto simp: cron_init_def Let_def intro!: load_granted register_granted)
qed

lemma upd_slot_granted:
  assumes "granted G s" and "slot_granted G (f (g_jobs s ! k))"
  shows "granted G (upd_slot k f s)"
  using set_slot_granted [OF assms] by (simp add: upd_slot_def)

lemma nth_granted: "granted G s \<Longrightarrow> k < length (g_jobs s) \<Longrightarrow> slot_granted G (g_jobs s ! k)"
  by (auto simp: granted_def)

section \<open>Firing, slot by slot\<close>

definition fires :: "cron_env \<Rightarrow> cron_slot \<Rightarrow> bool" where
  "fires e x \<longleftrightarrow> slot_used x \<and> job_enabled (slot_job x) \<noteq> 0 \<and> fst (cron_due e x)"

text \<open>What the job of a slot does when it fires, with the callbacks and the file system as they are.\<close>

definition launch_effects :: "cron_env \<Rightarrow> bool \<Rightarrow> string \<Rightarrow> u32 \<Rightarrow> cron_effect list" where
  "launch_effects e mounted path owner =
     (case fat_read e path of
        Some data \<Rightarrow>
          if \<not> mounted \<or> data = [] \<or> elf_validate e data \<noteq> 0 then []
          else (if owner = 0 then [ProvisionedKey 0 0 ''/'']
                else case user_lookup e owner of
                       Some (gid, home) \<Rightarrow> if home \<noteq> [] then [ProvisionedKey owner gid home] else []
                     | None \<Rightarrow> []) @ [Launched path data owner]
      | None \<Rightarrow> [])"

definition effects :: "cron_env \<Rightarrow> cron \<Rightarrow> cron_slot \<Rightarrow> cron_effect list" where
  "effects e s x =
     (let j = slot_job x in
      if job_action j = CRON_ACT_CALLBACK then
        (case cron_find_cb (job_target j) s of Some c \<Rightarrow> [RanCallback (cb_fn c) (job_id j) (cb_ctx c)] | None \<Rightarrow> [])
      else if job_action j = CRON_ACT_LAUNCH then launch_effects e (fs_mounted s) (cstr (job_target j)) (slot_owner x)
      else if job_action j = CRON_ACT_EVENT then [Event (cstr (job_target j)) (job_id j)]
      else [])"

text \<open>The slot of a job that has fired.\<close>

definition fired_slot :: "cron_env \<Rightarrow> cron_slot \<Rightarrow> cron_slot" where
  "fired_slot e x =
     (let y = (snd (cron_due e x))\<lparr>slot_pending := False\<rparr>; j = slot_job x;
          j1 = j\<lparr>job_run_count := job_run_count j + 1\<rparr>;
          step = cron_ms_to_ticks e (job_interval_ms j)
      in y\<lparr>slot_job :=
        (if job_type j = CRON_TYPE_ONESHOT then j1\<lparr>job_enabled := 0, job_next_fire := 0\<rparr>
         else if job_type j = CRON_TYPE_INTERVAL
         then j1\<lparr>job_next_fire := (if job_next_fire j + step \<le> timer_ticks e then timer_ticks e + step else job_next_fire j + step)\<rparr>
         else j1)\<rparr>)"

lemma launch_fired: "cron_launch_program e path owner s = s\<lparr>fired := fired s @ launch_effects e (fs_mounted s) path owner\<rparr>"
  by (simp add: cron_launch_program_def launch_effects_def Let_def split: option.split)

lemma fire_action_fired: "cron_fire_action e x s = s\<lparr>fired := fired s @ effects e s x\<rparr>"
  by (simp add: cron_fire_action_def effects_def Let_def launch_fired split: option.split)

lemma effects_cong:
  assumes "g_cbs t = g_cbs s" and "fs_mounted t = fs_mounted s" and "slot_job y = slot_job x" and "slot_owner y = slot_owner x"
  shows "effects e t y = effects e s x"
  using assms by (simp add: effects_def cron_find_cb_def Let_def)

lemma due_parts: "slot_job (snd (cron_due e x)) = slot_job x" "slot_owner (snd (cron_due e x)) = slot_owner x"
    "slot_used (snd (cron_due e x)) = slot_used x" "slot_persist (snd (cron_due e x)) = slot_persist x"
  by (simp_all add: cron_due_def Let_def)

lemma run_slot_idle: "\<not> fires e (g_jobs s ! k) \<Longrightarrow> run_slot e k s = s"
  by (auto simp: run_slot_def fires_def Let_def split: prod.splits)

lemma run_slot_fires:
  assumes "fires e (g_jobs s ! k)" and "k < length (g_jobs s)"
  defines "t \<equiv> s\<lparr>fired := fired s @ effects e s (g_jobs s ! k), g_jobs := (g_jobs s)[k := fired_slot e (g_jobs s ! k)]\<rparr>"
  shows "run_slot e k s = t \<or> run_slot e k s = snd (cron_save e t)"
proof -
  define x where "x = g_jobs s ! k"
  define y where "y = (snd (cron_due e x))\<lparr>slot_pending := False\<rparr>"
  define s1 where "s1 = upd_slot k (\<lambda>_. y) s"
  have y: "slot_job y = slot_job x" "slot_owner y = slot_owner x" by (simp_all add: y_def due_parts)
  have s1: "g_jobs s1 ! k = y" "g_jobs s1 = (g_jobs s)[k := y]" "fired s1 = fired s" "effects e s1 y = effects e s x"
    using assms(2) effects_cong [of s1 s y x e] y by (simp_all add: s1_def upd_slot_def)
  define j1 where "j1 = (slot_job x)\<lparr>job_run_count := job_run_count (slot_job x) + 1\<rparr>"
  define s2 where "s2 = cron_fire e k s1"
  have s2: "s2 = s\<lparr>g_jobs := (g_jobs s)[k := y\<lparr>slot_job := j1\<rparr>], fired := fired s @ effects e s x\<rparr>"
    using s1 assms(2) y unfolding s2_def cron_fire_def s1(1) fire_action_fired
    by (simp add: upd_slot_def upd_job_def s1_def j1_def)
  obtain z where z: "cron_due e (g_jobs s ! k) = (True, z)" using assms(1) unfolding fires_def by (metis (full_types) prod.collapse)
  then have run: "run_slot e k s = cron_rearm e k s2"
    using assms(1) by (simp add: run_slot_def fires_def Let_def s2_def s1_def y_def x_def)
  have "cron_rearm e k s2 = t \<or> cron_rearm e k s2 = snd (cron_save e t)"
    unfolding cron_rearm_def s2 t_def using assms(2)
    by (auto simp: fired_slot_def Let_def upd_slot_def upd_job_def x_def [symmetric] y_def [symmetric] j1_def CRON_TYPE_ONESHOT_def CRON_TYPE_INTERVAL_def)
  then show ?thesis using run by simp
qed

lemma run_slot_parts:
  assumes "k < length (g_jobs s)"
  defines "x \<equiv> g_jobs s ! k"
  shows "g_jobs (run_slot e k s) = (if fires e x then (g_jobs s)[k := fired_slot e x] else g_jobs s)"
    and "fired (run_slot e k s) = fired s @ (if fires e x then effects e s x else [])"
    and "g_cbs (run_slot e k s) = g_cbs s" and "fs_mounted (run_slot e k s) = fs_mounted s"
    and "g_inited (run_slot e k s) = g_inited s" and "g_next_id (run_slot e k s) = g_next_id s"
  using run_slot_fires [of e s k] run_slot_idle [of e s k] assms(1) unfolding x_def
  by (cases "fires e (g_jobs s ! k)"; auto simp: save_parts)+

lemma run_due_parts:
  assumes "length (g_jobs s) = CRON_MAX_JOBS"
  shows "g_jobs (cron_run_due e s) = map (\<lambda>x. if fires e x then fired_slot e x else x) (g_jobs s)"
    and "fired (cron_run_due e s) = fired s @ concat (map (effects e s) (filter (fires e) (g_jobs s)))"
    and "g_cbs (cron_run_due e s) = g_cbs s" and "fs_mounted (cron_run_due e s) = fs_mounted s"
    and "g_inited (cron_run_due e s) = g_inited s" and "g_next_id (cron_run_due e s) = g_next_id s"
proof -
  define J where "J = g_jobs s"
  define P where "P k t \<longleftrightarrow> g_jobs t = map (\<lambda>x. if fires e x then fired_slot e x else x) (take k J) @ drop k J \<and>
     fired t = fired s @ concat (map (effects e s) (filter (fires e) (take k J))) \<and> g_cbs t = g_cbs s \<and>
     fs_mounted t = fs_mounted s \<and> g_inited t = g_inited s \<and> g_next_id t = g_next_id s" for k and t :: cron
  have "P k (fold (run_slot e) [0..<k] s)" if "k \<le> length J" for k
    using that
  proof (induction k)
    case (Suc k)
    define t where "t = fold (run_slot e) [0..<k] s"
    have k: "k < length J" and t: "P k t" using Suc by (simp_all add: t_def)
    define x where "x = J ! k"
    have split: "take (Suc k) J = take k J @ [x]" "drop k J = x # drop (Suc k) J"
      using k by (simp_all add: x_def take_Suc_conv_app_nth Cons_nth_drop_Suc)
    have g: "g_jobs t ! k = x" "k < length (g_jobs t)" using t k split by (simp_all add: P_def nth_append)
    have "effects e t x = effects e s x" using t by (intro effects_cong) (simp_all add: P_def)
    then have "P (Suc k) (run_slot e k t)"
      using t k run_slot_parts [OF g(2), of e] unfolding P_def g(1) split by (simp add: list_update_append)
    then show ?case by (simp add: t_def)
  qed (simp add: P_def J_def)
  then have "P (length J) (cron_run_due e s)" using assms by (simp add: cron_run_due_def J_def)
  then show "g_jobs (cron_run_due e s) = map (\<lambda>x. if fires e x then fired_slot e x else x) (g_jobs s)"
    and "fired (cron_run_due e s) = fired s @ concat (map (effects e s) (filter (fires e) (g_jobs s)))"
    and "g_cbs (cron_run_due e s) = g_cbs s" and "fs_mounted (cron_run_due e s) = fs_mounted s"
    and "g_inited (cron_run_due e s) = g_inited s" and "g_next_id (cron_run_due e s) = g_next_id s"
    by (simp_all add: P_def J_def)
qed

lemma due_again:
  assumes "fst (cron_due e x)" and "known (slot_job x)"
    and "job_type (slot_job x) = CRON_TYPE_INTERVAL \<Longrightarrow> unat (timer_ticks e) + unat (cron_ms_to_ticks e (job_interval_ms (slot_job x))) < 2 ^ 64"
  shows "\<not> fires e (fired_slot e x)"
proof -
  define j where "j = slot_job x"
  define step where "step = cron_ms_to_ticks e (job_interval_ms j)"
  have pos: "step \<noteq> 0" by (simp add: step_def cron_ms_to_ticks_def Let_def)
  consider "job_type j = CRON_TYPE_ONESHOT" | "job_type j = CRON_TYPE_INTERVAL" | "job_type j = CRON_TYPE_DAILY \<or> job_type j = CRON_TYPE_WEEKLY"
    using known_type [of "job_type j"] assms(2) by (auto simp: known_def j_def)
  then show ?thesis
  proof cases
    case 1
    then show ?thesis by (simp add: fires_def fired_slot_def Let_def j_def)
  next
    case 2
    have n: "unat (timer_ticks e + step) = unat (timer_ticks e) + unat step"
      using assms(3) 2 by (intro unat_add_lem [THEN iffD1]) (simp add: j_def step_def)
    have "unat step > 0" using pos by (simp add: unat_gt_0)
    then have "timer_ticks e < timer_ticks e + step" using n by (simp add: word_less_nat_alt)
    then show ?thesis using 2
      by (auto simp: fires_def fired_slot_def Let_def cron_due_def j_def [symmetric] step_def [symmetric] type_defs tick_based_def)
  next
    case 3
    then show ?thesis using assms(1)
      by (auto simp: fires_def fired_slot_def Let_def cron_due_def j_def [symmetric] type_defs tick_based_def split: if_splits)
  qed
qed

section \<open>Every operation keeps the grants\<close>

lemma effects_granted: "slot_granted G x \<Longrightarrow> slot_used x \<Longrightarrow> Launched p d u \<in> set (effects e s x) \<Longrightarrow> \<exists>t. (u, t, CRON_ACT_LAUNCH) \<in> G"
  by (auto simp: effects_def launch_effects_def Let_def slot_granted_def key_def split: if_splits option.splits)

lemma fired_slot_parts: "slot_owner (fired_slot e x) = slot_owner x" "slot_used (fired_slot e x) = slot_used x"
    "slot_persist (fired_slot e x) = slot_persist x" "job_type (slot_job (fired_slot e x)) = job_type (slot_job x)"
    "job_action (slot_job (fired_slot e x)) = job_action (slot_job x)" "job_id (slot_job (fired_slot e x)) = job_id (slot_job x)"
    "job_target (slot_job (fired_slot e x)) = job_target (slot_job x)" "job_label (slot_job (fired_slot e x)) = job_label (slot_job x)"
  by (simp_all add: fired_slot_def Let_def due_parts)

lemma run_slot_granted:
  assumes "granted G s" and "torn_writes e" and "k < length (g_jobs s)"
  shows "granted G (run_slot e k s)"
proof (cases "fires e (g_jobs s ! k)")
  case True
  define x where "x = g_jobs s ! k"
  define t where "t = s\<lparr>fired := fired s @ effects e s x, g_jobs := (g_jobs s)[k := fired_slot e x]\<rparr>"
  have x: "slot_granted G x" "slot_used x" using nth_granted [OF assms(1,3)] True by (simp_all add: x_def fires_def)
  then have "slot_granted G (fired_slot e x)" by (simp add: slot_granted_def fired_slot_parts known_def key_def)
  then have "granted G (s\<lparr>g_jobs := (g_jobs s)[k := fired_slot e x]\<rparr>)" using set_slot_granted [OF assms(1)] by blast
  then have "granted G t" using effects_granted [OF x] by (auto simp: granted_def t_def)
  then show ?thesis using run_slot_fires [OF True assms(3)] save_granted assms(2) unfolding t_def x_def by auto
qed (use assms run_slot_idle in simp)

lemma run_due_granted:
  assumes "granted G s" and "torn_writes e"
  shows "granted G (cron_run_due e s)"
  unfolding cron_run_due_def
proof (rule fold_keeps [where P = "granted G", OF _ assms(1)])
  fix k t
  assume "k \<in> set [0..<CRON_MAX_JOBS]" and t: "granted G t"
  then show "granted G (run_slot e k t)" using run_slot_granted [OF t assms(2)] granted_length [OF t] by simp
qed

lemma tick_granted:
  assumes "granted G s"
  shows "granted G (cron_tick e s)"
proof -
  have "granted G (fold (tick_slot e) [0..<CRON_MAX_JOBS] s)"
  proof (rule fold_keeps [where P = "granted G", OF _ assms])
    fix k t
    assume k: "k \<in> set [0..<CRON_MAX_JOBS]" and t: "granted G t"
    have "slot_granted G (g_jobs t ! k)" using nth_granted [OF t] granted_length [OF t] k by simp
    then have "granted G (upd_slot k (\<lambda>x. x\<lparr>slot_pending := True\<rparr>) t)"
      by (intro upd_slot_granted [OF t]) (simp add: slot_granted_def)
    then show "granted G (tick_slot e k t)" using t granted_upd(3) by (simp add: tick_slot_def Let_def)
  qed
  then show ?thesis using assms by (simp add: cron_tick_def)
qed

lemma find_id_bound: "cron_find_id i s = Some k \<Longrightarrow> k < length (g_jobs s)"
  by (simp add: cron_find_id_def find_idx_Some_iff)

lemma remove_cases:
  "snd (cron_remove e i s) = (case cron_find_id i s of None \<Rightarrow> s
     | Some k \<Rightarrow> let s1 = s\<lparr>g_jobs := (g_jobs s)[k := zero_slot]\<rparr>
         in if slot_persist (g_jobs s ! k) then snd (cron_save e s1) else s1)"
  by (simp add: cron_remove_def Let_def split: option.split prod.split)

lemma remove_granted:
  assumes "granted G s" and "torn_writes e"
  shows "granted G (snd (cron_remove e i s))"
  using assms(1) set_slot_granted [OF assms(1) zero_granted] save_granted [OF set_slot_granted [OF assms(1) zero_granted] assms(2)]
  by (simp add: remove_cases Let_def split: option.split)

definition enabled_slot :: "cron_env \<Rightarrow> int \<Rightarrow> cron_slot \<Rightarrow> cron_slot" where
  "enabled_slot e enable x =
     (let y = x\<lparr>slot_job := (slot_job x)\<lparr>job_enabled := (if enable \<noteq> 0 then 1 else 0)\<rparr>\<rparr>
      in if enable \<noteq> 0 \<and> tick_based (job_type (slot_job y)) then cron_schedule_first e y else y)"

lemma enable_cases:
  "snd (cron_enable e i enable s) = (case cron_find_id i s of None \<Rightarrow> s
     | Some k \<Rightarrow> let s1 = s\<lparr>g_jobs := (g_jobs s)[k := enabled_slot e enable (g_jobs s ! k)]\<rparr>
         in if slot_persist (g_jobs s ! k) then snd (cron_save e s1) else s1)"
  unfolding cron_enable_def enabled_slot_def Let_def
  by (auto simp: cron_schedule_first_def Let_def split: option.split prod.split)

lemma enabled_slot_parts: "slot_owner (enabled_slot e n x) = slot_owner x" "slot_used (enabled_slot e n x) = slot_used x"
    "slot_persist (enabled_slot e n x) = slot_persist x" "job_type (slot_job (enabled_slot e n x)) = job_type (slot_job x)"
    "job_action (slot_job (enabled_slot e n x)) = job_action (slot_job x)" "job_id (slot_job (enabled_slot e n x)) = job_id (slot_job x)"
    "job_target (slot_job (enabled_slot e n x)) = job_target (slot_job x)" "job_label (slot_job (enabled_slot e n x)) = job_label (slot_job x)"
  by (simp_all add: enabled_slot_def cron_schedule_first_def Let_def)

lemma enable_granted:
  assumes "granted G s" and "torn_writes e"
  shows "granted G (snd (cron_enable e i enable s))"
proof (cases "cron_find_id i s")
  case (Some k)
  have "slot_granted G (g_jobs s ! k)" using nth_granted [OF assms(1) find_id_bound [OF Some]] .
  then have "slot_granted G (enabled_slot e enable (g_jobs s ! k))"
    by (simp add: slot_granted_def enabled_slot_parts known_def key_def)
  then have "granted G (s\<lparr>g_jobs := (g_jobs s)[k := enabled_slot e enable (g_jobs s ! k)]\<rparr>)"
    using set_slot_granted [OF assms(1)] by blast
  then show ?thesis using Some save_granted assms(2) by (simp add: enable_cases Let_def)
qed (use assms in \<open>simp add: enable_cases\<close>)

lemma step_granted:
  assumes "granted G s" and "torn_writes e" and "asks op \<subseteq> G"
  shows "granted G (cron_step (e, op) s)"
proof (cases op)
  case (CAdd caller job)
  have "key u j \<in> G" if "caller = Some u" "job = Some j" for u j using that assms(3) CAdd by (simp add: asks_def)
  then show ?thesis using CAdd assms(1,2)
    by (auto simp: cron_add_def cron_add_common_def intro!: add_core_granted init_granted split: option.split)
next
  case (CAddVolatile job)
  have "key 0 j \<in> G" if "job = Some j" for j using that assms(3) CAddVolatile by (simp add: asks_def)
  then show ?thesis using CAddVolatile assms(1,2)
    by (auto simp: cron_add_volatile_def cron_add_common_def intro!: add_core_granted init_granted)
next
  case (CReboot mounted)
  have "granted G (cron_boot mounted (cron_cfg s) (fired s))" using assms(1) zero_granted by (auto simp: granted_def cron_boot_def)
  then show ?thesis using CReboot init_granted assms(2) by simp
next
  case CRound
  then show ?thesis using assms run_due_granted granted_upd(3) by (simp add: cron_worker_round_def)
qed (use assms in \<open>simp_all add: register_granted remove_granted enable_granted tick_granted\<close>)

lemma run_granted:
  assumes "granted G s" and "\<forall>(e, op)\<in>set ops. torn_writes e \<and> asks op \<subseteq> G"
  shows "granted G (cron_run ops s)"
  unfolding cron_run_def using assms step_granted by (intro fold_keeps [of _ "granted G"]) auto

lemma boot_granted: "granted G (cron_boot mounted None [])"
  using zero_granted by (auto simp: granted_def cron_boot_def disk_ok_def)

section \<open>The job table is well formed\<close>

definition slot_wf :: "cron_slot \<Rightarrow> bool" where
  "slot_wf x \<longleftrightarrow> length (job_target (slot_job x)) = CRON_TARGET_MAX \<and> length (job_label (slot_job x)) = CRON_LABEL_MAX \<and>
     (slot_used x \<longrightarrow> job_ok (slot_job x))"

definition ids_ok :: "cron \<Rightarrow> bool" where
  "ids_ok s \<longleftrightarrow> (\<forall>i<length (g_jobs s). slot_used (g_jobs s ! i) \<longrightarrow>
     0 < unat (job_id (slot_job (g_jobs s ! i))) \<and> unat (job_id (slot_job (g_jobs s ! i))) < unat (g_next_id s) \<and>
     (\<forall>j<length (g_jobs s). slot_used (g_jobs s ! j) \<longrightarrow> job_id (slot_job (g_jobs s ! j)) = job_id (slot_job (g_jobs s ! i)) \<longrightarrow> i = j))"

definition cb_wf :: "cron_cb \<Rightarrow> bool" where "cb_wf c \<longleftrightarrow> length (cb_name c) = 24 \<and> NUL \<in> set (cb_name c)"

definition table_ok :: "cron \<Rightarrow> bool" where
  "table_ok s \<longleftrightarrow> length (g_jobs s) = CRON_MAX_JOBS \<and> (\<forall>x\<in>set (g_jobs s). slot_wf x) \<and> ids_ok s \<and> 0 < g_next_id s \<and>
     length (g_cbs s) \<le> CRON_CB_MAX \<and> (\<forall>c\<in>set (g_cbs s). cb_wf c)"

text \<open>The arrays of a job that a caller hands over have their sizes; nothing else is assumed of it.\<close>

definition wire_job :: "cron_job option \<Rightarrow> bool" where
  "wire_job job \<longleftrightarrow> (\<forall>j. job = Some j \<longrightarrow> length (job_target j) = CRON_TARGET_MAX \<and> length (job_label j) = CRON_LABEL_MAX)"

definition op_wf :: "cron_op \<Rightarrow> bool" where
  "op_wf op \<longleftrightarrow> (case op of CAdd _ job \<Rightarrow> wire_job job | CAddVolatile job \<Rightarrow> wire_job job | _ \<Rightarrow> True)"

lemma table_ok_cong:
  assumes "g_jobs t = g_jobs s" and "g_next_id t = g_next_id s" and "g_cbs t = g_cbs s"
  shows "table_ok t = table_ok s"
  using assms by (simp add: table_ok_def ids_ok_def)

lemma save_table_ok: "table_ok (snd (cron_save e s)) = table_ok s"
  by (rule table_ok_cong) (simp_all add: save_parts)

lemma wake_table_ok: "table_ok (s\<lparr>g_cron_wake := b\<rparr>) = table_ok s" by (rule table_ok_cong) simp_all

lemma set_slot_wf:
  assumes "\<forall>x\<in>set xs. slot_wf x" and "slot_wf x"
  shows "\<forall>y\<in>set (xs[i := x]). slot_wf y"
  using assms set_update_subset_insert [of xs i x] by blast

text \<open>A slot that is emptied, or keeps its id, keeps the ids apart.\<close>

lemma set_slot_table_ok:
  assumes "table_ok s" and "slot_wf x" and "slot_used x \<Longrightarrow> slot_used (g_jobs s ! i) \<and> job_id (slot_job x) = job_id (slot_job (g_jobs s ! i))"
  shows "table_ok (s\<lparr>g_jobs := (g_jobs s)[i := x]\<rparr>)"
proof (cases "i < length (g_jobs s)")
  case True
  have "ids_ok (s\<lparr>g_jobs := (g_jobs s)[i := x]\<rparr>)"
    using assms(1,3) True unfolding table_ok_def ids_ok_def by (simp add: nth_list_update) (metis (no_types))
  then show ?thesis using assms set_slot_wf [of "g_jobs s" x i] by (simp add: table_ok_def)
qed (use assms(1) in \<open>simp add: list_update_beyond\<close>)

lemma cron_slot_free: "cron_alloc_slot s = Some i \<Longrightarrow> i < length (g_jobs s) \<and> \<not> slot_used (g_jobs s ! i)"
  by (simp add: cron_alloc_slot_def find_idx_Some_iff)

lemma new_slot_wf: "job_ok (terminated j) \<Longrightarrow> wire_job (Some j) \<Longrightarrow> slot_wf (new_slot e p u n j)"
  by (simp add: slot_wf_def new_slot_key job_ok_def known_def wire_job_def terminated_def)

lemma next_id: "unat (n :: u32) < 2 ^ 32 - 1 \<Longrightarrow> unat (n + 1) = unat n + 1"
  using unat_add_lem [of n 1] by simp

lemma add_slot_table_ok:
  assumes "table_ok s" and "cron_alloc_slot s = Some i" and "slot_wf x" and "job_id (slot_job x) = g_next_id s"
    and n: "unat (g_next_id s) < 2 ^ 32 - 1"
  shows "table_ok (put_slot i x s)"
proof -
  define t where "t = put_slot i x s"
  have i: "i < length (g_jobs s)" "\<not> slot_used (g_jobs s ! i)" using cron_slot_free [OF assms(2)] by auto
  have pos: "0 < unat (g_next_id s)" using assms(1) by (simp add: table_ok_def word_less_nat_alt)
  have t: "g_jobs t ! k = (if k = i then x else g_jobs s ! k)" "length (g_jobs t) = length (g_jobs s)"
    "unat (g_next_id t) = unat (g_next_id s) + 1" for k
    using i(1) next_id [OF n] by (simp_all add: t_def put_slot_def nth_list_update)
  have old: "0 < unat (job_id (slot_job (g_jobs s ! k)))" "unat (job_id (slot_job (g_jobs s ! k))) < unat (g_next_id s)"
    "job_id (slot_job (g_jobs s ! k)) \<noteq> g_next_id s"
    if "k < length (g_jobs s)" "slot_used (g_jobs s ! k)" for k
  proof -
    show "0 < unat (job_id (slot_job (g_jobs s ! k)))" using assms(1) that by (simp add: table_ok_def ids_ok_def)
    show lt: "unat (job_id (slot_job (g_jobs s ! k))) < unat (g_next_id s)" using assms(1) that by (simp add: table_ok_def ids_ok_def)
    show "job_id (slot_job (g_jobs s ! k)) \<noteq> g_next_id s" using lt by auto
  qed
  have "ids_ok t" unfolding ids_ok_def
  proof (intro allI impI conjI)
    fix k
    assume k: "k < length (g_jobs t)" "slot_used (g_jobs t ! k)"
    show "0 < unat (job_id (slot_job (g_jobs t ! k)))"
      and "unat (job_id (slot_job (g_jobs t ! k))) < unat (g_next_id t)"
      using k old [of k] pos assms(4) unfolding t by (auto split: if_splits)
    fix j
    assume j: "j < length (g_jobs t)" "slot_used (g_jobs t ! j)"
      and e: "job_id (slot_job (g_jobs t ! j)) = job_id (slot_job (g_jobs t ! k))"
    consider "j = i" "k = i" | "j = i" "k \<noteq> i" | "j \<noteq> i" "k = i" | "j \<noteq> i" "k \<noteq> i" by blast
    then show "k = j"
    proof cases
      case 4
      then show ?thesis using j k e assms(1) unfolding t table_ok_def ids_ok_def by simp
    qed (use j k e old assms(4) in \<open>auto simp: t\<close>)
  qed
  moreover have "0 < g_next_id t" using t(3) by (simp add: word_less_nat_alt)
  ultimately show ?thesis using assms(1,3) set_slot_wf [of "g_jobs s" x i] unfolding table_ok_def t_def put_slot_def by simp
qed

text \<open>How many slots are taken.\<close>

definition taken :: "cron \<Rightarrow> nat" where "taken s = sum_list (map (\<lambda>x. if slot_used x then 1 else 0) (g_jobs s))"

lemma taken_bound: "taken s \<le> length (g_jobs s)"
proof -
  have "sum_list (map (\<lambda>x. if slot_used x then 1 else 0) xs) \<le> length xs" for xs :: "cron_slot list" by (induction xs) auto
  then show ?thesis by (simp add: taken_def)
qed

lemma add_core_table_ok:
  fixes e :: cron_env and p :: bool and u :: u32
  assumes "table_ok s" and "wire_job job" and n: "unat (g_next_id s) < 2 ^ 32 - 1"
  defines "t \<equiv> snd (cron_add_core e job p u s)"
  shows "table_ok t \<and> unat (g_next_id t) \<le> unat (g_next_id s) + 1 \<and>
    (unat (g_next_id s) = taken s + 1 \<longrightarrow> unat (g_next_id t) = taken t + 1)"
proof (cases rule: add_core_cases [of e job p u s])
  case (1 rc)
  then show ?thesis using assms(1) by (simp add: t_def)
next
  case (2 j i s1)
  have "slot_wf (new_slot e p u (g_next_id s) j)" using 2(1,2) new_slot_wf assms(2) by blast
  then have "table_ok s1" using add_slot_table_ok [OF assms(1) 2(3) _ _ n] 2(4) new_slot_key(8) by simp
  moreover have i: "i < length (g_jobs s)" "\<not> slot_used (g_jobs s ! i)" using cron_slot_free [OF 2(3)] by auto
  then have "taken s1 = taken s + 1" using sum_list_map_update [OF i(1), of "\<lambda>x. if slot_used x then 1 else 0"] 2(4)
    by (simp add: taken_def put_slot_def new_slot_key)
  moreover have "t = snd (cron_save e s1) \<or> t = s1" using 2(5) by (auto simp: t_def split: if_splits)
  then have "g_jobs t = g_jobs s1 \<and> g_next_id t = g_next_id s1 \<and> g_cbs t = g_cbs s1" by (auto simp: save_parts)
  moreover have "unat (g_next_id s1) = unat (g_next_id s) + 1" using 2(4) next_id [OF n] by (simp add: put_slot_def)
  ultimately show ?thesis using table_ok_cong [of t s1] by (simp add: taken_def)
qed

lemma length_strncpy: "length (strncpy n s) = n + 1" by (simp add: strncpy_def)

lemma parse_fields_wire: "parse_fields l = Some (j, u) \<Longrightarrow> wire_job (Some j)"
  by (auto simp: parse_fields_def Let_def wire_job_def length_strncpy CRON_TARGET_MAX_def CRON_LABEL_MAX_def
      split: if_splits option.splits prod.splits)

definition loading_ok :: "cron \<Rightarrow> bool" where
  "loading_ok s \<longleftrightarrow> table_ok s \<and> unat (g_next_id s) = taken s + 1"

lemma loading_bound: "loading_ok s \<Longrightarrow> unat (g_next_id s) \<le> 33"
  using taken_bound [of s] by (simp add: loading_ok_def table_ok_def CRON_MAX_JOBS_def)

lemma parse_line_loading:
  assumes "loading_ok s"
  shows "loading_ok (cron_parse_line e l s)"
proof (cases "parse_fields l")
  case (Some r)
  obtain j u where r: "r = (j, u)" by (cases r)
  have "unat (g_next_id s) < 2 ^ 32 - 1" using loading_bound [OF assms] by simp
  then show ?thesis using add_core_table_ok [of s "Some j" e True u] parse_fields_wire Some r assms
    by (simp add: cron_parse_line_def loading_ok_def)
qed (use assms in \<open>simp add: cron_parse_line_def\<close>)

lemma load_lines_loading: "loading_ok s \<Longrightarrow> loading_ok (load_lines e p s)"
proof (induction e p s rule: load_lines.induct)
  case (1 e p s)
  then show ?case using parse_line_loading by (cases "p = []") (simp_all add: load_lines.simps [of e p s] load_lines.simps [of e "[]"])
qed

lemma register_table_ok:
  assumes "table_ok s"
  shows "table_ok (snd (cron_register_callback nm f c s))"
proof -
  define t where "t = snd (cron_register_callback nm f c s)"
  have nul: "NUL \<in> set (strncpy n k)" for n k by (simp add: strncpy_def)
  have "\<forall>x\<in>set ((g_cbs s)[i := (g_cbs s ! i)\<lparr>cb_fn := k, cb_ctx := c\<rparr>]). cb_wf x" if "i < length (g_cbs s)" for i k
    using assms that set_update_subset_insert [of "g_cbs s" i "(g_cbs s ! i)\<lparr>cb_fn := k, cb_ctx := c\<rparr>"] nth_mem [OF that]
    unfolding table_ok_def cb_wf_def by fastforce
  then have "length (g_cbs t) \<le> CRON_CB_MAX \<and> (\<forall>x\<in>set (g_cbs t). cb_wf x)"
    using assms nul by (auto simp: t_def cron_register_callback_def table_ok_def cb_wf_def length_strncpy find_idx_Some_iff split: option.splits)
  moreover have "g_jobs t = g_jobs s" "g_next_id t = g_next_id s" by (auto simp: t_def cron_register_callback_def split: option.splits)
  ultimately show ?thesis using assms by (simp add: table_ok_def ids_ok_def t_def)
qed

lemma register_parts: "g_jobs (snd (cron_register_callback nm f c s)) = g_jobs s"
  "g_next_id (snd (cron_register_callback nm f c s)) = g_next_id s" "fs_mounted (snd (cron_register_callback nm f c s)) = fs_mounted s"
  "cron_cfg (snd (cron_register_callback nm f c s)) = cron_cfg s"
  by (auto simp: cron_register_callback_def split: option.splits)

lemma zero_slot_wf: "slot_wf zero_slot" by (simp add: slot_wf_def zero_slot_def zero_job_def)

lemma fresh_table: "g_jobs s = replicate CRON_MAX_JOBS zero_slot \<Longrightarrow> g_next_id s = 1 \<Longrightarrow> g_cbs s = [] \<Longrightarrow> loading_ok s"
proof -
  have "\<not> slot_used zero_slot" by (simp add: zero_slot_def)
  then show "g_jobs s = replicate CRON_MAX_JOBS zero_slot \<Longrightarrow> g_next_id s = 1 \<Longrightarrow> g_cbs s = [] \<Longrightarrow> loading_ok s"
    by (simp add: loading_ok_def table_ok_def ids_ok_def zero_slot_wf taken_def CRON_MAX_JOBS_def sum_list_replicate)
qed

lemma init_table_ok:
  assumes "table_ok s"
  shows "table_ok (cron_init e s)" and "unat (g_next_id (cron_init e s)) \<le> max 33 (unat (g_next_id s))"
proof -
  have "loading_ok (cron_init e s)" if "\<not> g_inited s"
  proof -
    have reg: "loading_ok (snd (cron_register_callback nm f c t))" if "loading_ok t" for nm f c t
      using that register_table_ok by (simp add: loading_ok_def register_parts taken_def)
    have load: "loading_ok (cron_load e t)" if "loading_ok t" for t
      using that load_lines_loading by (simp add: cron_load_def split: option.split)
    show ?thesis using that fresh_table by (simp add: cron_init_def Let_def reg load)
  qed
  then show "table_ok (cron_init e s)" "unat (g_next_id (cron_init e s)) \<le> max 33 (unat (g_next_id s))"
    using assms loading_bound by (auto simp: loading_ok_def cron_init_def le_max_iff_disj)
qed

lemma map_slots_table_ok:
  assumes "table_ok s" and "\<And>x. slot_wf x \<Longrightarrow> slot_wf (f x)" and "\<And>x. slot_used (f x) = slot_used x"
    and "\<And>x. job_id (slot_job (f x)) = job_id (slot_job x)" and "g_jobs t = map f (g_jobs s)"
    and "g_next_id t = g_next_id s" and "g_cbs t = g_cbs s"
  shows "table_ok t"
  using assms by (auto simp: table_ok_def ids_ok_def)

lemma keep_slot_table_ok:
  assumes "table_ok s" and "i < length (g_jobs s)" and "slot_used (f (g_jobs s ! i)) = slot_used (g_jobs s ! i)"
    and "job_id (slot_job (f (g_jobs s ! i))) = job_id (slot_job (g_jobs s ! i))" and "slot_wf (f (g_jobs s ! i))"
  shows "table_ok (s\<lparr>g_jobs := (g_jobs s)[i := f (g_jobs s ! i)]\<rparr>)"
  using assms by (intro set_slot_table_ok) auto

lemma tick_table_ok:
  assumes "table_ok s"
  shows "table_ok (cron_tick e s) \<and> g_next_id (cron_tick e s) = g_next_id s"
proof -
  have "table_ok (fold (tick_slot e) [0..<CRON_MAX_JOBS] s) \<and> g_next_id (fold (tick_slot e) [0..<CRON_MAX_JOBS] s) = g_next_id s"
  proof (rule fold_keeps [where P = "\<lambda>t. table_ok t \<and> g_next_id t = g_next_id s"])
    fix k t
    assume k: "k \<in> set [0..<CRON_MAX_JOBS]" and t: "table_ok t \<and> g_next_id t = g_next_id s"
    have len: "k < length (g_jobs t)" using k t by (simp add: table_ok_def)
    have "slot_wf (g_jobs t ! k)" using t len by (simp add: table_ok_def)
    then have "table_ok (upd_slot k (\<lambda>x. x\<lparr>slot_pending := True\<rparr>) t)"
      using keep_slot_table_ok [of t k "\<lambda>x. x\<lparr>slot_pending := True\<rparr>"] t len by (simp add: upd_slot_def slot_wf_def)
    then have "table_ok ((upd_slot k (\<lambda>x. x\<lparr>slot_pending := True\<rparr>) t)\<lparr>g_cron_wake := True\<rparr>)"
      by (simp add: wake_table_ok)
    then show "table_ok (tick_slot e k t) \<and> g_next_id (tick_slot e k t) = g_next_id s"
      using t by (simp add: tick_slot_def Let_def upd_slot_def)
  qed (use assms in simp)
  then show ?thesis using assms by (simp add: cron_tick_def)
qed

lemma step_table_ok:
  assumes "table_ok s" and "op_wf op" and "unat (g_next_id s) \<le> n" and "33 \<le> n" and "n < 2 ^ 32 - 1"
  shows "table_ok (cron_step (e, op) s) \<and> unat (g_next_id (cron_step (e, op) s)) \<le> n + 1"
proof -
  have i: "table_ok (cron_init e s)" "unat (g_next_id (cron_init e s)) \<le> n"
    using init_table_ok [OF assms(1), of e] assms(3,4) by auto
  show ?thesis
  proof (cases op)
    case (CAdd caller job)
    then show ?thesis using assms i add_core_table_ok [OF i(1), of job e True]
      by (auto simp: cron_add_def cron_add_common_def op_wf_def split: option.split dest: le_trans)
  next
    case (CAddVolatile job)
    then show ?thesis using assms i add_core_table_ok [OF i(1), of job e False 0]
      by (auto simp: cron_add_volatile_def cron_add_common_def op_wf_def dest: le_trans)
  next
    case (CRegister nm f c)
    then show ?thesis using assms register_table_ok by (simp add: register_parts)
  next
    case (CRemove k)
    have "table_ok (s\<lparr>g_jobs := (g_jobs s)[i := zero_slot]\<rparr>)" for i
      using assms(1) zero_slot_wf by (intro set_slot_table_ok) (simp_all add: zero_slot_def)
    then have "table_ok (snd (cron_remove e k s)) \<and> g_next_id (snd (cron_remove e k s)) = g_next_id s"
      using assms(1) by (simp add: remove_cases Let_def save_table_ok save_parts split: option.split)
    then show ?thesis using CRemove assms(3) by simp
  next
    case (CEnable k enable)
    have "table_ok (snd (cron_enable e k enable s)) \<and> g_next_id (snd (cron_enable e k enable s)) = g_next_id s"
    proof (cases "cron_find_id k s")
      case (Some m)
      have "slot_wf (g_jobs s ! m)" using assms(1) find_id_bound [OF Some] by (simp add: table_ok_def)
      then have "table_ok (s\<lparr>g_jobs := (g_jobs s)[m := enabled_slot e enable (g_jobs s ! m)]\<rparr>)"
        using assms(1) find_id_bound [OF Some]
        by (intro keep_slot_table_ok) (simp_all add: enabled_slot_parts slot_wf_def job_ok_def known_def)
      then show ?thesis using Some by (simp add: enable_cases Let_def save_table_ok save_parts)
    qed (use assms in \<open>simp add: enable_cases\<close>)
    then show ?thesis using CEnable assms(3) by simp
  next
    case CTick
    then show ?thesis using tick_table_ok assms(1,3) by simp
  next
    case CRound
    have "length (g_jobs s) = CRON_MAX_JOBS" using assms(1) by (simp add: table_ok_def)
    note r = run_due_parts [OF this, of e]
    have "table_ok ((cron_run_due e s)\<lparr>g_cron_wake := False\<rparr>)"
      by (rule map_slots_table_ok [OF assms(1), of "\<lambda>x. if fires e x then fired_slot e x else x"])
        (auto simp: r slot_wf_def fired_slot_parts job_ok_def known_def)
    then show ?thesis using CRound assms(3) r by (simp add: cron_worker_round_def)
  next
    case (CReboot m)
    have "loading_ok (cron_boot m (cron_cfg s) (fired s))" by (rule fresh_table) (simp_all add: cron_boot_def)
    then have "table_ok (cron_boot m (cron_cfg s) (fired s))" by (simp add: loading_ok_def)
    from init_table_ok [OF this, of e] show ?thesis using CReboot assms(4) by (simp add: cron_boot_def)
  qed
qed

lemma run_table_ok:
  assumes "table_ok s" and "\<forall>(e, op)\<in>set ops. op_wf op" and "unat (g_next_id s) \<le> n" and "33 \<le> n" and "n + length ops < 2 ^ 32 - 1"
  shows "table_ok (cron_run ops s)"
  using assms
proof (induction ops arbitrary: s n)
  case (Cons a ops)
  obtain e op where a: "a = (e, op)" by (cases a)
  have "table_ok (cron_step (e, op) s) \<and> unat (g_next_id (cron_step (e, op) s)) \<le> n + 1"
    using Cons.prems a by (intro step_table_ok) auto
  then have "table_ok (cron_run ops (cron_step (e, op) s))" using Cons.IH [of _ "n + 1"] Cons.prems by auto
  then show ?case by (simp add: cron_run_def a)
qed (simp add: cron_run_def)

section \<open>A saved table comes back\<close>

text \<open>What the format can hold: escapes within the reader's field sizes, whole seconds, a time of the day.\<close>

definition storable :: "cron_slot \<Rightarrow> bool" where
  "storable x \<longleftrightarrow> (let j = slot_job x in
     length (esc (cstr (job_target j))) < CRON_TARGET_MAX \<and> length (esc (cstr (job_label j))) < CRON_LABEL_MAX \<and>
     (tick_based (job_type j) \<longrightarrow> job_interval_ms j \<noteq> 0 \<and> job_interval_ms j mod 1000 = 0) \<and>
     (\<not> tick_based (job_type j) \<longrightarrow> job_hour j < 24 \<and> job_minute j < 60) \<and>
     (job_type j = CRON_TYPE_WEEKLY \<longrightarrow> job_weekday j < 7))"

text \<open>The job that the line of a slot stands for: enabled, with no history and the fields of its type.\<close>

definition saved_job :: "cron_job \<Rightarrow> cron_job" where
  "saved_job j = zero_job\<lparr>job_type := job_type j, job_action := job_action j, job_enabled := 1,
     job_interval_ms := (if tick_based (job_type j) then job_interval_ms j else 0),
     job_weekday := (if job_type j = CRON_TYPE_WEEKLY then job_weekday j else 0),
     job_hour := (if tick_based (job_type j) then 0 else job_hour j),
     job_minute := (if tick_based (job_type j) then 0 else job_minute j),
     job_target := strncpy (CRON_TARGET_MAX - 1) (job_target j), job_label := strncpy (CRON_LABEL_MAX - 1) (job_label j)\<rparr>"

lemma cstr_cstr [simp]: "cstr (cstr s) = cstr s" by (simp add: cstr_def)

lemma strncpy_cstr [simp]: "strncpy n (cstr s) = strncpy n s" by (simp add: strncpy_def)

lemma cstr_append_nul: "NUL \<notin> set s \<Longrightarrow> cstr (s @ NUL # r) = s"
  unfolding cstr_def by (subst takeWhile_append2) auto

lemma strncpy_fits: "length (cstr s) \<le> n \<Longrightarrow> strncpy n s = cstr s @ replicate (n - length (cstr s)) NUL @ [NUL]"
  by (simp add: strncpy_def)

lemma cstr_strncpy: "length (cstr s) \<le> n \<Longrightarrow> cstr (strncpy n s) = cstr s"
  using cstr_append_nul [OF cstr_no_nul [of s]] by (cases "n - length (cstr s)") (simp_all add: strncpy_fits)

lemma field_ok_cstr: "n \<le> length s \<Longrightarrow>
    field_ok s n a \<longleftrightarrow> length (cstr s) < n \<and> (\<forall>c\<in>set (cstr s). \<not> (c < CHR 0x20 \<or> c = CHR 0x7F) \<and> (c = CHR '' '' \<longrightarrow> a))"
proof (induction n arbitrary: s)
  case (Suc n)
  then show ?case by (cases s) (auto simp: cstr_def)
qed simp

lemma cstr_Nil: "s \<noteq> [] \<Longrightarrow> cstr s = [] \<longleftrightarrow> s ! 0 = NUL" by (cases s) (auto simp: cstr_def)

lemma take4_cstr:
  assumes "NUL \<notin> set w" and "length s \<ge> length w"
  shows "take (length w) s = w \<longleftrightarrow> take (length w) (cstr s) = w"
  using assms
proof (induction w arbitrary: s)
  case (Cons c w)
  then obtain d r where s: "s = d # r" by (cases s) auto
  show ?case using Cons by (cases "d = NUL") (auto simp: s cstr_def)
qed simp

lemma job_ok_saved:
  assumes "job_ok j" and "length (job_target j) = CRON_TARGET_MAX" and "length (job_label j) = CRON_LABEL_MAX"
  shows "job_ok (terminated (saved_job j))"
proof -
  define T where "T = job_target j"
  define L where "L = job_label j"
  have k: "length T = 64" "length L = 32" "cron_field_ok T 64 False" "cron_field_ok L 32 True" "T ! 0 \<noteq> NUL" "take 4 T \<noteq> ''uid=''"
    using assms by (simp_all add: T_def L_def job_ok_def CRON_TARGET_MAX_def CRON_LABEL_MAX_def)
  have c: "length (cstr T) < 64" "length (cstr L) < 32" using k field_ok_cstr [of 64 T False] field_ok_cstr [of 32 L True]
    by (auto simp: cron_field_ok_def)
  have s: "cstr (strncpy 63 T) = cstr T" "cstr (strncpy 31 L) = cstr L" using cstr_strncpy c by auto
  have l: "length (strncpy 63 T) = 64" "length (strncpy 31 L) = 32" by (simp_all add: length_strncpy)
  have f: "cron_field_ok (strncpy 63 T) 64 False" "cron_field_ok (strncpy 31 L) 32 True"
    using k field_ok_cstr [of 64 T False] field_ok_cstr [of 32 L True] field_ok_cstr [of 64 "strncpy 63 T" False]
      field_ok_cstr [of 32 "strncpy 31 L" True] s l by (auto simp: cron_field_ok_def)
  have ne: "strncpy 63 T \<noteq> []" "T \<noteq> []" using l(1) k(1) by auto
  have 0: "strncpy 63 T ! 0 \<noteq> NUL" using cstr_Nil [OF ne(1)] cstr_Nil [OF ne(2)] s(1) k(5) by simp
  have u: "NUL \<notin> set ''uid=''" "length ''uid='' = 4" by (simp_all add: NUL_def)
  have 4: "take 4 (strncpy 63 T) \<noteq> ''uid=''"
    using take4_cstr [OF u(1), of T, unfolded u(2)] take4_cstr [OF u(1), of "strncpy 63 T", unfolded u(2)] s(1) l(1) k(1,6) by simp
  have e: "(strncpy n r)[n := NUL] = strncpy n r" for n r by (simp add: strncpy_def list_update_append)
  show ?thesis using assms(1) f 0 4
    by (simp add: job_ok_def terminated_def saved_job_def known_def CRON_TARGET_MAX_def CRON_LABEL_MAX_def e [of 63, simplified] e [of 31, simplified] T_def L_def)
qed

subsection \<open>The line of a slot is read back\<close>

lemma strchr_colon: "CHR '':'' \<notin> set s \<Longrightarrow> strchr (s @ CHR '':'' # r) CHR '':'' = Some (CHR '':'' # r)"
proof -
  assume "CHR '':'' \<notin> set s"
  then have "dropWhile (\<lambda>d. d \<noteq> CHR '':'') (s @ CHR '':'' # r) = CHR '':'' # r" by (subst dropWhile_append2) auto
  then show ?thesis by (simp add: strchr_def)
qed

lemma digits_no_colon: "list_all digit s \<Longrightarrow> CHR '':'' \<notin> set s" using colon_not_digit by (auto simp: list_all_iff)

lemma sint_small: "(v :: u8) < 100 \<Longrightarrow> sint (ucast v :: u32) = uint v"
proof -
  assume "v < 100"
  then have "uint v < 100" by (simp add: word_less_def)
  moreover have "take_bit 32 (uint v) = uint v" using \<open>uint v < 100\<close> by (intro take_bit_int_eq_self) auto
  then have "uint (ucast v :: u32) = uint v" by (simp add: unsigned_ucast_eq)
  moreover have "0 \<le> uint v" by simp
  then have "- (2 ^ 31) \<le> uint v" by (rule order_trans [rotated]) simp
  ultimately have "signed_take_bit 31 (uint v) = uint v" by (intro signed_take_bit_int_eq_self) auto
  then show ?thesis using \<open>uint (ucast v :: u32) = uint v\<close> by (simp add: sint_uint)
qed

lemma parse_hhmm_two:
  assumes "h < 24" and "m < 60"
  shows "cron_parse_hhmm (two h @ CHR '':'' # two m) = Some (uint h, uint m)"
proof -
  have "uint h < 24" "uint m < 60" using assms by (simp_all add: word_less_def)
  moreover have "unat h < 24" "unat m < 60" using assms by (simp_all add: word_less_nat_alt)
  ultimately have hm: "unat h < 100" "unat m < 100" "h < 100" "m < 100" "uint h < 24" "uint m < 60"
    by (simp_all add: word_less_nat_alt)
  have "cron_atou (two h @ CHR '':'' # two m) = ucast h" "cron_atou (two m) = ucast m"
    using atou_stop [OF two_ok(1) colon_not_digit] atou_two hm(1,2) by simp_all
  then show ?thesis using hm sint_small strchr_colon [OF two_ok(3)] by (simp add: cron_parse_hhmm_def Let_def)
qed

lemma seven: "(v :: u8) < 7 \<Longrightarrow> (ucast (ucast v mod 7 :: u32) :: u8) = v"
proof -
  assume "v < 7"
  then have "unat v < 7" by (simp add: word_less_nat_alt)
  then have "take_bit 32 (unat v) = unat v" by (intro take_bit_nat_eq_self) simp
  then have u: "unat (ucast v :: u32) = unat v" by (simp add: unsigned_ucast_eq)
  then have "(ucast v mod 7 :: u32) = ucast v" using \<open>unat v < 7\<close> u by (simp add: word_unat_eq_iff unat_mod_distrib)
  moreover have "(ucast (ucast v :: u32) :: u8) = of_nat (unat (ucast v :: u32))" by simp
  then have "(ucast (ucast v :: u32) :: u8) = v" unfolding u by simp
  ultimately show ?thesis by simp
qed

lemma parse_when_text:
  assumes "known j" and "storable x" and "slot_job x = j"
  shows "parse_when (when_text j) (zero_job\<lparr>job_enabled := 1, job_type := job_type j\<rparr>) =
     Some (zero_job\<lparr>job_enabled := 1, job_type := job_type j,
       job_interval_ms := (if tick_based (job_type j) then job_interval_ms j else 0),
       job_weekday := (if job_type j = CRON_TYPE_WEEKLY then job_weekday j else 0),
       job_hour := (if tick_based (job_type j) then 0 else job_hour j),
       job_minute := (if tick_based (job_type j) then 0 else job_minute j)\<rparr>)"
proof -
  consider "tick_based (job_type j)" | "job_type j = CRON_TYPE_DAILY" | "job_type j = CRON_TYPE_WEEKLY"
    using known_type [of "job_type j"] assms(1) by (auto simp: known_def tick_based_def)
  then show ?thesis
  proof cases
    case 1
    then have ms: "job_interval_ms j \<noteq> 0" "job_interval_ms j div 1000 * 1000 = job_interval_ms j"
      using assms(2,3) div_mult_mod_eq [of "job_interval_ms j" 1000] by (simp_all add: storable_def Let_def)
    have "job_type j \<noteq> CRON_TYPE_WEEKLY" using 1 by (auto simp: tick_based_def type_defs)
    then show ?thesis using 1 ms by (simp add: parse_when_def when_text_def atou_dec Let_def zero_job_def)
  next
    case 2
    then have d: "\<not> tick_based (job_type j)" "job_type j \<noteq> CRON_TYPE_WEEKLY" by (auto simp: tick_based_def type_defs)
    then have "job_hour j < 24" "job_minute j < 60" using assms(2,3) by (simp_all add: storable_def Let_def)
    then show ?thesis using d 2 parse_hhmm_two by (simp add: parse_when_def when_text_def zero_job_def)
  next
    case 3
    then have d: "\<not> tick_based (job_type j)" "job_type j \<noteq> CRON_TYPE_DAILY" by (auto simp: tick_based_def type_defs)
    have v: "job_hour j < 24" "job_minute j < 60" "job_weekday j < 7" using assms(2,3) d 3 by (simp_all add: storable_def Let_def)
    have "cron_atou (dec (ucast (job_weekday j) :: u32) @ CHR '':'' # r) = (ucast (job_weekday j) :: u32)" for r
      by (simp add: atou_stop [OF dec_digits(1) colon_not_digit] atou_dec)
    then show ?thesis using d 3 parse_hhmm_two [OF v(1,2)] seven [OF v(3)]
      by (simp add: parse_when_def when_text_def zero_job_def strchr_colon [OF digits_no_colon [OF dec_digits(1)]])
  qed
qed

lemma parse_line_text:
  assumes "slot_wf x" and "slot_used x" and "storable x"
  shows "parse_fields (line_text x) = Some (saved_job (slot_job x), slot_owner x)"
proof -
  define j where "j = slot_job x"
  define T where "T = cstr (job_target j)"
  define L where "L = cstr (job_label j)"
  define r where "r = (if L \<noteq> [] then CHR '' '' # esc L else [])"
  have ok: "job_ok j" "known j" using assms(1,2) by (simp_all add: slot_wf_def j_def job_ok_def)
  have len: "length (esc T) < 64" "length (esc L) < 32"
    using assms(3) by (simp_all add: storable_def Let_def j_def T_def L_def CRON_TARGET_MAX_def CRON_LABEL_MAX_def)
  have "job_target j \<noteq> []" using assms(1) by (auto simp: slot_wf_def j_def CRON_TARGET_MAX_def)
  then have "T \<noteq> []" using cstr_Nil ok(1) by (auto simp: T_def job_ok_def)
  then have Te: "esc T \<noteq> []" using length_esc [of T] by auto
  have "sep r" by (simp add: r_def sep_def)
  then have f: "cron_field CRON_TARGET_MAX (esc T @ r) = Some (esc T, r)"
    using cron_field_word [OF esc_graphic Te, of r CRON_TARGET_MAX] len(1) by (simp add: CRON_TARGET_MAX_def)
  have d: "dropWhile is_blank r = esc L"
  proof (cases "L = []")
    case False
    then have "esc L \<noteq> []" using length_esc [of L] by auto
    then have "\<not> is_blank (hd (esc L))" using graphic_not_blank [OF esc_graphic, of _ L] by (cases "esc L") auto
    then show ?thesis using False \<open>esc L \<noteq> []\<close> by (cases "esc L") (simp_all add: r_def)
  qed (simp add: r_def)
  have tw: "takeWhile (\<lambda>c. c \<noteq> CHR 0x0D \<and> c \<noteq> CHR 0x0A) (esc L) = esc L"
    unfolding takeWhile_eq_all_conv using graphic_no_nl [OF esc_graphic, of _ L] by blast
  have l: "take (CRON_LABEL_MAX - 1) (takeWhile (\<lambda>c. c \<noteq> CHR 0x0D \<and> c \<noteq> CHR 0x0A) (dropWhile is_blank r)) = esc L"
    unfolding d tw using len(2) by (simp add: CRON_LABEL_MAX_def)
  have line: "line_text x = head_text x @ (esc T @ r)" by (simp add: line_text_def r_def T_def L_def j_def)
  have c: "cron_unescape (cstr (esc s)) = s" for s using graphic_cstr [OF esc_graphic] unescape_esc by simp
  have k: "known (slot_job x)" using ok(2) by (simp add: j_def)
  show ?thesis
    unfolding line parse_fields_head [OF k] f option.case prod.case l c parse_when_text [OF ok(2) assms(3) j_def [symmetric], unfolded j_def]
    by (simp add: saved_job_def T_def L_def j_def)
qed

subsection \<open>The whole table\<close>

definition jobs_text :: "cron_slot list \<Rightarrow> string" where
  "jobs_text xs = cron_hdr @ concat (map (\<lambda>x. line_text x @ [CHR 0x0A]) xs)"

lemma cron_text_jobs:
  assumes "length (jobs_text (filter stored xs)) + 4 \<le> BUF_SIZE"
  shows "cron_text xs = jobs_text (filter stored xs)"
proof -
  have "fold (app_slot BUF_SIZE) xs buf = buf @ concat (map (\<lambda>x. line_text x @ [CHR 0x0A]) (filter stored xs))"
    if "length (buf @ concat (map (\<lambda>x. line_text x @ [CHR 0x0A]) (filter stored xs))) + 4 \<le> BUF_SIZE" for buf
    using that
  proof (induction xs arbitrary: buf)
    case (Cons x xs)
    show ?case
    proof (cases "stored x")
      case True
      then have "app_slot BUF_SIZE x buf = buf @ line_text x @ [CHR 0x0A]" using Cons.prems by (intro app_slot_all) simp_all
      then show ?thesis using Cons.IH [of "buf @ line_text x @ [CHR 0x0A]"] Cons.prems True by simp
    next
      case False
      then have "app_slot BUF_SIZE x buf = buf" by (auto simp: app_slot_def stored_def)
      then show ?thesis using Cons False by simp
    qed
  qed simp
  then show ?thesis using assms unfolding cron_text_def hdr_fits jobs_text_def by blast
qed

lemma jobs_text_lines: "jobs_text xs = lines_text (hdr_lines @ map line_text xs) []"
  by (simp add: jobs_text_def hdr_text lines_text_def o_def)

lemma line_text_no_nl: "CHR 0x0A \<notin> set (line_text x)"
proof -
  have "CHR 0x0A \<notin> set (esc s)" for s using graphic_no_nl [OF esc_graphic] by blast
  then show ?thesis using head_no_nl by (simp add: line_text_def)
qed

definition loaded :: "cron_env \<Rightarrow> nat \<Rightarrow> cron_slot \<Rightarrow> cron_slot" where
  "loaded e i x = new_slot e True (slot_owner x) (of_nat (i + 1)) (saved_job (slot_job x))"

definition loaded_all :: "cron_env \<Rightarrow> cron_slot list \<Rightarrow> cron_slot list" where
  "loaded_all e xs = map (\<lambda>i. loaded e i (xs ! i)) [0..<length xs] @ replicate (CRON_MAX_JOBS - length xs) zero_slot"

lemma loaded_snoc:
  assumes "length xs < CRON_MAX_JOBS"
  shows "(loaded_all e xs)[length xs := loaded e (length xs) x] = loaded_all e (xs @ [x])"
    and "cron_alloc_slot (s\<lparr>g_jobs := loaded_all e xs\<rparr>) = Some (length xs)"
proof -
  have r: "replicate (CRON_MAX_JOBS - length xs) zero_slot = zero_slot # replicate (CRON_MAX_JOBS - length (xs @ [x])) zero_slot"
    using assms by (cases "CRON_MAX_JOBS - length xs") auto
  have m: "map (\<lambda>i. loaded e i ((xs @ [x]) ! i)) [0..<length xs] = map (\<lambda>i. loaded e i (xs ! i)) [0..<length xs]"
    by (simp add: nth_append)
  show "(loaded_all e xs)[length xs := loaded e (length xs) x] = loaded_all e (xs @ [x])"
    unfolding loaded_all_def r by (simp add: list_update_append m)
  have "find_idx (\<lambda>x. \<not> slot_used x) (loaded_all e xs) = Some (length xs)"
    using assms by (auto simp: find_idx_Some_iff loaded_all_def nth_append loaded_def new_slot_key zero_slot_def)
  then show "cron_alloc_slot (s\<lparr>g_jobs := loaded_all e xs\<rparr>) = Some (length xs)" by (simp add: cron_alloc_slot_def)
qed

lemma parse_line_next:
  assumes "slot_wf x" and "slot_used x" and "storable x" and "length xs < CRON_MAX_JOBS"
    and "g_jobs s = loaded_all e xs" and "g_next_id s = of_nat (length xs + 1)"
  shows "g_jobs (cron_parse_line e (line_text x) s) = loaded_all e (xs @ [x])"
    and "g_next_id (cron_parse_line e (line_text x) s) = of_nat (length xs + 2)"
proof -
  have a: "cron_alloc_slot s = Some (length xs)" using loaded_snoc(2) [OF assms(4), where s = s and e = e] assms(5)
    by (simp add: cron_alloc_slot_def)
  have j: "job_ok (terminated (saved_job (slot_job x)))" using assms(1,2) job_ok_saved by (simp add: slot_wf_def)
  define t where "t = cron_parse_line e (line_text x) s"
  have t: "t = snd (cron_add_core e (Some (saved_job (slot_job x))) True (slot_owner x) s)"
    by (simp add: t_def cron_parse_line_def parse_line_text [OF assms(1-3)])
  have nl: "(of_nat (length xs + 1) :: u32) + 1 = of_nat (length xs + 2)" by simp
  have "g_jobs t = (g_jobs s)[length xs := loaded e (length xs) x] \<and> g_next_id t = g_next_id s + 1"
    unfolding t add_core_accept [OF j a] using assms(6) by (simp add: save_parts put_slot_def loaded_def)
  then show "g_jobs t = loaded_all e (xs @ [x])" "g_next_id t = of_nat (length xs + 2)"
    using loaded_snoc(1) [OF assms(4)] assms(5,6) nl by simp_all
qed

lemma hdr_skipped: "fold (cron_parse_line e) hdr_lines s = s"
proof -
  have "parse_fields l = None" if "l \<in> set hdr_lines" for l
    using hdr_line_ok [OF that] that by (cases l) (auto simp: parse_fields_def Let_def is_blank_def hdr_lines_def)
  then show ?thesis by (intro fold_keeps [where P = "\<lambda>t. t = s"]) (simp_all add: cron_parse_line_def)
qed

lemma load_jobs:
  assumes "\<forall>x\<in>set ys. slot_wf x \<and> slot_used x \<and> storable x" and "length xs + length ys \<le> CRON_MAX_JOBS"
    and "g_jobs s = loaded_all e xs" and "g_next_id s = of_nat (length xs + 1)"
  shows "g_jobs (fold (cron_parse_line e) (map line_text ys) s) = loaded_all e (xs @ ys)"
  using assms
proof (induction ys arbitrary: xs s)
  case (Cons y ys)
  have y: "slot_wf y" "slot_used y" "storable y" "length xs < CRON_MAX_JOBS" using Cons.prems by auto
  note n = parse_line_next [OF y Cons.prems(3,4)]
  have "g_next_id (cron_parse_line e (line_text y) s) = of_nat (length (xs @ [y]) + 1)" using n(2) by simp
  then show ?case using Cons.IH [OF _ _ n(1)] Cons.prems(1,2) by simp
qed simp

lemma init_boot:
  obtains t where "cron_init e (cron_boot True cfg log) = cron_load e t" and "g_jobs t = replicate CRON_MAX_JOBS zero_slot"
    and "g_next_id t = 1" and "fs_mounted t" and "cron_cfg t = cfg"
proof -
  define s where "s = cron_boot True cfg log"
  define s1 where "s1 = s\<lparr>g_inited := True, g_jobs := replicate CRON_MAX_JOBS zero_slot, g_cbs := [], g_next_id := 1\<rparr>"
  have s: "\<not> g_inited s" "fs_mounted s1" "cron_cfg s1 = cfg" "g_jobs s1 = replicate CRON_MAX_JOBS zero_slot" "g_next_id s1 = 1"
    by (simp_all add: s1_def s_def cron_boot_def)
  show thesis
    using that unfolding s_def [symmetric] cron_init_def Let_def s1_def [symmetric] if_not_P [OF s(1)]
    by (metis register_parts s(2-5))
qed

lemma init_jobs:
  assumes "\<forall>x\<in>set xs. slot_wf x \<and> slot_used x \<and> storable x" and "length xs \<le> CRON_MAX_JOBS"
  shows "g_jobs (cron_init e (cron_boot True (Some (jobs_text xs)) log)) = loaded_all e xs"
proof (rule init_boot [of e "Some (jobs_text xs)" log])
  fix t
  assume t: "cron_init e (cron_boot True (Some (jobs_text xs)) log) = cron_load e t" "g_jobs t = replicate CRON_MAX_JOBS zero_slot"
    "g_next_id t = 1" "fs_mounted t" "cron_cfg t = Some (jobs_text xs)"
  have ne: "jobs_text xs \<noteq> []" by (simp add: jobs_text_def cron_hdr_def)
  have nl: "\<forall>l\<in>set ([] # (hdr_lines @ map line_text xs)). CHR 0x0A \<notin> set l"
    using hdr_line_ok line_text_no_nl by auto
  have "cron_load e t = fold (cron_parse_line e) ((hdr_lines @ map line_text xs) @ [[]]) t"
    using t(4,5) ne load_lines_text [OF nl, of e t] by (simp add: cron_load_def jobs_text_lines)
  also have "\<dots> = fold (cron_parse_line e) (map line_text xs) t" by (simp add: hdr_skipped parse_line_Nil)
  finally have "g_jobs (cron_load e t) = loaded_all e ([] @ xs)"
    using load_jobs [of xs "[]" t e] assms t(2,3) by (simp add: loaded_all_def)
  then show ?thesis using t(1) by simp
qed

section \<open>A demonstration\<close>

definition demo_env :: cron_env where
  "demo_env = \<lparr>timer_ticks = 1000, g_timer_hz = 250, rtc_hour = 3, rtc_minute = 30, rtc_day = 5, rtc_weekday = 1,
     fat_write = (\<lambda>d f. (0, Some d)), fat_read = (\<lambda>p. Some ''ELF''), elf_validate = (\<lambda>d. 0), user_lookup = (\<lambda>u. None)\<rparr>"

definition demo_job :: cron_job where
  "demo_job = zero_job\<lparr>job_type := CRON_TYPE_DAILY, job_action := CRON_ACT_LAUNCH, job_enabled := 1, job_hour := 3,
     job_minute := 30, job_target := strncpy 63 ''/APPS/50%'', job_label := strncpy 31 ''two words''\<rparr>"

definition demo_slot :: cron_slot where "demo_slot = new_slot demo_env True 1000 1 demo_job"

definition demo_cron :: cron where
  "demo_cron = put_slot 0 demo_slot (cron_boot True None [])"

lemma demo_job_ok: "job_ok (terminated demo_job)"
proof -
  define T where "T = strncpy 63 ''/APPS/50%''"
  define L where "L = strncpy 31 ''two words''"
  have c: "cstr ''/APPS/50%'' = ''/APPS/50%''" "cstr ''two words'' = ''two words''" by (simp_all add: cstr_def NUL_def)
  have cs: "cstr T = ''/APPS/50%''" "cstr L = ''two words''" using cstr_strncpy by (simp_all add: T_def L_def c)
  have l: "length T = 64" "length L = 32" by (simp_all add: T_def L_def length_strncpy)
  have f: "field_ok T 64 False" "field_ok L 32 True"
    using field_ok_cstr [of 64 T False] field_ok_cstr [of 32 L True] l by (simp_all add: cs less_char_def)
  have h: "T ! 0 \<noteq> NUL" "take 4 T \<noteq> ''uid=''" by (simp_all add: T_def strncpy_def c NUL_def)
  have e: "(strncpy n r)[n := NUL] = strncpy n r" for n r by (simp add: strncpy_def list_update_append)
  have t: "terminated demo_job = demo_job"
    by (simp add: terminated_def demo_job_def CRON_TARGET_MAX_def CRON_LABEL_MAX_def e [of 63, simplified] e [of 31, simplified])
  show ?thesis unfolding t using f h
    by (simp add: job_ok_def demo_job_def known_def type_defs act_defs cron_field_ok_def CRON_TARGET_MAX_def CRON_LABEL_MAX_def T_def L_def)
qed

lemma demo_wire: "wire_job (Some demo_job)"
  by (simp add: wire_job_def demo_job_def length_strncpy CRON_TARGET_MAX_def CRON_LABEL_MAX_def)

lemma demo_slot_wf: "slot_wf demo_slot" unfolding demo_slot_def using new_slot_wf demo_job_ok demo_wire by blast

lemma demo_table: "table_ok demo_cron"
proof -
  have "cron_alloc_slot (cron_boot True None []) = Some 0"
    by (simp add: cron_alloc_slot_def cron_boot_def CRON_MAX_JOBS_def zero_slot_def find_idx_Some_iff)
  moreover have "table_ok (cron_boot True None [])"
    using fresh_table [of "cron_boot True None []"] by (simp add: cron_boot_def loading_ok_def)
  ultimately show ?thesis unfolding demo_cron_def
    by (intro add_slot_table_ok) (use demo_slot_wf in \<open>simp_all add: demo_slot_def new_slot_key cron_boot_def\<close>)
qed

lemma demo_jobs: "g_jobs demo_cron = demo_slot # replicate 31 zero_slot"
  by (simp add: demo_cron_def put_slot_def cron_boot_def CRON_MAX_JOBS_def eval_nat_numeral)

lemma demo_stored: "filter stored (g_jobs demo_cron) = [demo_slot]"
  by (simp add: demo_jobs stored_def demo_slot_def new_slot_key zero_slot_def filter_replicate)

lemma demo_slot_job: "slot_job demo_slot = demo_job\<lparr>job_id := 1\<rparr>"
    "slot_owner demo_slot = 1000"
    "slot_wall_key demo_slot = 0xFFFFFFFF" "slot_used demo_slot"
  by (simp_all add: demo_slot_def new_slot_def cron_schedule_first_def Let_def terminated_def demo_job_def tick_based_def type_defs
      CRON_TARGET_MAX_def CRON_LABEL_MAX_def strncpy_def list_update_append zero_job_def cstr_def NUL_def)

lemma demo_fires: "fires demo_env demo_slot"
  by (simp add: fires_def demo_slot_job cron_due_def Let_def demo_job_def type_defs tick_based_def demo_env_def wall_key_def)

lemma demo_target: "cstr (job_target demo_job) = ''/APPS/50%''" "cstr (job_label demo_job) = ''two words''"
  by (simp_all add: demo_job_def cstr_strncpy) (simp_all add: cstr_strncpy cstr_def NUL_def strncpy_def)

lemma demo_effects: "effects demo_env demo_cron demo_slot = [Launched ''/APPS/50%'' ''ELF'' 1000]"
proof -
  have "job_action demo_job = CRON_ACT_LAUNCH" "fs_mounted demo_cron" by (simp_all add: demo_job_def demo_cron_def put_slot_def cron_boot_def)
  then show ?thesis by (simp add: effects_def demo_slot_job Let_def demo_target launch_effects_def demo_env_def act_defs)
qed

lemma demo_storable: "storable demo_slot"
proof -
  have "esc ''/APPS/50%'' = ''/APPS/50%25''" "esc ''two words'' = ''two%20words''"
    by (simp_all add: esc_def esc_char_def esc_plain_def less_char_def HX_def)
  moreover have "\<not> tick_based (job_type demo_job)" "job_hour demo_job < 24" "job_minute demo_job < 60" "job_type demo_job \<noteq> CRON_TYPE_WEEKLY"
    by (simp_all add: demo_job_def tick_based_def type_defs)
  ultimately show ?thesis
    by (simp add: storable_def demo_slot_job demo_target CRON_TARGET_MAX_def CRON_LABEL_MAX_def)
qed

lemma demo_text: "length (jobs_text [demo_slot]) + 4 \<le> BUF_SIZE"
proof -
  have "length (esc ''/APPS/50%'') \<le> 27" "length (esc ''two words'') \<le> 27"
    by (simp_all add: esc_def esc_char_def)
  moreover have "length (head_text x) \<le> 80" for x
    using length_dec [of "slot_owner x"] when_length [of "slot_job x"] name_lengths(1) [of "job_type (slot_job x)"] name_lengths(3) [of "job_action (slot_job x)"]
    by (simp add: head_text_def)
  then have "length (head_text demo_slot) \<le> 80" .
  moreover have "length cron_hdr \<le> 300" by (simp add: cron_hdr_def)
  ultimately show ?thesis by (simp add: jobs_text_def line_text_def demo_slot_job demo_target BUF_SIZE_def)
qed

section \<open>Properties\<close>

text \<open>C3: nobody becomes somebody else through the job file. Start with an empty disk and let any sequence of calls,
  worker rounds, timer ticks and reboots happen, every write of the file possibly torn to a prefix. Then each job in
  the table has the owner, the type and the action of a job that this very user asked for by \<open>cron_add\<close> (or that
  the kernel added as its own, as root), and each program ever launched was launched as a user who asked for
  a launch.\<close>

theorem cron_no_escalation:
  fixes mounted :: bool
  assumes "\<forall>(e, op)\<in>set ops. torn_writes e"
  defines "s \<equiv> cron_run ops (cron_boot mounted None [])"
  shows "(\<forall>x\<in>set (g_jobs s). slot_used x \<longrightarrow> (slot_owner x, job_type (slot_job x), job_action (slot_job x)) \<in> asked ops) \<and>
     (\<forall>path data u. Launched path data u \<in> set (fired s) \<longrightarrow> (\<exists>t. (u, t, CRON_ACT_LAUNCH) \<in> asked ops))"
proof -
  have "granted (asked ops) s" unfolding s_def
    using assms(1) by (intro run_granted [OF boot_granted]) (auto simp: asked_def)
  then show ?thesis by (auto simp: granted_def slot_granted_def key_def)
qed

theorem cron_no_escalation_witness:
  "{u. \<exists>path data. Launched path data u \<in> set (fired (cron_run [(demo_env, CAdd (Some 1000) (Some demo_job)),
     (demo_env, CReboot True), (demo_env, CRound)] (cron_boot True None [])))} \<subseteq> {1000}"
proof -
  have "\<exists>n. d = take n d" for d :: string by (rule exI [of _ "length d"]) simp
  then have "torn_writes demo_env" by (simp add: torn_writes_def demo_env_def)
  then show ?thesis
    using cron_no_escalation [of "[(demo_env, CAdd (Some 1000) (Some demo_job)), (demo_env, CReboot True), (demo_env, CRound)]" True]
    by (auto simp: asked_def asks_def key_def)
qed

text \<open>C28: the job table is always well formed. Whatever bytes the file holds at boot and whatever the calls do (fewer
  than \<open>2^32 - 34\<close> of them, so that ids do not wrap): there are 32 slots, every string is terminated inside its array,
  every job in use has a known type and action, a target that is a non-empty word and no owner token, a label without
  control characters, and an id of its own below the next one; the callback table is within its bounds.\<close>

theorem cron_table_wf:
  assumes "\<forall>(e, op)\<in>set ops. op_wf op" and "length ops < 2 ^ 32 - 34"
  shows "table_ok (cron_run ops (cron_boot mounted cfg log))"
proof (rule run_table_ok [OF _ assms(1)])
  have "loading_ok (cron_boot mounted cfg log)" by (rule fresh_table) (simp_all add: cron_boot_def)
  then show "table_ok (cron_boot mounted cfg log)" by (simp add: loading_ok_def)
  show "unat (g_next_id (cron_boot mounted cfg log)) \<le> 33" by (simp add: cron_boot_def)
  show "(33 :: nat) \<le> 33" by simp
  show "33 + length ops < 2 ^ 32 - 1" using assms(2) by simp
qed

theorem cron_table_wf_witness:
  "table_ok (cron_run [(demo_env, CReboot True), (demo_env, CAdd (Some 1000) (Some demo_job)), (demo_env, CRemove 1)]
     (cron_boot True (Some ''uid=0 INTERVAL 1 launch /A %zz'') []))"
  using cron_table_wf [of "[(demo_env, CReboot True), (demo_env, CAdd (Some 1000) (Some demo_job)), (demo_env, CRemove 1)]"] demo_wire
  by (simp add: op_wf_def)

text \<open>A loaded job is enabled, has run zero times and carries a fresh number, whatever the saved one was.\<close>

lemma loaded_fresh:
  "job_enabled (slot_job (loaded e i x)) = 1" "job_run_count (slot_job (loaded e i x)) = 0"
  "job_id (slot_job (loaded e i x)) = of_nat (i + 1)" "slot_owner (loaded e i x) = slot_owner x"
  by (simp_all add: loaded_def new_slot_def saved_job_def cron_schedule_first_def terminated_def Let_def)

text \<open>C11: what of a saved table comes back. When the text of the persistent jobs fits the buffer and each of them is
  storable (escaped strings within the reader's fields, whole seconds, a time of the day), then after a successful
  save the next boot has one job per saved job, in this order and nothing else, with the same owner, type, action,
  schedule, target and label. The rest does not survive: the jobs are numbered from 1, their history is fresh, and
  every one is enabled, also one that was disabled or a one-shot that had fired before the save.\<close>

theorem cron_save_load:
  assumes "table_ok s" and "\<forall>x\<in>set (filter stored (g_jobs s)). storable x"
    and "length (jobs_text (filter stored (g_jobs s))) + 4 \<le> BUF_SIZE"
    and "cron_save e s = (0, s1)" and "\<forall>d f. fst (fat_write e d f) = 0 \<longrightarrow> snd (fat_write e d f) = Some d"
  shows "g_jobs (cron_init e' (cron_boot True (cron_cfg s1) log)) = loaded_all e' (filter stored (g_jobs s)) \<and>
     (\<forall>i<length (filter stored (g_jobs s)).
        let x = g_jobs (cron_init e' (cron_boot True (cron_cfg s1) log)) ! i in
        slot_owner x = slot_owner (filter stored (g_jobs s) ! i) \<and> job_id (slot_job x) = of_nat (i + 1) \<and>
        job_enabled (slot_job x) = 1 \<and> job_run_count (slot_job x) = 0)"
proof -
  define d where "d = cron_text (g_jobs s)"
  have "fst (fat_write e d (cron_cfg s)) = 0 \<and> cron_cfg s1 = snd (fat_write e d (cron_cfg s))"
    using assms(4) by (auto simp: cron_save_def d_def split: if_splits prod.splits)
  then have "cron_cfg s1 = Some (jobs_text (filter stored (g_jobs s)))"
    using assms(3,5) cron_text_jobs by (simp add: d_def)
  moreover have "\<forall>x\<in>set (filter stored (g_jobs s)). slot_wf x \<and> slot_used x \<and> storable x"
    using assms(1,2) by (auto simp: table_ok_def stored_def)
  moreover have "length (filter stored (g_jobs s)) \<le> CRON_MAX_JOBS"
    using assms(1) length_filter_le [of stored "g_jobs s"] by (simp add: table_ok_def)
  ultimately have "g_jobs (cron_init e' (cron_boot True (cron_cfg s1) log)) = loaded_all e' (filter stored (g_jobs s))"
    using init_jobs by simp
  then show ?thesis by (simp add: Let_def loaded_all_def nth_append loaded_fresh)
qed

theorem cron_save_load_witness:
  "slot_owner (hd (g_jobs (cron_init demo_env (cron_boot True (cron_cfg (snd (cron_save demo_env demo_cron))) [])))) = 1000 \<and>
   slot_job (hd (g_jobs (cron_init demo_env (cron_boot True (cron_cfg (snd (cron_save demo_env demo_cron))) [])))) =
     slot_job (hd (g_jobs demo_cron))"
proof -
  define s1 where "s1 = snd (cron_save demo_env demo_cron)"
  have save: "cron_save demo_env demo_cron = (0, s1)"
    by (simp add: s1_def cron_save_def demo_env_def demo_cron_def put_slot_def cron_boot_def)
  have "g_jobs (cron_init demo_env (cron_boot True (cron_cfg s1) [])) = loaded_all demo_env [demo_slot]"
    using cron_save_load [OF demo_table _ _ save, of demo_env "[]"] demo_storable demo_text unfolding demo_stored by (simp add: demo_env_def)
  then have "hd (g_jobs (cron_init demo_env (cron_boot True (cron_cfg s1) []))) = new_slot demo_env True 1000 1 (saved_job (demo_job\<lparr>job_id := 1\<rparr>))"
    by (simp add: loaded_all_def loaded_def demo_slot_job)
  moreover have "new_slot demo_env True 1000 1 (saved_job (demo_job\<lparr>job_id := 1\<rparr>)) = demo_slot"
  proof -
    have "terminated (saved_job (demo_job\<lparr>job_id := 1\<rparr>)) = terminated demo_job"
      by (simp add: saved_job_def terminated_def demo_job_def tick_based_def type_defs zero_job_def CRON_TARGET_MAX_def CRON_LABEL_MAX_def
          strncpy_def cstr_def NUL_def)
    then show ?thesis by (simp add: new_slot_def demo_slot_def)
  qed
  ultimately show ?thesis by (simp add: s1_def demo_jobs demo_slot_job)
qed

text \<open>C23: a worker round fires each due job exactly once. The slots of the due jobs become those of fired jobs and no
  other slot changes; the effects are those of the due jobs in slot order, each as its own owner; and at the same time
  of the clocks no job is due any more (an interval's next tick assumed not to overflow).\<close>

theorem cron_run_due_once:
  assumes "table_ok s"
    and "\<forall>x\<in>set (g_jobs s). unat (timer_ticks e) + unat (cron_ms_to_ticks e (job_interval_ms (slot_job x))) < 2 ^ 64"
  shows "g_jobs (cron_run_due e s) = map (\<lambda>x. if fires e x then fired_slot e x else x) (g_jobs s) \<and>
     fired (cron_run_due e s) = fired s @ concat (map (effects e s) (filter (fires e) (g_jobs s))) \<and>
     (\<forall>x\<in>set (g_jobs (cron_run_due e s)). \<not> fires e x)"
proof -
  have len: "length (g_jobs s) = CRON_MAX_JOBS" using assms(1) by (simp add: table_ok_def)
  have "\<not> fires e (fired_slot e x)" if "x \<in> set (g_jobs s)" "fires e x" for x
    using that assms by (intro due_again) (auto simp: fires_def table_ok_def slot_wf_def job_ok_def)
  then show ?thesis using run_due_parts(1,2) [OF len, of e] by auto
qed

theorem cron_run_due_once_witness:
  "fired (cron_run_due demo_env demo_cron) = [Launched ''/APPS/50%'' ''ELF'' 1000]"
proof -
  have z: "\<not> fires demo_env zero_slot" by (simp add: fires_def zero_slot_def)
  have f: "filter (fires demo_env) (g_jobs demo_cron) = [demo_slot]"
    using demo_fires z by (simp add: demo_jobs filter_replicate)
  have i: "job_interval_ms (slot_job x) = 0" if "x \<in> set (g_jobs demo_cron)" for x
    using that by (auto simp: demo_jobs demo_slot_job demo_job_def zero_slot_def zero_job_def)
  have "unat (timer_ticks demo_env) + unat (cron_ms_to_ticks demo_env 0) < 2 ^ 64" by (simp add: cron_ms_to_ticks_def demo_env_def)
  then have t: "\<forall>x\<in>set (g_jobs demo_cron). unat (timer_ticks demo_env) + unat (cron_ms_to_ticks demo_env (job_interval_ms (slot_job x))) < 2 ^ 64"
    using i by metis
  have "fired demo_cron = []" by (simp add: demo_cron_def put_slot_def cron_boot_def)
  then show ?thesis using conjunct1 [OF conjunct2 [OF cron_run_due_once [OF demo_table t]]] by (simp add: f demo_effects)
qed

end
