(* ===== verification/Caps.thy ===== *)
theory Caps
  imports CText
begin

text \<open>
  The rules of the capability API, after \<open>kernel/rustkern/caps.rs\<close>: which noun (path, port, window) a capability may
  be bound to, the eight grants a process holds, the single consent request, and the table of standing consents with the
  reader and the writer of its file. Strings are read up to their NUL; an index that the code returns as \<open>-1\<close> is
  \<open>None\<close>. Times are the 64-bit milliseconds of \<open>sched_now_ms\<close>.
\<close>

section \<open>Classes, scopes, states, refusals\<close>

named_theorems cap_consts \<open>the constants of caps.h\<close>

definition CAP_NONE :: u32 where [cap_consts]: "CAP_NONE = 0"
definition CAP_INPUT_INJECT :: u32 where [cap_consts]: "CAP_INPUT_INJECT = 1"
definition CAP_SCREEN_CAPTURE :: u32 where [cap_consts]: "CAP_SCREEN_CAPTURE = 3"
definition CAP_SERIAL_PORT :: u32 where [cap_consts]: "CAP_SERIAL_PORT = 6"
definition CAP_CLASS_MAX :: u32 where [cap_consts]: "CAP_CLASS_MAX = 9"
definition CAP_SCOPE_PATH :: u32 where [cap_consts]: "CAP_SCOPE_PATH = 1"
definition CAP_SCOPE_PORT :: u32 where [cap_consts]: "CAP_SCOPE_PORT = 2"
definition CAP_SCOPE_WINDOW :: u32 where [cap_consts]: "CAP_SCOPE_WINDOW = 3"
definition CAP_SCOPE_WINDOW_TARGET :: u32 where [cap_consts]: "CAP_SCOPE_WINDOW_TARGET = 4"
definition CAP_MAX_GRANTS :: nat where [cap_consts]: "CAP_MAX_GRANTS = 8"
definition CAP_ST_IDLE :: u32 where [cap_consts]: "CAP_ST_IDLE = 0"
definition CAP_ST_OPEN :: u32 where [cap_consts]: "CAP_ST_OPEN = 1"
definition CAP_ST_GRANTED :: u32 where [cap_consts]: "CAP_ST_GRANTED = 2"
definition CAP_ST_DENIED :: u32 where [cap_consts]: "CAP_ST_DENIED = 3"
definition CAP_EARG :: int where [cap_consts]: "CAP_EARG = -1"
definition CAP_EBUSY :: int where [cap_consts]: "CAP_EBUSY = -2"
definition CAP_EDENIED :: int where [cap_consts]: "CAP_EDENIED = -3"
definition CAP_ENOINPUT :: int where [cap_consts]: "CAP_ENOINPUT = -4"
definition CAP_ENOCONSENT :: int where [cap_consts]: "CAP_ENOCONSENT = -5"
definition CAP_ESCOPE :: int where [cap_consts]: "CAP_ESCOPE = -6"
definition CAP_EPOLICY :: int where [cap_consts]: "CAP_EPOLICY = -7"
definition CAP_EMAX :: int where [cap_consts]: "CAP_EMAX = -8"
definition CAP_ESTALE :: int where [cap_consts]: "CAP_ESTALE = -9"
definition CAP_EPERM :: int where [cap_consts]: "CAP_EPERM = -10"
definition OPEN_TTL_MS :: u64 where [cap_consts]: "OPEN_TTL_MS = 120000"
definition GRANT_MAX_TTL_MS :: u32 where [cap_consts]: "GRANT_MAX_TTL_MS = 900000"
definition SCOPE_MAX :: nat where [cap_consts]: "SCOPE_MAX = 64"
definition REASON_MAX :: nat where [cap_consts]: "REASON_MAX = 120"
definition APP_MAX :: nat where [cap_consts]: "APP_MAX = 64"
definition CAP_USES_UNLIMITED :: u32 where [cap_consts]: "CAP_USES_UNLIMITED = 0xFFFFFFFF"
definition CAP_ALWAYS_MAX :: nat where [cap_consts]: "CAP_ALWAYS_MAX = 32"
definition APPNAME_MAX :: nat where [cap_consts]: "APPNAME_MAX = 32"

section \<open>Requirement table and policy\<close>

definition cap_required_for_syscall :: "nat \<Rightarrow> u32" where
  "cap_required_for_syscall num =
     (if num = 435 then CAP_SCREEN_CAPTURE else if num = 438 then CAP_SERIAL_PORT
      else if num = 439 \<or> num = 440 \<or> num = 460 then CAP_INPUT_INJECT else CAP_NONE)"

definition cap_is_issuable :: "u32 \<Rightarrow> bool" where
  "cap_is_issuable cap \<longleftrightarrow> cap = CAP_SCREEN_CAPTURE \<or> cap = CAP_SERIAL_PORT \<or> cap = CAP_INPUT_INJECT"

section \<open>Nouns\<close>

definition printable :: "char \<Rightarrow> bool" where "printable c \<longleftrightarrow> CHR 0x20 \<le> c \<and> c < CHR 0x7F"

text \<open>The scan of a path by elements: \<open>i\<close> bytes read, \<open>el\<close> of them in the current element, \<open>d\<close> of these dots;
  the value is the length of the path. The same loop serves the scopes (\<open>lim = 64\<close>) and the elevation
  prefixes (\<open>lim = 512\<close>).\<close>

fun plain_scan :: "nat \<Rightarrow> nat \<Rightarrow> nat \<Rightarrow> nat \<Rightarrow> string \<Rightarrow> nat option" where
  "plain_scan lim i el d [] =
     (if lim \<le> i \<or> (0 < i \<and> el = 0) \<or> (0 < d \<and> d = el) then None else Some i)"
| "plain_scan lim i el d (c # s) =
     (if lim \<le> i then None
      else if c = CHR ''/'' then
        (if (0 < i \<and> el = 0) \<or> (0 < d \<and> d = el) then None else plain_scan lim (i + 1) 0 0 s)
      else if \<not> printable c then None
      else plain_scan lim (i + 1) (el + 1) (if c = CHR ''.'' then d + 1 else d) s)"

definition path_is_plain_abs :: "string \<Rightarrow> bool" where
  "path_is_plain_abs s =
     (case s of [] \<Rightarrow> False
      | c # _ \<Rightarrow> c = CHR ''/'' \<and> (case plain_scan SCOPE_MAX 0 0 0 s of None \<Rightarrow> False | Some i \<Rightarrow> 2 \<le> i))"

definition scope_is_self_token :: "string \<Rightarrow> bool" where "scope_is_self_token s \<longleftrightarrow> s = ''self''"

definition window_target_shape_ok :: "string \<Rightarrow> bool" where
  "window_target_shape_ok s =
     (let ds = takeWhile digit s in
      length ds \<le> 20 \<and> ds \<noteq> [] \<and>
      (case dropWhile digit s of [] \<Rightarrow> True
       | c # t \<Rightarrow> c = CHR '':'' \<and> list_all printable t \<and> length s < SCOPE_MAX))"

primrec leading_from :: "u64 \<Rightarrow> string \<Rightarrow> u64" where
  "leading_from v [] = v"
| "leading_from v (c # s) = (if digit c then leading_from (v * 10 + of_nat (of_char c - 48)) s else v)"

definition scope_leading_u64 :: "string \<Rightarrow> u64" where "scope_leading_u64 s = leading_from 0 s"

definition alnum :: "char \<Rightarrow> bool" where
  "alnum c \<longleftrightarrow> (CHR ''a'' \<le> c \<and> c \<le> CHR ''z'') \<or> (CHR ''A'' \<le> c \<and> c \<le> CHR ''Z'') \<or> digit c"

definition port_name_is_plain :: "string \<Rightarrow> bool" where
  "port_name_is_plain s \<longleftrightarrow> 1 \<le> length s \<and> length s < 16 \<and> list_all alnum s"

definition cap_scope_valid :: "u32 \<Rightarrow> u32 \<Rightarrow> string \<Rightarrow> bool" where
  "cap_scope_valid cap kind s =
     (if cap = CAP_SCREEN_CAPTURE then kind = CAP_SCOPE_PATH \<and> path_is_plain_abs s
      else if cap = CAP_SERIAL_PORT then kind = CAP_SCOPE_PORT \<and> port_name_is_plain s
      else if cap = CAP_INPUT_INJECT then
        (if kind = CAP_SCOPE_WINDOW then scope_is_self_token s
         else if kind = CAP_SCOPE_WINDOW_TARGET then window_target_shape_ok s else False)
      else False)"

text \<open>A stored array of \<open>n\<close> bytes against a string.\<close>

fun scope_eq_from :: "nat \<Rightarrow> string \<Rightarrow> string \<Rightarrow> bool" where
  "scope_eq_from 0 a b = False"
| "scope_eq_from (Suc n) [] [] = True"
| "scope_eq_from (Suc n) (x # a) (y # b) = (x = y \<and> scope_eq_from n a b)"
| "scope_eq_from (Suc n) a b = False"

definition scope_eq :: "string \<Rightarrow> string \<Rightarrow> bool" where "scope_eq a b = scope_eq_from SCOPE_MAX a b"

section \<open>The grants of a process\<close>

record cap_grant =
  gr_cap :: u32
  gr_kind :: u32
  gr_expires :: u64
  gr_uses :: u32
  gr_seq :: u64
  gr_scope :: string

definition clear_slot :: cap_grant where
  "clear_slot = \<lparr>gr_cap = 0, gr_kind = 0, gr_expires = 0, gr_uses = 0, gr_seq = 0, gr_scope = []\<rparr>"

definition grant_is_live :: "cap_grant \<Rightarrow> u64 \<Rightarrow> bool" where
  "grant_is_live g now \<longleftrightarrow> gr_cap g \<noteq> 0 \<and> \<not> gr_expires g < now \<and> gr_uses g \<noteq> 0"

definition cap_find_live :: "cap_grant list \<Rightarrow> u32 \<Rightarrow> u64 \<Rightarrow> nat option" where
  "cap_find_live gs cap now =
     (if cap = 0 then None else find_idx (\<lambda>g. gr_cap g = cap \<and> grant_is_live g now) gs)"

definition cap_covers_path :: "cap_grant list \<Rightarrow> u32 \<Rightarrow> string \<Rightarrow> u64 \<Rightarrow> nat option" where
  "cap_covers_path gs cap path now =
     (if cap = 0 then None
      else find_idx (\<lambda>g. gr_cap g = cap \<and> gr_kind g = CAP_SCOPE_PATH \<and> grant_is_live g now \<and>
                         scope_eq (gr_scope g) path) gs)"

definition cap_covers_port :: "cap_grant list \<Rightarrow> u32 \<Rightarrow> string \<Rightarrow> u64 \<Rightarrow> nat option" where
  "cap_covers_port gs cap port now =
     (if cap = 0 then None
      else find_idx (\<lambda>g. gr_cap g = cap \<and> gr_kind g = CAP_SCOPE_PORT \<and> grant_is_live g now \<and>
                         scope_eq (gr_scope g) port) gs)"

definition cap_find_scope :: "cap_grant list \<Rightarrow> u32 \<Rightarrow> u32 \<Rightarrow> u64 \<Rightarrow> nat option" where
  "cap_find_scope gs cap kind now =
     (if cap = 0 then None
      else find_idx (\<lambda>g. gr_cap g = cap \<and> gr_kind g = kind \<and> grant_is_live g now) gs)"

definition cap_covers_window_target :: "cap_grant list \<Rightarrow> u32 \<Rightarrow> u64 \<Rightarrow> u64 \<Rightarrow> nat option" where
  "cap_covers_window_target gs cap target now =
     (if cap = 0 \<or> target = 0 then None
      else find_idx (\<lambda>g. gr_cap g = cap \<and> gr_kind g = CAP_SCOPE_WINDOW_TARGET \<and> grant_is_live g now \<and>
                         scope_leading_u64 (gr_scope g) = target) gs)"

text \<open>The slot of the same capability and scope wins over the first free one.\<close>

definition issue_slot :: "cap_grant list \<Rightarrow> u32 \<Rightarrow> u32 \<Rightarrow> string \<Rightarrow> nat option" where
  "issue_slot gs cap kind scope =
     (case find_idx (\<lambda>g. gr_cap g = cap \<and> gr_kind g = kind \<and> scope_eq (gr_scope g) scope) gs of
        Some i \<Rightarrow> Some i
      | None \<Rightarrow> find_idx (\<lambda>g. gr_cap g = 0) gs)"

definition cap_issue ::
  "cap_grant list \<Rightarrow> u32 \<Rightarrow> u32 \<Rightarrow> string \<Rightarrow> u64 \<Rightarrow> u32 \<Rightarrow> u64 \<Rightarrow> (nat \<times> cap_grant list) option" where
  "cap_issue gs cap kind scope expires uses seq =
     (if cap = 0 then None
      else case issue_slot gs cap kind scope of
        None \<Rightarrow> None
      | Some i \<Rightarrow> Some (i, gs[i := \<lparr>gr_cap = cap, gr_kind = kind, gr_expires = expires, gr_uses = uses,
                                  gr_seq = seq, gr_scope = take (SCOPE_MAX - 1) scope\<rparr>]))"

definition cap_consume_use :: "cap_grant list \<Rightarrow> nat \<Rightarrow> int \<times> cap_grant list" where
  "cap_consume_use gs i =
     (if length gs \<le> i then (-1, gs)
      else let g = gs ! i in
        if gr_cap g = 0 then (-1, gs)
        else if gr_uses g = CAP_USES_UNLIMITED then (uint CAP_USES_UNLIMITED, gs)
        else let left = (if 0 < gr_uses g then gr_uses g - 1 else gr_uses g) in
          (uint left, gs[i := (if left = 0 then clear_slot else g\<lparr>gr_uses := left\<rparr>)]))"

definition cap_revoke :: "cap_grant list \<Rightarrow> u32 \<Rightarrow> u64 \<times> cap_grant list" where
  "cap_revoke gs cap =
     (if cap = 0 then (0, gs)
      else (fold (\<lambda>g first. if gr_cap g = cap \<and> first = 0 then gr_seq g else first) gs 0,
            map (\<lambda>g. if gr_cap g = cap then clear_slot else g) gs))"

definition sweep_expired :: "u64 \<Rightarrow> cap_grant list \<Rightarrow> cap_grant list" where
  "sweep_expired now gs = map (\<lambda>g. if gr_cap g \<noteq> 0 \<and> gr_expires g < now then clear_slot else g) gs"

text \<open>The grant that \<open>cap_query\<close> reports, with the table it leaves.\<close>

definition cap_query :: "cap_grant list \<Rightarrow> u32 \<Rightarrow> u64 \<Rightarrow> cap_grant option \<times> cap_grant list" where
  "cap_query gs cap now =
     (if cap = 0 then (None, gs)
      else let gs1 = sweep_expired now gs in (map_option (\<lambda>i. gs1 ! i) (cap_find_live gs1 cap now), gs1))"

section \<open>The consent request\<close>

record cap_req =
  rq_seq :: u64
  rq_opened :: u64
  rq_state :: u32
  rq_pid :: u32
  rq_uid :: u32
  rq_cap :: u32
  rq_dur :: u32
  rq_kind :: u32
  rq_scope :: string
  rq_reason :: string
  rq_app :: string

definition idle_req :: cap_req where
  "idle_req = \<lparr>rq_seq = 0, rq_opened = 0, rq_state = CAP_ST_IDLE, rq_pid = 0, rq_uid = 0, rq_cap = 0, rq_dur = 0,
     rq_kind = 0, rq_scope = [], rq_reason = [], rq_app = []\<rparr>"

record cap_consent =
  greq :: cap_req
  next_seq :: u64

definition sanitize :: "nat \<Rightarrow> string \<Rightarrow> string" where
  "sanitize n src = take (n - 1) (filter printable (take 512 src))"

definition copy_scope :: "string \<Rightarrow> string" where "copy_scope src = take (SCOPE_MAX - 1) src"

definition clamp_duration :: "u32 \<Rightarrow> u32" where
  "clamp_duration d = (if GRANT_MAX_TTL_MS < d then GRANT_MAX_TTL_MS else d)"

definition fill_req ::
  "u32 \<Rightarrow> u32 \<Rightarrow> u32 \<Rightarrow> u64 \<Rightarrow> u32 \<Rightarrow> u32 \<Rightarrow> u32 \<Rightarrow> string \<Rightarrow> string \<Rightarrow> string \<Rightarrow> u64 \<Rightarrow> cap_req" where
  "fill_req st pid uid now cap dur kind reason scope app seq =
     \<lparr>rq_seq = seq, rq_opened = now, rq_state = st, rq_pid = pid, rq_uid = uid, rq_cap = cap,
      rq_dur = clamp_duration dur, rq_kind = kind, rq_scope = copy_scope scope,
      rq_reason = sanitize REASON_MAX reason, rq_app = sanitize APP_MAX app\<rparr>"

definition cap_req_open_rs ::
  "u32 \<Rightarrow> u32 \<Rightarrow> u64 \<Rightarrow> u32 \<Rightarrow> u32 \<Rightarrow> u32 \<Rightarrow> string \<Rightarrow> string \<Rightarrow> string \<Rightarrow> bool \<Rightarrow> cap_consent
     \<Rightarrow> int \<times> cap_consent" where
  "cap_req_open_rs pid uid now cap dur kind reason scope app elev_open c =
     (if pid = 0 then (CAP_EARG, c)
      else if rq_state (greq c) = CAP_ST_OPEN \<or> elev_open then (CAP_EBUSY, c)
      else (sint (next_seq c),
            c\<lparr>greq := fill_req CAP_ST_OPEN pid uid now cap dur kind reason scope app (next_seq c),
              next_seq := next_seq c + 1\<rparr>))"

definition cap_req_autogrant_rs ::
  "u32 \<Rightarrow> u32 \<Rightarrow> u64 \<Rightarrow> u32 \<Rightarrow> u32 \<Rightarrow> u32 \<Rightarrow> string \<Rightarrow> string \<Rightarrow> string \<Rightarrow> bool \<Rightarrow> cap_consent
     \<Rightarrow> int \<times> cap_consent" where
  "cap_req_autogrant_rs pid uid now cap dur kind reason scope app elev_open c =
     (if pid = 0 then (CAP_EARG, c)
      else if rq_state (greq c) = CAP_ST_OPEN \<or> elev_open then (CAP_EBUSY, c)
      else (sint (next_seq c),
            c\<lparr>greq := fill_req CAP_ST_GRANTED pid uid now cap dur kind reason scope app (next_seq c),
              next_seq := next_seq c + 1\<rparr>))"

definition cap_req_view_rs :: "cap_consent \<Rightarrow> cap_req option" where
  "cap_req_view_rs c = (if rq_state (greq c) \<noteq> CAP_ST_OPEN then None else Some (greq c))"

definition cap_req_state_rs :: "u64 \<Rightarrow> cap_consent \<Rightarrow> int" where
  "cap_req_state_rs seq c = (if seq = 0 \<or> rq_seq (greq c) \<noteq> seq then CAP_ESTALE else uint (rq_state (greq c)))"

definition cap_req_owner_pid_rs :: "cap_consent \<Rightarrow> u32" where
  "cap_req_owner_pid_rs c = (if rq_state (greq c) = CAP_ST_OPEN then rq_pid (greq c) else 0)"

definition cap_req_busy_rs :: "cap_consent \<Rightarrow> bool" where
  "cap_req_busy_rs c \<longleftrightarrow> rq_state (greq c) = CAP_ST_OPEN"

definition cap_req_approve_info_rs :: "cap_consent \<Rightarrow> cap_req option" where
  "cap_req_approve_info_rs c = (if rq_state (greq c) \<noteq> CAP_ST_OPEN then None else Some (greq c))"

definition cap_req_resolve_rs :: "u64 \<Rightarrow> bool \<Rightarrow> cap_consent \<Rightarrow> int \<times> cap_consent" where
  "cap_req_resolve_rs seq approve c =
     (if rq_state (greq c) \<noteq> CAP_ST_OPEN \<or> rq_seq (greq c) \<noteq> seq then (CAP_ESTALE, c)
      else (0, c\<lparr>greq := (greq c)\<lparr>rq_state := (if approve then CAP_ST_GRANTED else CAP_ST_DENIED)\<rparr>\<rparr>))"

definition cap_req_reap_rs :: "u64 \<Rightarrow> cap_consent \<Rightarrow> int \<times> cap_consent" where
  "cap_req_reap_rs seq c =
     (if rq_seq (greq c) \<noteq> seq \<or> rq_state (greq c) = CAP_ST_OPEN then (CAP_ESTALE, c)
      else (0, c\<lparr>greq := (greq c)\<lparr>rq_state := CAP_ST_IDLE, rq_pid := 0\<rparr>\<rparr>))"

definition cap_req_tick_rs :: "u64 \<Rightarrow> bool \<Rightarrow> cap_consent \<Rightarrow> bool \<times> cap_consent" where
  "cap_req_tick_rs now alive c =
     (if rq_state (greq c) \<noteq> CAP_ST_OPEN then (False, c)
      else if \<not> alive \<or> OPEN_TTL_MS < now - rq_opened (greq c) then
        (True, c\<lparr>greq := (greq c)\<lparr>rq_state := CAP_ST_DENIED\<rparr>\<rparr>)
      else (False, c))"

section \<open>Standing consents\<close>

record cap_always =
  al_uid :: u32
  al_cap :: u32
  al_kind :: u32
  al_app :: string
  al_scope :: string

text \<open>An unused entry is \<open>None\<close>.\<close>

type_synonym always_table = "cap_always option list"

definition cap_always_reset_rs :: always_table where "cap_always_reset_rs = replicate CAP_ALWAYS_MAX None"

definition cap_always_count_rs :: "always_table \<Rightarrow> nat" where
  "cap_always_count_rs t = length (filter (\<lambda>e. e \<noteq> None) t)"

fun cstr_eq :: "nat \<Rightarrow> string \<Rightarrow> string \<Rightarrow> bool" where
  "cstr_eq 0 a b = (b = [])"
| "cstr_eq (Suc n) [] [] = True"
| "cstr_eq (Suc n) (x # a) (y # b) = (x = y \<and> cstr_eq n a b)"
| "cstr_eq (Suc n) a b = False"

definition token_ok :: "nat \<Rightarrow> string \<Rightarrow> bool" where
  "token_ok n s \<longleftrightarrow> length s < n \<and> s \<noteq> [] \<and> list_all (\<lambda>c. CHR 0x20 < c \<and> c < CHR 0x7F) s"

definition scope_token_ok :: "nat \<Rightarrow> string \<Rightarrow> bool" where
  "scope_token_ok n s \<longleftrightarrow> length s < n \<and> s \<noteq> [] \<and> list_all (\<lambda>c. CHR 0x20 \<le> c \<and> c \<noteq> CHR 0x7F) s"

definition entry_matches :: "u32 \<Rightarrow> u32 \<Rightarrow> u32 \<Rightarrow> string \<Rightarrow> string \<Rightarrow> cap_always option \<Rightarrow> bool" where
  "entry_matches uid cap kind app scope x =
     (case x of None \<Rightarrow> False
      | Some e \<Rightarrow> al_uid e = uid \<and> al_cap e = cap \<and> al_kind e = kind \<and>
          cstr_eq APPNAME_MAX (al_app e) app \<and> cstr_eq SCOPE_MAX (al_scope e) scope)"

definition cap_always_match_rs :: "u32 \<Rightarrow> u32 \<Rightarrow> u32 \<Rightarrow> string \<Rightarrow> string \<Rightarrow> always_table \<Rightarrow> bool" where
  "cap_always_match_rs uid cap kind app scope t \<longleftrightarrow>
     cap \<noteq> CAP_NONE \<and> find_idx (entry_matches uid cap kind app scope) t \<noteq> None"

definition cap_always_add_rs ::
  "u32 \<Rightarrow> u32 \<Rightarrow> u32 \<Rightarrow> string \<Rightarrow> string \<Rightarrow> always_table \<Rightarrow> int \<times> always_table" where
  "cap_always_add_rs uid cap kind app scope t =
     (if cap = CAP_NONE \<or> CAP_CLASS_MAX \<le> cap then (CAP_EARG, t)
      else if \<not> token_ok APPNAME_MAX app \<or> \<not> scope_token_ok SCOPE_MAX scope then (CAP_EARG, t)
      else if cap_always_match_rs uid cap kind app scope t then (0, t)
      else case find_idx (\<lambda>e. e = None) t of
        None \<Rightarrow> (CAP_EMAX, t)
      | Some i \<Rightarrow> (1, t[i := Some \<lparr>al_uid = uid, al_cap = cap, al_kind = kind,
          al_app = take (APPNAME_MAX - 1) app, al_scope = take (SCOPE_MAX - 1) scope\<rparr>]))"

subsection \<open>Reading the file\<close>

fun parse_u32 :: "nat \<Rightarrow> bool \<Rightarrow> string \<Rightarrow> (u32 \<times> string) option" where
  "parse_u32 v any [] = (if any then Some (of_nat v, []) else None)"
| "parse_u32 v any (c # s) =
     (if digit c then
        let v' = v * 10 + (of_char c - 48) in if 0xFFFFFFFF < v' then None else parse_u32 v' True s
      else if any then Some (of_nat v, c # s) else None)"

definition skip_spaces :: "string \<Rightarrow> string" where "skip_spaces s = dropWhile (\<lambda>c. c = CHR '' '') s"

definition token_end :: "char \<Rightarrow> bool" where "token_end c \<longleftrightarrow> c = CHR '' '' \<or> c = CHR 0x0A \<or> c = CHR 0x0D"

definition read_token :: "nat \<Rightarrow> string \<Rightarrow> (string \<times> string) option" where
  "read_token n s =
     (let t = takeWhile (\<lambda>c. \<not> token_end c) s in
      if n \<le> length t \<or> t = [] then None else Some (t, dropWhile (\<lambda>c. \<not> token_end c) s))"

definition rtrim :: "string \<Rightarrow> string" where
  "rtrim s = rev (dropWhile (\<lambda>c. c = CHR '' '' \<or> c = CHR 0x09) (rev s))"

definition read_scope :: "string \<Rightarrow> string option" where
  "read_scope s =
     (let r = rtrim s in
      if r = [] \<or> SCOPE_MAX \<le> length r then None else if hd r = NUL then None else Some r)"

text \<open>The five fields of a line, the two strings as the buffers hold them.\<close>

definition parse_always_line :: "string \<Rightarrow> (u32 \<times> u32 \<times> u32 \<times> string \<times> string) option" where
  "parse_always_line line =
     (if line = [] \<or> hd line = CHR ''#'' then None
      else case parse_u32 0 False (skip_spaces line) of None \<Rightarrow> None
      | Some (uid, r1) \<Rightarrow> (case parse_u32 0 False (skip_spaces r1) of None \<Rightarrow> None
      | Some (cap, r2) \<Rightarrow> (case parse_u32 0 False (skip_spaces r2) of None \<Rightarrow> None
      | Some (kind, r3) \<Rightarrow> (case read_token APPNAME_MAX (skip_spaces r3) of None \<Rightarrow> None
      | Some (app, r4) \<Rightarrow> (case read_scope (skip_spaces r4) of None \<Rightarrow> None
      | Some scope \<Rightarrow>
          if cap = CAP_NONE \<or> CAP_CLASS_MAX \<le> cap then None else Some (uid, cap, kind, app, scope))))))"

function always_lines :: "string \<Rightarrow> string list" where
  "always_lines s =
     (if s = [] then []
      else takeWhile (\<lambda>c. c \<noteq> CHR 0x0A) s # always_lines (tl (dropWhile (\<lambda>c. c \<noteq> CHR 0x0A) s)))"
  by pat_completeness auto
termination
proof (relation "measure length")
  fix s :: string
  assume "s \<noteq> []"
  moreover have "length (dropWhile (\<lambda>c. c \<noteq> CHR 0x0A) s) \<le> length s" by (rule length_dropWhile_le)
  ultimately show "(tl (dropWhile (\<lambda>c. c \<noteq> CHR 0x0A) s), s) \<in> measure length" by (cases s) auto
qed simp
declare always_lines.simps [simp del]

definition strip_cr :: "string \<Rightarrow> string" where
  "strip_cr l = (if l \<noteq> [] \<and> last l = CHR 0x0D then butlast l else l)"

definition load_line :: "string \<Rightarrow> always_table \<Rightarrow> always_table" where
  "load_line l t =
     (case parse_always_line (strip_cr l) of None \<Rightarrow> t
      | Some (uid, cap, kind, app, scope) \<Rightarrow> snd (cap_always_add_rs uid cap kind (cstr app) (cstr scope) t))"

definition cap_always_parse_rs :: "string \<Rightarrow> always_table" where
  "cap_always_parse_rs buf = fold load_line (always_lines buf) cap_always_reset_rs"

subsection \<open>Writing the file\<close>

text \<open>Appending to a buffer of \<open>n\<close> bytes whose last byte stays free.\<close>

definition emit :: "nat \<Rightarrow> string \<Rightarrow> string option \<Rightarrow> string option" where
  "emit n s out =
     (case out of None \<Rightarrow> None
      | Some o1 \<Rightarrow> if s = [] \<or> length o1 + length s < n then Some (o1 @ s) else None)"

definition always_header :: string where
  "always_header = ''# MayteraOS standing capability consents (\"Always allow\").'' @ [CHR 0x0A] @
     ''# <uid> <cap> <scope_kind> <app> <scope>. Delete a line to revoke.'' @ [CHR 0x0A]"

definition emit_entry :: "nat \<Rightarrow> cap_always option \<Rightarrow> string option \<Rightarrow> string option" where
  "emit_entry n x out =
     (case x of None \<Rightarrow> out
      | Some e \<Rightarrow>
          emit n [CHR 0x0A] (emit n (al_scope e) (emit n '' '' (emit n (al_app e) (emit n '' ''
            (emit n (dec (al_kind e)) (emit n '' '' (emit n (dec (al_cap e)) (emit n '' ''
              (emit n (dec (al_uid e)) out))))))))))"

definition cap_always_serialize_rs :: "nat \<Rightarrow> always_table \<Rightarrow> string option" where
  "cap_always_serialize_rs n t = (if n = 0 then None else fold (emit_entry n) t (emit n always_header (Some [])))"

end
