(* ===== verification/Trust.thy ===== *)
theory Trust
  imports Caps
begin

text \<open>
  Who may act for whom: the capability system calls (\<open>kernel/proc/caps.c\<close>) and their consumers (the screenshot
  queue \<open>gui/shotq.c\<close>, \<open>sys_serial_open\<close>, the injection of input in \<open>proc/syscall.c\<close>), the elevation prompt
  (\<open>proc/elevate.c\<close>, \<open>rustkern/elevate.rs\<close>, its authenticator in \<open>proc/users.c\<close>), the framebuffer latch that makes
  a process the compositor (\<open>rustkern/fbown.rs\<close>, \<open>gui/fb_syscall.c\<close>), and the creation, forking and exit of the
  processes that carry the grants. One record \<open>trust\<close> holds the state of all of them; a system call takes the
  pid of its caller. Clock, permissions, password check, window manager lock, journal, file system and
  outcomes of allocations are the fields of \<open>tenv\<close>. Log output is left out.
\<close>

section \<open>State\<close>

text \<open>The fields of \<open>process_t\<close> that these calls read or write.\<close>

record tproc =
  tp_name :: string
  tp_user :: bool
  tp_zombie :: bool
  tp_euid :: u32
  tp_egid :: u32
  tp_last_input :: u64
  tp_elev_until :: u64
  tp_elev_prefix :: "string list"
  tp_grants :: "cap_grant list"

record fbown =
  fb_owner :: u32
  fb_expect :: u32
  fb_armed :: bool

datatype event_type = EVENT_MOUSE_MOVE | EVENT_MOUSE_DOWN | EVENT_MOUSE_UP | EVENT_KEY_DOWN | EVENT_KEY_UP
  | EVENT_RESIZE | EVENT_OTHER

record gui_event =
  ev_type :: event_type
  ev_x :: int
  ev_y :: int
  ev_buttons :: u32
  ev_keycode :: u32
  ev_char :: char

record user_window =
  uw_live :: bool
  uw_owner :: u32
  uw_id :: u64
  uw_title :: string
  uw_events :: "gui_event list"
  uw_head :: nat
  uw_tail :: nat
  uw_count :: nat

record elev_req =
  el_seq :: u64
  el_opened :: u64
  el_state :: u32
  el_pid :: u32
  el_uid :: u32
  el_attempts :: u32
  el_name :: string
  el_version :: string
  el_source :: string
  el_dest :: string

record shadow_entry =
  sh_fails :: u32
  sh_until :: u64

record trust =
  procs :: "u32 \<rightharpoonup> tproc"
  next_pid :: u32
  fb :: fbown
  user_windows :: "user_window list"
  next_win_id :: u64
  consent :: cap_consent
  elev :: elev_req
  elev_next :: u64
  shadow :: "string \<rightharpoonup> shadow_entry"
  always :: always_table
  always_loaded :: bool
  capallow :: "string option"
  cap_ledger :: "u32 list"
  ports :: "string list"
  shotq :: "string list"
  shotq_head :: nat
  shotq_tail :: nat

record tenv =
  e_now :: u64
  e_mounted :: bool
  e_write :: "string \<Rightarrow> string option \<Rightarrow> string option"
  e_jseq :: u64
  e_locked :: bool
  e_perms :: "string \<Rightarrow> u32 \<Rightarrow> u32 \<Rightarrow> bool"
  e_user :: "u32 \<Rightarrow> string option"
  e_admins :: "u32 list option"
  e_first_admin :: u32
  e_verify :: "string \<Rightarrow> string \<Rightarrow> bool"
  e_serial_fd :: int
  e_copy :: bool
  e_slot :: bool
  e_space :: bool

definition upd_proc :: "u32 \<Rightarrow> (tproc \<Rightarrow> tproc) \<Rightarrow> trust \<Rightarrow> trust" where
  "upd_proc pid f s = s\<lparr>procs := (procs s)(pid := map_option f (procs s pid))\<rparr>"

section \<open>The framebuffer latch\<close>

definition fbown_arm_rs :: "u32 \<Rightarrow> fbown \<Rightarrow> int \<times> fbown" where
  "fbown_arm_rs pid f = (if fb_owner f \<noteq> 0 then (0, f) else (1, f\<lparr>fb_expect := pid, fb_armed := True\<rparr>))"

definition fbown_disarm_rs :: "fbown \<Rightarrow> int \<times> fbown" where
  "fbown_disarm_rs f = (if fb_owner f \<noteq> 0 then (0, f) else (1, f\<lparr>fb_armed := False, fb_expect := 0\<rparr>))"

definition fbown_claim_rs :: "u32 \<Rightarrow> fbown \<Rightarrow> int \<times> fbown" where
  "fbown_claim_rs pid f =
     (if pid = 0 then (0, f)
      else if fb_owner f = pid then (1, f)
      else if fb_owner f \<noteq> 0 then (0, f)
      else if \<not> fb_armed f then (0, f)
      else if fb_expect f \<noteq> 0 \<and> fb_expect f \<noteq> pid then (0, f)
      else (1, f\<lparr>fb_owner := pid, fb_armed := False, fb_expect := 0\<rparr>))"

definition fbown_is_owner_rs :: "u32 \<Rightarrow> fbown \<Rightarrow> bool" where
  "fbown_is_owner_rs pid f \<longleftrightarrow> pid \<noteq> 0 \<and> fb_owner f = pid"

definition fbown_release_rs :: "u32 \<Rightarrow> fbown \<Rightarrow> int \<times> fbown" where
  "fbown_release_rs pid f =
     (if pid = 0 then (0, f)
      else if fb_owner f = pid then (1, f\<lparr>fb_owner := 0, fb_armed := False, fb_expect := 0\<rparr>)
      else (0, f))"

definition proc_gone :: "u32 \<Rightarrow> trust \<Rightarrow> bool" where
  "proc_gone pid s = (case procs s pid of None \<Rightarrow> True | Some p \<Rightarrow> tp_zombie p)"

text \<open>\<open>is_compositor\<close>: the owner, or whoever the claim succeeds for; a dead owner is released first.\<close>

definition is_compositor :: "u32 \<Rightarrow> trust \<Rightarrow> bool \<times> trust" where
  "is_compositor pid s =
     (if procs s pid = None then (False, s)
      else if fb_owner (fb s) = pid then (True, s)
      else if fb_owner (fb s) \<noteq> 0 \<and> \<not> proc_gone (fb_owner (fb s)) s then (False, s)
      else let f1 = (if fb_owner (fb s) \<noteq> 0 then snd (fbown_release_rs (fb_owner (fb s)) (fb s)) else fb s);
               (r, f2) = fbown_claim_rs pid f1
           in (r = 1, s\<lparr>fb := f2\<rparr>))"

definition caller_is_compositor :: "u32 \<Rightarrow> trust \<Rightarrow> bool" where
  "caller_is_compositor pid s \<longleftrightarrow> procs s pid \<noteq> None \<and> fbown_is_owner_rs pid (fb s)"

section \<open>Windows and input\<close>

definition MAX_USER_WINDOWS :: nat where "MAX_USER_WINDOWS = 16"
definition USER_EVENT_QUEUE_SIZE :: nat where "USER_EVENT_QUEUE_SIZE = 128"

definition win_ok :: "int \<Rightarrow> trust \<Rightarrow> bool" where
  "win_ok h s \<longleftrightarrow> 0 \<le> h \<and> h < int MAX_USER_WINDOWS \<and> uw_live (user_windows s ! nat h)"

definition upd_win :: "int \<Rightarrow> (user_window \<Rightarrow> user_window) \<Rightarrow> trust \<Rightarrow> trust" where
  "upd_win h f s = s\<lparr>user_windows := (user_windows s)[nat h := f (user_windows s ! nat h)]\<rparr>"

text \<open>The queued resize, if there is one, by its distance from the head.\<close>

definition queued_resize :: "user_window \<Rightarrow> nat option" where
  "queued_resize w =
     find_idx (\<lambda>e. ev_type e = EVENT_RESIZE)
       (map (\<lambda>i. uw_events w ! ((uw_head w + i) mod USER_EVENT_QUEUE_SIZE)) [0..<uw_count w])"

definition uw_enqueue :: "gui_event \<Rightarrow> user_window \<Rightarrow> user_window" where
  "uw_enqueue e w =
     (case (if ev_type e = EVENT_RESIZE then queued_resize w else None) of
        Some i \<Rightarrow> w\<lparr>uw_events := (uw_events w)[(uw_head w + i) mod USER_EVENT_QUEUE_SIZE := e]\<rparr>
      | None \<Rightarrow>
          let w1 = (if USER_EVENT_QUEUE_SIZE \<le> uw_count w
                    then w\<lparr>uw_head := (uw_head w + 1) mod USER_EVENT_QUEUE_SIZE, uw_count := uw_count w - 1\<rparr> else w)
          in w1\<lparr>uw_events := (uw_events w1)[uw_tail w1 := e],
                uw_tail := (uw_tail w1 + 1) mod USER_EVENT_QUEUE_SIZE, uw_count := uw_count w1 + 1\<rparr>)"

definition credits :: "gui_event \<Rightarrow> bool" where
  "credits e \<longleftrightarrow> ev_type e = EVENT_KEY_DOWN \<or> ev_type e = EVENT_MOUSE_DOWN \<or> ev_type e = EVENT_MOUSE_UP"

definition user_window_queue_event :: "tenv \<Rightarrow> int \<Rightarrow> gui_event \<Rightarrow> bool \<Rightarrow> trust \<Rightarrow> trust" where
  "user_window_queue_event e h ev hw s =
     (if \<not> win_ok h s then s
      else let s1 = upd_win h (uw_enqueue ev) s in
        if hw \<and> credits ev
        then upd_proc (uw_owner (user_windows s ! nat h)) (\<lambda>p. p\<lparr>tp_last_input := e_now e\<rparr>) s1
        else s1)"

definition userwin_is_compositor_owned :: "int \<Rightarrow> trust \<Rightarrow> bool" where
  "userwin_is_compositor_owned h s \<longleftrightarrow>
     win_ok h s \<and> fb_owner (fb s) \<noteq> 0 \<and> uw_owner (user_windows s ! nat h) = fb_owner (fb s)"

definition title_char :: "char \<Rightarrow> char" where
  "title_char c = (if c < CHR 0x20 \<or> CHR 0x7E < c \<or> c = CHR '':'' then CHR '' '' else c)"

definition userwin_target_resolve :: "int \<Rightarrow> nat \<Rightarrow> trust \<Rightarrow> (u64 \<times> string) option" where
  "userwin_target_resolve h titlesz s =
     (if \<not> win_ok h s \<or> userwin_is_compositor_owned h s then None
      else let w = user_windows s ! nat h; t = take (titlesz - 1) (map title_char (uw_title w))
           in Some (uw_id w, if t = [] then take (titlesz - 1) ''window'' else t))"

section \<open>Capability calls\<close>

text \<open>The request as the application passes it, with its \<open>char\<close> arrays.\<close>

record cap_req_arg =
  ra_cap :: u32
  ra_dur :: u32
  ra_kind :: u32
  ra_reason :: string
  ra_scope :: string

definition cap_ledger_note :: "nat \<Rightarrow> trust \<Rightarrow> trust" where
  "cap_ledger_note k s =
     (if k < length (cap_ledger s) then s\<lparr>cap_ledger := (cap_ledger s)[k := cap_ledger s ! k + 1]\<rparr> else s)"

definition CAP_LEDGER_REFUSED :: nat where "CAP_LEDGER_REFUSED = 0"
definition CAP_LEDGER_ALLOWED :: nat where "CAP_LEDGER_ALLOWED = 1"
definition CAP_LEDGER_REQUESTED :: nat where "CAP_LEDGER_REQUESTED = 2"
definition CAP_LEDGER_GRANTED :: nat where "CAP_LEDGER_GRANTED = 3"
definition CAP_LEDGER_DENIED :: nat where "CAP_LEDGER_DENIED = 4"
definition CAP_LEDGER_REVOKED :: nat where "CAP_LEDGER_REVOKED = 5"
definition CAP_INPUT_WINDOW_MS :: u64 where "CAP_INPUT_WINDOW_MS = 10000"
definition CAP_ONEUSE_TTL_MS :: u64 where "CAP_ONEUSE_TTL_MS = 60000"
definition CAP_ACT_DENY :: int where "CAP_ACT_DENY = 0"
definition CAP_ACT_APPROVE :: int where "CAP_ACT_APPROVE = 1"
definition CAP_ACT_APPROVE_ALWAYS :: int where "CAP_ACT_APPROVE_ALWAYS = 2"

primrec parse_handle_from :: "int \<Rightarrow> string \<Rightarrow> int" where
  "parse_handle_from v [] = v"
| "parse_handle_from v (c # s) =
     (if \<not> digit c then v
      else let v' = v * 10 + (of_char c - 48) in if 100000 < v' then v' else parse_handle_from v' s)"

definition cap_parse_handle :: "string \<Rightarrow> int" where
  "cap_parse_handle s = (if s = [] \<or> \<not> digit (hd s) then -1 else parse_handle_from 0 s)"

definition upd_grants :: "u32 \<Rightarrow> cap_grant list \<Rightarrow> trust \<Rightarrow> trust" where
  "upd_grants pid gs s = upd_proc pid (\<lambda>p. p\<lparr>tp_grants := gs\<rparr>) s"

definition cap_watchdog :: "tenv \<Rightarrow> trust \<Rightarrow> trust" where
  "cap_watchdog e s =
     (let owner = cap_req_owner_pid_rs (consent s) in
      if owner = 0 then s
      else s\<lparr>consent := snd (cap_req_tick_rs (e_now e) (procs s owner \<noteq> None) (consent s))\<rparr>)"

definition syscall_cap_check :: "tenv \<Rightarrow> u32 \<Rightarrow> nat \<Rightarrow> trust \<Rightarrow> int \<times> trust" where
  "syscall_cap_check e pid num s =
     (let need = cap_required_for_syscall num in
      if need = CAP_NONE then (0, s)
      else case procs s pid of None \<Rightarrow> (CAP_EDENIED, s)
      | Some p \<Rightarrow>
          if cap_find_live (tp_grants p) need (e_now e) \<noteq> None then (0, s)
          else (CAP_EDENIED, cap_ledger_note CAP_LEDGER_REFUSED s))"

definition consume :: "u32 \<Rightarrow> tproc \<Rightarrow> nat \<Rightarrow> trust \<Rightarrow> trust" where
  "consume pid p i s =
     cap_ledger_note CAP_LEDGER_ALLOWED (upd_grants pid (snd (cap_consume_use (tp_grants p) i)) s)"

definition caps_current_covers_path :: "tenv \<Rightarrow> u32 \<Rightarrow> u32 \<Rightarrow> string \<Rightarrow> trust \<Rightarrow> bool \<times> trust" where
  "caps_current_covers_path e pid cap path s =
     (case procs s pid of None \<Rightarrow> (False, s)
      | Some p \<Rightarrow>
          (case cap_covers_path (tp_grants p) cap path (e_now e) of
             None \<Rightarrow> (False, cap_ledger_note CAP_LEDGER_REFUSED s)
           | Some i \<Rightarrow> (True, consume pid p i s)))"

definition caps_current_covers_port :: "tenv \<Rightarrow> u32 \<Rightarrow> u32 \<Rightarrow> string \<Rightarrow> trust \<Rightarrow> bool \<times> trust" where
  "caps_current_covers_port e pid cap port s =
     (case procs s pid of None \<Rightarrow> (False, s)
      | Some p \<Rightarrow>
          (case cap_covers_port (tp_grants p) cap port (e_now e) of
             None \<Rightarrow> (False, cap_ledger_note CAP_LEDGER_REFUSED s)
           | Some i \<Rightarrow> (True, consume pid p i s)))"

definition caps_inject_authorize :: "tenv \<Rightarrow> u32 \<Rightarrow> bool \<Rightarrow> u64 \<Rightarrow> trust \<Rightarrow> int \<times> trust" where
  "caps_inject_authorize e pid owns target s =
     (case procs s pid of None \<Rightarrow> (CAP_EDENIED, s)
      | Some p \<Rightarrow>
          (case (if owns then cap_find_scope (tp_grants p) CAP_INPUT_INJECT CAP_SCOPE_WINDOW (e_now e) else None) of
             Some i \<Rightarrow> (0, consume pid p i s)
           | None \<Rightarrow>
               (case cap_covers_window_target (tp_grants p) CAP_INPUT_INJECT target (e_now e) of
                  Some i \<Rightarrow> (0, consume pid p i s)
                | None \<Rightarrow>
                    (if cap_find_live (tp_grants p) CAP_INPUT_INJECT (e_now e) = None then CAP_EDENIED else CAP_ESCOPE,
                     cap_ledger_note CAP_LEDGER_REFUSED s))))"

text \<open>The state that \<open>SYS_CAP_QUERY\<close> copies out is the first component.\<close>

definition sys_cap_query :: "tenv \<Rightarrow> u32 \<Rightarrow> u32 \<Rightarrow> trust \<Rightarrow> (int \<times> cap_grant option) \<times> trust" where
  "sys_cap_query e pid cap s =
     (case procs s pid of None \<Rightarrow> ((CAP_EARG, None), s)
      | Some p \<Rightarrow>
          let (st, gs) = cap_query (tp_grants p) cap (e_now e) in
          ((if e_copy e then 0 else CAP_EARG, st), upd_grants pid gs s))"

subsection \<open>Standing consents and their file\<close>

definition cap_always_load :: "tenv \<Rightarrow> trust \<Rightarrow> trust" where
  "cap_always_load e s =
     (let s1 = s\<lparr>always_loaded := True, always := cap_always_reset_rs\<rparr> in
      if \<not> e_mounted e then s1\<lparr>always_loaded := False\<rparr>
      else case capallow s of None \<Rightarrow> s1
      | Some d \<Rightarrow> if d = [] then s1 else s1\<lparr>always := cap_always_parse_rs d\<rparr>)"

definition CAPALLOW_BUF :: nat where "CAPALLOW_BUF = 4096"

definition cap_always_save :: "tenv \<Rightarrow> trust \<Rightarrow> trust" where
  "cap_always_save e s =
     (case cap_always_serialize_rs CAPALLOW_BUF (always s) of None \<Rightarrow> s
      | Some t \<Rightarrow> if t = [] then s else s\<lparr>capallow := e_write e t (capallow s)\<rparr>)"

definition cap_always_remember :: "tenv \<Rightarrow> cap_req \<Rightarrow> trust \<Rightarrow> trust" where
  "cap_always_remember e info s =
     (let app = (case procs s (rq_pid info) of Some p \<Rightarrow> tp_name p | None \<Rightarrow> []);
          (r, t) = cap_always_add_rs (rq_uid info) (rq_cap info) (rq_kind info) app (rq_scope info) (always s)
      in if r < 0 then s
         else if r = 1 then cap_always_save e (s\<lparr>always := t\<rparr>) else s)"

subsection \<open>Issuing, asking, resolving\<close>

definition cap_issue_approved :: "tenv \<Rightarrow> cap_req \<Rightarrow> trust \<Rightarrow> int \<times> trust" where
  "cap_issue_approved e info s =
     (case procs s (rq_pid info) of None \<Rightarrow> (CAP_ESTALE, s)
      | Some rp \<Rightarrow>
          let expires = (if rq_dur info = 0 then e_now e + CAP_ONEUSE_TTL_MS else e_now e + ucast (rq_dur info));
              uses = (if rq_dur info = 0 then 1 else CAP_USES_UNLIMITED)
          in case cap_issue (tp_grants rp) (rq_cap info) (rq_kind info) (rq_scope info) expires uses 0 of
               None \<Rightarrow> (CAP_EMAX, cap_ledger_note CAP_LEDGER_DENIED s)
             | Some (i, gs) \<Rightarrow>
                 (0, cap_ledger_note CAP_LEDGER_GRANTED
                       (upd_grants (rq_pid info) (gs[i := (gs ! i)\<lparr>gr_seq := e_jseq e\<rparr>]) s)))"

text \<open>The noun of a request: the text as passed, or for a target window the name that the kernel gives it.\<close>

definition req_noun :: "cap_req_arg \<Rightarrow> trust \<Rightarrow> string option" where
  "req_noun a s =
     (let scope = cstr (take (SCOPE_MAX - 1) (ra_scope a)) in
      if ra_cap a = CAP_INPUT_INJECT \<and> ra_kind a = CAP_SCOPE_WINDOW_TARGET then
        (let h = cap_parse_handle scope in
         if h < 0 then None
         else case userwin_target_resolve h 40 s of None \<Rightarrow> None
         | Some (wid, title) \<Rightarrow> Some (take (SCOPE_MAX - 1) (dec wid @ CHR '':'' # title)))
      else Some scope)"

definition req_info :: "u32 \<Rightarrow> tproc \<Rightarrow> cap_req_arg \<Rightarrow> string \<Rightarrow> cap_req" where
  "req_info pid p a scope = idle_req\<lparr>rq_pid := pid, rq_uid := tp_euid p, rq_cap := ra_cap a, rq_dur := ra_dur a,
     rq_kind := ra_kind a, rq_scope := take (SCOPE_MAX - 1) scope\<rparr>"

definition elev_owner_pid_rs :: "elev_req \<Rightarrow> u32" where
  "elev_owner_pid_rs g = (if el_state g = CAP_ST_OPEN then el_pid g else 0)"

text \<open>A standing consent skips the prompt; the value is \<open>None\<close> when it did not lead to a grant.\<close>

definition try_autogrant :: "tenv \<Rightarrow> u32 \<Rightarrow> tproc \<Rightarrow> cap_req_arg \<Rightarrow> string \<Rightarrow> trust \<Rightarrow> int option \<times> trust" where
  "try_autogrant e pid p a scope s =
     (if \<not> cap_always_match_rs (tp_euid p) (ra_cap a) (ra_kind a) (tp_name p) scope (always s) then (None, s)
      else let (aseq, c) = cap_req_autogrant_rs pid (tp_euid p) (e_now e) (ra_cap a) (ra_dur a) (ra_kind a)
                 (cstr (take (REASON_MAX - 1) (ra_reason a))) scope (tp_name p) (elev_owner_pid_rs (elev s) \<noteq> 0) (consent s);
               s1 = s\<lparr>consent := c\<rparr>
           in if aseq \<le> 0 then (None, s1)
              else let (r, s2) = cap_issue_approved e (req_info pid p a scope) s1
                   in if r = 0 then (Some aseq, s2) else (None, s2))"

definition raise_prompt :: "tenv \<Rightarrow> u32 \<Rightarrow> tproc \<Rightarrow> cap_req_arg \<Rightarrow> string \<Rightarrow> trust \<Rightarrow> int \<times> trust" where
  "raise_prompt e pid p a scope s =
     (if tp_last_input p = 0 \<or> CAP_INPUT_WINDOW_MS < e_now e - tp_last_input p
      then (CAP_ENOINPUT, cap_ledger_note CAP_LEDGER_DENIED s)
      else let s1 = cap_watchdog e s;
               (seq, c) = cap_req_open_rs pid (tp_euid p) (e_now e) (ra_cap a) (ra_dur a) (ra_kind a)
                 (cstr (take (REASON_MAX - 1) (ra_reason a))) scope (tp_name p) (elev_owner_pid_rs (elev s1) \<noteq> 0) (consent s1);
               s2 = s1\<lparr>consent := c\<rparr>
           in (seq, if 0 < seq then cap_ledger_note CAP_LEDGER_REQUESTED s2 else s2))"

definition sys_cap_request :: "tenv \<Rightarrow> u32 \<Rightarrow> cap_req_arg option \<Rightarrow> trust \<Rightarrow> int \<times> trust" where
  "sys_cap_request e pid arg s =
     (case procs s pid of None \<Rightarrow> (CAP_EARG, s)
      | Some p \<Rightarrow>
          if \<not> tp_user p then (CAP_EARG, s)
          else case arg of None \<Rightarrow> (CAP_EARG, s)
          | Some a \<Rightarrow>
              let scope0 = cstr (take (SCOPE_MAX - 1) (ra_scope a)) in
              if \<not> cap_is_issuable (ra_cap a) then (CAP_EPOLICY, cap_ledger_note CAP_LEDGER_DENIED s)
              else if \<not> cap_scope_valid (ra_cap a) (ra_kind a) scope0 then (CAP_ESCOPE, s)
              else case req_noun a s of None \<Rightarrow> (CAP_ESCOPE, cap_ledger_note CAP_LEDGER_DENIED s)
              | Some scope \<Rightarrow>
                  if ra_cap a = CAP_SERIAL_PORT \<and> scope \<notin> set (ports s)
                  then (CAP_ESCOPE, cap_ledger_note CAP_LEDGER_DENIED s)
                  else if fb_owner (fb s) = 0 then (CAP_ENOCONSENT, s)
                  else let s1 = (if always_loaded s then s else cap_always_load e s)
                       in case try_autogrant e pid p a scope s1 of
                            (Some aseq, s2) \<Rightarrow> (aseq, s2)
                          | (None, s2) \<Rightarrow> raise_prompt e pid p a scope s2)"

definition sys_cap_status :: "tenv \<Rightarrow> u64 \<Rightarrow> trust \<Rightarrow> int \<times> trust" where
  "sys_cap_status e seq s =
     (let s1 = cap_watchdog e s; st = cap_req_state_rs seq (consent s1)
      in (st, if st = uint CAP_ST_GRANTED \<or> st = uint CAP_ST_DENIED
              then s1\<lparr>consent := snd (cap_req_reap_rs seq (consent s1))\<rparr> else s1))"

definition sys_cap_view :: "tenv \<Rightarrow> u32 \<Rightarrow> trust \<Rightarrow> (int \<times> cap_req option) \<times> trust" where
  "sys_cap_view e pid s =
     (if \<not> caller_is_compositor pid s then ((CAP_EPERM, None), s)
      else let s1 = cap_watchdog e s in
        case cap_req_view_rs (consent s1) of None \<Rightarrow> ((0, None), s1)
        | Some v \<Rightarrow> (if e_copy e then (1, Some v) else (CAP_EARG, None), s1))"

definition sys_cap_resolve :: "tenv \<Rightarrow> u32 \<Rightarrow> u64 \<Rightarrow> int \<Rightarrow> trust \<Rightarrow> int \<times> trust" where
  "sys_cap_resolve e pid seq action s =
     (if \<not> caller_is_compositor pid s then (CAP_EPERM, s)
      else let s1 = cap_watchdog e s in
        if cap_req_owner_pid_rs (consent s1) = 0 then (CAP_ESTALE, s1)
        else if action = CAP_ACT_DENY then
          (let (r, c) = cap_req_resolve_rs seq False (consent s1); s2 = s1\<lparr>consent := c\<rparr>
           in (r, if r = 0 then cap_ledger_note CAP_LEDGER_DENIED s2 else s2))
        else if action \<noteq> CAP_ACT_APPROVE \<and> action \<noteq> CAP_ACT_APPROVE_ALWAYS then (CAP_EARG, s1)
        else case cap_req_approve_info_rs (consent s1) of None \<Rightarrow> (CAP_ESTALE, s1)
        | Some info \<Rightarrow>
            (case cap_req_resolve_rs seq True (consent s1) of (r, c) \<Rightarrow>
               if r \<noteq> 0 then (CAP_ESTALE, s1\<lparr>consent := c\<rparr>)
               else case cap_issue_approved e info (s1\<lparr>consent := c\<rparr>) of (rc, s2) \<Rightarrow>
                 (rc, if rc = 0 \<and> action = CAP_ACT_APPROVE_ALWAYS then cap_always_remember e info s2 else s2)))"

definition sys_cap_revoke :: "u32 \<Rightarrow> u32 \<Rightarrow> trust \<Rightarrow> int \<times> trust" where
  "sys_cap_revoke pid cap s =
     (case procs s pid of None \<Rightarrow> (CAP_EARG, s)
      | Some p \<Rightarrow> (0, cap_ledger_note CAP_LEDGER_REVOKED (upd_grants pid (snd (cap_revoke (tp_grants p) cap)) s)))"

end
