(* ===== verification/Elevate.thy ===== *)
theory Elevate
  imports Trust
begin

text \<open>
  Elevation for system-wide installs, after \<open>proc/elevate.c\<close>, \<open>rustkern/elevate.rs\<close> and the elevation authenticator of
  \<open>proc/users.c\<close>: one request at a time, three passwords, a grant of three minutes on two directories. The
  request is the field \<open>elev\<close> of the state, the grant two fields of the process.
\<close>

section \<open>Constants\<close>

named_theorems elev_consts \<open>the constants of elevate.h\<close>

definition ELEV_EARG :: int where [elev_consts]: "ELEV_EARG = -1"
definition ELEV_EBUSY :: int where [elev_consts]: "ELEV_EBUSY = -2"
definition ELEV_ESTALE :: int where [elev_consts]: "ELEV_ESTALE = -3"
definition ELEV_EPERM :: int where [elev_consts]: "ELEV_EPERM = -4"
definition ELEV_EROOT :: int where [elev_consts]: "ELEV_EROOT = -5"
definition ELEV_EATTEMPTS :: int where [elev_consts]: "ELEV_EATTEMPTS = -6"
definition ELEV_ELOCKED :: int where [elev_consts]: "ELEV_ELOCKED = -7"
definition ELEV_ENOINPUT :: int where [elev_consts]: "ELEV_ENOINPUT = -8"
definition ELEV_ACT_CANCEL :: int where [elev_consts]: "ELEV_ACT_CANCEL = 0"
definition ELEV_ACT_SUBMIT :: int where [elev_consts]: "ELEV_ACT_SUBMIT = 1"
definition ELEV_ACT_LOCKSECS :: int where [elev_consts]: "ELEV_ACT_LOCKSECS = 2"
definition ELEV_INPUT_WINDOW_MS :: u64 where [elev_consts]: "ELEV_INPUT_WINDOW_MS = 10000"
definition ELEV_GRANT_TTL_MS :: u64 where [elev_consts]: "ELEV_GRANT_TTL_MS = 180000"
definition ELEV_OPEN_TTL_MS :: u64 where [elev_consts]: "ELEV_OPEN_TTL_MS = 120000"
definition ATTEMPTS_MAX :: u32 where [elev_consts]: "ATTEMPTS_MAX = 3"
definition DISPLAY_CHARS :: nat where [elev_consts]: "DISPLAY_CHARS = 40"
definition ELEV_SYS_APPS_DIR :: string where "ELEV_SYS_APPS_DIR = ''/APPS''"
definition ELEV_SYS_MENU_DIR :: string where "ELEV_SYS_MENU_DIR = ''/CONFIG/STARTMENU/SYSTEM.D''"

section \<open>The request\<close>

definition elev_sanitize :: "nat \<Rightarrow> string \<Rightarrow> string" where
  "elev_sanitize n src =
     (let p = filter printable (take 512 src); limit = min (n - 1) DISPLAY_CHARS in
      if length p \<le> limit then p
      else take limit p @ (if limit + 3 \<le> n - 1 then ''...'' else []))"

definition elev_open_rs ::
  "u32 \<Rightarrow> u32 \<Rightarrow> u64 \<Rightarrow> string \<Rightarrow> string \<Rightarrow> string \<Rightarrow> string \<Rightarrow> trust \<Rightarrow> int \<times> trust" where
  "elev_open_rs pid uid now name version source dest s =
     (if el_state (elev s) = CAP_ST_OPEN then (ELEV_EBUSY, s)
      else if pid = 0 then (ELEV_EARG, s)
      else (sint (elev_next s),
            s\<lparr>elev := \<lparr>el_seq = elev_next s, el_opened = now, el_state = CAP_ST_OPEN, el_pid = pid, el_uid = uid,
                el_attempts = 0, el_name = elev_sanitize 64 name, el_version = elev_sanitize 32 version,
                el_source = elev_sanitize 64 source, el_dest = elev_sanitize 96 dest\<rparr>,
              elev_next := elev_next s + 1\<rparr>))"

definition elev_view_rs :: "trust \<Rightarrow> elev_req option" where
  "elev_view_rs s = (if el_state (elev s) \<noteq> CAP_ST_OPEN then None else Some (elev s))"

definition elev_state_rs :: "u64 \<Rightarrow> trust \<Rightarrow> int" where
  "elev_state_rs seq s = (if seq = 0 \<or> el_seq (elev s) \<noteq> seq then ELEV_ESTALE else uint (el_state (elev s)))"

definition elev_owner_uid_rs :: "trust \<Rightarrow> u32" where
  "elev_owner_uid_rs s = (if el_state (elev s) = CAP_ST_OPEN then el_uid (elev s) else 0xFFFFFFFF)"

definition elev_attempt_rs :: "u64 \<Rightarrow> bool \<Rightarrow> trust \<Rightarrow> int \<times> trust" where
  "elev_attempt_rs seq ok s =
     (let g = elev s in
      if el_state g \<noteq> CAP_ST_OPEN \<or> el_seq g \<noteq> seq then (ELEV_ESTALE, s)
      else if ok then (0, s\<lparr>elev := g\<lparr>el_state := CAP_ST_GRANTED\<rparr>\<rparr>)
      else let n = el_attempts g + 1 in
        if ATTEMPTS_MAX \<le> n then (0, s\<lparr>elev := g\<lparr>el_attempts := n, el_state := CAP_ST_DENIED\<rparr>\<rparr>)
        else (uint (ATTEMPTS_MAX - n), s\<lparr>elev := g\<lparr>el_attempts := n\<rparr>\<rparr>))"

definition elev_cancel_rs :: "u64 \<Rightarrow> trust \<Rightarrow> int \<times> trust" where
  "elev_cancel_rs seq s =
     (if el_state (elev s) \<noteq> CAP_ST_OPEN \<or> el_seq (elev s) \<noteq> seq then (ELEV_ESTALE, s)
      else (0, s\<lparr>elev := (elev s)\<lparr>el_state := CAP_ST_DENIED\<rparr>\<rparr>))"

definition elev_reap_rs :: "u64 \<Rightarrow> trust \<Rightarrow> int \<times> trust" where
  "elev_reap_rs seq s =
     (if el_seq (elev s) \<noteq> seq \<or> el_state (elev s) = CAP_ST_OPEN then (ELEV_ESTALE, s)
      else (0, s\<lparr>elev := (elev s)\<lparr>el_state := CAP_ST_IDLE, el_pid := 0\<rparr>\<rparr>))"

definition elev_tick_rs :: "u64 \<Rightarrow> bool \<Rightarrow> trust \<Rightarrow> bool \<times> trust" where
  "elev_tick_rs now alive s =
     (if el_state (elev s) \<noteq> CAP_ST_OPEN then (False, s)
      else if \<not> alive \<or> ELEV_OPEN_TTL_MS < now - el_opened (elev s) then
        (True, s\<lparr>elev := (elev s)\<lparr>el_state := CAP_ST_DENIED\<rparr>\<rparr>)
      else (False, s))"

section \<open>Coverage of a path\<close>

definition elev_path_covered_rs :: "string \<Rightarrow> string \<Rightarrow> bool" where
  "elev_path_covered_rs path prefix =
     (if path = [] \<or> prefix = [] \<or> hd path \<noteq> CHR ''/'' \<or> hd prefix \<noteq> CHR ''/'' then False
      else case plain_scan 512 0 0 0 path of None \<Rightarrow> False
      | Some i \<Rightarrow>
          (let plen = min 128 (length prefix) in
           if plen = 0 \<or> i < plen then False
           else if take plen path \<noteq> take plen prefix then False
           else drop plen path = [] \<or> path ! plen = CHR ''/''))"

section \<open>The authenticator\<close>

definition upd_shadow :: "string \<Rightarrow> shadow_entry \<Rightarrow> trust \<Rightarrow> trust" where
  "upd_shadow name x s = s\<lparr>shadow := (shadow s)(name \<mapsto> x)\<rparr>"

definition apply_elev_lockout :: "tenv \<Rightarrow> shadow_entry \<Rightarrow> shadow_entry" where
  "apply_elev_lockout e x =
     (let secs = (if 10 \<le> sh_fails x then 300 else if 5 \<le> sh_fails x then 30 else 0 :: u64) in
      if secs \<noteq> 0 then x\<lparr>sh_until := e_now e + secs * 1000\<rparr> else x)"

definition users_elev_lockout :: "tenv \<Rightarrow> string \<Rightarrow> trust \<Rightarrow> int" where
  "users_elev_lockout e name s =
     (case shadow s name of None \<Rightarrow> 0
      | Some x \<Rightarrow> if sh_until x = 0 \<or> sh_until x \<le> e_now e then 0
                  else sint (ucast ((sh_until x - e_now e) div 1000) :: u32) + 1)"

definition users_authenticate_elev :: "tenv \<Rightarrow> string \<Rightarrow> string \<Rightarrow> trust \<Rightarrow> int \<times> trust" where
  "users_authenticate_elev e name pw s =
     (if pw = [] then (-1, s)
      else case shadow s name of None \<Rightarrow> (-1, s)
      | Some x \<Rightarrow>
          if sh_until x \<noteq> 0 \<and> e_now e < sh_until x then (-2, s)
          else let x1 = x\<lparr>sh_until := 0\<rparr> in
            if e_verify e name pw then (0, upd_shadow name (x1\<lparr>sh_fails := 0\<rparr>) s)
            else let x2 = apply_elev_lockout e (x1\<lparr>sh_fails := sh_fails x1 + 1\<rparr>) in
              (if sh_until x2 \<noteq> 0 \<and> e_now e < sh_until x2 then -2 else -1, upd_shadow name x2 s))"

definition users_may_elevate :: "tenv \<Rightarrow> u32 \<Rightarrow> bool" where
  "users_may_elevate e uid =
     (if uid = 0 then True
      else case e_admins e of Some members \<Rightarrow> uid \<in> set members | None \<Rightarrow> uid = e_first_admin e)"

section \<open>System calls\<close>

record elev_request =
  er_name :: string
  er_version :: string
  er_source :: string

definition elev_watchdog :: "tenv \<Rightarrow> trust \<Rightarrow> trust" where
  "elev_watchdog e s =
     (let owner = elev_owner_pid_rs (elev s) in
      if owner = 0 then s else snd (elev_tick_rs (e_now e) (procs s owner \<noteq> None) s))"

definition sys_elev_request :: "tenv \<Rightarrow> u32 \<Rightarrow> elev_request option \<Rightarrow> trust \<Rightarrow> int \<times> trust" where
  "sys_elev_request e pid arg s =
     (case procs s pid of None \<Rightarrow> (ELEV_EARG, s)
      | Some p \<Rightarrow>
          if \<not> tp_user p then (ELEV_EARG, s)
          else if tp_euid p = 0 then (ELEV_EROOT, s)
          else if \<not> users_may_elevate e (tp_euid p) then (ELEV_EPERM, s)
          else if tp_last_input p = 0 \<or> ELEV_INPUT_WINDOW_MS < e_now e - tp_last_input p then (ELEV_ENOINPUT, s)
          else let s1 = elev_watchdog e s in
            case arg of None \<Rightarrow> (ELEV_EARG, s1)
            | Some a \<Rightarrow> elev_open_rs pid (tp_euid p) (e_now e) (cstr (take 63 (er_name a)))
                (cstr (take 31 (er_version a))) (cstr (take 63 (er_source a))) ELEV_SYS_APPS_DIR s1)"

definition sys_elev_status :: "tenv \<Rightarrow> u64 \<Rightarrow> trust \<Rightarrow> int \<times> trust" where
  "sys_elev_status e seq s =
     (let s1 = elev_watchdog e s; st = elev_state_rs seq s1
      in (st, if st = uint CAP_ST_GRANTED \<or> st = uint CAP_ST_DENIED then snd (elev_reap_rs seq s1) else s1))"

definition sys_elev_view :: "tenv \<Rightarrow> u32 \<Rightarrow> trust \<Rightarrow> (int \<times> elev_req option) \<times> trust" where
  "sys_elev_view e pid s =
     (if \<not> caller_is_compositor pid s then ((ELEV_EPERM, None), s)
      else let s1 = elev_watchdog e s in
        case elev_view_rs s1 of None \<Rightarrow> ((0, None), s1)
        | Some v \<Rightarrow> (if e_copy e then (1, Some v) else (ELEV_EARG, None), s1))"

definition grant_elevation :: "tenv \<Rightarrow> tproc \<Rightarrow> tproc" where
  "grant_elevation e p =
     p\<lparr>tp_elev_until := e_now e + ELEV_GRANT_TTL_MS, tp_elev_prefix := [ELEV_SYS_APPS_DIR, ELEV_SYS_MENU_DIR]\<rparr>"

definition sys_elev_resolve :: "tenv \<Rightarrow> u32 \<Rightarrow> u64 \<Rightarrow> int \<Rightarrow> string \<Rightarrow> trust \<Rightarrow> int \<times> trust" where
  "sys_elev_resolve e pid seq action pw s =
     (if \<not> caller_is_compositor pid s then (ELEV_EPERM, s)
      else let s1 = elev_watchdog e s; uid = elev_owner_uid_rs s1; rpid = elev_owner_pid_rs (elev s1) in
        if rpid = 0 \<or> uid = 0xFFFFFFFF then (ELEV_ESTALE, s1)
        else case e_user e uid of None \<Rightarrow> (ELEV_ESTALE, s1)
        | Some name \<Rightarrow>
            if action = ELEV_ACT_CANCEL then elev_cancel_rs seq s1
            else if action = ELEV_ACT_LOCKSECS then (users_elev_lockout e name s1, s1)
            else if action \<noteq> ELEV_ACT_SUBMIT then (ELEV_EARG, s1)
            else if pw = [] then (ELEV_EARG, s1)
            else case users_authenticate_elev e name pw s1 of (ar, s2) \<Rightarrow>
              if ar = -2 then (ELEV_ELOCKED, s2)
              else if ar \<noteq> 0 then
                (case elev_attempt_rs seq False s2 of (left, s3) \<Rightarrow> (if left \<le> 0 then ELEV_EATTEMPTS else left, s3))
              else case elev_attempt_rs seq True s2 of (r, s3) \<Rightarrow>
                if r \<noteq> 0 then (ELEV_ESTALE, s3)
                else if procs s3 rpid = None then (ELEV_ESTALE, s3)
                else (0, upd_proc rpid (grant_elevation e) s3))"

definition sys_elev_may :: "tenv \<Rightarrow> u32 \<Rightarrow> trust \<Rightarrow> int" where
  "sys_elev_may e pid s =
     (case procs s pid of None \<Rightarrow> 0 | Some p \<Rightarrow> if users_may_elevate e (tp_euid p) then 1 else 0)"

definition clear_elevation :: "tproc \<Rightarrow> tproc" where
  "clear_elevation p = p\<lparr>tp_elev_until := 0, tp_elev_prefix := [[], []]\<rparr>"

definition elev_grant_permits :: "tenv \<Rightarrow> u32 \<Rightarrow> string \<Rightarrow> u32 \<Rightarrow> trust \<Rightarrow> bool \<times> trust" where
  "elev_grant_permits e pid path uid s =
     (case procs s pid of None \<Rightarrow> (False, s)
      | Some p \<Rightarrow>
          if tp_elev_until p = 0 then (False, s)
          else if tp_elev_until p < e_now e then (False, upd_proc pid clear_elevation s)
          else if uid \<noteq> tp_euid p then (False, s)
          else (list_ex (\<lambda>pre. pre \<noteq> [] \<and> elev_path_covered_rs path pre) (tp_elev_prefix p), s))"

end
