(* ===== verification/Trust_Calls.thy ===== *)
theory Trust_Calls
  imports Elevate
begin

text \<open>
  The gated system calls and the life of the processes that hold grants, and the machine they form: a history is a list
  of events, the latest first, each with the state it found, its environment, the call and what it returned.
\<close>

section \<open>Gated calls\<close>

text \<open>The check that the dispatcher makes before the handler of call number \<open>num\<close> runs.\<close>

definition gated :: "tenv \<Rightarrow> u32 \<Rightarrow> nat \<Rightarrow> (trust \<Rightarrow> int \<times> trust) \<Rightarrow> trust \<Rightarrow> int \<times> trust" where
  "gated e pid num f s = (case syscall_cap_check e pid num s of (r, s1) \<Rightarrow> if r \<noteq> 0 then (r, s1) else f s1)"

definition SHOTQ_MAX :: nat where "SHOTQ_MAX = 4"
definition SHOTQ_PATHLEN :: nat where "SHOTQ_PATHLEN = 128"
definition SHOT_EPERM_REQUESTER :: int where "SHOT_EPERM_REQUESTER = -13"
definition SHOT_EPERM_WRITER :: int where "SHOT_EPERM_WRITER = -14"
definition SHOT_ENOWRITER :: int where "SHOT_ENOWRITER = -15"

definition shotq_full :: "trust \<Rightarrow> bool" where
  "shotq_full s \<longleftrightarrow> (shotq_tail s + 1) mod SHOTQ_MAX = shotq_head s"

definition shotq_empty :: "trust \<Rightarrow> bool" where "shotq_empty s \<longleftrightarrow> shotq_head s = shotq_tail s"

definition screenshot_enqueue :: "string \<Rightarrow> trust \<Rightarrow> int \<times> trust" where
  "screenshot_enqueue path s =
     (if path = [] then (-1, s)
      else if shotq_full s then (-1, s)
      else (0, s\<lparr>shotq := (shotq s)[shotq_tail s := take (SHOTQ_PATHLEN - 1) path],
                shotq_tail := (shotq_tail s + 1) mod SHOTQ_MAX\<rparr>))"

definition sys_screenshot_request :: "tenv \<Rightarrow> u32 \<Rightarrow> string option \<Rightarrow> trust \<Rightarrow> int \<times> trust" where
  "sys_screenshot_request e pid upath s =
     (case procs s pid of None \<Rightarrow> (-1, s)
      | Some p \<Rightarrow>
          (case upath of None \<Rightarrow> (CAP_EARG, s)
           | Some u \<Rightarrow>
               let path = take (SHOTQ_PATHLEN - 1) (cstr u) in
               case cap_covers_path (tp_grants p) CAP_SCREEN_CAPTURE path (e_now e) of
                 None \<Rightarrow> (CAP_EDENIED, cap_ledger_note CAP_LEDGER_REFUSED s)
               | Some i \<Rightarrow>
                   if \<not> e_perms e path (tp_euid p) (tp_egid p) then (SHOT_EPERM_REQUESTER, s)
                   else case (if fb_owner (fb s) = 0 then None else procs s (fb_owner (fb s))) of
                     None \<Rightarrow> (SHOT_ENOWRITER, s)
                   | Some w \<Rightarrow>
                       if fb_owner (fb s) \<noteq> pid \<and> \<not> e_perms e path (tp_euid w) (tp_egid w) then (SHOT_EPERM_WRITER, s)
                       else if shotq_full s then (-11, s)
                       else case screenshot_enqueue path s of (r, s1) \<Rightarrow>
                         if r \<noteq> 0 then (-11, s1) else (0, consume pid p i s1)))"

text \<open>What is copied out is the second component.\<close>

definition sys_screenshot_poll :: "tenv \<Rightarrow> u32 \<Rightarrow> int \<Rightarrow> trust \<Rightarrow> (int \<times> string) \<times> trust" where
  "sys_screenshot_poll e pid cap s =
     (if \<not> caller_is_compositor pid s then ((-1, []), s)
      else if shotq_empty s then ((0, []), s)
      else if cap \<le> 0 then ((-1, []), s)
      else let path = take (SHOTQ_PATHLEN - 1) (shotq s ! shotq_head s);
               s1 = s\<lparr>shotq_head := (shotq_head s + 1) mod SHOTQ_MAX\<rparr>;
               n = min (int (length path)) (cap - 1)
           in if e_copy e then ((n, take (nat n) path), s1) else ((-1, []), s1))"

definition sys_serial_open :: "tenv \<Rightarrow> u32 \<Rightarrow> string option \<Rightarrow> trust \<Rightarrow> int \<times> trust" where
  "sys_serial_open e pid uname s =
     (case uname of None \<Rightarrow> (-1, s)
      | Some u \<Rightarrow>
          let name = take 15 (cstr u) in
          if name \<notin> set (ports s) then (-3, s)
          else case caps_current_covers_port e pid CAP_SERIAL_PORT name s of (ok, s1) \<Rightarrow>
            if \<not> ok then (-3, s1) else (if e_serial_fd e < 0 then -1 else e_serial_fd e, s1))"

definition cap_inject_guard :: "tenv \<Rightarrow> u32 \<Rightarrow> int \<Rightarrow> trust \<Rightarrow> int \<times> trust" where
  "cap_inject_guard e pid h s =
     (if procs s pid = None then (CAP_EDENIED, s)
      else if elev_owner_pid_rs (elev s) \<noteq> 0 \<or> cap_req_busy_rs (consent s) then (CAP_EBUSY, s)
      else if e_locked e then (CAP_EBUSY, s)
      else if \<not> win_ok h s then (CAP_ESCOPE, s)
      else if userwin_is_compositor_owned h s then (CAP_ESCOPE, s)
      else caps_inject_authorize e pid (uw_owner (user_windows s ! nat h) = pid) (uw_id (user_windows s ! nat h)) s)"

definition key_event :: "event_type \<Rightarrow> u32 \<Rightarrow> gui_event" where
  "key_event t key = \<lparr>ev_type = t, ev_x = 0, ev_y = 0, ev_buttons = 0, ev_keycode = key,
     ev_char = (if 0x20 \<le> key \<and> key \<le> 0x7E then char_of (unat key) else NUL)\<rparr>"

definition sys_cap_inject_key :: "tenv \<Rightarrow> u32 \<Rightarrow> int \<Rightarrow> u32 \<Rightarrow> trust \<Rightarrow> int \<times> trust" where
  "sys_cap_inject_key e pid h key s =
     (case cap_inject_guard e pid h s of (g, s1) \<Rightarrow>
        if g \<noteq> 0 then (g, s1) else (0, user_window_queue_event e h (key_event EVENT_KEY_DOWN key) False s1))"

definition sys_cap_inject_key_up :: "tenv \<Rightarrow> u32 \<Rightarrow> int \<Rightarrow> u32 \<Rightarrow> trust \<Rightarrow> int \<times> trust" where
  "sys_cap_inject_key_up e pid h key s =
     (case cap_inject_guard e pid h s of (g, s1) \<Rightarrow>
        if g \<noteq> 0 then (g, s1) else (0, user_window_queue_event e h (key_event EVENT_KEY_UP key) False s1))"

definition mouse_type :: "int \<Rightarrow> event_type option" where
  "mouse_type t = (if t = 0 then Some EVENT_MOUSE_MOVE else if t = 1 then Some EVENT_MOUSE_DOWN
     else if t = 2 then Some EVENT_MOUSE_UP else None)"

definition sys_cap_inject_mouse :: "tenv \<Rightarrow> u32 \<Rightarrow> int \<Rightarrow> int \<Rightarrow> int \<Rightarrow> int \<Rightarrow> u32 \<Rightarrow> trust \<Rightarrow> int \<times> trust" where
  "sys_cap_inject_mouse e pid h x y type button s =
     (case cap_inject_guard e pid h s of (g, s1) \<Rightarrow>
        if g \<noteq> 0 then (g, s1)
        else case mouse_type type of None \<Rightarrow> (CAP_EARG, s1)
        | Some t \<Rightarrow>
            (0, user_window_queue_event e h \<lparr>ev_type = t, ev_x = x, ev_y = y,
                  ev_buttons = (if button = 2 then 2 else 1), ev_keycode = 0, ev_char = NUL\<rparr> False s1))"

section \<open>Processes\<close>

definition basename :: "string \<Rightarrow> string" where
  "basename path = rev (takeWhile (\<lambda>c. c \<noteq> CHR ''/'') (rev path))"

text \<open>A zeroed \<open>process_t\<close> with its name and identity: \<open>init_proc\<close>, called for the program at \<open>path\<close>.\<close>

definition fresh_proc :: "string \<Rightarrow> u32 \<Rightarrow> u32 \<Rightarrow> tproc" where
  "fresh_proc path uid gid = \<lparr>tp_name = take 31 (basename path), tp_user = True, tp_zombie = False, tp_euid = uid,
     tp_egid = gid, tp_last_input = 0, tp_elev_until = 0, tp_elev_prefix = [[], []],
     tp_grants = replicate CAP_MAX_GRANTS clear_slot\<rparr>"

definition proc_spawn :: "tenv \<Rightarrow> string \<Rightarrow> u32 \<Rightarrow> u32 \<Rightarrow> trust \<Rightarrow> int \<times> trust" where
  "proc_spawn e path uid gid s =
     (if \<not> e_slot e then (-1, s)
      else if \<not> e_space e then (-1, s\<lparr>next_pid := next_pid s + 1\<rparr>)
      else (uint (next_pid s),
            s\<lparr>procs := (procs s)(next_pid s \<mapsto> fresh_proc path uid gid), next_pid := next_pid s + 1\<rparr>))"

text \<open>The child is a copy of the whole \<open>process_t\<close>; of the fields modelled here the code then writes only the state.\<close>

definition proc_fork :: "tenv \<Rightarrow> u32 \<Rightarrow> trust \<Rightarrow> int \<times> trust" where
  "proc_fork e pid s =
     (case procs s pid of None \<Rightarrow> (-1, s)
      | Some p \<Rightarrow>
          if \<not> e_slot e then (-1, s)
          else if \<not> e_space e then (-1, s\<lparr>next_pid := next_pid s + 1\<rparr>)
          else (uint (next_pid s),
                s\<lparr>procs := (procs s)(next_pid s \<mapsto> p\<lparr>tp_zombie := False\<rparr>), next_pid := next_pid s + 1\<rparr>))"

text \<open>Loading a new image into a running process: of the fields modelled here \<open>proc_execve_arm\<close> and
  \<open>proc_execve_finalize\<close> write none: name, identity, input credit, elevation and grants all stay.
  \<open>e_space\<close> says that the file can be read and run and its address space made.\<close>

definition proc_execve :: "tenv \<Rightarrow> u32 \<Rightarrow> trust \<Rightarrow> int \<times> trust" where
  "proc_execve e pid s =
     (case procs s pid of None \<Rightarrow> (-1, s)
      | Some p \<Rightarrow> if \<not> tp_user p \<or> \<not> e_space e then (-1, s) else (0, s))"

definition cleanup_user_windows_for_process :: "u32 \<Rightarrow> trust \<Rightarrow> trust" where
  "cleanup_user_windows_for_process pid s = s\<lparr>user_windows :=
     map (\<lambda>w. if uw_live w \<and> uw_owner w = pid then w\<lparr>uw_live := False, uw_owner := 0, uw_count := 0\<rparr> else w) (user_windows s)\<rparr>"

definition proc_exit :: "u32 \<Rightarrow> trust \<Rightarrow> trust" where
  "proc_exit pid s =
     (let s1 = cleanup_user_windows_for_process pid s
      in upd_proc pid (\<lambda>p. p\<lparr>tp_zombie := True\<rparr>) (s1\<lparr>fb := snd (fbown_release_rs pid (fb s1))\<rparr>))"

definition proc_reap :: "u32 \<Rightarrow> trust \<Rightarrow> trust" where
  "proc_reap pid s =
     (case procs s pid of Some p \<Rightarrow> if tp_zombie p then s\<lparr>procs := (procs s)(pid := None)\<rparr> else s | None \<Rightarrow> s)"

definition set_ids :: "u32 \<Rightarrow> u32 \<Rightarrow> u32 \<Rightarrow> trust \<Rightarrow> trust" where
  "set_ids pid uid gid s = upd_proc pid (\<lambda>p. p\<lparr>tp_euid := uid, tp_egid := gid\<rparr>) s"

definition new_window :: "u32 \<Rightarrow> u64 \<Rightarrow> string \<Rightarrow> user_window \<Rightarrow> user_window" where
  "new_window pid i title w = w\<lparr>uw_live := True, uw_owner := pid, uw_id := i, uw_title := take 63 (cstr title),
     uw_head := 0, uw_tail := 0, uw_count := 0\<rparr>"

definition sys_win_create :: "u32 \<Rightarrow> string \<Rightarrow> trust \<Rightarrow> int \<times> trust" where
  "sys_win_create pid title s =
     (case find_idx (\<lambda>w. \<not> uw_live w) (user_windows s) of None \<Rightarrow> (-1, s)
      | Some i \<Rightarrow> (int i, s\<lparr>user_windows := (user_windows s)[i := new_window pid (next_win_id s) title (user_windows s ! i)],
          next_win_id := next_win_id s + 1\<rparr>))"

text \<open>\<open>sys_win_destroy\<close> does not ask whose window the handle is, and leaves the owner in the slot. Titles change after
  creation only in the kernel (the Win16 task bar); the machine lets any title change at any time.\<close>

definition sys_win_destroy :: "int \<Rightarrow> trust \<Rightarrow> int \<times> trust" where
  "sys_win_destroy h s =
     (if \<not> win_ok h s then (-1, s)
      else (0, s\<lparr>user_windows := (user_windows s)[nat h := (user_windows s ! nat h)\<lparr>uw_live := False, uw_count := 0\<rparr>]\<rparr>))"

definition window_set_title :: "int \<Rightarrow> string \<Rightarrow> trust \<Rightarrow> trust" where
  "window_set_title h title s =
     (if \<not> win_ok h s then s
      else s\<lparr>user_windows := (user_windows s)[nat h := (user_windows s ! nat h)\<lparr>uw_title := take 63 (cstr title)\<rparr>]\<rparr>)"

section \<open>The machine\<close>

datatype tcall =
    CapQuery u32 u32
  | CapRequest u32 "cap_req_arg option"
  | CapStatus u64
  | CapView u32
  | CapResolve u32 u64 int
  | CapRevoke u32 u32
  | ScreenshotRequest u32 "string option"
  | ScreenshotPoll u32 int
  | SerialOpen u32 "string option"
  | InjectKey u32 int u32
  | InjectKeyUp u32 int u32
  | InjectMouse u32 int int int int u32
  | ElevRequest u32 "elev_request option"
  | ElevStatus u64
  | ElevView u32
  | ElevResolve u32 u64 int string
  | ElevPermits u32 string u32
  | HwInput int gui_event
  | WinCreate u32 string
  | WinDestroy int
  | WinTitle int string
  | Spawn string u32 u32
  | Fork u32
  | Execve u32
  | Exit u32
  | Reap u32
  | SetIds u32 u32 u32
  | FbArm u32
  | FbDisarm
  | FbMap u32
  | KernelShot string
  | Publish string
  | Reboot

definition zero_event :: gui_event where
  "zero_event = \<lparr>ev_type = EVENT_OTHER, ev_x = 0, ev_y = 0, ev_buttons = 0, ev_keycode = 0, ev_char = NUL\<rparr>"

definition zero_window :: user_window where
  "zero_window = \<lparr>uw_live = False, uw_owner = 0, uw_id = 0, uw_title = [],
     uw_events = replicate USER_EVENT_QUEUE_SIZE zero_event, uw_head = 0, uw_tail = 0, uw_count = 0\<rparr>"

text \<open>The static initialisers: what a boot leaves is the file.\<close>

definition boot :: "(string \<rightharpoonup> shadow_entry) \<Rightarrow> string option \<Rightarrow> trust" where
  "boot sh cfg = \<lparr>procs = Map.empty, next_pid = 1, fb = \<lparr>fb_owner = 0, fb_expect = 0, fb_armed = False\<rparr>,
     user_windows = replicate MAX_USER_WINDOWS zero_window, next_win_id = 1,
     consent = \<lparr>greq = idle_req, next_seq = 1\<rparr>,
     elev = \<lparr>el_seq = 0, el_opened = 0, el_state = CAP_ST_IDLE, el_pid = 0, el_uid = 0, el_attempts = 0, el_name = [],
             el_version = [], el_source = [], el_dest = []\<rparr>,
     elev_next = 1, shadow = map_option (\<lambda>_. \<lparr>sh_fails = 0, sh_until = 0\<rparr>) \<circ> sh, always = cap_always_reset_rs, always_loaded = False,
     capallow = cfg, cap_ledger = replicate 6 0, ports = [], shotq = replicate SHOTQ_MAX [], shotq_head = 0,
     shotq_tail = 0\<rparr>"

definition of_bool_ret :: "bool \<times> trust \<Rightarrow> int \<times> trust" where
  "of_bool_ret x = (if fst x then 1 else 0, snd x)"

primrec tcall_exec :: "tenv \<Rightarrow> tcall \<Rightarrow> trust \<Rightarrow> int \<times> trust" where
  "tcall_exec e (CapQuery pid cap) s = map_prod fst id (sys_cap_query e pid cap s)"
| "tcall_exec e (CapRequest pid a) s = sys_cap_request e pid a s"
| "tcall_exec e (CapStatus seq) s = sys_cap_status e seq s"
| "tcall_exec e (CapView pid) s = map_prod fst id (sys_cap_view e pid s)"
| "tcall_exec e (CapResolve pid seq act) s = sys_cap_resolve e pid seq act s"
| "tcall_exec e (CapRevoke pid cap) s = sys_cap_revoke pid cap s"
| "tcall_exec e (ScreenshotRequest pid path) s = gated e pid 435 (sys_screenshot_request e pid path) s"
| "tcall_exec e (ScreenshotPoll pid n) s = map_prod fst id (sys_screenshot_poll e pid n s)"
| "tcall_exec e (SerialOpen pid name) s = gated e pid 438 (sys_serial_open e pid name) s"
| "tcall_exec e (InjectKey pid h k) s = gated e pid 439 (sys_cap_inject_key e pid h k) s"
| "tcall_exec e (InjectKeyUp pid h k) s = gated e pid 460 (sys_cap_inject_key_up e pid h k) s"
| "tcall_exec e (InjectMouse pid h x y t b) s = gated e pid 440 (sys_cap_inject_mouse e pid h x y t b) s"
| "tcall_exec e (ElevRequest pid a) s = sys_elev_request e pid a s"
| "tcall_exec e (ElevStatus seq) s = sys_elev_status e seq s"
| "tcall_exec e (ElevView pid) s = map_prod fst id (sys_elev_view e pid s)"
| "tcall_exec e (ElevResolve pid seq act pw) s = sys_elev_resolve e pid seq act pw s"
| "tcall_exec e (ElevPermits pid path uid) s = of_bool_ret (elev_grant_permits e pid path uid s)"
| "tcall_exec e (HwInput h ev) s = (0, user_window_queue_event e h ev True s)"
| "tcall_exec e (WinCreate pid title) s = sys_win_create pid title s"
| "tcall_exec e (WinDestroy h) s = sys_win_destroy h s"
| "tcall_exec e (WinTitle h title) s = (0, window_set_title h title s)"
| "tcall_exec e (Spawn path uid gid) s = proc_spawn e path uid gid s"
| "tcall_exec e (Fork pid) s = proc_fork e pid s"
| "tcall_exec e (Execve pid) s = proc_execve e pid s"
| "tcall_exec e (Exit pid) s = (0, proc_exit pid s)"
| "tcall_exec e (Reap pid) s = (0, proc_reap pid s)"
| "tcall_exec e (SetIds pid uid gid) s = (0, set_ids pid uid gid s)"
| "tcall_exec e (FbArm pid) s = map_prod id (\<lambda>f. s\<lparr>fb := f\<rparr>) (fbown_arm_rs pid (fb s))"
| "tcall_exec e FbDisarm s = map_prod id (\<lambda>f. s\<lparr>fb := f\<rparr>) (fbown_disarm_rs (fb s))"
| "tcall_exec e (FbMap pid) s = of_bool_ret (is_compositor pid s)"
| "tcall_exec e (KernelShot path) s = screenshot_enqueue path s"
| "tcall_exec e (Publish name) s = (0, s\<lparr>ports := name # ports s\<rparr>)"
| "tcall_exec e Reboot s = (0, boot (shadow s) (capallow s))"

record tevent =
  t_state :: trust
  t_env :: tenv
  t_call :: tcall
  t_ret :: int

text \<open>Histories. The file system either replaces the file or leaves it alone.\<close>

inductive history :: "(string \<rightharpoonup> shadow_entry) \<Rightarrow> string option \<Rightarrow> tevent list \<Rightarrow> trust \<Rightarrow> bool" for sh cfg where
  history_boot: "history sh cfg [] (boot sh cfg)"
| history_call:
    "history sh cfg tr s \<Longrightarrow> (\<And>t old. e_write e t old = Some t \<or> e_write e t old = old) \<Longrightarrow>
     tcall_exec e c s = (r, s') \<Longrightarrow>
     history sh cfg (\<lparr>t_state = s, t_env = e, t_call = c, t_ret = r\<rparr> # tr) s'"

end
