(* ===== verification/Trust_Frames.thy ===== *)
theory Trust_Frames
  imports Trust_Calls
begin

text \<open>
  What each call leaves alone, and what it does to the parts it changes: the capability state (request, standing
  consents, their file), the elevation request, the grants, the elevation and the input credit of the processes.
\<close>

section \<open>Parts of the state\<close>

definition cap_part :: "trust \<Rightarrow> cap_consent \<times> always_table \<times> string option" where
  "cap_part s = (consent s, always s, capallow s)"

named_theorems frame \<open>what an operation leaves alone\<close>

lemma cap_part_eq: "cap_part s' = cap_part s \<longleftrightarrow> consent s' = consent s \<and> always s' = always s \<and> capallow s' = capallow s"
  by (auto simp: cap_part_def)

lemma frame_upd_proc [frame]: "cap_part (upd_proc pid f s) = cap_part s" "elev (upd_proc pid f s) = elev s"
  "fb (upd_proc pid f s) = fb s" "user_windows (upd_proc pid f s) = user_windows s"
  by (simp_all add: upd_proc_def cap_part_def)

lemma frame_upd_win [frame]: "cap_part (upd_win h f s) = cap_part s" "elev (upd_win h f s) = elev s"
  "procs (upd_win h f s) = procs s"
  by (simp_all add: upd_win_def cap_part_def)

lemma frame_note [frame]: "cap_part (cap_ledger_note k s) = cap_part s" "elev (cap_ledger_note k s) = elev s"
  "procs (cap_ledger_note k s) = procs s" "fb (cap_ledger_note k s) = fb s"
  "user_windows (cap_ledger_note k s) = user_windows s"
  by (simp_all add: cap_ledger_note_def cap_part_def)

lemma frame_grants [frame]: "cap_part (upd_grants pid gs s) = cap_part s" "elev (upd_grants pid gs s) = elev s"
  "fb (upd_grants pid gs s) = fb s" "user_windows (upd_grants pid gs s) = user_windows s"
  by (simp_all add: upd_grants_def frame)

lemma frame_consume [frame]: "cap_part (consume pid p i s) = cap_part s" "elev (consume pid p i s) = elev s"
  "user_windows (consume pid p i s) = user_windows s" "procs (consume pid p i s) = procs (upd_grants pid (snd (cap_consume_use (tp_grants p) i)) s)"
  by (simp_all add: consume_def frame)

lemma frame_queue [frame]: "cap_part (user_window_queue_event e h ev hw s) = cap_part s"
  "elev (user_window_queue_event e h ev hw s) = elev s" "procs (user_window_queue_event e h ev False s) = procs s"
  by (simp_all add: user_window_queue_event_def frame Let_def)

lemma frame_cap_watchdog [frame]: "procs (cap_watchdog e s) = procs s" "elev (cap_watchdog e s) = elev s"
  "always (cap_watchdog e s) = always s" "capallow (cap_watchdog e s) = capallow s" "fb (cap_watchdog e s) = fb s"
  by (simp_all add: cap_watchdog_def Let_def)

lemma frame_load [frame]: "procs (cap_always_load e s) = procs s" "elev (cap_always_load e s) = elev s"
  "consent (cap_always_load e s) = consent s" "capallow (cap_always_load e s) = capallow s" "fb (cap_always_load e s) = fb s"
  by (auto simp: cap_always_load_def Let_def split: option.splits)

lemma frame_save [frame]: "procs (cap_always_save e s) = procs s" "elev (cap_always_save e s) = elev s"
  "consent (cap_always_save e s) = consent s" "always (cap_always_save e s) = always s"
  by (simp_all add: cap_always_save_def split: option.split)

lemma frame_remember [frame]: "procs (cap_always_remember e i s) = procs s" "elev (cap_always_remember e i s) = elev s"
  "consent (cap_always_remember e i s) = consent s"
  by (simp_all add: cap_always_remember_def Let_def frame split: prod.split)

lemma frame_issue [frame]: "cap_part (snd (cap_issue_approved e i s)) = cap_part s" "elev (snd (cap_issue_approved e i s)) = elev s"
  by (simp_all add: cap_issue_approved_def Let_def frame split: option.split prod.split)

section \<open>The elevation calls\<close>

lemma frame_elev_ops [frame]:
  "cap_part (snd (elev_open_rs pid uid now n v c d s)) = cap_part s" "procs (snd (elev_open_rs pid uid now n v c d s)) = procs s"
  "cap_part (snd (elev_attempt_rs q ok s)) = cap_part s" "procs (snd (elev_attempt_rs q ok s)) = procs s"
  "cap_part (snd (elev_cancel_rs q s)) = cap_part s" "procs (snd (elev_cancel_rs q s)) = procs s"
  "cap_part (snd (elev_reap_rs q s)) = cap_part s" "procs (snd (elev_reap_rs q s)) = procs s"
  "cap_part (snd (elev_tick_rs now al s)) = cap_part s" "procs (snd (elev_tick_rs now al s)) = procs s"
  "cap_part (upd_shadow n x s) = cap_part s" "procs (upd_shadow n x s) = procs s" "elev (upd_shadow n x s) = elev s"
  by (simp_all add: elev_open_rs_def elev_attempt_rs_def elev_cancel_rs_def elev_reap_rs_def elev_tick_rs_def
      upd_shadow_def Let_def cap_part_def)

lemma frame_elev_watchdog [frame]: "cap_part (elev_watchdog e s) = cap_part s" "procs (elev_watchdog e s) = procs s"
  by (simp_all add: elev_watchdog_def Let_def frame)

lemma frame_auth [frame]: "cap_part (snd (users_authenticate_elev e n pw s)) = cap_part s"
  "procs (snd (users_authenticate_elev e n pw s)) = procs s" "elev (snd (users_authenticate_elev e n pw s)) = elev s"
  by (auto simp: users_authenticate_elev_def Let_def frame split: option.split)

lemma frame_sys_elev_request [frame]: "cap_part (snd (sys_elev_request e pid a s)) = cap_part s"
  "procs (snd (sys_elev_request e pid a s)) = procs s"
  by (auto simp: sys_elev_request_def Let_def frame split: option.split)

lemma frame_sys_elev_status [frame]: "cap_part (snd (sys_elev_status e q s)) = cap_part s"
  "procs (snd (sys_elev_status e q s)) = procs s"
  by (auto simp: sys_elev_status_def Let_def frame)

lemma frame_sys_elev_view [frame]: "cap_part (snd (sys_elev_view e pid s)) = cap_part s"
  "procs (snd (sys_elev_view e pid s)) = procs s"
  by (auto simp: sys_elev_view_def Let_def frame split: option.split)

lemma snd_eqI: "f = (a, b) \<Longrightarrow> b = snd f" by simp

lemma frame_sys_elev_resolve [frame]: "cap_part (snd (sys_elev_resolve e pid q act pw s)) = cap_part s"
  by (auto simp: sys_elev_resolve_def Let_def frame split: option.split prod.split dest!: snd_eqI)

lemma frame_permits [frame]: "cap_part (snd (elev_grant_permits e pid path uid s)) = cap_part s"
  "elev (snd (elev_grant_permits e pid path uid s)) = elev s"
  by (auto simp: elev_grant_permits_def frame split: option.split)

section \<open>The gated calls\<close>

lemma frame_check [frame]: "cap_part (snd (syscall_cap_check e pid n s)) = cap_part s" "elev (snd (syscall_cap_check e pid n s)) = elev s"
  "procs (snd (syscall_cap_check e pid n s)) = procs s" "user_windows (snd (syscall_cap_check e pid n s)) = user_windows s"
  "fb (snd (syscall_cap_check e pid n s)) = fb s"
  by (auto simp: syscall_cap_check_def Let_def frame split: option.split)

lemma frame_gated:
  assumes "\<And>x. K (snd (f x)) = K x" and "\<And>x. K (snd (syscall_cap_check e pid n x)) = K x"
  shows "K (snd (gated e pid n f s)) = K s"
  using assms(1) [of "snd (syscall_cap_check e pid n s)"] assms(2) [of s]
  by (cases "syscall_cap_check e pid n s") (simp add: gated_def)

lemma frame_enqueue [frame]: "cap_part (snd (screenshot_enqueue p s)) = cap_part s" "elev (snd (screenshot_enqueue p s)) = elev s"
  "procs (snd (screenshot_enqueue p s)) = procs s"
  by (simp_all add: screenshot_enqueue_def cap_part_def)

lemma frame_shot [frame]: "cap_part (snd (sys_screenshot_request e pid u s)) = cap_part s"
  "elev (snd (sys_screenshot_request e pid u s)) = elev s"
  by (auto simp: sys_screenshot_request_def Let_def frame split: option.split prod.split dest!: snd_eqI)

lemma frame_poll [frame]: "cap_part (snd (sys_screenshot_poll e pid n s)) = cap_part s"
  "elev (snd (sys_screenshot_poll e pid n s)) = elev s" "procs (snd (sys_screenshot_poll e pid n s)) = procs s"
  by (simp_all add: sys_screenshot_poll_def Let_def cap_part_def)

lemma frame_port [frame]: "cap_part (snd (caps_current_covers_port e pid c n s)) = cap_part s"
  "elev (snd (caps_current_covers_port e pid c n s)) = elev s"
  by (auto simp: caps_current_covers_port_def frame split: option.split)

lemma frame_serial [frame]: "cap_part (snd (sys_serial_open e pid u s)) = cap_part s"
  "elev (snd (sys_serial_open e pid u s)) = elev s"
  by (auto simp: sys_serial_open_def Let_def frame split: option.split prod.split dest!: snd_eqI)

lemma frame_authorize [frame]: "cap_part (snd (caps_inject_authorize e pid ow t s)) = cap_part s"
  "elev (snd (caps_inject_authorize e pid ow t s)) = elev s" "user_windows (snd (caps_inject_authorize e pid ow t s)) = user_windows s"
  by (auto simp: caps_inject_authorize_def frame split: option.split)

lemma frame_guard [frame]: "cap_part (snd (cap_inject_guard e pid h s)) = cap_part s"
  "elev (snd (cap_inject_guard e pid h s)) = elev s"
  by (simp_all add: cap_inject_guard_def frame)

lemma frame_inject [frame]:
  "cap_part (snd (sys_cap_inject_key e pid h k s)) = cap_part s" "elev (snd (sys_cap_inject_key e pid h k s)) = elev s"
  "cap_part (snd (sys_cap_inject_key_up e pid h k s)) = cap_part s" "elev (snd (sys_cap_inject_key_up e pid h k s)) = elev s"
  "cap_part (snd (sys_cap_inject_mouse e pid h x y t b s)) = cap_part s" "elev (snd (sys_cap_inject_mouse e pid h x y t b s)) = elev s"
  by (auto simp: sys_cap_inject_key_def sys_cap_inject_key_up_def sys_cap_inject_mouse_def frame
      split: prod.split option.split dest!: snd_eqI)

section \<open>The rest\<close>

lemma frame_query [frame]: "cap_part (snd (sys_cap_query e pid c s)) = cap_part s" "elev (snd (sys_cap_query e pid c s)) = elev s"
  by (auto simp: sys_cap_query_def frame split: option.split prod.split)

lemma frame_revoke [frame]: "cap_part (snd (sys_cap_revoke pid c s)) = cap_part s" "elev (snd (sys_cap_revoke pid c s)) = elev s"
  by (auto simp: sys_cap_revoke_def frame split: option.split)

lemma frame_status [frame]: "procs (snd (sys_cap_status e q s)) = procs s" "elev (snd (sys_cap_status e q s)) = elev s"
  "always (snd (sys_cap_status e q s)) = always s" "capallow (snd (sys_cap_status e q s)) = capallow s"
  by (simp_all add: sys_cap_status_def Let_def frame)

lemma frame_view [frame]: "procs (snd (sys_cap_view e pid s)) = procs s" "elev (snd (sys_cap_view e pid s)) = elev s"
  "always (snd (sys_cap_view e pid s)) = always s" "capallow (snd (sys_cap_view e pid s)) = capallow s"
  by (simp_all add: sys_cap_view_def Let_def frame split: option.split)

lemma frame_autogrant [frame]: "elev (snd (try_autogrant e pid p a sc s)) = elev s"
  "always (snd (try_autogrant e pid p a sc s)) = always s" "capallow (snd (try_autogrant e pid p a sc s)) = capallow s"
  using frame_issue(1) [unfolded cap_part_def]
  by (auto simp: try_autogrant_def Let_def frame split: prod.split dest!: snd_eqI)

lemma frame_prompt [frame]: "procs (snd (raise_prompt e pid p a sc s)) = procs s" "elev (snd (raise_prompt e pid p a sc s)) = elev s"
  "always (snd (raise_prompt e pid p a sc s)) = always s" "capallow (snd (raise_prompt e pid p a sc s)) = capallow s"
  by (auto simp: raise_prompt_def Let_def frame cap_ledger_note_def split: prod.split)

lemma frame_request [frame]: "elev (snd (sys_cap_request e pid a s)) = elev s" "capallow (snd (sys_cap_request e pid a s)) = capallow s"
  by (auto simp: sys_cap_request_def Let_def frame cap_ledger_note_def split: option.split prod.split dest!: snd_eqI)

lemma frame_resolve [frame]: "elev (snd (sys_cap_resolve e pid q act s)) = elev s"
  by (auto simp: sys_cap_resolve_def Let_def frame split: option.split prod.split dest!: snd_eqI)

lemma frame_procs [frame]:
  "cap_part (snd (proc_spawn e path u g s)) = cap_part s" "elev (snd (proc_spawn e path u g s)) = elev s"
  "cap_part (snd (proc_fork e pid s)) = cap_part s" "elev (snd (proc_fork e pid s)) = elev s"
  "cap_part (proc_exit pid s) = cap_part s" "elev (proc_exit pid s) = elev s"
  "cap_part (proc_reap pid s) = cap_part s" "elev (proc_reap pid s) = elev s"
  "cap_part (set_ids pid u g s) = cap_part s" "elev (set_ids pid u g s) = elev s"
  "cap_part (snd (sys_win_create pid title s)) = cap_part s" "elev (snd (sys_win_create pid title s)) = elev s"
  "procs (snd (sys_win_create pid title s)) = procs s"
  "cap_part (snd (is_compositor pid s)) = cap_part s" "elev (snd (is_compositor pid s)) = elev s"
  "procs (snd (is_compositor pid s)) = procs s" "snd (proc_execve e pid s) = s"
  by (auto simp: proc_spawn_def proc_fork_def proc_execve_def proc_exit_def proc_reap_def set_ids_def sys_win_create_def is_compositor_def
      cleanup_user_windows_for_process_def cap_part_def upd_proc_def Let_def split: option.split prod.split)

lemma frame_windows [frame]:
  "cap_part (snd (sys_win_destroy h s)) = cap_part s" "elev (snd (sys_win_destroy h s)) = elev s"
  "procs (snd (sys_win_destroy h s)) = procs s" "cap_part (window_set_title h title s) = cap_part s"
  "elev (window_set_title h title s) = elev s" "procs (window_set_title h title s) = procs s"
  by (simp_all add: sys_win_destroy_def window_set_title_def cap_part_def)

text \<open>The calls that may change the capability state, the elevation request.\<close>

definition cap_call :: "tcall \<Rightarrow> bool" where
  "cap_call c = (case c of CapRequest a b \<Rightarrow> True | CapStatus a \<Rightarrow> True | CapView a \<Rightarrow> True
     | CapResolve a b d \<Rightarrow> True | Reboot \<Rightarrow> True | _ \<Rightarrow> False)"

definition elev_call :: "tcall \<Rightarrow> bool" where
  "elev_call c = (case c of ElevRequest a b \<Rightarrow> True | ElevStatus a \<Rightarrow> True | ElevView a \<Rightarrow> True
     | ElevResolve a b d f \<Rightarrow> True | Reboot \<Rightarrow> True | _ \<Rightarrow> False)"

lemma cap_part_ports: "cap_part (s\<lparr>ports := x\<rparr>) = cap_part s" "cap_part (s\<lparr>fb := y\<rparr>) = cap_part s" by (simp_all add: cap_part_def)

lemma exec_cap_part: "\<not> cap_call c \<Longrightarrow> cap_part (snd (tcall_exec e c s)) = cap_part s"
  by (cases c) (simp_all add: cap_call_def frame frame_gated [where K = cap_part] of_bool_ret_def cap_part_ports)

lemma exec_elev: "\<not> elev_call c \<Longrightarrow> elev (snd (tcall_exec e c s)) = elev s"
  by (cases c) (simp_all add: elev_call_def frame frame_gated [where K = elev] of_bool_ret_def)

section \<open>The grants of a process\<close>

lemma procs_upd_proc: "procs (upd_proc pid f s) q = (if q = pid then map_option f (procs s q) else procs s q)"
  by (simp add: upd_proc_def)

lemma procs_upd_grants: "procs (upd_grants pid gs s) q =
    (if q = pid then map_option (\<lambda>p. p\<lparr>tp_grants := gs\<rparr>) (procs s q) else procs s q)"
  by (simp add: upd_grants_def procs_upd_proc)

text \<open>The slot that a gated call of process \<open>pid\<close> uses.\<close>

definition inject_slot :: "tenv \<Rightarrow> u32 \<Rightarrow> int \<Rightarrow> trust \<Rightarrow> cap_grant list \<Rightarrow> nat option" where
  "inject_slot e pid h s gs =
     (let w = user_windows s ! nat h in
      case (if uw_owner w = pid then cap_find_scope gs CAP_INPUT_INJECT CAP_SCOPE_WINDOW (e_now e) else None) of
        Some i \<Rightarrow> Some i
      | None \<Rightarrow> cap_covers_window_target gs CAP_INPUT_INJECT (uw_id w) (e_now e))"

definition use_slot :: "tenv \<Rightarrow> tcall \<Rightarrow> trust \<Rightarrow> u32 \<Rightarrow> cap_grant list \<Rightarrow> nat option" where
  "use_slot e c s pid gs =
     (case c of
        ScreenshotRequest q (Some u) \<Rightarrow>
          if q = pid then cap_covers_path gs CAP_SCREEN_CAPTURE (take (SHOTQ_PATHLEN - 1) (cstr u)) (e_now e) else None
      | SerialOpen q (Some u) \<Rightarrow> if q = pid then cap_covers_port gs CAP_SERIAL_PORT (take 15 (cstr u)) (e_now e) else None
      | InjectKey q h k \<Rightarrow> if q = pid then inject_slot e pid h s gs else None
      | InjectKeyUp q h k \<Rightarrow> if q = pid then inject_slot e pid h s gs else None
      | InjectMouse q h x y t b \<Rightarrow> if q = pid then inject_slot e pid h s gs else None
      | _ \<Rightarrow> None)"

definition gated_call :: "tcall \<Rightarrow> u32 option" where
  "gated_call c = (case c of ScreenshotRequest q u \<Rightarrow> Some q | SerialOpen q u \<Rightarrow> Some q | InjectKey q h k \<Rightarrow> Some q
     | InjectKeyUp q h k \<Rightarrow> Some q | InjectMouse q h x y t b \<Rightarrow> Some q | _ \<Rightarrow> None)"

text \<open>A call either fails without touching a process, or uses a slot of its caller.\<close>

definition uses :: "u32 \<Rightarrow> (cap_grant list \<Rightarrow> nat option) \<Rightarrow> trust \<Rightarrow> int \<times> trust \<Rightarrow> bool" where
  "uses pid slot s res \<longleftrightarrow>
     (procs (snd res) = procs s \<and> fst res < 0) \<or>
     (\<exists>p i. procs s pid = Some p \<and> slot (tp_grants p) = Some i \<and>
        procs (snd res) = procs (upd_grants pid (snd (cap_consume_use (tp_grants p) i)) s))"

lemma uses_fail: "procs s' = procs s \<Longrightarrow> r < 0 \<Longrightarrow> uses pid slot s (r, s')" by (simp add: uses_def)

lemma upd_grants_procs: "procs s1 = procs s \<Longrightarrow> procs (upd_grants pid gs s1) = procs (upd_grants pid gs s)"
  by (simp add: fun_eq_iff procs_upd_grants)

lemma uses_done: "procs s pid = Some p \<Longrightarrow> slot (tp_grants p) = Some i \<Longrightarrow>
    procs s' = procs (upd_grants pid (snd (cap_consume_use (tp_grants p) i)) s) \<Longrightarrow> uses pid slot s (r, s')"
  unfolding uses_def by (intro disjI2 exI [of _ p] exI [of _ i]) simp

lemma uses_cong: "procs s1 = procs s \<Longrightarrow> uses pid slot s1 res \<longleftrightarrow> uses pid slot s res"
  by (auto simp: uses_def fun_eq_iff procs_upd_grants)

lemma uses_gated:
  assumes "\<And>s1. user_windows s1 = user_windows s \<Longrightarrow> uses pid slot s1 (f s1)"
  shows "uses pid slot s (gated e pid n f s)"
proof -
  obtain r s1 where c: "syscall_cap_check e pid n s = (r, s1)" by (cases "syscall_cap_check e pid n s")
  then have s1: "procs s1 = procs s" "user_windows s1 = user_windows s"
    using frame_check(3,4) [of e pid n s] by simp_all
  have "r \<in> {0, CAP_EDENIED}" using c by (auto simp: syscall_cap_check_def Let_def split: option.splits if_splits)
  then show ?thesis
    using assms [OF s1(2)] s1(1) unfolding uses_cong [OF s1(1)] by (auto simp: gated_def c CAP_EDENIED_def intro: uses_fail)
qed

lemmas neg_codes = CAP_EARG_def CAP_EDENIED_def CAP_ESCOPE_def CAP_EBUSY_def SHOT_EPERM_REQUESTER_def SHOT_EPERM_WRITER_def
  SHOT_ENOWRITER_def

lemma uses_shot: "uses pid (use_slot e (ScreenshotRequest pid u) s0 pid) s (sys_screenshot_request e pid u s)"
proof (cases "procs s pid")
  case None
  then show ?thesis by (simp add: sys_screenshot_request_def uses_fail)
next
  case p: (Some p)
  show ?thesis
  proof (cases u)
    case None
    then show ?thesis using p by (simp add: sys_screenshot_request_def uses_fail neg_codes)
  next
    case u: (Some v)
    define path where "path = take (SHOTQ_PATHLEN - 1) (cstr v)"
    obtain r1 s1 where q: "screenshot_enqueue path s = (r1, s1)" by (cases "screenshot_enqueue path s")
    then have s1: "procs s1 = procs s" using frame_enqueue(3) [of path s] by simp
    show ?thesis
    proof (cases "cap_covers_path (tp_grants p) CAP_SCREEN_CAPTURE path (e_now e)")
      case None
      then show ?thesis using p u
        by (simp add: sys_screenshot_request_def path_def Let_def uses_fail neg_codes frame)
    next
      case (Some i)
      then have "uses pid (use_slot e (ScreenshotRequest pid u) s0 pid) s (0, consume pid p i s1)"
        using p u by (intro uses_done) (simp_all add: use_slot_def path_def frame upd_grants_procs [OF s1])
      moreover have "sys_screenshot_request e pid u s =
          (if \<not> e_perms e path (tp_euid p) (tp_egid p) then (SHOT_EPERM_REQUESTER, s)
           else case (if fb_owner (fb s) = 0 then None else procs s (fb_owner (fb s))) of
             None \<Rightarrow> (SHOT_ENOWRITER, s)
           | Some w \<Rightarrow>
               if fb_owner (fb s) \<noteq> pid \<and> \<not> e_perms e path (tp_euid w) (tp_egid w) then (SHOT_EPERM_WRITER, s)
               else if shotq_full s then (-11, s)
               else if r1 \<noteq> 0 then (-11, s1) else (0, consume pid p i s1))"
        unfolding sys_screenshot_request_def p u option.case path_def [symmetric] Let_def Some q prod.case ..
      ultimately show ?thesis using s1 by (auto simp: neg_codes intro: uses_fail split: option.split)
    qed
  qed
qed

lemma uses_serial: "uses pid (use_slot e (SerialOpen pid u) s0 pid) s (sys_serial_open e pid u s)"
  by (auto simp: sys_serial_open_def caps_current_covers_port_def uses_def Let_def frame neg_codes use_slot_def
      split: option.split)

lemma uses_guard: "user_windows s0 = user_windows s \<Longrightarrow> uses pid (inject_slot e pid h s0) s (cap_inject_guard e pid h s)"
  by (auto simp: cap_inject_guard_def caps_inject_authorize_def uses_def Let_def frame neg_codes inject_slot_def
      split: option.split)

lemma uses_after: "uses pid slot s (g, s1) \<Longrightarrow> procs s2 = procs s1 \<Longrightarrow> g < 0 \<longrightarrow> r < 0 \<Longrightarrow> uses pid slot s (r, s2)"
  by (auto simp: uses_def)

lemma guard_nonpos: "fst (cap_inject_guard e pid h s) \<le> 0"
  by (auto simp: cap_inject_guard_def caps_inject_authorize_def neg_codes split: option.split)

lemma guard_res: "cap_inject_guard e pid h s = (g, s1) \<Longrightarrow> g < 0 \<or> g = 0"
  using guard_nonpos [of e pid h s] by auto

lemma uses_inject:
  assumes "user_windows s0 = user_windows s"
  shows "uses pid (inject_slot e pid h s0) s (sys_cap_inject_key e pid h k s)"
    and "uses pid (inject_slot e pid h s0) s (sys_cap_inject_key_up e pid h k s)"
    and "uses pid (inject_slot e pid h s0) s (sys_cap_inject_mouse e pid h x y t b s)"
  using uses_guard [OF assms, of pid e h] guard_res [of e pid h s]
  by (auto simp: sys_cap_inject_key_def sys_cap_inject_key_up_def sys_cap_inject_mouse_def frame
      split: prod.split option.split intro: uses_after)

lemma exec_uses: "gated_call c = Some pid \<Longrightarrow> uses pid (use_slot e c s pid) s (tcall_exec e c s)"
proof (cases c)
  case (ScreenshotRequest q u)
  then show "gated_call c = Some pid \<Longrightarrow> ?thesis" by (simp add: gated_call_def uses_gated uses_shot)
next
  case (SerialOpen q u)
  then show "gated_call c = Some pid \<Longrightarrow> ?thesis" by (simp add: gated_call_def uses_gated uses_serial)
next
  case (InjectKey q h k)
  then show "gated_call c = Some pid \<Longrightarrow> ?thesis"
    by (simp add: gated_call_def use_slot_def [abs_def] uses_gated uses_inject)
next
  case (InjectKeyUp q h k)
  then show "gated_call c = Some pid \<Longrightarrow> ?thesis"
    by (simp add: gated_call_def use_slot_def [abs_def] uses_gated uses_inject)
next
  case (InjectMouse q h x y t b)
  then show "gated_call c = Some pid \<Longrightarrow> ?thesis"
    by (simp add: gated_call_def use_slot_def [abs_def] uses_gated uses_inject)
qed (simp_all add: gated_call_def)

section \<open>Issuing\<close>

definition grant_expiry :: "tenv \<Rightarrow> u32 \<Rightarrow> u64" where
  "grant_expiry e d = (if d = 0 then e_now e + CAP_ONEUSE_TTL_MS else e_now e + ucast d)"

definition grant_uses :: "u32 \<Rightarrow> u32" where "grant_uses d = (if d = 0 then 1 else CAP_USES_UNLIMITED)"

definition issued :: "tenv \<Rightarrow> cap_req \<Rightarrow> cap_grant list \<Rightarrow> cap_grant list \<Rightarrow> bool" where
  "issued e info gs gs' \<longleftrightarrow>
     (\<exists>i gs1. cap_issue gs (rq_cap info) (rq_kind info) (rq_scope info) (grant_expiry e (rq_dur info))
                (grant_uses (rq_dur info)) 0 = Some (i, gs1) \<and> gs' = gs1[i := (gs1 ! i)\<lparr>gr_seq := e_jseq e\<rparr>])"

lemma issue_cases:
  obtains (no) "fst (cap_issue_approved e info s) \<noteq> 0" and "procs (snd (cap_issue_approved e info s)) = procs s"
  | (yes) p gs where "fst (cap_issue_approved e info s) = 0" and "procs s (rq_pid info) = Some p"
      and "issued e info (tp_grants p) gs" and "procs (snd (cap_issue_approved e info s)) = procs (upd_grants (rq_pid info) gs s)"
proof (cases "procs s (rq_pid info)")
  case None
  then show ?thesis using no by (simp add: cap_issue_approved_def cap_consts)
next
  case (Some p)
  show ?thesis
  proof (cases "cap_issue (tp_grants p) (rq_cap info) (rq_kind info) (rq_scope info) (grant_expiry e (rq_dur info))
      (grant_uses (rq_dur info)) 0")
    case None
    then show ?thesis using no Some
      by (simp add: cap_issue_approved_def grant_expiry_def grant_uses_def frame cap_consts)
  next
    case (Some x)
    obtain i gs1 where x: "x = (i, gs1)" by (cases x)
    show ?thesis
      using yes [OF _ \<open>procs s (rq_pid info) = Some p\<close>, of "gs1[i := (gs1 ! i)\<lparr>gr_seq := e_jseq e\<rparr>]"] Some x
        \<open>procs s (rq_pid info) = Some p\<close>
      by (simp add: cap_issue_approved_def grant_expiry_def grant_uses_def frame issued_def)
  qed
qed

text \<open>What the requests that are granted looked like.\<close>

definition auto_granted :: "tenv \<Rightarrow> u32 \<Rightarrow> cap_req_arg \<Rightarrow> trust \<Rightarrow> cap_req \<Rightarrow> bool" where
  "auto_granted e pid a s info \<longleftrightarrow>
     (\<exists>p scope t. procs s pid = Some p \<and> cap_is_issuable (ra_cap a) \<and>
        cap_scope_valid (ra_cap a) (ra_kind a) (cstr (take (SCOPE_MAX - 1) (ra_scope a))) \<and>
        req_noun a s = Some scope \<and> info = req_info pid p a scope \<and>
        (t = always s \<or> t = always (cap_always_load e s)) \<and>
        cap_always_match_rs (tp_euid p) (ra_cap a) (ra_kind a) (tp_name p) scope t)"

lemma autogrant_cases:
  obtains (no) "fst (try_autogrant e pid p a scope s) = None" and "procs (snd (try_autogrant e pid p a scope s)) = procs s"
      and "rq_state (greq (consent (snd (try_autogrant e pid p a scope s)))) = CAP_ST_OPEN \<Longrightarrow>
             consent (snd (try_autogrant e pid p a scope s)) = consent s"
  | (yes) p1 gs q where "fst (try_autogrant e pid p a scope s) = Some q" and "0 < q"
      and "cap_always_match_rs (tp_euid p) (ra_cap a) (ra_kind a) (tp_name p) scope (always s)"
      and "procs s pid = Some p1" and "issued e (req_info pid p a scope) (tp_grants p1) gs"
      and "procs (snd (try_autogrant e pid p a scope s)) = procs (upd_grants pid gs s)"
      and "rq_state (greq (consent (snd (try_autogrant e pid p a scope s)))) \<noteq> CAP_ST_OPEN"
proof (cases "cap_always_match_rs (tp_euid p) (ra_cap a) (ra_kind a) (tp_name p) scope (always s)")
  case False
  then show ?thesis using no by (simp add: try_autogrant_def)
next
  case True
  obtain q c where q: "cap_req_autogrant_rs pid (tp_euid p) (e_now e) (ra_cap a) (ra_dur a) (ra_kind a)
     (cstr (take (REASON_MAX - 1) (ra_reason a))) scope (tp_name p) (elev_owner_pid_rs (elev s) \<noteq> 0) (consent s) = (q, c)"
    by fastforce
  have st: "c = consent s \<or> rq_state (greq c) = CAP_ST_GRANTED" "0 < q \<Longrightarrow> rq_state (greq c) = CAP_ST_GRANTED"
    using q by (auto simp: cap_req_autogrant_rs_def fill_req_def cap_consts split: if_splits)
  have ne: "CAP_ST_GRANTED \<noteq> CAP_ST_OPEN" by (simp add: cap_consts)
  let ?i = "req_info pid p a scope" and ?s = "s\<lparr>consent := c\<rparr>"
  have pid: "rq_pid ?i = pid" by (simp add: req_info_def)
  have c: "consent (snd (cap_issue_approved e ?i ?s)) = c"
    using frame_issue(1) [of e ?i ?s] by (simp add: cap_part_def)
  show ?thesis
  proof (cases "0 < q")
    case False
    then show ?thesis using no True q st(1) ne by (auto simp: try_autogrant_def)
  next
    case q0: True
    show ?thesis
    proof (cases rule: issue_cases [of e ?i ?s])
      case n: no
      have t: "try_autogrant e pid p a scope s = (None, snd (cap_issue_approved e ?i ?s))"
        using True q q0 n(1) by (cases "cap_issue_approved e ?i ?s") (simp add: try_autogrant_def)
      show ?thesis using n(2) st(2) [OF q0] ne c by (intro no) (simp_all add: t)
    next
      case g: (yes p1 gs)
      have t: "try_autogrant e pid p a scope s = (Some q, snd (cap_issue_approved e ?i ?s))"
        using True q q0 g(1) by (cases "cap_issue_approved e ?i ?s") (simp add: try_autogrant_def)
      have "procs (upd_grants pid gs ?s) = procs (upd_grants pid gs s)" by (rule upd_grants_procs) simp
      then show ?thesis using g st(2) [OF q0] ne c pid True q0 by (intro yes [of q p1 gs]) (simp_all add: t)
    qed
  qed
qed

end
