(* ===== verification/Trust_Grants.thy ===== *)
theory Trust_Grants
  imports Trust_Frames
begin

text \<open>
  What each call does to the grants of the processes: nothing, a sweep, a revocation, a use, an issue, a birth, a death.
\<close>

section \<open>Requests\<close>

definition request_scope :: "cap_req_arg \<Rightarrow> string" where "request_scope a = cstr (take (SCOPE_MAX - 1) (ra_scope a))"

text \<open>The prompt \<open>rq\<close> that a request of process \<open>pid\<close> raises.\<close>

definition raised :: "tenv \<Rightarrow> u32 \<Rightarrow> cap_req_arg \<Rightarrow> trust \<Rightarrow> int \<Rightarrow> cap_req \<Rightarrow> bool" where
  "raised e pid a s r rq \<longleftrightarrow>
     (case procs s pid of None \<Rightarrow> False
      | Some p \<Rightarrow>
          tp_user p \<and> cap_is_issuable (ra_cap a) \<and> cap_scope_valid (ra_cap a) (ra_kind a) (request_scope a) \<and>
          fb_owner (fb s) \<noteq> 0 \<and> elev_owner_pid_rs (elev s) = 0 \<and>
          tp_last_input p \<noteq> 0 \<and> e_now e - tp_last_input p \<le> CAP_INPUT_WINDOW_MS \<and>
          (\<exists>scope. req_noun a s = Some scope \<and> r = sint (rq_seq rq) \<and>
             rq = fill_req CAP_ST_OPEN pid (tp_euid p) (e_now e) (ra_cap a) (ra_dur a) (ra_kind a)
               (cstr (take (REASON_MAX - 1) (ra_reason a))) scope (tp_name p) (rq_seq rq)))"

abbreviation is_open :: "trust \<Rightarrow> bool" where "is_open s \<equiv> rq_state (greq (consent s)) = CAP_ST_OPEN"

lemma watchdog_open: "is_open (cap_watchdog e s) \<Longrightarrow> is_open s \<and> consent (cap_watchdog e s) = consent s"
  by (auto simp: cap_watchdog_def cap_req_tick_rs_def Let_def cap_consts split: if_splits)

lemma watchdog_time: "is_open (cap_watchdog e s) \<Longrightarrow> cap_req_owner_pid_rs (consent (cap_watchdog e s)) \<noteq> 0 \<Longrightarrow>
    e_now e - rq_opened (greq (consent s)) \<le> OPEN_TTL_MS"
proof -
  assume o: "is_open (cap_watchdog e s)" and p: "cap_req_owner_pid_rs (consent (cap_watchdog e s)) \<noteq> 0"
  have c: "consent (cap_watchdog e s) = consent s" "is_open s" using watchdog_open [OF o] by simp_all
  have n: "cap_req_owner_pid_rs (consent s) \<noteq> 0" using p unfolding c .
  have "consent (cap_watchdog e s) = snd (cap_req_tick_rs (e_now e) (procs s (cap_req_owner_pid_rs (consent s)) \<noteq> None) (consent s))"
    using n by (simp add: cap_watchdog_def Let_def)
  then show ?thesis using o c(2) by (auto simp: cap_req_tick_rs_def not_less cap_consts split: if_splits)
qed

lemma prompt_open:
  assumes p: "procs s pid = Some p" and "tp_user p" and "cap_is_issuable (ra_cap a)"
    and "cap_scope_valid (ra_cap a) (ra_kind a) (request_scope a)" and "fb_owner (fb s) \<noteq> 0"
    and n: "req_noun a s = Some scope" and o: "is_open (snd (raise_prompt e pid p a scope s1))"
    and e1: "elev s1 = elev s"
  shows "consent (snd (raise_prompt e pid p a scope s1)) = consent s1 \<or>
    raised e pid a s (fst (raise_prompt e pid p a scope s1)) (greq (consent (snd (raise_prompt e pid p a scope s1))))"
proof (cases "tp_last_input p = 0 \<or> CAP_INPUT_WINDOW_MS < e_now e - tp_last_input p")
  case True
  then show ?thesis using frame_note(1) [unfolded cap_part_def] by (simp add: raise_prompt_def)
next
  case False
  let ?w = "cap_watchdog e s1" and ?r = "cstr (take (REASON_MAX - 1) (ra_reason a))"
  obtain q c where q: "cap_req_open_rs pid (tp_euid p) (e_now e) (ra_cap a) (ra_dur a) (ra_kind a) ?r scope (tp_name p)
      (elev_owner_pid_rs (elev ?w) \<noteq> 0) (consent ?w) = (q, c)" by fastforce
  have res: "fst (raise_prompt e pid p a scope s1) = q" "consent (snd (raise_prompt e pid p a scope s1)) = c"
    using False q by (simp_all add: raise_prompt_def Let_def cap_ledger_note_def)
  have "c = consent ?w \<or> (elev_owner_pid_rs (elev s) = 0 \<and> q = sint (rq_seq (greq c)) \<and>
      greq c = fill_req CAP_ST_OPEN pid (tp_euid p) (e_now e) (ra_cap a) (ra_dur a) (ra_kind a) ?r scope (tp_name p) (rq_seq (greq c)))"
    using q e1 by (auto simp: cap_req_open_rs_def frame fill_req_def split: if_splits)
  then show ?thesis
  proof
    assume "c = consent ?w"
    then show ?thesis using res watchdog_open [of e s1] o by simp
  next
    assume "elev_owner_pid_rs (elev s) = 0 \<and> q = sint (rq_seq (greq c)) \<and>
      greq c = fill_req CAP_ST_OPEN pid (tp_euid p) (e_now e) (ra_cap a) (ra_dur a) (ra_kind a) ?r scope (tp_name p) (rq_seq (greq c))"
    then show ?thesis using res False p assms(2-6) by (simp add: raised_def not_less)
  qed
qed

text \<open>What a request for a capability does.\<close>

lemma request_cases:
  obtains (same) "procs (snd (sys_cap_request e pid arg s)) = procs s"
      and "is_open (snd (sys_cap_request e pid arg s)) \<Longrightarrow> greq (consent (snd (sys_cap_request e pid arg s))) = greq (consent s) \<and> is_open s \<or>
        (\<exists>a. arg = Some a \<and>
          raised e pid a s (fst (sys_cap_request e pid arg s)) (greq (consent (snd (sys_cap_request e pid arg s)))))"
  | (standing) a info p gs where "arg = Some a" and "0 < fst (sys_cap_request e pid arg s)" and "auto_granted e pid a s info"
      and "procs s pid = Some p" and "issued e info (tp_grants p) gs"
      and "procs (snd (sys_cap_request e pid arg s)) = procs (upd_grants pid gs s)"
      and "\<not> is_open (snd (sys_cap_request e pid arg s))"
proof -
  let ?R = "sys_cap_request e pid arg s"
  have triv: "procs (snd ?R) = procs s \<Longrightarrow> consent (snd ?R) = consent s \<Longrightarrow> thesis" using same by simp
  have nt: "\<And>k. consent (cap_ledger_note k s) = consent s" by (simp add: cap_ledger_note_def)
  show thesis
  proof (cases "procs s pid = None \<or> arg = None")
    case True
    then show thesis by (intro triv) (auto simp: sys_cap_request_def split: option.split)
  next
    case False
    then obtain p a where pa: "procs s pid = Some p" "arg = Some a" by auto
    let ?ok = "tp_user p \<and> cap_is_issuable (ra_cap a) \<and> cap_scope_valid (ra_cap a) (ra_kind a) (request_scope a) \<and>
      req_noun a s \<noteq> None \<and> \<not> (ra_cap a = CAP_SERIAL_PORT \<and> the (req_noun a s) \<notin> set (ports s)) \<and> fb_owner (fb s) \<noteq> 0"
    show thesis
    proof (cases ?ok)
      case False
      then show thesis using pa
        by (intro triv) (auto simp: sys_cap_request_def request_scope_def Let_def frame nt split: option.split)
    next
      case ok: True
      then obtain scope where n: "req_noun a s = Some scope" by blast
      define s1 where "s1 = (if always_loaded s then s else cap_always_load e s)"
      have s1: "procs s1 = procs s" "elev s1 = elev s" "consent s1 = consent s" "always s1 = always s \<or> always s1 = always (cap_always_load e s)"
        by (simp_all add: s1_def frame)
      have R: "?R = (case try_autogrant e pid p a scope s1 of (Some aseq, s2) \<Rightarrow> (aseq, s2) | (None, s2) \<Rightarrow> raise_prompt e pid p a scope s2)"
        using ok pa n by (auto simp: sys_cap_request_def request_scope_def Let_def s1_def)
      show thesis
      proof (cases rule: autogrant_cases [of e pid p a scope s1])
        case no: no
        let ?s2 = "snd (try_autogrant e pid p a scope s1)"
        have r: "?R = raise_prompt e pid p a scope ?s2"
          using R no(1) by (cases "try_autogrant e pid p a scope s1") simp
        have e2: "elev ?s2 = elev s" using s1 by (simp add: frame)
        show thesis
        proof (rule same)
          show "procs (snd ?R) = procs s" using r no(2) s1 by (simp add: frame)
        next
          assume o: "is_open (snd ?R)"
          then have "consent (snd ?R) = consent ?s2 \<or> raised e pid a s (fst ?R) (greq (consent (snd ?R)))"
            using prompt_open [OF pa(1) _ _ _ _ n _ e2] ok unfolding r by blast
          then show "greq (consent (snd ?R)) = greq (consent s) \<and> is_open s \<or>
              (\<exists>b. arg = Some b \<and> raised e pid b s (fst ?R) (greq (consent (snd ?R))))"
            using o no(3) s1 pa by auto
        qed
      next
        case y: (yes p1 gs q)
        have r: "?R = (q, snd (try_autogrant e pid p a scope s1))"
          using R y(1) by (cases "try_autogrant e pid p a scope s1") simp
        have "auto_granted e pid a s (req_info pid p a scope)"
          unfolding auto_granted_def using pa ok n y(3) s1(4) by (auto simp: request_scope_def)
        then show thesis using standing [of a "req_info pid p a scope" p gs] r y s1 pa
          by (simp add: upd_grants_procs [OF s1(1)])
      qed
    qed
  qed
qed

lemma issue_fail: "cap_issue_approved e i s = (rc, s2) \<Longrightarrow> rc \<noteq> 0 \<Longrightarrow> procs s2 = procs s"
  by (cases rule: issue_cases [of e i s]) simp_all

text \<open>What the answer to a prompt does.\<close>

lemma resolve_cases:
  obtains (same) "procs (snd (sys_cap_resolve e pid q act s)) = procs s"
      and "always (snd (sys_cap_resolve e pid q act s)) = always s" and "capallow (snd (sys_cap_resolve e pid q act s)) = capallow s"
      and "is_open (snd (sys_cap_resolve e pid q act s)) \<Longrightarrow>
        greq (consent (snd (sys_cap_resolve e pid q act s))) = greq (consent s) \<and> is_open s"
  | (granted) info p gs s2 where "caller_is_compositor pid s" and "act = CAP_ACT_APPROVE \<or> act = CAP_ACT_APPROVE_ALWAYS"
      and "info = greq (consent s)" and "is_open s" and "rq_seq info = q" and "e_now e - rq_opened info \<le> OPEN_TTL_MS" and "fst (sys_cap_resolve e pid q act s) = 0"
      and "procs s (rq_pid info) = Some p" and "issued e info (tp_grants p) gs"
      and "procs (snd (sys_cap_resolve e pid q act s)) = procs (upd_grants (rq_pid info) gs s)"
      and "\<not> is_open (snd (sys_cap_resolve e pid q act s))"
      and "cap_part s2 = (consent s2, always s, capallow s)" and "map_option tp_name (procs s2 (rq_pid info)) = Some (tp_name p)"
      and "snd (sys_cap_resolve e pid q act s) = (if act = CAP_ACT_APPROVE_ALWAYS then cap_always_remember e info s2 else s2)"
proof -
  let ?R = "sys_cap_resolve e pid q act s" and ?w = "cap_watchdog e s"
  let ?c = "(consent ?w)\<lparr>greq := (greq (consent ?w))\<lparr>rq_state := CAP_ST_GRANTED\<rparr>\<rparr>"
  let ?s1 = "?w\<lparr>consent := ?c\<rparr>" and ?i = "greq (consent ?w)"
  have act: "CAP_ACT_DENY \<noteq> CAP_ACT_APPROVE" "CAP_ACT_DENY \<noteq> CAP_ACT_APPROVE_ALWAYS"
    by (simp_all add: CAP_ACT_DENY_def CAP_ACT_APPROVE_def CAP_ACT_APPROVE_ALWAYS_def)
  have st: "CAP_ST_GRANTED \<noteq> CAP_ST_OPEN" "CAP_ST_DENIED \<noteq> CAP_ST_OPEN" "CAP_ESTALE \<noteq> 0" by (simp_all add: cap_consts)
  show thesis
  proof (cases "caller_is_compositor pid s \<and> cap_req_owner_pid_rs (consent ?w) \<noteq> 0 \<and>
      (act = CAP_ACT_APPROVE \<or> act = CAP_ACT_APPROVE_ALWAYS) \<and> is_open ?w \<and> rq_seq ?i = q \<and> fst (cap_issue_approved e ?i ?s1) = 0")
    case True
    then have o: "is_open s" "consent ?w = consent s" "e_now e - rq_opened (greq (consent s)) \<le> OPEN_TTL_MS"
      using watchdog_open [of e s] watchdog_time [of e s] by simp_all
    have rs: "cap_req_resolve_rs q True (consent ?w) = (0, ?c)" "rq_state (greq ?c) \<noteq> CAP_ST_OPEN"
      using True st by (simp_all add: cap_req_resolve_rs_def)
    let ?s2 = "snd (cap_issue_approved e ?i ?s1)"
    have R: "?R = (0, if act = CAP_ACT_APPROVE_ALWAYS then cap_always_remember e ?i ?s2 else ?s2)"
      using True act rs(1) by (cases "cap_issue_approved e ?i ?s1") (auto simp: sys_cap_resolve_def cap_req_approve_info_rs_def Let_def)
    have part: "cap_part ?s2 = (?c, always s, capallow s)" by (simp add: frame cap_part_def [of ?s1])
    then have c: "consent ?s2 = ?c" by (simp add: cap_part_def)
    show thesis
    proof (cases rule: issue_cases [of e ?i ?s1])
      case no: no
      then show thesis using True by simp
    next
      case (yes p gs)
      have pr: "procs ?s2 = procs (upd_grants (rq_pid ?i) gs s)"
        using yes(4) by (simp add: upd_grants_procs [of ?s1 s] frame)
      show thesis
        using True o rs(2) R yes(2,3) pr part c
        by (intro granted [of "greq (consent s)" p gs ?s2]) (simp_all add: frame procs_upd_grants)
    qed
  next
    case False
    have "procs (snd ?R) = procs s \<and> always (snd ?R) = always s \<and> capallow (snd ?R) = capallow s \<and>
      (is_open (snd ?R) \<longrightarrow> greq (consent (snd ?R)) = greq (consent s) \<and> is_open s)"
    proof (cases "caller_is_compositor pid s \<and> cap_req_owner_pid_rs (consent ?w) \<noteq> 0 \<and>
        (act = CAP_ACT_APPROVE \<or> act = CAP_ACT_APPROVE_ALWAYS) \<and> is_open ?w \<and> rq_seq ?i = q")
      case True
      obtain rc s2 where i: "cap_issue_approved e ?i ?s1 = (rc, s2)" by (cases "cap_issue_approved e ?i ?s1")
      have rs: "cap_req_resolve_rs q True (consent ?w) = (0, ?c)" "rq_state (greq ?c) \<noteq> CAP_ST_OPEN"
        using True st by (simp_all add: cap_req_resolve_rs_def)
      have rc: "rc \<noteq> 0" using True False i by simp
      then have "?R = (rc, s2)"
        using True act rs(1) i by (auto simp: sys_cap_resolve_def cap_req_approve_info_rs_def Let_def)
      moreover have "procs s2 = procs s" using issue_fail [OF i rc] by (simp add: frame)
      moreover have "cap_part s2 = cap_part ?s1" using frame_issue(1) [of e ?i ?s1] i by simp
      ultimately show ?thesis using rs(2) by (simp add: cap_part_def frame)
    next
      case False
      then show ?thesis using st watchdog_open [of e s]
        by (auto simp: sys_cap_resolve_def Let_def frame cap_ledger_note_def cap_req_approve_info_rs_def cap_req_resolve_rs_def)
    qed
    then show thesis by (intro same) simp_all
  qed
qed

section \<open>Grants by pid\<close>

definition grants_of :: "trust \<Rightarrow> u32 \<Rightarrow> cap_grant list" where
  "grants_of s pid = (case procs s pid of None \<Rightarrow> [] | Some p \<Rightarrow> tp_grants p)"

lemma grants_of_procs: "procs s' = procs s \<Longrightarrow> grants_of s' = grants_of s" by (simp add: grants_of_def fun_eq_iff)

lemma grants_of_upd: "(\<And>p. tp_grants (f p) = tp_grants p) \<Longrightarrow> grants_of (upd_proc pid f s) = grants_of s"
  by (auto simp: grants_of_def fun_eq_iff upd_proc_def split: option.split)

lemma grants_of_grants: "procs s pid = Some p \<Longrightarrow> procs s' = procs (upd_grants pid gs s) \<Longrightarrow> grants_of s' = (grants_of s)(pid := gs)"
  by (auto simp: grants_of_def fun_eq_iff procs_upd_grants split: option.split)

lemma grants_of_queue: "grants_of (user_window_queue_event e h ev hw s) = grants_of s"
  using grants_of_procs [of "upd_win h (uw_enqueue ev) s" s]
  by (simp add: user_window_queue_event_def Let_def grants_of_upd frame)

lemma grants_of_permits: "grants_of (snd (elev_grant_permits e pid path uid s)) = grants_of s"
  by (simp add: elev_grant_permits_def grants_of_upd clear_elevation_def split: option.split)

lemmas grants_frame = grants_of_procs [OF frame_status(1)] grants_of_procs [OF frame_view(1)] grants_of_procs [OF frame_poll(3)]
  grants_of_procs [OF frame_sys_elev_request(2)] grants_of_procs [OF frame_sys_elev_status(2)] grants_of_procs [OF frame_sys_elev_view(2)]
  grants_of_procs [OF frame_procs(13)] grants_of_procs [OF frame_procs(16)] grants_of_procs [OF frame_enqueue(3)]
  grants_of_procs [OF frame_elev_watchdog(2)] grants_of_procs [OF frame_auth(2)] grants_of_procs [OF frame_elev_ops(4)]
  grants_of_procs [OF frame_elev_ops(6)] grants_of_procs [OF frame_windows(3)] grants_of_procs [OF frame_windows(6)]

lemma grants_of_elev: "grants_of (snd (sys_elev_resolve e pid q act pw s)) = grants_of s"
  by (auto simp: sys_elev_resolve_def Let_def grants_frame grants_of_upd grant_elevation_def
      split: option.split prod.split dest!: snd_eqI)

lemma grants_of_fields: "grants_of (s\<lparr>fb := f\<rparr>) = grants_of s" "grants_of (s\<lparr>ports := x\<rparr>) = grants_of s"
  by (simp_all add: grants_of_def fun_eq_iff)

lemma grants_of_next: "grants_of (s\<lparr>next_pid := n\<rparr>) = grants_of s" by (simp add: grants_of_def fun_eq_iff)

lemma grants_of_ids: "grants_of (set_ids pid u g s) = grants_of s" by (simp add: set_ids_def grants_of_upd)

lemma grants_of_exit: "grants_of (proc_exit pid s) = grants_of s"
  by (simp add: proc_exit_def Let_def grants_of_upd) (simp add: grants_of_def fun_eq_iff cleanup_user_windows_for_process_def)

definition quiet :: "tcall \<Rightarrow> bool" where
  "quiet c = (case c of CapQuery a b \<Rightarrow> False | CapRequest a b \<Rightarrow> False | CapResolve a b d \<Rightarrow> False | CapRevoke a b \<Rightarrow> False
     | Spawn a b d \<Rightarrow> False | Fork a \<Rightarrow> False | Reap a \<Rightarrow> False | Reboot \<Rightarrow> False | _ \<Rightarrow> gated_call c = None)"

lemma exec_quiet: "quiet c \<Longrightarrow> grants_of (snd (tcall_exec e c s)) = grants_of s"
  by (cases c) (simp_all add: quiet_def gated_call_def grants_of_queue grants_of_permits grants_of_elev grants_of_ids
      grants_of_exit grants_of_fields of_bool_ret_def grants_frame frame_procs(17))

lemma quiet_calls: "quiet c \<Longrightarrow> gated_call c = None \<and> (\<forall>cap pid. c \<noteq> CapRevoke pid cap) \<and> c \<noteq> Reboot \<and>
    (\<forall>q. c \<noteq> Reap q) \<and> (\<forall>path u g. c \<noteq> Spawn path u g) \<and> (\<forall>p. c \<noteq> Fork p)"
  by (cases c) (simp_all add: quiet_def gated_call_def)

text \<open>The births: the new process and the grants it starts with.\<close>

definition born :: "tcall \<Rightarrow> int \<Rightarrow> trust \<Rightarrow> u32 \<Rightarrow> cap_grant list \<Rightarrow> bool" where
  "born c r s pid gs \<longleftrightarrow> r = uint pid \<and>
     (case c of Spawn path u g \<Rightarrow> gs = replicate CAP_MAX_GRANTS clear_slot | Fork q \<Rightarrow> gs = grants_of s q | _ \<Rightarrow> False)"

text \<open>The consents behind an issue.\<close>

definition approving :: "tenv \<Rightarrow> tcall \<Rightarrow> int \<Rightarrow> trust \<Rightarrow> cap_req \<Rightarrow> bool" where
  "approving e c r s rq \<longleftrightarrow>
     (case c of
        CapResolve q seq act \<Rightarrow> caller_is_compositor q s \<and> (act = CAP_ACT_APPROVE \<or> act = CAP_ACT_APPROVE_ALWAYS) \<and> r = 0 \<and>
          rq = greq (consent s) \<and> is_open s \<and> rq_seq rq = seq \<and> e_now e - rq_opened rq \<le> OPEN_TTL_MS
      | _ \<Rightarrow> False)"

definition standing_request :: "tenv \<Rightarrow> tcall \<Rightarrow> int \<Rightarrow> trust \<Rightarrow> cap_req \<Rightarrow> bool" where
  "standing_request e c r s info \<longleftrightarrow>
     (case c of CapRequest q (Some a) \<Rightarrow> 0 < r \<and> auto_granted e q a s info | _ \<Rightarrow> False)"

lemma sweep_none: "snd (cap_query gs 0 now) = gs" by (simp add: cap_query_def)

lemma uint_not_neg: "uint (w :: u32) \<noteq> -1" "-1 \<noteq> uint (w :: u32)" using uint_ge_0 [of w] by linarith+

lemma exec_grants:
  assumes x: "tcall_exec e c s = (r, s')"
  obtains (same) "grants_of s' = grants_of s" and "gated_call c \<noteq> None \<Longrightarrow> r < 0"
      and "\<And>cap pid. c \<noteq> CapRevoke pid cap" and "c \<noteq> Reboot"
      and "\<And>q. c = Reap q \<Longrightarrow> proc_gone q s \<Longrightarrow> grants_of s q = []"
      and "\<And>path u g q. r = uint (q :: u32) \<Longrightarrow> c \<noteq> Spawn path u g \<and> (\<forall>p. c \<noteq> Fork p)"
  | (sweep) pid cap where "c = CapQuery pid cap" and "grants_of s' = (grants_of s)(pid := sweep_expired (e_now e) (grants_of s pid))"
  | (revoke) pid cap where "c = CapRevoke pid cap" and "grants_of s' = (grants_of s)(pid := snd (cap_revoke (grants_of s pid) cap))"
  | (used) pid i where "gated_call c = Some pid" and "use_slot e c s pid (grants_of s pid) = Some i"
      and "grants_of s' = (grants_of s)(pid := snd (cap_consume_use (grants_of s pid) i))"
  | (issue) info gs where "approving e c r s info \<or> standing_request e c r s info"
      and "issued e info (grants_of s (rq_pid info)) gs" and "grants_of s' = (grants_of s)(rq_pid info := gs)"
  | (birth) pid gs where "born c r s pid gs" and "grants_of s' = (grants_of s)(pid := gs)"
  | (reaped) pid where "c = Reap pid" and "proc_gone pid s" and "grants_of s' = (grants_of s)(pid := [])"
  | (rebooted) "c = Reboot" and "grants_of s' = (\<lambda>_. [])"
proof -
  have s': "s' = snd (tcall_exec e c s)" and r: "r = fst (tcall_exec e c s)" using x by simp_all
  show thesis
  proof (cases "gated_call c")
    case (Some pid)
    have "uses pid (use_slot e c s pid) s (r, s')" using exec_uses [OF Some, of e s] x by simp
    then consider "procs s' = procs s" "r < 0" |
      p i where "procs s pid = Some p" "use_slot e c s pid (tp_grants p) = Some i"
        "procs s' = procs (upd_grants pid (snd (cap_consume_use (tp_grants p) i)) s)"
      by (auto simp: uses_def)
    then show thesis
    proof cases
      case 1
      then show thesis using Some by (intro same grants_of_procs) (auto simp: gated_call_def)
    next
      case (2 p i)
      then show thesis using Some grants_of_grants [OF 2(1,3)] by (intro used [of pid i]) (simp_all add: grants_of_def)
    qed
  next
    case None
    have quiet: "quiet c \<Longrightarrow> thesis"
      using s' exec_quiet [of c e s] quiet_calls [of c] by (intro same) auto
    show thesis
    proof (cases c)
      case (CapQuery pid cap)
      show thesis
      proof (cases "procs s pid = None \<or> cap = 0")
        case True
        then show thesis using CapQuery s'
          by (intro same) (auto simp: sys_cap_query_def cap_query_def gated_call_def grants_of_def fun_eq_iff procs_upd_grants
              split: option.split)
      next
        case False
        then obtain p where p: "procs s pid = Some p" by auto
        then have "procs s' = procs (upd_grants pid (sweep_expired (e_now e) (tp_grants p)) s)"
          using CapQuery s' False by (simp add: sys_cap_query_def cap_query_def Let_def)
        then show thesis using CapQuery grants_of_grants [OF p, of s'] p
          by (intro sweep [of pid cap]) (simp_all add: grants_of_def)
      qed
    next
      case (CapRequest pid arg)
      show thesis
      proof (cases rule: request_cases [of e pid arg s])
        case a: same
        then show thesis using CapRequest s' by (intro same grants_of_procs) (simp_all add: gated_call_def)
      next
        case a: (standing a info p gs)
        have i: "rq_pid info = pid" using a(3) by (auto simp: auto_granted_def req_info_def)
        show thesis using CapRequest s' r a i grants_of_grants [OF a(4) a(6)]
          by (intro issue [of info gs]) (simp_all add: standing_request_def grants_of_def)
      qed
    next
      case (CapResolve pid q act)
      show thesis
      proof (cases rule: resolve_cases [of e pid q act s])
        case a: same
        then show thesis using CapResolve s' by (intro same grants_of_procs) (simp_all add: gated_call_def)
      next
        case a: (granted info p gs s2)
        show thesis using CapResolve s' r a(1-9) grants_of_grants [OF a(8) a(10)]
          by (intro issue [of info gs]) (simp_all add: approving_def grants_of_def)
      qed
    next
      case (CapRevoke pid cap)
      show thesis
      proof (cases "procs s pid")
        case None
        then show thesis using CapRevoke s'
          by (intro revoke [of pid cap]) (simp_all add: sys_cap_revoke_def cap_revoke_def grants_of_def fun_eq_iff)
      next
        case (Some p)
        then show thesis using CapRevoke s' grants_of_grants [OF Some, of s' "snd (cap_revoke (tp_grants p) cap)"]
          by (intro revoke [of pid cap]) (simp_all add: sys_cap_revoke_def grants_of_def frame)
      qed
    next
      case (Spawn path u g)
      show thesis
      proof (cases "e_slot e \<and> e_space e")
        case True
        then show thesis using Spawn s' r
          by (intro birth [of "next_pid s" "replicate CAP_MAX_GRANTS clear_slot"])
            (auto simp: proc_spawn_def born_def grants_of_def fun_eq_iff fresh_proc_def)
      next
        case False
        then show thesis using Spawn s' r by (intro same) (auto simp: proc_spawn_def gated_call_def uint_not_neg grants_of_next split: if_splits)
      qed
    next
      case (Fork q)
      show thesis
      proof (cases "e_slot e \<and> e_space e \<and> procs s q \<noteq> None")
        case True
        then show thesis using Fork s' r
          by (intro birth [of "next_pid s" "grants_of s q"]) (auto simp: proc_fork_def born_def grants_of_def fun_eq_iff)
      next
        case False
        then show thesis using Fork s' r
          by (intro same) (auto simp: proc_fork_def gated_call_def uint_not_neg grants_of_next split: option.splits if_splits)
      qed
    next
      case (Reap q)
      show thesis
      proof (cases "proc_gone q s \<and> procs s q \<noteq> None")
        case True
        then show thesis using Reap s'
          by (intro reaped [of q]) (auto simp: proc_reap_def proc_gone_def grants_of_def fun_eq_iff)
      next
        case False
        then show thesis using Reap s'
          by (intro same) (auto simp: proc_reap_def proc_gone_def grants_of_def gated_call_def split: option.splits)
      qed
    next
      case Reboot
      then show thesis using s' by (intro rebooted) (simp_all add: boot_def grants_of_def fun_eq_iff)
    qed (use None in \<open>simp_all add: gated_call_def quiet quiet_def\<close>)
  qed
qed

end
