(* ===== verification/Caps_Always.thy ===== *)
theory Caps_Always
  imports Caps
begin

text \<open>
  The file of standing consents: what a line of the writer means to the reader, that the text of a full table always fits
  the buffer of the writer, and that a table that is written and read back comes back with the trailing blanks of its
  scopes removed.
\<close>

section \<open>Lines\<close>

definition entries :: "always_table \<Rightarrow> cap_always list" where "entries t = map the (filter (\<lambda>x. x \<noteq> None) t)"

lemma entries_simps [simp]: "entries [] = []" "entries (None # t) = entries t" "entries (Some x # t) = x # entries t"
  "entries (t @ u) = entries t @ entries u" "entries (replicate n None) = []"
  by (simp_all add: entries_def)

lemma set_entries: "x \<in> set (entries t) \<longleftrightarrow> Some x \<in> set t" by (force simp: entries_def)

definition line_of :: "cap_always \<Rightarrow> string" where
  "line_of x = dec (al_uid x) @ CHR '' '' # dec (al_cap x) @ CHR '' '' # dec (al_kind x) @ CHR '' '' #
     al_app x @ CHR '' '' # al_scope x"

text \<open>What \<open>cap_always_add_rs\<close> lets in, for the nouns of the kernel, none of which starts with a blank.\<close>

definition entry_ok :: "cap_always \<Rightarrow> bool" where
  "entry_ok x \<longleftrightarrow> al_cap x \<noteq> CAP_NONE \<and> al_cap x < CAP_CLASS_MAX \<and> token_ok APPNAME_MAX (al_app x) \<and>
     scope_token_ok SCOPE_MAX (al_scope x) \<and> hd (al_scope x) \<noteq> CHR '' ''"

definition trimmed :: "cap_always \<Rightarrow> cap_always" where "trimmed x = x\<lparr>al_scope := rtrim (al_scope x)\<rparr>"

lemma emit_Some: "length buf < n \<Longrightarrow> emit n s (Some buf) = (if length (buf @ s) < n then Some (buf @ s) else None)"
  by (auto simp: emit_def)

lemma emit_None [simp]: "emit n s None = None" by (simp add: emit_def)

lemma emit_emit: "length buf < n \<Longrightarrow> emit n t (emit n s (Some buf)) = emit n (s @ t) (Some buf)"
  by (simp add: emit_Some)

lemma emit_entry_Some: "length buf < n \<Longrightarrow> emit_entry n (Some x) (Some buf) = emit n (line_of x @ [CHR 0x0A]) (Some buf)"
  by (simp add: emit_entry_def emit_emit line_of_def)

lemma fold_emit_None: "fold (emit_entry n) t None = None"
  by (induction t) (simp_all add: emit_entry_def split: option.split)

definition file_text :: "cap_always list \<Rightarrow> string" where
  "file_text es = concat (map (\<lambda>x. line_of x @ [CHR 0x0A]) es)"

lemma file_text_simps [simp]: "file_text [] = []" "file_text (x # es) = line_of x @ CHR 0x0A # file_text es"
  by (simp_all add: file_text_def)

lemma fold_emit: "length buf < n \<Longrightarrow>
    fold (emit_entry n) t (Some buf) = (if length (buf @ file_text (entries t)) < n then Some (buf @ file_text (entries t)) else None)"
proof (induction t arbitrary: buf)
  case (Cons x t)
  show ?case
  proof (cases x)
    case None
    then show ?thesis using Cons by (simp add: emit_entry_def)
  next
    case (Some y)
    show ?thesis
    proof (cases "length (buf @ line_of y @ [CHR 0x0A]) < n")
      case True
      then show ?thesis using Cons.IH [OF True] Cons.prems Some by (simp add: emit_entry_Some emit_Some)
    next
      case False
      then show ?thesis using Cons.prems Some by (simp add: emit_entry_Some emit_Some fold_emit_None)
    qed
  qed
qed simp

section \<open>Bounds\<close>

lemma length_header: "length always_header = 126"
  by (simp add: always_header_def)

lemma length_dec_cap: "c < CAP_CLASS_MAX \<Longrightarrow> length (dec c) = 1"
proof -
  assume "c < CAP_CLASS_MAX"
  then have "unat c < 10 ^ 1" by (simp add: CAP_CLASS_MAX_def word_less_nat_alt)
  then have "length (digits_rev (unat c)) \<le> 1" by (rule length_digits)
  moreover have "digits_rev (unat c) \<noteq> []" if "c \<noteq> 0" using that by (simp add: digits_rev.simps unat_eq_zero)
  ultimately show ?thesis by (cases "c = 0") (auto simp: dec_def digits_rev.simps [of 0] le_Suc_eq)
qed

lemma length_line: "entry_ok x \<Longrightarrow> length (line_of x) \<le> 119"
  using length_dec [of "al_uid x"] length_dec [of "al_kind x"] length_dec_cap [of "al_cap x"]
  by (auto simp: line_of_def entry_ok_def token_ok_def scope_token_ok_def APPNAME_MAX_def SCOPE_MAX_def)

lemma length_file_text: "list_all entry_ok es \<Longrightarrow> length (file_text es) \<le> 120 * length es"
  by (induction es) (use length_line in fastforce)+

lemma length_entries: "length (entries t) \<le> length t" by (simp add: entries_def)

lemma serialize_fits:
  assumes "list_all entry_ok (entries t)" and "length t = CAP_ALWAYS_MAX"
  shows "cap_always_serialize_rs 4096 t = Some (always_header @ file_text (entries t))"
proof -
  have "length (file_text (entries t)) \<le> 120 * 32"
    using length_file_text [OF assms(1)] length_entries [of t] assms(2) by (simp add: CAP_ALWAYS_MAX_def)
  then show ?thesis
    by (simp add: cap_always_serialize_rs_def emit_Some fold_emit length_header)
qed

section \<open>Reading a line back\<close>

lemma of_digit_char: "m < 10 \<Longrightarrow> of_char (digit_char m) = 48 + m"
  by (simp add: digit_char_def)

lemma parse_digits: "n \<le> 0xFFFFFFFF \<Longrightarrow>
    parse_u32 0 any (rev (digits_rev n) @ s) = parse_u32 n (any \<or> n \<noteq> 0) s"
proof (induction n arbitrary: s rule: digits_rev.induct)
  case (1 n)
  show ?case
  proof (cases "n = 0")
    case False
    have "parse_u32 0 any (rev (digits_rev n) @ s) = parse_u32 (n div 10) (any \<or> n div 10 \<noteq> 0) (digit_char (n mod 10) # s)"
      using 1 False by (simp add: digits_rev.simps [of n])
    also have "\<dots> = parse_u32 n True s"
      using digit_char [of "n mod 10"] of_digit_char [of "n mod 10"] 1(2) by simp
    finally show ?thesis using False by simp
  qed (simp add: digits_rev.simps)
qed

lemma parse_dec: "parse_u32 0 False (dec (v :: u32) @ CHR '' '' # r) = Some (v, CHR '' '' # r)"
proof -
  have v: "unat v \<le> 0xFFFFFFFF" using unsigned_less [of v, where 'a = nat] by simp
  have "\<not> digit CHR '' ''" "digit CHR ''0''" by (simp_all add: digit_def less_eq_char_def)
  then show ?thesis
    using parse_digits [OF v, of False "CHR '' '' # r"] by (cases "v = 0") (simp_all add: dec_def digits_rev.simps [of 0] unat_eq_zero)
qed

lemma skip_dec: "skip_spaces (dec v @ r) = dec v @ r" "skip_spaces (CHR '' '' # dec v @ r) = dec v @ r"
proof -
  obtain c w where c: "dec v = c # w" using dec_digits(3) [of v] by (cases "dec v") auto
  then have "c \<noteq> CHR '' ''" using dec_digits(2) [of v] by (auto simp: graph less_char_def)
  then show "skip_spaces (dec v @ r) = dec v @ r" "skip_spaces (CHR '' '' # dec v @ r) = dec v @ r"
    by (simp_all add: c skip_spaces_def)
qed

lemma skip_space: "s \<noteq> [] \<Longrightarrow> hd s \<noteq> CHR '' '' \<Longrightarrow> skip_spaces (CHR '' '' # s) = s"
  by (cases s) (simp_all add: skip_spaces_def)

lemma token_chars: "token_ok n s \<Longrightarrow> c \<in> set s \<Longrightarrow> \<not> token_end c \<and> c \<noteq> NUL \<and> c \<noteq> CHR 0x0A"
  by (auto simp: token_ok_def token_end_def list_all_iff NUL_def less_char_def)

lemma read_token_app:
  assumes "token_ok n app"
  shows "read_token n (app @ CHR '' '' # r) = Some (app, CHR '' '' # r)"
proof -
  have "takeWhile (\<lambda>c. \<not> token_end c) (app @ CHR '' '' # r) = app"
    "dropWhile (\<lambda>c. \<not> token_end c) (app @ CHR '' '' # r) = CHR '' '' # r"
    using token_chars [OF assms] by (subst takeWhile_append2 dropWhile_append2; simp add: token_end_def)+
  then show ?thesis using assms by (simp add: read_token_def token_ok_def)
qed

lemma rtrim_prefix: "\<exists>w. s = rtrim s @ w \<and> set w \<subseteq> {CHR '' '', CHR 0x09}"
proof (intro exI conjI)
  let ?P = "\<lambda>c. c = CHR '' '' \<or> c = CHR 0x09"
  show "s = rtrim s @ rev (takeWhile ?P (rev s))"
    by (simp only: rtrim_def rev_append [symmetric] takeWhile_dropWhile_id rev_rev_ident)
  show "set (rev (takeWhile ?P (rev s))) \<subseteq> {CHR '' '', CHR 0x09}" by (auto dest: set_takeWhileD)
qed

lemma scope_chars: "scope_token_ok n s \<Longrightarrow> c \<in> set s \<Longrightarrow> c \<noteq> NUL \<and> c \<noteq> CHR 0x0A \<and> c \<noteq> CHR 0x0D \<and> c \<noteq> CHR 0x09"
proof -
  assume "scope_token_ok n s" "c \<in> set s"
  then have "CHR 0x20 \<le> c" by (simp add: scope_token_ok_def list_all_iff)
  then show ?thesis by (auto simp: NUL_def less_eq_char_def)
qed

lemma rtrim_scope:
  assumes "scope_token_ok n s" and "hd s \<noteq> CHR '' ''"
  shows "scope_token_ok n (rtrim s)" and "hd (rtrim s) = hd s"
proof -
  define r where "r = rtrim s"
  obtain w where w: "s = r @ w" "set w \<subseteq> {CHR '' '', CHR 0x09}" using rtrim_prefix [of s] by (auto simp: r_def)
  have ne: "s \<noteq> []" using assms(1) by (simp add: scope_token_ok_def)
  have "r \<noteq> []"
  proof
    assume "r = []"
    then have "hd s \<in> {CHR '' '', CHR 0x09}" using w(2) hd_in_set [OF ne] w(1) by (simp add: subset_iff)
    then have "hd s = CHR 0x09" using assms(2) by simp
    then show False using scope_chars [OF assms(1), of "hd s"] ne by simp
  qed
  then show "hd (rtrim s) = hd s" "scope_token_ok n (rtrim s)"
    unfolding r_def [symmetric] using assms(1) by (simp_all add: w(1) scope_token_ok_def)
qed

lemma read_scope_ok:
  assumes "scope_token_ok SCOPE_MAX s" and "hd s \<noteq> CHR '' ''"
  shows "read_scope s = Some (rtrim s)"
proof -
  have "scope_token_ok SCOPE_MAX (rtrim s)" using rtrim_scope [OF assms] by simp
  then show ?thesis
    using scope_chars [of SCOPE_MAX "rtrim s" "hd (rtrim s)"] hd_in_set [of "rtrim s"]
    by (auto simp: read_scope_def Let_def scope_token_ok_def)
qed

lemma parse_line_of:
  assumes "entry_ok x"
  shows "parse_always_line (line_of x) = Some (al_uid x, al_cap x, al_kind x, al_app x, rtrim (al_scope x))"
proof -
  have ok: "token_ok APPNAME_MAX (al_app x)" "scope_token_ok SCOPE_MAX (al_scope x)" "hd (al_scope x) \<noteq> CHR '' ''"
    "al_cap x \<noteq> CAP_NONE" "\<not> CAP_CLASS_MAX \<le> al_cap x"
    using assms by (auto simp: entry_ok_def)
  have ne: "al_scope x \<noteq> []" "al_app x \<noteq> []" using ok(1,2) by (auto simp: scope_token_ok_def token_ok_def)
  obtain c w where c: "dec (al_uid x) = c # w" using dec_digits(3) [of "al_uid x"] by (cases "dec (al_uid x)") auto
  then have d: "c \<noteq> CHR ''#''" using dec_digits(1) [of "al_uid x"] by (auto simp: digit_def less_eq_char_def)
  have a: "hd (al_app x) \<noteq> CHR '' ''"
    using token_chars [OF ok(1), of "hd (al_app x)"] hd_in_set [OF ne(2)] by (auto simp: token_end_def)
  have "skip_spaces (CHR '' '' # al_app x @ r) = al_app x @ r" for r
    using skip_space [of "al_app x @ r"] ne a by simp
  note [simp] = parse_dec skip_dec read_token_app skip_space ne read_scope_ok this
  have "parse_u32 0 False (skip_spaces (line_of x)) = Some (al_uid x, drop (length (dec (al_uid x))) (line_of x))"
    by (simp add: line_of_def)
  moreover have "line_of x \<noteq> [] \<and> hd (line_of x) \<noteq> CHR ''#''" using c d by (simp add: line_of_def)
  ultimately show ?thesis using ok by (simp add: parse_always_line_def) (simp add: line_of_def)
qed

section \<open>Reading a file back\<close>

lemma always_lines_Nil [simp]: "always_lines [] = []" by (simp add: always_lines.simps)

lemma always_lines_line: "CHR 0x0A \<notin> set l \<Longrightarrow> always_lines (l @ CHR 0x0A # r) = l # always_lines r"
proof -
  assume "CHR 0x0A \<notin> set l"
  then have "takeWhile (\<lambda>c. c \<noteq> CHR 0x0A) (l @ CHR 0x0A # r) = l" "dropWhile (\<lambda>c. c \<noteq> CHR 0x0A) (l @ CHR 0x0A # r) = CHR 0x0A # r"
    by (induction l) auto
  then show ?thesis by (subst always_lines.simps) simp
qed

lemma dec_no_nl: "CHR 0x0A \<notin> set (dec v)" using graphic_no_nl [OF dec_digits(2)] by blast

lemma line_no_nl: "entry_ok x \<Longrightarrow> CHR 0x0A \<notin> set (line_of x)"
  using token_chars [of APPNAME_MAX "al_app x"] scope_chars [of SCOPE_MAX "al_scope x"] dec_no_nl
  by (auto simp: line_of_def entry_ok_def)

lemma always_lines_text: "list_all entry_ok es \<Longrightarrow> always_lines (file_text es) = map line_of es"
  by (induction es) (simp_all add: always_lines_line line_no_nl)

lemma strip_cr_line: "entry_ok x \<Longrightarrow> strip_cr (line_of x) = line_of x"
  using scope_chars [of SCOPE_MAX "al_scope x" "last (al_scope x)"]
  by (auto simp: line_of_def strip_cr_def entry_ok_def scope_token_ok_def)

definition add_always :: "cap_always \<Rightarrow> always_table \<Rightarrow> always_table" where
  "add_always x t = snd (cap_always_add_rs (al_uid x) (al_cap x) (al_kind x) (al_app x) (al_scope x) t)"

lemma entry_ok_trimmed: "entry_ok x \<Longrightarrow> entry_ok (trimmed x)"
  using rtrim_scope [of SCOPE_MAX "al_scope x"] by (simp add: entry_ok_def trimmed_def)

lemma entry_cstr: "entry_ok x \<Longrightarrow> cstr (al_app x) = al_app x \<and> cstr (al_scope x) = al_scope x"
  using token_chars [of APPNAME_MAX "al_app x"] scope_chars [of SCOPE_MAX "al_scope x"]
  by (auto simp: entry_ok_def intro!: cstr_idem)

lemma load_line_of: "entry_ok x \<Longrightarrow> load_line (line_of x) t = add_always (trimmed x) t"
  using entry_cstr [OF entry_ok_trimmed, of x] entry_cstr [of x]
  by (simp add: load_line_def strip_cr_line parse_line_of add_always_def trimmed_def)

lemma load_comment: "load_line (CHR ''#'' # r) t = t"
  by (cases r rule: rev_cases) (simp_all add: load_line_def strip_cr_def parse_always_line_def)

lemma lines_header: "\<exists>a b. always_lines (always_header @ r) = (CHR ''#'' # a) # (CHR ''#'' # b) # always_lines r"
proof -
  define h1 where "h1 = ''# MayteraOS standing capability consents (\"Always allow\").''"
  define h2 where "h2 = ''# <uid> <cap> <scope_kind> <app> <scope>. Delete a line to revoke.''"
  have n: "CHR 0x0A \<notin> set h1" "CHR 0x0A \<notin> set h2" by (simp_all add: h1_def h2_def)
  have h: "always_header @ r = h1 @ CHR 0x0A # h2 @ CHR 0x0A # r" by (simp add: always_header_def h1_def h2_def)
  have "always_lines (always_header @ r) = h1 # h2 # always_lines r"
    unfolding h always_lines_line [OF n(1)] always_lines_line [OF n(2)] ..
  moreover have "hd h1 = CHR ''#'' \<and> hd h2 = CHR ''#''" "h1 \<noteq> [] \<and> h2 \<noteq> []" by (simp_all add: h1_def h2_def)
  ultimately show ?thesis by (metis list.collapse)
qed

lemma fold_load: "list_all entry_ok es \<Longrightarrow> fold load_line (map line_of es) t = fold add_always (map trimmed es) t"
  by (induction es arbitrary: t) (simp_all add: load_line_of)

lemma parse_written: "list_all entry_ok es \<Longrightarrow>
    cap_always_parse_rs (always_header @ file_text es) = fold add_always (map trimmed es) cap_always_reset_rs"
  using lines_header [of "file_text es"] by (auto simp: cap_always_parse_rs_def load_comment always_lines_text fold_load)

subsection \<open>Adding an entry\<close>

lemma cstr_eq_iff: "length a \<le> n \<Longrightarrow> cstr_eq n a b \<longleftrightarrow> a = b"
  by (induction n a b rule: cstr_eq.induct) auto

definition short_entry :: "cap_always \<Rightarrow> bool" where
  "short_entry x \<longleftrightarrow> length (al_app x) < APPNAME_MAX \<and> length (al_scope x) < SCOPE_MAX"

lemma entry_ok_short: "entry_ok x \<Longrightarrow> short_entry x"
  by (simp add: entry_ok_def short_entry_def token_ok_def scope_token_ok_def)

lemma entry_matches_Some: "short_entry y \<Longrightarrow>
    entry_matches uid cap kind app scope (Some y) \<longleftrightarrow>
      y = \<lparr>al_uid = uid, al_cap = cap, al_kind = kind, al_app = app, al_scope = scope\<rparr>"
  by (cases y) (auto simp: entry_matches_def short_entry_def cstr_eq_iff)

lemma match_iff:
  assumes "\<forall>y\<in>set (entries t). short_entry y"
  shows "cap_always_match_rs uid cap kind app scope t \<longleftrightarrow> cap \<noteq> CAP_NONE \<and>
           \<lparr>al_uid = uid, al_cap = cap, al_kind = kind, al_app = app, al_scope = scope\<rparr> \<in> set (entries t)"
proof -
  have "(\<exists>x\<in>set t. entry_matches uid cap kind app scope x) \<longleftrightarrow>
      \<lparr>al_uid = uid, al_cap = cap, al_kind = kind, al_app = app, al_scope = scope\<rparr> \<in> set (entries t)"
  proof
    assume "\<exists>x\<in>set t. entry_matches uid cap kind app scope x"
    then obtain x where x: "x \<in> set t" "entry_matches uid cap kind app scope x" by blast
    then obtain y where "x = Some y" by (auto simp: entry_matches_def split: option.splits)
    then show "\<lparr>al_uid = uid, al_cap = cap, al_kind = kind, al_app = app, al_scope = scope\<rparr> \<in> set (entries t)"
      using x assms entry_matches_Some [of y] by (simp add: set_entries)
  next
    assume e: "\<lparr>al_uid = uid, al_cap = cap, al_kind = kind, al_app = app, al_scope = scope\<rparr> \<in> set (entries t)"
    then have "entry_matches uid cap kind app scope (Some \<lparr>al_uid = uid, al_cap = cap, al_kind = kind, al_app = app, al_scope = scope\<rparr>)"
      using assms by (simp add: entry_matches_Some)
    then show "\<exists>x\<in>set t. entry_matches uid cap kind app scope x" using e unfolding set_entries by (rule bexI)
  qed
  then show ?thesis by (simp add: cap_always_match_rs_def find_idx_None_iff)
qed

lemma add_cases:
  obtains (refused) r where "cap_always_add_rs uid cap kind app scope t = (r, t)" and "r \<noteq> 1"
  | (added) i where "cap_always_add_rs uid cap kind app scope t =
        (1, t[i := Some \<lparr>al_uid = uid, al_cap = cap, al_kind = kind, al_app = app, al_scope = scope\<rparr>])"
      and "i < length t" and "t ! i = None" and "token_ok APPNAME_MAX app" and "scope_token_ok SCOPE_MAX scope"
      and "cap \<noteq> CAP_NONE" and "cap < CAP_CLASS_MAX"
proof (cases "fst (cap_always_add_rs uid cap kind app scope t) = 1")
  case True
  then show ?thesis using added
    by (auto simp: cap_always_add_rs_def token_ok_def scope_token_ok_def find_idx_Some_iff cap_consts
        split: if_splits option.splits)
next
  case False
  then show ?thesis using refused [of "fst (cap_always_add_rs uid cap kind app scope t)"]
    by (auto simp: cap_always_add_rs_def cap_consts split: if_splits option.splits)
qed

lemma entries_update: "i < length t \<Longrightarrow> t ! i = None \<Longrightarrow> set (entries (t[i := Some x])) = insert x (set (entries t))"
proof -
  assume i: "i < length t" "t ! i = None"
  have "t = take i t @ None # drop (Suc i) t" using id_take_nth_drop [OF i(1)] i(2) by simp
  then have "entries t = entries (take i t) @ entries (drop (Suc i) t)" by (metis entries_simps(2,4))
  moreover have "entries (t[i := Some x]) = entries (take i t) @ x # entries (drop (Suc i) t)"
    using i(1) by (simp add: upd_conv_take_nth_drop)
  ultimately show ?thesis by simp
qed

lemma set_entries_add: "set (entries (add_always x t)) \<subseteq> insert x (set (entries t))"
  unfolding add_always_def
  by (cases rule: add_cases [of "al_uid x" "al_cap x" "al_kind x" "al_app x" "al_scope x" t]) (auto simp: entries_update)

lemma set_entries_fold: "set (entries (fold add_always es t)) \<subseteq> set es \<union> set (entries t)"
proof (induction es arbitrary: t)
  case (Cons x es)
  then show ?case using set_entries_add [of x t] by fastforce
qed simp

text \<open>A table filled from the front.\<close>

lemma add_packed:
  assumes "entry_ok x" and "\<forall>y\<in>set es. short_entry y" and "x \<notin> set es" and "entries r = []"
  shows "add_always x (map Some es @ None # r) = map Some (es @ [x]) @ r"
proof -
  have "find_idx (\<lambda>e. e = None) (map Some es @ None # r) = Some (length es)"
    by (auto simp: find_idx_Some_iff nth_append)
  moreover have "entries (map Some es @ None # r) = es" using assms(4) by (induction es) simp_all
  ultimately show ?thesis
    using assms match_iff [of "map Some es @ None # r" "al_uid x" "al_cap x" "al_kind x" "al_app x" "al_scope x"]
    by (cases x) (simp add: add_always_def cap_always_add_rs_def entry_ok_def token_ok_def scope_token_ok_def cap_consts
        list_update_append not_le)
qed

text \<open>The first occurrences, in order.\<close>

definition firsts :: "'a list \<Rightarrow> 'a list" where "firsts xs = rev (remdups (rev xs))"

lemma remdups_later: "x \<in> set b \<Longrightarrow> remdups (a @ x # b) = remdups (a @ b)"
  by (induction a) auto

lemma firsts_again: "x \<in> set es \<Longrightarrow> firsts (es @ x # xs) = firsts (es @ xs)"
  by (simp add: firsts_def remdups_later)

lemma firsts_distinct: "distinct es \<Longrightarrow> firsts es = es" by (simp add: firsts_def distinct_remdups_id)

lemma set_firsts [simp]: "set (firsts xs) = set xs" by (simp add: firsts_def)

lemma length_firsts: "length (firsts xs) \<le> length xs" by (simp add: firsts_def length_remdups_leq le_trans [OF length_remdups_leq])

lemma add_present:
  assumes "entry_ok x" and "\<forall>y\<in>set es. short_entry y" and "x \<in> set es"
  shows "add_always x (map Some es @ replicate k None) = map Some es @ replicate k None"
proof -
  have "entries (map Some es @ replicate k None) = es" by (induction es) simp_all
  then show ?thesis
    using assms match_iff [of "map Some es @ replicate k None" "al_uid x" "al_cap x" "al_kind x" "al_app x" "al_scope x"]
    by (cases x) (simp add: add_always_def cap_always_add_rs_def entry_ok_def)
qed

lemma fold_packed:
  assumes "list_all entry_ok xs" and "\<forall>y\<in>set es. short_entry y" and "distinct es" and "length xs \<le> k"
  shows "fold add_always xs (map Some es @ replicate k None) =
    map Some (firsts (es @ xs)) @ replicate (length es + k - length (firsts (es @ xs))) None"
  using assms
proof (induction xs arbitrary: es k)
  case Nil
  then show ?case by (simp add: firsts_distinct)
next
  case (Cons x xs)
  show ?case
  proof (cases "x \<in> set es")
    case True
    then show ?thesis using Cons.IH [of es k] Cons.prems by (simp add: add_present firsts_again)
  next
    case False
    obtain k' where k: "k = Suc k'" using Cons.prems(4) by (cases k) auto
    have "add_always x (map Some es @ replicate k None) = map Some (es @ [x]) @ replicate k' None"
      using Cons.prems False add_packed [of x es "replicate k' None"] by (simp add: k)
    then show ?thesis using Cons.IH [of "es @ [x]" k'] Cons.prems False entry_ok_short k by simp
  qed
qed

lemma parse_serialize:
  assumes "list_all entry_ok (entries t)" and "length t = CAP_ALWAYS_MAX"
  shows "\<exists>d. cap_always_serialize_rs 4096 t = Some d \<and> d \<noteq> [] \<and> length d < 4096 \<and>
    cap_always_parse_rs d = map Some (firsts (map trimmed (entries t))) @
      replicate (CAP_ALWAYS_MAX - length (firsts (map trimmed (entries t)))) None"
proof -
  let ?d = "always_header @ file_text (entries t)"
  have "list_all entry_ok (map trimmed (entries t))" using assms(1) by (simp add: list_all_iff entry_ok_trimmed)
  moreover have "length (map trimmed (entries t)) \<le> CAP_ALWAYS_MAX" using length_entries [of t] assms(2) by simp
  ultimately have "cap_always_parse_rs ?d = map Some (firsts (map trimmed (entries t))) @
      replicate (CAP_ALWAYS_MAX - length (firsts (map trimmed (entries t)))) None"
    using fold_packed [of "map trimmed (entries t)" "[]" CAP_ALWAYS_MAX] assms(1)
    by (simp add: parse_written cap_always_reset_rs_def)
  moreover have "length ?d < 4096"
    using length_file_text [OF assms(1)] length_entries [of t] assms(2) by (simp add: CAP_ALWAYS_MAX_def length_header)
  moreover have "?d \<noteq> []" using length_header by auto
  ultimately show ?thesis using serialize_fits [OF assms] by blast
qed

text \<open>Whatever the table, nothing appears in the file that was not an entry.\<close>

lemma serialize_entries:
  assumes "cap_always_serialize_rs n t = Some d" and "list_all entry_ok (entries t)" and "x \<in> set (entries (cap_always_parse_rs d))"
  shows "\<exists>y\<in>set (entries t). x = trimmed y"
proof -
  have n: "length always_header < n"
    using assms(1) by (auto simp: cap_always_serialize_rs_def emit_Some fold_emit_None split: if_splits)
  then have "d = always_header @ file_text (entries t)"
    using assms(1) fold_emit [OF n, of t] by (simp add: cap_always_serialize_rs_def emit_Some split: if_splits)
  then show ?thesis
    using assms(3) set_entries_fold [of "map trimmed (entries t)" cap_always_reset_rs]
    by (auto simp: parse_written [OF assms(2)] cap_always_reset_rs_def)
qed

end
