(* ===== verification/Trust_Account.thy ===== *)
theory Trust_Account
  imports Trust_Grants Caps_Always
begin

text \<open>
  What stands behind the authority of a process: which events of a history gave it its grants, and who agreed to them.
\<close>

section \<open>Consents\<close>

text \<open>The grant that a request leads to.\<close>

definition grant_of :: "tenv \<Rightarrow> cap_req \<Rightarrow> cap_grant" where
  "grant_of e rq = \<lparr>gr_cap = rq_cap rq, gr_kind = rq_kind rq, gr_expires = grant_expiry e (rq_dur rq),
     gr_uses = grant_uses (rq_dur rq), gr_seq = e_jseq e, gr_scope = take (SCOPE_MAX - 1) (rq_scope rq)\<rparr>"

text \<open>The event that put a prompt on the screen.\<close>

definition prompted :: "tevent \<Rightarrow> cap_req \<Rightarrow> bool" where
  "prompted ev rq \<longleftrightarrow>
     (case t_call ev of CapRequest q (Some a) \<Rightarrow> q = rq_pid rq \<and> raised (t_env ev) q a (t_state ev) (t_ret ev) rq | _ \<Rightarrow> False)"

text \<open>The entry that "always allow" asks the kernel to remember.\<close>

definition always_approved :: "tevent \<Rightarrow> cap_always \<Rightarrow> bool" where
  "always_approved ev y \<longleftrightarrow>
     (case t_call ev of
        CapResolve q seq act \<Rightarrow>
          act = CAP_ACT_APPROVE_ALWAYS \<and>
          (let rq = greq (consent (t_state ev)) in
           approving (t_env ev) (t_call ev) (t_ret ev) (t_state ev) rq \<and>
           (case procs (t_state ev) (rq_pid rq) of None \<Rightarrow> False
            | Some p \<Rightarrow> y = \<lparr>al_uid = rq_uid rq, al_cap = rq_cap rq, al_kind = rq_kind rq,
                               al_app = tp_name p, al_scope = rq_scope rq\<rparr>))
      | _ \<Rightarrow> False)"

definition listed :: "string option \<Rightarrow> cap_always \<Rightarrow> bool" where
  "listed cfg y = (case cfg of None \<Rightarrow> False | Some d \<Rightarrow> y \<in> set (entries (cap_always_parse_rs d)))"

definition remembered :: "string option \<Rightarrow> tevent list \<Rightarrow> cap_always \<Rightarrow> bool" where
  "remembered cfg tr x \<longleftrightarrow> (\<exists>y. (listed cfg y \<or> (\<exists>ev\<in>set tr. always_approved ev y)) \<and> (x = y \<or> x = trimmed y))"

text \<open>The events that give process \<open>pid\<close> the grant \<open>g\<close>: the compositor approved a prompt that an earlier request
  of the process raised, or a request of the process met a standing consent.\<close>

definition consented :: "string option \<Rightarrow> tevent list \<Rightarrow> tevent \<Rightarrow> u32 \<Rightarrow> cap_grant \<Rightarrow> bool" where
  "consented cfg tr ev pid g \<longleftrightarrow>
     (case t_call ev of
        CapResolve q seq act \<Rightarrow>
          (let rq = greq (consent (t_state ev)) in
           approving (t_env ev) (t_call ev) (t_ret ev) (t_state ev) rq \<and> rq_pid rq = pid \<and> g = grant_of (t_env ev) rq \<and>
           (\<exists>e1\<in>set tr. prompted e1 rq))
      | CapRequest q (Some a) \<Rightarrow>
          q = pid \<and> 0 < t_ret ev \<and> cap_is_issuable (ra_cap a) \<and> cap_scope_valid (ra_cap a) (ra_kind a) (request_scope a) \<and>
          (case procs (t_state ev) pid of None \<Rightarrow> False
           | Some p \<Rightarrow>
               (case req_noun a (t_state ev) of None \<Rightarrow> False
                | Some scope \<Rightarrow>
                    g = grant_of (t_env ev) (req_info pid p a scope) \<and>
                    remembered cfg tr \<lparr>al_uid = tp_euid p, al_cap = ra_cap a, al_kind = ra_kind a, al_app = tp_name p,
                                       al_scope = scope\<rparr>))
      | _ \<Rightarrow> False)"

text \<open>The events that end what process \<open>pid\<close> holds: a one-use grant is used, a revocation, the end of the process or
  of the boot, and the birth of another process under the pid.\<close>

definition used_up :: "tevent \<Rightarrow> u32 \<Rightarrow> cap_grant \<Rightarrow> bool" where
  "used_up ev pid g \<longleftrightarrow> gated_call (t_call ev) = Some pid \<and> 0 \<le> t_ret ev \<and> gr_uses g = 1 \<and>
     (case use_slot (t_env ev) (t_call ev) (t_state ev) pid (grants_of (t_state ev) pid) of None \<Rightarrow> False
      | Some i \<Rightarrow> grants_of (t_state ev) pid ! i = g)"

definition lost :: "tevent \<Rightarrow> u32 \<Rightarrow> cap_grant \<Rightarrow> bool" where
  "lost ev pid g \<longleftrightarrow>
     (case t_call ev of CapRevoke q cap \<Rightarrow> q = pid \<and> cap = gr_cap g
      | Reap q \<Rightarrow> q = pid \<and> proc_gone q (t_state ev)
      | Spawn path u gid \<Rightarrow> t_ret ev = uint pid
      | Fork q \<Rightarrow> t_ret ev = uint pid
      | Reboot \<Rightarrow> True
      | _ \<Rightarrow> used_up ev pid g)"

primrec backed :: "string option \<Rightarrow> tevent list \<Rightarrow> u32 \<Rightarrow> cap_grant \<Rightarrow> bool" where
  "backed cfg [] pid g = False"
| "backed cfg (ev # tr) pid g =
     (consented cfg tr ev pid g \<or>
      (case t_call ev of Fork q \<Rightarrow> t_ret ev = uint pid \<and> backed cfg tr q g | _ \<Rightarrow> False) \<or>
      (\<not> lost ev pid g \<and> backed cfg tr pid g))"

section \<open>The table of a process\<close>

definition noun :: "cap_grant \<Rightarrow> u32 \<times> u32 \<times> string" where "noun g = (gr_cap g, gr_kind g, gr_scope g)"

definition grants_wf :: "cap_grant list \<Rightarrow> bool" where
  "grants_wf gs \<longleftrightarrow>
     (\<forall>i<length gs. gr_cap (gs ! i) \<noteq> 0 \<longrightarrow>
        (gr_uses (gs ! i) = 1 \<or> gr_uses (gs ! i) = CAP_USES_UNLIMITED) \<and> length (gr_scope (gs ! i)) < SCOPE_MAX \<and>
        (\<forall>j<length gs. noun (gs ! j) = noun (gs ! i) \<longrightarrow> j = i))"

lemma scope_eq_iff: "length a < SCOPE_MAX \<Longrightarrow> scope_eq a b \<longleftrightarrow> a = b"
proof -
  have "length a < n \<Longrightarrow> scope_eq_from n a b \<longleftrightarrow> a = b" for n a b
    by (induction n a b rule: scope_eq_from.induct) auto
  then show "length a < SCOPE_MAX \<Longrightarrow> scope_eq a b \<longleftrightarrow> a = b" by (simp add: scope_eq_def)
qed

lemma issuedE:
  assumes "issued e info gs gs'" and "grants_wf gs" and "length (rq_scope info) < SCOPE_MAX"
  obtains i where "i < length gs" and "gs' = gs[i := grant_of e info]" and "rq_cap info \<noteq> 0"
    and "\<And>j. j < length gs \<Longrightarrow> noun (gs ! j) = noun (grant_of e info) \<Longrightarrow> j = i"
proof -
  obtain i gs1 where c: "cap_issue gs (rq_cap info) (rq_kind info) (rq_scope info) (grant_expiry e (rq_dur info))
      (grant_uses (rq_dur info)) 0 = Some (i, gs1)" and g: "gs' = gs1[i := (gs1 ! i)\<lparr>gr_seq := e_jseq e\<rparr>]"
    using assms(1) by (auto simp: issued_def)
  have slot: "rq_cap info \<noteq> 0" "issue_slot gs (rq_cap info) (rq_kind info) (rq_scope info) = Some i"
    and gs1: "gs1 = gs[i := \<lparr>gr_cap = rq_cap info, gr_kind = rq_kind info, gr_expires = grant_expiry e (rq_dur info),
      gr_uses = grant_uses (rq_dur info), gr_seq = 0, gr_scope = take (SCOPE_MAX - 1) (rq_scope info)\<rparr>]"
    using c by (auto simp: cap_issue_def split: if_splits option.splits)
  have i: "i < length gs"
    using slot(2) by (auto simp: issue_slot_def find_idx_Some_iff split: option.splits)
  have t: "take (SCOPE_MAX - 1) (rq_scope info) = rq_scope info" using assms(3) by (simp add: SCOPE_MAX_def)
  show thesis
  proof (rule that [OF i])
    show "gs' = gs[i := grant_of e info]" using i by (simp add: g gs1 grant_of_def)
    show "rq_cap info \<noteq> 0" by (rule slot(1))
  next
    fix j assume j: "j < length gs" and n: "noun (gs ! j) = noun (grant_of e info)"
    have m: "gr_cap (gs ! j) = rq_cap info \<and> gr_kind (gs ! j) = rq_kind info \<and> scope_eq (gr_scope (gs ! j)) (rq_scope info)"
      using n assms(3) t by (simp add: noun_def grant_of_def scope_eq_iff)
    then have "find_idx (\<lambda>g. gr_cap g = rq_cap info \<and> gr_kind g = rq_kind info \<and> scope_eq (gr_scope g) (rq_scope info)) gs = Some i"
      using slot(2) j by (auto simp: issue_slot_def find_idx_None_iff split: option.splits)
    then have "gr_cap (gs ! i) = rq_cap info \<and> gr_kind (gs ! i) = rq_kind info \<and> scope_eq (gr_scope (gs ! i)) (rq_scope info)"
      by (simp add: find_idx_Some_iff)
    then have "gr_cap (gs ! i) \<noteq> 0" "noun (gs ! j) = noun (gs ! i)"
      using slot(1) n t assms(2) i by (auto simp: noun_def grant_of_def scope_eq_iff grants_wf_def)
    then show "j = i" using assms(2) i j by (simp add: grants_wf_def)
  qed
qed

lemma wf_clear: "grants_wf gs \<Longrightarrow> (\<And>i. i < length gs \<Longrightarrow> gs' ! i = gs ! i \<or> gr_cap (gs' ! i) = 0) \<Longrightarrow> length gs' = length gs \<Longrightarrow>
    grants_wf gs'"
  unfolding grants_wf_def noun_def by (metis prod.inject)

lemma wf_new: "grants_wf (replicate n clear_slot)" "grants_wf []" by (simp_all add: grants_wf_def clear_slot_def)

lemma wf_issued:
  assumes "grants_wf gs" and "length (rq_scope info) < SCOPE_MAX" and "issued e info gs gs'"
  shows "grants_wf gs'"
proof -
  obtain i where i: "i < length gs" "gs' = gs[i := grant_of e info]"
    and u: "\<And>j. j < length gs \<Longrightarrow> noun (gs ! j) = noun (grant_of e info) \<Longrightarrow> j = i"
    using issuedE [OF assms(3,1,2)] by blast
  have "gr_uses (grant_of e info) = 1 \<or> gr_uses (grant_of e info) = CAP_USES_UNLIMITED"
    "length (gr_scope (grant_of e info)) < SCOPE_MAX"
    by (auto simp: grant_of_def grant_uses_def SCOPE_MAX_def)
  then show ?thesis using assms(1) i u unfolding grants_wf_def
    by (auto simp: nth_list_update split: if_splits)
qed

lemma wf_revoke: "grants_wf gs \<Longrightarrow> grants_wf (snd (cap_revoke gs cap))"
  by (rule wf_clear [of gs]) (auto simp: cap_revoke_def clear_slot_def)

lemma wf_sweep: "grants_wf gs \<Longrightarrow> grants_wf (sweep_expired now gs)"
  by (rule wf_clear [of gs]) (auto simp: sweep_expired_def clear_slot_def)

lemma consume_wf:
  assumes "grants_wf gs" and "i < length gs" and "grant_is_live (gs ! i) now"
  shows "snd (cap_consume_use gs i) = (if gr_uses (gs ! i) = 1 then gs[i := clear_slot] else gs)"
proof -
  have "gr_uses (gs ! i) = 1 \<or> gr_uses (gs ! i) = CAP_USES_UNLIMITED"
    using assms unfolding grants_wf_def by (auto simp: grant_is_live_def)
  then show ?thesis using assms(2,3)
    by (auto simp: cap_consume_use_def Let_def grant_is_live_def CAP_USES_UNLIMITED_def)
qed

lemma wf_consume: "grants_wf gs \<Longrightarrow> i < length gs \<Longrightarrow> grant_is_live (gs ! i) now \<Longrightarrow> grants_wf (snd (cap_consume_use gs i))"
  by (rule wf_clear [of gs]) (auto simp: consume_wf nth_list_update clear_slot_def)

section \<open>The slot that a gated call uses\<close>

text \<open>What the call names is what the grant names.\<close>

definition named :: "tcall \<Rightarrow> trust \<Rightarrow> cap_grant \<Rightarrow> bool" where
  "named c s g \<longleftrightarrow>
     (case c of
        ScreenshotRequest q (Some u) \<Rightarrow>
          gr_cap g = CAP_SCREEN_CAPTURE \<and> gr_kind g = CAP_SCOPE_PATH \<and> gr_scope g = take (SHOTQ_PATHLEN - 1) (cstr u)
      | SerialOpen q (Some u) \<Rightarrow> gr_cap g = CAP_SERIAL_PORT \<and> gr_kind g = CAP_SCOPE_PORT \<and> gr_scope g = take 15 (cstr u)
      | InjectKey q h k \<Rightarrow> gr_cap g = CAP_INPUT_INJECT \<and> (gr_kind g = CAP_SCOPE_WINDOW \<and> uw_owner (user_windows s ! nat h) = q \<or>
          gr_kind g = CAP_SCOPE_WINDOW_TARGET \<and> scope_leading_u64 (gr_scope g) = uw_id (user_windows s ! nat h))
      | InjectKeyUp q h k \<Rightarrow> gr_cap g = CAP_INPUT_INJECT \<and> (gr_kind g = CAP_SCOPE_WINDOW \<and> uw_owner (user_windows s ! nat h) = q \<or>
          gr_kind g = CAP_SCOPE_WINDOW_TARGET \<and> scope_leading_u64 (gr_scope g) = uw_id (user_windows s ! nat h))
      | InjectMouse q h x y t b \<Rightarrow> gr_cap g = CAP_INPUT_INJECT \<and> (gr_kind g = CAP_SCOPE_WINDOW \<and> uw_owner (user_windows s ! nat h) = q \<or>
          gr_kind g = CAP_SCOPE_WINDOW_TARGET \<and> scope_leading_u64 (gr_scope g) = uw_id (user_windows s ! nat h))
      | _ \<Rightarrow> False)"

lemma inject_slot_live: "inject_slot e pid h s gs = Some i \<Longrightarrow> i < length gs \<and> grant_is_live (gs ! i) (e_now e) \<and>
    gr_cap (gs ! i) = CAP_INPUT_INJECT \<and> (gr_kind (gs ! i) = CAP_SCOPE_WINDOW \<and> uw_owner (user_windows s ! nat h) = pid \<or>
      gr_kind (gs ! i) = CAP_SCOPE_WINDOW_TARGET \<and> scope_leading_u64 (gr_scope (gs ! i)) = uw_id (user_windows s ! nat h))"
  by (auto simp: inject_slot_def Let_def cap_find_scope_def cap_covers_window_target_def find_idx_Some_iff
      split: option.splits if_splits)

lemma use_slot_live:
  assumes "grants_wf gs" and "use_slot e c s pid gs = Some i"
  shows "i < length gs \<and> grant_is_live (gs ! i) (e_now e) \<and> named c s (gs ! i)"
proof (cases c)
  case (ScreenshotRequest q u)
  then obtain v where "u = Some v" "q = pid" "cap_covers_path gs CAP_SCREEN_CAPTURE (take (SHOTQ_PATHLEN - 1) (cstr v)) (e_now e) = Some i"
    using assms(2) by (auto simp: use_slot_def split: option.splits if_splits)
  then show ?thesis using assms(1) ScreenshotRequest
    by (auto simp: cap_covers_path_def find_idx_Some_iff named_def grants_wf_def scope_eq_iff grant_is_live_def split: if_splits)
next
  case (SerialOpen q u)
  then obtain v where "u = Some v" "q = pid" "cap_covers_port gs CAP_SERIAL_PORT (take 15 (cstr v)) (e_now e) = Some i"
    using assms(2) by (auto simp: use_slot_def split: option.splits if_splits)
  then show ?thesis using assms(1) SerialOpen
    by (auto simp: cap_covers_port_def find_idx_Some_iff named_def grants_wf_def scope_eq_iff grant_is_live_def split: if_splits)
qed (use assms(2) in \<open>auto simp: use_slot_def named_def split: if_splits dest!: inject_slot_live\<close>)

section \<open>The entries of the file\<close>

lemma skip_spaces_hd: "skip_spaces s = [] \<or> hd (skip_spaces s) \<noteq> CHR '' ''"
  unfolding skip_spaces_def using hd_dropWhile [of "\<lambda>c. c = CHR '' ''" s] by auto

lemma read_scope_hd: "read_scope s = Some r \<Longrightarrow> s = [] \<or> hd s \<noteq> CHR '' '' \<Longrightarrow> hd (cstr r) \<noteq> CHR '' ''"
proof -
  assume r: "read_scope s = Some r" and s: "s = [] \<or> hd s \<noteq> CHR '' ''"
  then have "r = rtrim s" "r \<noteq> []" "hd r \<noteq> NUL" by (auto simp: read_scope_def Let_def split: if_splits)
  moreover obtain w where "s = rtrim s @ w" using rtrim_prefix by blast
  ultimately have "hd r = hd s" "s \<noteq> []" by (metis hd_append2, metis append_is_Nil_conv)
  then show ?thesis using s \<open>r \<noteq> []\<close> \<open>hd r \<noteq> NUL\<close> by (cases r) (auto simp: cstr_def)
qed

lemma parse_line_hd:
  assumes "parse_always_line l = Some (uid, cap, kind, app, scope)"
  shows "hd (cstr scope) \<noteq> CHR '' ''"
proof -
  obtain r where "read_scope (skip_spaces r) = Some scope"
    using assms by (auto simp: parse_always_line_def split: if_splits option.splits)
  then show ?thesis using read_scope_hd skip_spaces_hd by blast
qed

lemma add_ok:
  assumes "list_all entry_ok (entries t)" and "hd scope \<noteq> CHR '' ''"
  shows "list_all entry_ok (entries (snd (cap_always_add_rs uid cap kind app scope t)))"
proof (cases rule: add_cases [of uid cap kind app scope t])
  case (refused r)
  then show ?thesis using assms by simp
next
  case (added i)
  then show ?thesis using assms entries_update [OF added(2,3)] by (simp add: list_all_iff entry_ok_def)
qed

lemma parse_entries_ok: "list_all entry_ok (entries (cap_always_parse_rs d))"
proof -
  have "list_all entry_ok (entries t) \<Longrightarrow> list_all entry_ok (entries (fold load_line ls t))" for ls t
  proof (induction ls arbitrary: t)
    case (Cons l ls)
    have "list_all entry_ok (entries (load_line l t))"
      using Cons.prems parse_line_hd [of "strip_cr l"] by (auto simp: load_line_def add_ok split: option.split)
    then show ?case using Cons.IH by simp
  qed simp
  moreover have "list_all entry_ok (entries cap_always_reset_rs)" by (simp add: cap_always_reset_rs_def entries_def)
  ultimately show ?thesis by (simp add: cap_always_parse_rs_def)
qed

text \<open>No noun starts with a blank.\<close>

lemma dec_hd: "digit (hd (dec w @ r))"
  using dec_digits(1,3) [of w] by (cases "dec w") auto

lemma req_noun_hd:
  assumes "cap_is_issuable (ra_cap a)" and "cap_scope_valid (ra_cap a) (ra_kind a) (request_scope a)" and "req_noun a s = Some scope"
  shows "hd scope \<noteq> CHR '' ''"
proof -
  have sc: "cap_scope_valid (ra_cap a) (ra_kind a) z \<Longrightarrow> ra_kind a \<noteq> CAP_SCOPE_WINDOW_TARGET \<Longrightarrow> hd z \<noteq> CHR '' ''" for z
    by (cases z) (auto simp: cap_scope_valid_def path_is_plain_abs_def port_name_is_plain_def scope_is_self_token_def alnum_def digit_def
        cap_consts less_eq_char_def split: if_splits)
  consider "scope = request_scope a" "ra_kind a \<noteq> CAP_SCOPE_WINDOW_TARGET" |
    i t where "scope = take (SCOPE_MAX - 1) (dec (i :: u64) @ t)"
    using assms by (auto simp: req_noun_def request_scope_def cap_scope_valid_def Let_def cap_consts split: if_splits option.splits prod.splits)
  then show ?thesis
  proof cases
    case 1
    then show ?thesis using sc assms(2) by simp
  next
    case 2
    then have "hd scope = hd (dec i @ t)" by (simp add: SCOPE_MAX_def hd_take del: take_append)
    then show ?thesis using dec_hd [of i t] by (auto simp: digit_def less_eq_char_def)
  qed
qed

section \<open>The invariant of the history\<close>

definition accounted :: "string option \<Rightarrow> tevent list \<Rightarrow> trust \<Rightarrow> bool" where
  "accounted cfg tr s \<longleftrightarrow>
     (\<forall>pid. grants_wf (grants_of s pid)) \<and>
     (\<forall>pid. \<forall>g\<in>set (grants_of s pid). gr_cap g \<noteq> 0 \<longrightarrow> backed cfg tr pid g) \<and>
     (is_open s \<longrightarrow> (\<exists>e1\<in>set tr. prompted e1 (greq (consent s)))) \<and>
     list_all entry_ok (entries (always s)) \<and> (\<forall>x\<in>set (entries (always s)). remembered cfg tr x) \<and>
     (\<forall>x. listed (capallow s) x \<longrightarrow> remembered cfg tr x)"

lemma accountedD:
  assumes "accounted cfg tr s"
  shows "grants_wf (grants_of s pid)" and "g \<in> set (grants_of s pid) \<Longrightarrow> gr_cap g \<noteq> 0 \<Longrightarrow> backed cfg tr pid g"
    and "is_open s \<Longrightarrow> \<exists>e1\<in>set tr. prompted e1 (greq (consent s))" and "list_all entry_ok (entries (always s))"
    and "x \<in> set (entries (always s)) \<Longrightarrow> remembered cfg tr x" and "listed (capallow s) x \<Longrightarrow> remembered cfg tr x"
  using assms by (auto simp: accounted_def)

lemma remembered_mono: "remembered cfg tr x \<Longrightarrow> remembered cfg (ev # tr) x" by (auto simp: remembered_def)

lemma rtrim_idem: "rtrim (rtrim s) = rtrim s" by (simp add: rtrim_def dropWhile_idem)

lemma remembered_trimmed: "remembered cfg tr x \<Longrightarrow> remembered cfg tr (trimmed x)"
  unfolding remembered_def trimmed_def by (auto simp: rtrim_idem)

lemma prompted_scope:
  assumes "prompted ev rq"
  shows "length (rq_scope rq) < SCOPE_MAX" and "hd (rq_scope rq) \<noteq> CHR '' ''"
proof -
  obtain a scope seq st pid uid now cap dur kind reason app where
    rq: "rq = fill_req st pid uid now cap dur kind reason scope app seq"
    and n: "req_noun a (t_state ev) = Some scope" "cap_is_issuable (ra_cap a)"
      "cap_scope_valid (ra_cap a) (ra_kind a) (request_scope a)"
    using assms by (auto simp: prompted_def raised_def split: tcall.splits option.splits)
  have sc: "rq_scope rq = take (SCOPE_MAX - 1) scope" by (simp add: rq fill_req_def copy_scope_def)
  then show "length (rq_scope rq) < SCOPE_MAX" by (simp add: SCOPE_MAX_def)
  show "hd (rq_scope rq) \<noteq> CHR '' ''" using req_noun_hd [OF n(2,3,1)] by (simp add: sc SCOPE_MAX_def hd_take)
qed

subsection \<open>Prompts\<close>

lemma raised_pid: "raised e pid a s r rq \<Longrightarrow> rq_pid rq = pid"
  by (auto simp: raised_def fill_req_def split: option.splits dest!: arg_cong [where f = rq_pid])

lemma step_prompt:
  assumes "accounted cfg tr s" and "tcall_exec e c s = (r, s')" and "is_open s'"
  shows "\<exists>e1\<in>set (\<lparr>t_state = s, t_env = e, t_call = c, t_ret = r\<rparr> # tr). prompted e1 (greq (consent s'))"
proof -
  have s': "s' = snd (tcall_exec e c s)" and r: "r = fst (tcall_exec e c s)" using assms(2) by simp_all
  have keep: "greq (consent s') = greq (consent s) \<Longrightarrow> is_open s \<Longrightarrow> ?thesis" using accountedD(3) [OF assms(1)] by auto
  show ?thesis
  proof (cases "cap_call c")
    case False
    then have "consent s' = consent s" using exec_cap_part [OF False, of e s] s' by (simp add: cap_part_def)
    then show ?thesis using keep assms(3) by simp
  next
    case True
    show ?thesis
    proof (cases c)
      case (CapRequest pid arg)
      show ?thesis
      proof (cases rule: request_cases [of e pid arg s])
        case same
        from same(2) consider "greq (consent s') = greq (consent s)" "is_open s" |
            a where "arg = Some a" "raised e pid a s r (greq (consent s'))"
          using CapRequest s' r assms(3) by auto
        then show ?thesis using keep raised_pid CapRequest by cases (auto simp: prompted_def)
      next
        case standing
        then show ?thesis using CapRequest s' assms(3) by simp
      qed
    next
      case (CapStatus q)
      have "is_open s \<and> greq (consent s') = greq (consent s)"
        using CapStatus s' assms(3) watchdog_open [of e s]
        by (auto simp: sys_cap_status_def Let_def cap_req_reap_rs_def cap_consts split: if_splits)
      then show ?thesis using keep by blast
    next
      case (CapView pid)
      have "is_open s \<and> greq (consent s') = greq (consent s)"
        using CapView s' assms(3) watchdog_open [of e s]
        by (auto simp: sys_cap_view_def Let_def split: if_splits option.splits)
      then show ?thesis using keep by blast
    next
      case (CapResolve pid q act)
      show ?thesis
      proof (cases rule: resolve_cases [of e pid q act s])
        case same
        then show ?thesis using CapResolve s' assms(3) keep by simp
      next
        case granted
        then show ?thesis using CapResolve s' assms(3) by simp
      qed
    next
      case Reboot
      then show ?thesis using s' assms(3) by (simp add: boot_def idle_req_def cap_consts)
    qed (use True in \<open>simp_all add: cap_call_def\<close>)
  qed
qed

subsection \<open>Standing consents\<close>

lemma always_request: "always (snd (sys_cap_request e pid arg s)) = always s \<or>
    always (snd (sys_cap_request e pid arg s)) = always (cap_always_load e s)"
proof -
  have n: "\<And>k x. always (cap_ledger_note k x) = always x" by (simp add: cap_ledger_note_def)
  show ?thesis
    by (auto simp: sys_cap_request_def Let_def frame n split: option.split prod.split dest!: snd_eqI)
qed

lemma always_load: "x \<in> set (entries (always (cap_always_load e s))) \<Longrightarrow> listed (capallow s) x"
  "list_all entry_ok (entries (always (cap_always_load e s)))"
proof -
  have "entries cap_always_reset_rs = []" by (simp add: cap_always_reset_rs_def entries_def)
  then show "x \<in> set (entries (always (cap_always_load e s))) \<Longrightarrow> listed (capallow s) x"
    "list_all entry_ok (entries (always (cap_always_load e s)))"
    by (auto simp: cap_always_load_def Let_def listed_def parse_entries_ok split: option.splits if_splits)
qed

lemma remember_entries:
  assumes "list_all entry_ok (entries (always s))" and "hd (rq_scope info) \<noteq> CHR '' ''" and "procs s (rq_pid info) = Some p"
    and "\<And>t old. e_write e t old = Some t \<or> e_write e t old = old"
    and "new = \<lparr>al_uid = rq_uid info, al_cap = rq_cap info, al_kind = rq_kind info, al_app = tp_name p, al_scope = rq_scope info\<rparr>"
  shows "list_all entry_ok (entries (always (cap_always_remember e info s)))"
    and "x \<in> set (entries (always (cap_always_remember e info s))) \<Longrightarrow> x = new \<or> x \<in> set (entries (always s))"
    and "listed (capallow (cap_always_remember e info s)) x \<Longrightarrow>
      listed (capallow s) x \<or> (\<exists>y\<in>insert new (set (entries (always s))). x = trimmed y)"
proof -
  let ?t = "snd (cap_always_add_rs (rq_uid info) (rq_cap info) (rq_kind info) (tp_name p) (rq_scope info) (always s))"
  have al: "always (cap_always_remember e info s) = always s \<or> always (cap_always_remember e info s) = ?t"
    using assms(3) by (auto simp: cap_always_remember_def Let_def frame split: prod.split)
  have ok: "list_all entry_ok (entries ?t)" by (rule add_ok [OF assms(1,2)])
  have sub: "set (entries ?t) \<subseteq> insert new (set (entries (always s)))"
  proof (cases rule: add_cases [of "rq_uid info" "rq_cap info" "rq_kind info" "tp_name p" "rq_scope info" "always s"])
    case (refused r)
    then show ?thesis by auto
  next
    case (added i)
    then show ?thesis using entries_update [OF added(2,3)] assms(5) by simp
  qed
  show "list_all entry_ok (entries (always (cap_always_remember e info s)))" using al ok assms(1) by auto
  show "x \<in> set (entries (always (cap_always_remember e info s))) \<Longrightarrow> x = new \<or> x \<in> set (entries (always s))" using al sub by auto
  have "capallow (cap_always_remember e info s) = capallow s \<or>
      (\<exists>d. cap_always_serialize_rs CAPALLOW_BUF ?t = Some d \<and> capallow (cap_always_remember e info s) = Some d)"
    using assms(3,4) by (auto simp: cap_always_remember_def cap_always_save_def Let_def split: prod.split option.split)
  then show "listed (capallow s) x \<or> (\<exists>y\<in>insert new (set (entries (always s))). x = trimmed y)"
    if "listed (capallow (cap_always_remember e info s)) x"
  proof
    assume "\<exists>d. cap_always_serialize_rs CAPALLOW_BUF ?t = Some d \<and> capallow (cap_always_remember e info s) = Some d"
    then show ?thesis using serialize_entries [OF _ ok] sub that by (fastforce simp: listed_def)
  qed (use that in simp)
qed

lemma step_always:
  assumes a: "accounted cfg tr s" and "tcall_exec e c s = (r, s')" and w: "\<And>t old. e_write e t old = Some t \<or> e_write e t old = old"
    and ev: "ev = \<lparr>t_state = s, t_env = e, t_call = c, t_ret = r\<rparr>"
  shows "list_all entry_ok (entries (always s')) \<and> (\<forall>x\<in>set (entries (always s')). remembered cfg (ev # tr) x) \<and>
    (\<forall>x. listed (capallow s') x \<longrightarrow> remembered cfg (ev # tr) x)"
proof -
  have s': "s' = snd (tcall_exec e c s)" and r: "r = fst (tcall_exec e c s)" using assms(2) by simp_all
  note old = accountedD [OF a] remembered_mono
  have load: "always s' = always s \<or> always s' = always (cap_always_load e s) \<Longrightarrow> capallow s' = capallow s \<Longrightarrow> ?thesis"
    using old(4-7) always_load [where e = e and s = s] by auto
  show ?thesis
  proof (cases "\<exists>pid q act. c = CapResolve pid q act")
    case False
    then show ?thesis
    proof (cases c)
      case (CapRequest pid arg)
      then show ?thesis using always_request [of e pid arg s] s' by (intro load) (simp_all add: frame)
    next
      case (CapStatus q)
      then show ?thesis using s' by (intro load) (simp_all add: frame)
    next
      case (CapView pid)
      then show ?thesis using s' by (intro load) (simp_all add: frame)
    next
      case Reboot
      then show ?thesis using s' old(6,7) by (auto simp: boot_def cap_always_reset_rs_def entries_def)
    qed (use s' False exec_cap_part [of c e s] in \<open>intro load; simp add: cap_call_def cap_part_def\<close>)+
  next
    case True
    then obtain pid q act where c: "c = CapResolve pid q act" by blast
    show ?thesis
    proof (cases rule: resolve_cases [of e pid q act s])
      case same
      then show ?thesis using c s' by (intro load) simp_all
    next
      case (granted info p gs s2)
      have s2: "always s2 = always s" "capallow s2 = capallow s" using granted(12) by (simp_all add: cap_part_def)
      show ?thesis
      proof (cases "act = CAP_ACT_APPROVE_ALWAYS")
        case False
        then show ?thesis using granted(14) c s' s2 by (intro load) simp_all
      next
        case True
        let ?new = "\<lparr>al_uid = rq_uid info, al_cap = rq_cap info, al_kind = rq_kind info, al_app = tp_name p, al_scope = rq_scope info\<rparr>"
        obtain e1 where "prompted e1 info" using old(3) granted(3,4) by auto
        then have hd: "hd (rq_scope info) \<noteq> CHR '' ''" by (rule prompted_scope)
        obtain p2 where p2: "procs s2 (rq_pid info) = Some p2" "tp_name p2 = tp_name p" using granted(13) by auto
        have new: "?new = \<lparr>al_uid = rq_uid info, al_cap = rq_cap info, al_kind = rq_kind info, al_app = tp_name p2, al_scope = rq_scope info\<rparr>"
          using p2 by simp
        have "always_approved ev ?new"
          using granted(1-8) c r True by (simp add: ev always_approved_def approving_def Let_def)
        then have n: "remembered cfg (ev # tr) ?new" by (auto simp: remembered_def)
        have sr: "s' = cap_always_remember e info s2" using granted(14) True c s' by simp
        note re = remember_entries [OF _ hd p2(1) w new, unfolded s2, OF old(4), folded sr]
        show ?thesis
        proof (intro conjI ballI allI impI)
          show "list_all entry_ok (entries (always s'))" by (rule re(1))
          show "remembered cfg (ev # tr) x" if "x \<in> set (entries (always s'))" for x
            using re(2) [OF that] n old(5,7) by auto
          show "remembered cfg (ev # tr) x" if "listed (capallow s') x" for x
            using re(3) [OF that] n old(5,6,7) remembered_trimmed by auto
        qed
      qed
    qed
  qed
qed

subsection \<open>Grants\<close>

lemma issue_short:
  assumes "accounted cfg tr s" and "approving e c r s info \<or> standing_request e c r s info"
  shows "length (rq_scope info) < SCOPE_MAX"
  using assms(2)
proof
  assume "approving e c r s info"
  then have "is_open s" "info = greq (consent s)" by (auto simp: approving_def split: tcall.splits)
  then show ?thesis using accountedD(3) [OF assms(1)] prompted_scope by blast
next
  assume "standing_request e c r s info"
  then have "\<exists>q p a scope. info = req_info q p a scope"
    by (auto simp: standing_request_def auto_granted_def split: tcall.splits option.splits)
  then show ?thesis by (auto simp: req_info_def SCOPE_MAX_def)
qed

lemma issue_consented:
  assumes a: "accounted cfg tr s" and "approving e c r s info \<or> standing_request e c r s info"
    and ev: "ev = \<lparr>t_state = s, t_env = e, t_call = c, t_ret = r\<rparr>"
  shows "consented cfg tr ev (rq_pid info) (grant_of e info)"
  using assms(2)
proof
  assume ap: "approving e c r s info"
  then obtain q seq act where c: "c = CapResolve q seq act" by (auto simp: approving_def split: tcall.splits)
  have "is_open s" "info = greq (consent s)" using ap by (auto simp: approving_def c)
  then show ?thesis using ap accountedD(3) [OF a] by (simp add: consented_def ev c Let_def)
next
  assume st: "standing_request e c r s info"
  then obtain q arg where c: "c = CapRequest q (Some arg)" and r: "0 < r" and au: "auto_granted e q arg s info"
    by (auto simp: standing_request_def split: tcall.splits option.splits)
  then obtain p scope t where p: "procs s q = Some p" "cap_is_issuable (ra_cap arg)"
      "cap_scope_valid (ra_cap arg) (ra_kind arg) (request_scope arg)" "req_noun arg s = Some scope" "info = req_info q p arg scope"
      and t: "t = always s \<or> t = always (cap_always_load e s)"
      and m: "cap_always_match_rs (tp_euid p) (ra_cap arg) (ra_kind arg) (tp_name p) scope t"
    by (auto simp: auto_granted_def request_scope_def)
  have "list_all entry_ok (entries t)" and re: "\<And>x. x \<in> set (entries t) \<Longrightarrow> remembered cfg tr x"
    using t accountedD(4-6) [OF a] always_load by auto
  then have "\<forall>y\<in>set (entries t). short_entry y" by (simp add: list_all_iff entry_ok_short)
  then have "remembered cfg tr \<lparr>al_uid = tp_euid p, al_cap = ra_cap arg, al_kind = ra_kind arg, al_app = tp_name p, al_scope = scope\<rparr>"
    using m re by (simp add: match_iff)
  then show ?thesis using p r by (simp add: consented_def ev c req_info_def)
qed

lemma uint_word_eq: "uint (v :: u32) = uint w \<longleftrightarrow> v = w" by (simp add: word_uint_eq_iff)

lemma backed_kept: "backed cfg tr pid g \<Longrightarrow> \<not> lost ev pid g \<Longrightarrow> backed cfg (ev # tr) pid g" by simp

lemma step_grants:
  assumes a: "accounted cfg tr s" and x: "tcall_exec e c s = (r, s')"
    and ev: "ev = \<lparr>t_state = s, t_env = e, t_call = c, t_ret = r\<rparr>"
  shows "grants_wf (grants_of s' pid) \<and> (\<forall>g\<in>set (grants_of s' pid). gr_cap g \<noteq> 0 \<longrightarrow> backed cfg (ev # tr) pid g)"
proof -
  note wf = accountedD(1) [OF a] and old = accountedD(2) [OF a]
  have lostI: "\<not> lost ev pid g" if "\<And>q cap. c \<noteq> CapRevoke q cap" "\<And>q. c \<noteq> Reap q" "\<And>path u gid. c \<noteq> Spawn path u gid"
      "\<And>q. c \<noteq> Fork q" "c \<noteq> Reboot" "\<not> used_up ev pid g" for pid g
    using that by (cases c) (auto simp: lost_def ev)
  have unused: "\<not> used_up ev pid g" if "gated_call c \<noteq> Some pid" for pid g
    using that by (simp add: used_up_def ev)
  from x show ?thesis
  proof (cases rule: exec_grants)
    case same
    have nu: "\<not> used_up ev pid g" for g using same(2) by (auto simp: used_up_def ev)
    have "\<not> lost ev pid g" if "g \<in> set (grants_of s pid)" for g
      using same(3,4,5,6) nu that by (cases c) (auto simp: lost_def ev)
    then show ?thesis using wf old same(1) backed_kept by simp
  next
    case (sweep q cap)
    have "\<not> lost ev pid g" for g by (rule lostI) (simp_all add: sweep(1) unused gated_call_def)
    then show ?thesis using wf old sweep(2) backed_kept
      by (auto simp: wf_sweep) (auto simp: sweep_expired_def clear_slot_def split: if_splits)
  next
    case (revoke q cap)
    have "\<not> lost ev pid g" if "q = pid \<Longrightarrow> gr_cap g \<noteq> cap" for g using that by (auto simp: lost_def ev revoke(1))
    moreover have "g \<in> set (grants_of s q) \<and> gr_cap g \<noteq> cap" if "g \<in> set (snd (cap_revoke (grants_of s q) cap))" "gr_cap g \<noteq> 0" for g
      using that by (auto simp: cap_revoke_def clear_slot_def split: if_splits)
    ultimately show ?thesis using wf old revoke(2) backed_kept by (auto simp: wf_revoke)
  next
    case (used q i)
    let ?gs = "grants_of s q"
    have live: "i < length ?gs" "grant_is_live (?gs ! i) (e_now e)" using use_slot_live [OF wf used(2)] by simp_all
    have nl: "\<not> lost ev pid g" if "\<not> used_up ev pid g" for g
      using used(1) that by (intro lostI) (auto simp: gated_call_def)
    show ?thesis
    proof (cases "pid = q")
      case False
      then show ?thesis using wf old used nl unused backed_kept by simp
    next
      case True
      have "backed cfg (ev # tr) q g" if g: "g \<in> set (snd (cap_consume_use ?gs i))" "gr_cap g \<noteq> 0" for g
      proof -
        obtain j where j1: "j < length ?gs" "snd (cap_consume_use ?gs i) ! j = g"
          using g(1) consume_wf [OF wf live] by (auto simp: in_set_conv_nth split: if_splits)
        have j3: "j \<noteq> i" if "gr_uses (?gs ! i) = 1" using that j1 g(2) consume_wf [OF wf live] by (auto simp: clear_slot_def)
        have j2: "?gs ! j = g" using j1 j3 consume_wf [OF wf live] by (auto split: if_splits)
        note j = j1(1) j2 j3
        have "\<not> used_up ev q g"
        proof
          assume "used_up ev q g"
          then have "gr_uses g = 1" "?gs ! i = g" using used(2) by (auto simp: used_up_def ev)
          then have "noun (?gs ! j) = noun (?gs ! i)" "gr_cap (?gs ! i) \<noteq> 0" "gr_uses (?gs ! i) = 1" using j(2) g(2) by simp_all
          then have "j = i" using wf [of q] j(1) live(1) unfolding grants_wf_def by blast
          then show False using j(3) \<open>gr_uses (?gs ! i) = 1\<close> by blast
        qed
        then have "\<not> lost ev q g" using nl True by blast
        moreover have "backed cfg tr q g" using old j g(2) nth_mem by blast
        ultimately show ?thesis by (rule backed_kept [rotated])
      qed
      then show ?thesis using True used(3) wf_consume [OF wf live] by simp
    qed
  next
    case (issue info gs)
    have sh: "length (rq_scope info) < SCOPE_MAX" by (rule issue_short [OF a issue(1)])
    obtain i where i: "i < length (grants_of s (rq_pid info))" "gs = (grants_of s (rq_pid info))[i := grant_of e info]"
      using issuedE [OF issue(2) wf sh] by metis
    have "gated_call c = None \<and> (\<forall>q cap. c \<noteq> CapRevoke q cap) \<and> (\<forall>q. c \<noteq> Reap q) \<and> (\<forall>path u gid. c \<noteq> Spawn path u gid) \<and>
        (\<forall>q. c \<noteq> Fork q) \<and> c \<noteq> Reboot"
      using issue(1) by (auto simp: approving_def standing_request_def gated_call_def split: tcall.splits)
    then have nl: "\<not> lost ev q g" for q g using unused by (intro lostI) auto
    have new: "backed cfg (ev # tr) (rq_pid info) (grant_of e info)" using issue_consented [OF a issue(1) ev] by simp
    have "backed cfg (ev # tr) (rq_pid info) g" if "g \<in> set gs" "gr_cap g \<noteq> 0" for g
      using that i(2) new old [of g "rq_pid info"] nl backed_kept set_update_subset_insert by fastforce
    then show ?thesis using wf old issue nl wf_issued [OF wf sh issue(2)] backed_kept by auto
  next
    case (birth q gs)
    then consider (spawn) path u gid where "c = Spawn path u gid" "r = uint q" "gs = replicate CAP_MAX_GRANTS clear_slot" |
        (fork) p where "c = Fork p" "r = uint q" "gs = grants_of s p"
      by (auto simp: born_def split: tcall.splits)
    then show ?thesis
    proof cases
      case spawn
      have "\<not> lost ev pid g" if "pid \<noteq> q" for g using that spawn by (auto simp: lost_def ev uint_word_eq)
      then show ?thesis using wf old birth(2) spawn(3) wf_new backed_kept by (auto simp: clear_slot_def)
    next
      case fork
      have "\<not> lost ev pid g" if "pid \<noteq> q" for g using that fork by (auto simp: lost_def ev uint_word_eq)
      moreover have "backed cfg (ev # tr) q g" if "backed cfg tr p g" for g using that fork by (simp add: ev)
      ultimately show ?thesis using wf old birth(2) fork(3) backed_kept [of cfg tr pid _ ev] by (cases "pid = q") (simp_all del: backed.simps)
    qed
  next
    case (reaped q)
    have "\<not> lost ev pid g" if "pid \<noteq> q" for g using that reaped(1) by (simp add: lost_def ev)
    then show ?thesis using wf old reaped(3) wf_new backed_kept by auto
  next
    case rebooted
    then show ?thesis by (simp add: wf_new)
  qed
qed

lemma history_accounted: "history sh cfg tr s \<Longrightarrow> accounted cfg tr s"
proof (induction rule: history.induct)
  case history_boot
  then show ?case
    by (simp add: accounted_def boot_def grants_of_def wf_new idle_req_def cap_consts cap_always_reset_rs_def entries_def)
      (auto simp: remembered_def)
next
  case (history_call tr s e c r s')
  let ?ev = "\<lparr>t_state = s, t_env = e, t_call = c, t_ret = r\<rparr>"
  show ?case
    using step_grants [OF history_call.IH history_call.hyps(3) refl] step_prompt [OF history_call.IH history_call.hyps(3)]
      step_always [OF history_call.IH history_call.hyps(3,2) refl]
    unfolding accounted_def by blast
qed

end
