(* ===== verification/Trust_Inherit.thy ===== *)
theory Trust_Inherit
  imports Trust_Account
begin

text \<open>
  Fields of a process that outlive the call that wrote them: where a value that a process holds comes from.
\<close>

section \<open>Inheritance\<close>

definition reborn :: "tevent \<Rightarrow> u32 \<Rightarrow> bool" where
  "reborn ev pid \<longleftrightarrow>
     (case t_call ev of Spawn path u g \<Rightarrow> t_ret ev = uint pid | Fork q \<Rightarrow> t_ret ev = uint pid
      | Reap q \<Rightarrow> q = pid \<and> proc_gone q (t_state ev) | Reboot \<Rightarrow> True | _ \<Rightarrow> False)"

text \<open>A value came into a process by an event that is an origin of it, or by fork, or it was there before.\<close>

primrec inherits :: "(tevent list \<Rightarrow> tevent \<Rightarrow> u32 \<Rightarrow> 'a \<Rightarrow> bool) \<Rightarrow> tevent list \<Rightarrow> u32 \<Rightarrow> 'a \<Rightarrow> bool" where
  "inherits origin [] pid a = False"
| "inherits origin (ev # tr) pid a =
     (origin tr ev pid a \<or>
      (case t_call ev of Fork q \<Rightarrow> t_ret ev = uint pid \<and> inherits origin tr q a | _ \<Rightarrow> False) \<or>
      (\<not> reborn ev pid \<and> inherits origin tr pid a))"

definition birth_call :: "tcall \<Rightarrow> bool" where
  "birth_call c = (case c of Spawn path u g \<Rightarrow> True | Fork q \<Rightarrow> True | Reap q \<Rightarrow> True | Reboot \<Rightarrow> True | _ \<Rightarrow> False)"

locale process_field =
  fixes attr :: "tproc \<Rightarrow> 'a" and idle :: 'a and origin :: "tevent list \<Rightarrow> tevent \<Rightarrow> u32 \<Rightarrow> 'a \<Rightarrow> bool"
  assumes fresh: "attr (fresh_proc path u g) = idle"
    and zombie: "attr (p\<lparr>tp_zombie := z\<rparr>) = attr p"
    and step: "history sh cfg tr s \<Longrightarrow> tcall_exec e c s = (r, s') \<Longrightarrow> \<not> birth_call c \<Longrightarrow> procs s' pid = Some p' \<Longrightarrow>
      attr p' \<noteq> idle \<Longrightarrow> (\<exists>p. procs s pid = Some p \<and> attr p = attr p') \<or>
        origin tr \<lparr>t_state = s, t_env = e, t_call = c, t_ret = r\<rparr> pid (attr p')"
begin

lemma inherited: "history sh cfg tr s \<Longrightarrow> procs s pid = Some p \<Longrightarrow> attr p \<noteq> idle \<Longrightarrow> inherits origin tr pid (attr p)"
proof (induction arbitrary: pid p rule: history.induct)
  case history_boot
  then show ?case by (simp add: boot_def)
next
  case (history_call tr s e c r s')
  let ?ev = "\<lparr>t_state = s, t_env = e, t_call = c, t_ret = r\<rparr>"
  have keep: "\<not> reborn ?ev pid \<Longrightarrow> procs s pid = Some q \<Longrightarrow> attr q = attr p \<Longrightarrow> ?case" for q
    using history_call.IH [of pid q] history_call.prems(2) by simp
  show ?case
  proof (cases "birth_call c")
    case False
    then have "\<not> reborn ?ev pid" by (cases c) (simp_all add: reborn_def birth_call_def)
    then show ?thesis
      using step [OF history_call.hyps(1,3) False history_call.prems] keep by auto
  next
    case True
    then show ?thesis
    proof (cases c)
      case (Spawn path u g)
      then show ?thesis
        using history_call.hyps(3) history_call.prems keep fresh
        by (auto simp: proc_spawn_def reborn_def uint_word_eq uint_not_neg split: if_splits)
    next
      case (Fork q)
      then show ?thesis
        using history_call.hyps(3) history_call.prems keep history_call.IH [of q] zombie
        by (auto simp: proc_fork_def reborn_def uint_word_eq uint_not_neg split: if_splits option.splits)
    next
      case (Reap q)
      then have s': "s' = proc_reap q s" using history_call.hyps(3) by simp
      have p: "procs s pid = Some p" using history_call.prems(1) unfolding s'
        by (auto simp: proc_reap_def split: if_splits option.splits)
      have "\<not> (q = pid \<and> tp_zombie p)" using history_call.prems(1) p unfolding s' by (auto simp: proc_reap_def)
      then have "\<not> reborn ?ev pid" using p Reap by (auto simp: reborn_def proc_gone_def)
      then show ?thesis using keep p by simp
    next
      case Reboot
      then show ?thesis using history_call.hyps(3) history_call.prems by (auto simp: boot_def)
    qed (simp_all add: birth_call_def)
  qed
qed

end

section \<open>What a call writes into processes\<close>

definition writes_fields :: "tcall \<Rightarrow> bool" where
  "writes_fields c = (case c of Exit q \<Rightarrow> True | SetIds q u g \<Rightarrow> True | HwInput h ev \<Rightarrow> True | ElevPermits q p u \<Rightarrow> True
     | ElevResolve q a b d \<Rightarrow> True | _ \<Rightarrow> False)"

lemma procs_grants:
  assumes "\<not> birth_call c" and "\<not> writes_fields c"
  shows "procs (snd (tcall_exec e c s)) = procs s \<or> (\<exists>pid gs. procs (snd (tcall_exec e c s)) = procs (upd_grants pid gs s))"
proof (cases "gated_call c")
  case (Some pid)
  then show ?thesis using exec_uses [OF Some, of e s] unfolding uses_def by blast
next
  case None
  then show ?thesis
  proof (cases c)
    case (CapQuery pid cap)
    then show ?thesis by (auto simp: sys_cap_query_def split: option.split prod.split)
  next
    case (CapRequest pid arg)
    then show ?thesis by (cases rule: request_cases [of e pid arg s]) auto
  next
    case (CapResolve pid q act)
    then show ?thesis by (cases rule: resolve_cases [of e pid q act s]) auto
  next
    case (CapRevoke pid cap)
    then show ?thesis by (auto simp: sys_cap_revoke_def frame split: option.split)
  qed (use assms None in \<open>simp_all add: birth_call_def writes_fields_def gated_call_def frame of_bool_ret_def\<close>)
qed

lemma field_kept:
  assumes "\<not> birth_call c" and "\<not> writes_fields c" and "\<And>p gs. f (p\<lparr>tp_grants := gs\<rparr>) = f p"
    and "procs (snd (tcall_exec e c s)) pid = Some p'"
  shows "\<exists>p. procs s pid = Some p \<and> f p = f p'"
  using procs_grants [OF assms(1,2), of e s] assms(3,4) by (auto simp: procs_upd_grants split: if_splits)

section \<open>The elevation request\<close>

text \<open>The result \<open>res\<close> of an answer to the prompt: nothing in the processes, or a grant to the requester.\<close>

definition elev_granted :: "tenv \<Rightarrow> u32 \<Rightarrow> u64 \<Rightarrow> int \<Rightarrow> string \<Rightarrow> trust \<Rightarrow> u32 \<Rightarrow> bool" where
  "elev_granted e q seq act pw s pid \<longleftrightarrow>
     caller_is_compositor q s \<and> act = ELEV_ACT_SUBMIT \<and> el_state (elev s) = CAP_ST_OPEN \<and> el_seq (elev s) = seq \<and>
     el_pid (elev s) = pid \<and> e_now e - el_opened (elev s) \<le> ELEV_OPEN_TTL_MS \<and> pw \<noteq> [] \<and>
     (\<exists>name x. e_user e (el_uid (elev s)) = Some name \<and> e_verify e name pw \<and> shadow s name = Some x \<and>
        (sh_until x = 0 \<or> sh_until x \<le> e_now e))"

lemma elev_watchdog_open: "el_state (elev (elev_watchdog e s)) = CAP_ST_OPEN \<Longrightarrow>
    elev_owner_pid_rs (elev (elev_watchdog e s)) \<noteq> 0 \<Longrightarrow>
    elev_watchdog e s = s \<and> e_now e - el_opened (elev s) \<le> ELEV_OPEN_TTL_MS"
proof -
  assume o: "el_state (elev (elev_watchdog e s)) = CAP_ST_OPEN" and p: "elev_owner_pid_rs (elev (elev_watchdog e s)) \<noteq> 0"
  have ne: "CAP_ST_DENIED \<noteq> CAP_ST_OPEN" by (simp add: cap_consts)
  have "elev_owner_pid_rs (elev s) \<noteq> 0" using p by (auto simp: elev_watchdog_def)
  then have w: "elev_watchdog e s = snd (elev_tick_rs (e_now e) (procs s (elev_owner_pid_rs (elev s)) \<noteq> None) s)"
    and st: "el_state (elev s) = CAP_ST_OPEN"
    by (auto simp: elev_watchdog_def Let_def elev_owner_pid_rs_def split: if_splits)
  have "\<not> ELEV_OPEN_TTL_MS < e_now e - el_opened (elev s) \<and> elev_watchdog e s = s"
    using o unfolding w by (auto simp: elev_tick_rs_def st ne split: if_splits)
  then show ?thesis by (simp add: not_less)
qed

lemma elev_resolve_cases:
  obtains (same) "procs (snd (sys_elev_resolve e q seq act pw s)) = procs s"
  | (granted) "elev_granted e q seq act pw s (el_pid (elev s))" and "fst (sys_elev_resolve e q seq act pw s) = 0"
      and "procs (snd (sys_elev_resolve e q seq act pw s)) = procs (upd_proc (el_pid (elev s)) (grant_elevation e) s)"
      and "el_state (elev (snd (sys_elev_resolve e q seq act pw s))) \<noteq> CAP_ST_OPEN"
proof -
  let ?R = "sys_elev_resolve e q seq act pw s" and ?w = "elev_watchdog e s"
  have ne: "ELEV_ACT_SUBMIT \<noteq> ELEV_ACT_CANCEL" "ELEV_ACT_SUBMIT \<noteq> ELEV_ACT_LOCKSECS" "CAP_ST_GRANTED \<noteq> CAP_ST_OPEN"
    by (simp_all add: elev_consts cap_consts)
  show thesis
  proof (cases "caller_is_compositor q s \<and> elev_owner_pid_rs (elev ?w) \<noteq> 0 \<and> elev_owner_uid_rs ?w \<noteq> 0xFFFFFFFF \<and>
      e_user e (elev_owner_uid_rs ?w) \<noteq> None \<and> act = ELEV_ACT_SUBMIT \<and> pw \<noteq> []")
    case False
    then show thesis
      by (intro same) (auto simp: sys_elev_resolve_def Let_def frame split: option.split)
  next
    case True
    then obtain name where n: "e_user e (elev_owner_uid_rs ?w) = Some name" by auto
    obtain ar s2 where au: "users_authenticate_elev e name pw ?w = (ar, s2)" by (cases "users_authenticate_elev e name pw ?w")
    have st: "el_state (elev ?w) = CAP_ST_OPEN" using True by (auto simp: elev_owner_pid_rs_def split: if_splits)
    have w: "?w = s" "e_now e - el_opened (elev s) \<le> ELEV_OPEN_TTL_MS"
      using elev_watchdog_open [OF st] True by simp_all
    have own: "elev_owner_pid_rs (elev s) = el_pid (elev s)" "elev_owner_uid_rs s = el_uid (elev s)"
      using st by (simp_all add: w elev_owner_pid_rs_def elev_owner_uid_rs_def)
    have s2: "procs s2 = procs s" "elev s2 = elev s"
      using frame_auth(2,3) [of e name pw s] au by (simp_all add: w)
    have R: "?R = (if ar = -2 then (ELEV_ELOCKED, s2)
      else if ar \<noteq> 0 then (case elev_attempt_rs seq False s2 of (left, s3) \<Rightarrow> (if left \<le> 0 then ELEV_EATTEMPTS else left, s3))
      else case elev_attempt_rs seq True s2 of (r, s3) \<Rightarrow>
        if r \<noteq> 0 then (ELEV_ESTALE, s3) else if procs s3 (el_pid (elev s)) = None then (ELEV_ESTALE, s3)
        else (0, upd_proc (el_pid (elev s)) (grant_elevation e) s3))"
      using True n ne au w own by (cases "elev_attempt_rs seq True s2") (simp add: sys_elev_resolve_def Let_def)
    show thesis
    proof (cases "ar = 0 \<and> el_seq (elev s) = seq \<and> procs s (el_pid (elev s)) \<noteq> None")
      case False
      then show thesis
        using st w s2 by (intro same) (auto simp: R elev_attempt_rs_def Let_def ELEV_ESTALE_def)
    next
      case ok: True
      have ve: "e_verify e name pw \<and> (\<exists>x. shadow s name = Some x \<and> (sh_until x = 0 \<or> sh_until x \<le> e_now e))"
        using au ok by (auto simp: users_authenticate_elev_def w Let_def not_less split: if_splits option.splits)
      have at: "elev_attempt_rs seq True s2 = (0, s2\<lparr>elev := (elev s2)\<lparr>el_state := CAP_ST_GRANTED\<rparr>\<rparr>)"
        using ok st w s2 by (simp add: elev_attempt_rs_def)
      have R0: "?R = (0, upd_proc (el_pid (elev s)) (grant_elevation e) (s2\<lparr>elev := (elev s2)\<lparr>el_state := CAP_ST_GRANTED\<rparr>\<rparr>))"
        using R at ok s2 by simp
      show thesis
      proof (rule granted)
        show "elev_granted e q seq act pw s (el_pid (elev s))"
          using True ok st w ve n own by (auto simp: elev_granted_def)
        show "fst ?R = 0" by (simp add: R0)
        show "procs (snd ?R) = procs (upd_proc (el_pid (elev s)) (grant_elevation e) s)"
          using s2 by (simp add: R0 fun_eq_iff procs_upd_proc)
        show "el_state (elev (snd ?R)) \<noteq> CAP_ST_OPEN" using ne by (simp add: R0 frame)
      qed
    qed
  qed
qed

lemma elev_resolve_procs: "procs (snd (sys_elev_resolve e q seq act pw s)) = procs s \<or>
    (\<exists>rp. procs (snd (sys_elev_resolve e q seq act pw s)) = procs (upd_proc rp (grant_elevation e) s))"
  by (cases rule: elev_resolve_cases [of e q seq act pw s]) auto

end
