(* ===== verification/Trust_Safety.thy ===== *)
theory Trust_Safety
  imports Trust_Account
begin

text \<open>
  Concrete histories, and the properties of the capability calls that speak of histories.
\<close>

section \<open>A run\<close>

text \<open>The events of a list of calls, from a state.\<close>

fun trun :: "(tenv \<times> tcall) list \<Rightarrow> tevent list \<Rightarrow> trust \<Rightarrow> tevent list \<times> trust" where
  "trun [] tr s = (tr, s)"
| "trun ((e, c) # cs) tr s =
     (let (r, s') = tcall_exec e c s in trun cs (\<lparr>t_state = s, t_env = e, t_call = c, t_ret = r\<rparr> # tr) s')"

lemma history_trun: "history sh cfg tr s \<Longrightarrow> (\<And>e c t old. (e, c) \<in> set cs \<Longrightarrow> e_write e t old = Some t \<or> e_write e t old = old) \<Longrightarrow>
    history sh cfg (fst (trun cs tr s)) (snd (trun cs tr s))"
proof (induction cs tr s rule: trun.induct)
  case (2 e c cs tr s)
  obtain r s' where x: "tcall_exec e c s = (r, s')" by (cases "tcall_exec e c s")
  have "history sh cfg (\<lparr>t_state = s, t_env = e, t_call = c, t_ret = r\<rparr> # tr) s'"
    by (rule history.history_call [OF 2(2) _ x]) (use 2(3) in auto)
  moreover have "e_write e t old = Some t \<or> e_write e t old = old" if "(e, c) \<in> set cs" for e c t old
    using 2(3) that by auto
  ultimately have "history sh cfg (fst (trun cs (\<lparr>t_state = s, t_env = e, t_call = c, t_ret = r\<rparr> # tr) s'))
      (snd (trun cs (\<lparr>t_state = s, t_env = e, t_call = c, t_ret = r\<rparr> # tr) s'))"
    by (rule "2.IH" [OF x [symmetric] refl])
  then show ?case using x by simp
qed simp

text \<open>A machine at time \<open>t\<close> whose disk works, with user 1000, an administrator whose password is \<open>pw\<close>.\<close>

definition env_at :: "u64 \<Rightarrow> tenv" where
  "env_at t = \<lparr>e_now = t, e_mounted = True, e_write = (\<lambda>d old. Some d), e_jseq = t, e_locked = False,
     e_perms = (\<lambda>path uid gid. True), e_user = (\<lambda>uid. if uid = 1000 then Some ''ann'' else None), e_admins = Some [1000],
     e_first_admin = 1000, e_verify = (\<lambda>name pw. pw = ''pw''), e_serial_fd = 3, e_copy = True, e_slot = True, e_space = True\<rparr>"

definition key_a :: gui_event where "key_a = key_event EVENT_KEY_DOWN 97"

text \<open>The desktop starts as process 1 and takes the screen; process 2 starts and the user types into its window.\<close>

definition start_calls :: "(tenv \<times> tcall) list" where
  "start_calls = [(env_at 10, Spawn ''/SYS/DESKTOP'' 0 0), (env_at 11, FbArm 1), (env_at 12, FbMap 1),
     (env_at 20, Spawn ''/APPS/SHOT'' 1000 1000), (env_at 30, WinCreate 2 ''Shot''), (env_at 1000, HwInput 0 key_a)]"

section \<open>Every use of a capability was agreed to\<close>

text \<open>C1: a gated call of a process that succeeds uses a live grant that names what the call names, and in
  the history before it that grant is backed: the compositor approved, in time, a prompt that this process had raised
  after input of the user, or the request met a standing consent that the file of the boot lists or that the compositor
  made standing; since then the process was not replaced and did not revoke it, and if it was for one use it was
  not used. Only a fork hands a grant to another process.\<close>

theorem cap_use_backed:
  assumes "history sh cfg (ev # tr) s" and "gated_call (t_call ev) = Some pid" and "0 \<le> t_ret ev"
  shows "\<exists>g\<in>set (grants_of (t_state ev) pid). grant_is_live g (e_now (t_env ev)) \<and>
    named (t_call ev) (t_state ev) g \<and> backed cfg tr pid g"
proof -
  obtain s0 s' where h: "history sh cfg tr s0" "ev = \<lparr>t_state = s0, t_env = t_env ev, t_call = t_call ev, t_ret = t_ret ev\<rparr>"
      "tcall_exec (t_env ev) (t_call ev) s0 = (t_ret ev, s')"
    using assms(1) by (cases rule: history.cases) auto
  then have s0: "t_state ev = s0" by (metis tevent.select_convs(1))
  note a = history_accounted [OF h(1)]
  obtain p i where p: "procs s0 pid = Some p" "use_slot (t_env ev) (t_call ev) s0 pid (tp_grants p) = Some i"
    using exec_uses [OF assms(2), of "t_env ev" s0] h(3) assms(3) by (auto simp: uses_def)
  have g: "grants_of s0 pid = tp_grants p" using p by (simp add: grants_of_def)
  have l: "i < length (grants_of s0 pid)" "grant_is_live (grants_of s0 pid ! i) (e_now (t_env ev))"
      "named (t_call ev) s0 (grants_of s0 pid ! i)"
    using use_slot_live [OF accountedD(1) [OF a]] p(2) unfolding g [symmetric] by blast+
  then have "backed cfg tr pid (grants_of s0 pid ! i)"
    using accountedD(2) [OF a, of "grants_of s0 pid ! i" pid] by (simp add: grant_is_live_def)
  then show ?thesis using l s0 nth_mem by blast
qed

definition shot_request :: "u32 \<Rightarrow> cap_req_arg" where
  "shot_request dur = \<lparr>ra_cap = CAP_SCREEN_CAPTURE, ra_dur = dur, ra_kind = CAP_SCOPE_PATH, ra_reason = ''a picture'',
     ra_scope = ''/HOME/P.BMP''\<rparr>"

definition shot_calls :: "(tenv \<times> tcall) list" where
  "shot_calls = start_calls @ [(env_at 2000, CapRequest 2 (Some (shot_request 0))), (env_at 3000, CapResolve 1 1 CAP_ACT_APPROVE),
     (env_at 4000, ScreenshotRequest 2 (Some ''/HOME/P.BMP''))]"

definition shot_trace :: "tevent list" where "shot_trace = fst (trun shot_calls [] (boot Map.empty None))"

lemma shot_end:
  "case shot_trace of [] \<Rightarrow> False
   | ev # tr \<Rightarrow> t_call ev = ScreenshotRequest 2 (Some ''/HOME/P.BMP'') \<and> e_now (t_env ev) = 4000 \<and> t_ret ev = 0 \<and>
       list_all (\<lambda>g. gr_scope g = ''/HOME/P.BMP'' \<longrightarrow> gr_uses g = 1) (grants_of (t_state ev) 2)"
  by code_simp

lemma cap_use_backed_witness:
  "case shot_trace of [] \<Rightarrow> False
   | ev # tr \<Rightarrow> \<exists>g\<in>set (grants_of (t_state ev) 2). grant_is_live g 4000 \<and> gr_scope g = ''/HOME/P.BMP'' \<and> gr_uses g = 1 \<and>
       backed None tr 2 g"
proof -
  have h: "history Map.empty None shot_trace (snd (trun shot_calls [] (boot Map.empty None)))"
    unfolding shot_trace_def by (rule history_trun [OF history.history_boot]) (auto simp: shot_calls_def start_calls_def env_at_def)
  obtain ev tr where e: "shot_trace = ev # tr" and t: "t_call ev = ScreenshotRequest 2 (Some ''/HOME/P.BMP'')"
      "e_now (t_env ev) = 4000" "t_ret ev = 0"
      "list_all (\<lambda>g. gr_scope g = ''/HOME/P.BMP'' \<longrightarrow> gr_uses g = 1) (grants_of (t_state ev) 2)"
    using shot_end by (auto split: list.splits)
  from cap_use_backed [OF h [unfolded e], of 2] have "\<exists>g\<in>set (grants_of (t_state ev) 2). grant_is_live g 4000 \<and>
      named (t_call ev) (t_state ev) g \<and> backed None tr 2 g"
    using t by (simp add: gated_call_def)
  then show ?thesis using t(4) by (auto simp: e t(1) named_def SHOTQ_PATHLEN_def cstr_def NUL_def list_all_iff)
qed

end
