(* ===== verification/Trust_Paths.thy ===== *)
theory Trust_Paths
  imports Elevate "HOL-Library.Sublist"
begin

text \<open>
  What the scans of paths decide: a path is taken apart into its elements, and coverage is a prefix of that list.
\<close>

section \<open>Elements\<close>

fun elements :: "string \<Rightarrow> string list" where
  "elements [] = [[]]"
| "elements (c # s) =
     (if c = CHR ''/'' then [] # elements s else case elements s of [] \<Rightarrow> [[c]] | x # xs \<Rightarrow> (c # x) # xs)"

fun join :: "string list \<Rightarrow> string" where
  "join [] = []"
| "join [x] = x"
| "join (x # y # zs) = x @ CHR ''/'' # join (y # zs)"

definition elem_ok :: "string \<Rightarrow> bool" where
  "elem_ok w \<longleftrightarrow> w \<noteq> [] \<and> list_all printable w \<and> list_ex (\<lambda>c. c \<noteq> CHR ''.'') w"

lemma elements_ne [simp]: "elements s \<noteq> []" by (cases s rule: elements.cases) (auto split: list.split)

lemma elements_append: "elements (q @ CHR ''/'' # r) = elements q @ elements r"
  by (induction q) (auto split: list.split)

lemma join_append: "xs \<noteq> [] \<Longrightarrow> ys \<noteq> [] \<Longrightarrow> join (xs @ ys) = join xs @ CHR ''/'' # join ys"
proof (induction xs rule: join.induct)
  case (2 x)
  then show ?case by (cases ys) auto
qed auto

lemma join_elements: "join (elements s) = s"
proof (induction s)
  case (Cons c s)
  show ?case
  proof (cases "c = CHR ''/''")
    case True
    then show ?thesis using Cons join_append [of "[[]]" "elements s"] by simp
  next
    case False
    obtain x xs where e: "elements s = x # xs" by (cases "elements s") auto
    then show ?thesis using Cons False by (cases xs) auto
  qed
qed simp

lemma prefix_elements:
  "prefix (elements q) (elements t) \<longleftrightarrow> t = q \<or> (\<exists>r. t = q @ CHR ''/'' # r)"
proof
  assume "prefix (elements q) (elements t)"
  then obtain es where es: "elements t = elements q @ es" by (auto simp: prefix_def)
  show "t = q \<or> (\<exists>r. t = q @ CHR ''/'' # r)"
  proof (cases "es = []")
    case True
    then have "join (elements t) = join (elements q)" using es by simp
    then show ?thesis by (simp add: join_elements)
  next
    case False
    have "t = join (elements q @ es)" using es join_elements [of t] by simp
    also have "... = q @ CHR ''/'' # join es" using False by (simp add: join_append join_elements)
    finally show ?thesis by blast
  qed
qed (auto simp: elements_append)

section \<open>The scan\<close>

lemma all_filter: "length (filter P w) = length w \<longleftrightarrow> list_all P w"
proof (induction w)
  case (Cons x w)
  have "length (filter P w) \<noteq> Suc (length w)" using length_filter_le [of P w] by linarith
  then show ?case using Cons by (cases "P x") auto
qed simp

lemma not_all_dots: "(0 < length (filter (\<lambda>c. c = CHR ''.'') w) \<and> length (filter (\<lambda>c. c = CHR ''.'') w) = length w) \<longleftrightarrow>
    w \<noteq> [] \<and> \<not> list_ex (\<lambda>c. c \<noteq> CHR ''.'') w"
proof -
  have "list_all (\<lambda>c. c = CHR ''.'') w \<longleftrightarrow> \<not> list_ex (\<lambda>c. c \<noteq> CHR ''.'') w" by (simp add: list_all_iff list_ex_iff)
  then show ?thesis unfolding all_filter by (cases w) auto
qed

lemma plain_scan_elements:
  assumes "0 < i" and "list_all printable w"
  shows "plain_scan lim i (length w) (length (filter (\<lambda>c. c = CHR ''.'') w)) s = Some n \<longleftrightarrow>
    n = i + length s \<and> n < lim \<and> elem_ok (w @ hd (elements s)) \<and> list_all elem_ok (tl (elements s))"
  using assms
proof (induction s arbitrary: i w)
  case Nil
  then show ?case using not_all_dots [of w] by (auto simp: elem_ok_def)
next
  case (Cons c s)
  let ?d = "length (filter (\<lambda>c. c = CHR ''.'') w)"
  obtain x xs where e: "elements s = x # xs" by (cases "elements s") auto
  show ?case
  proof (cases "c = CHR ''/''")
    case True
    have "plain_scan lim (i + 1) 0 0 s = Some n \<longleftrightarrow> n = i + 1 + length s \<and> n < lim \<and> elem_ok x \<and> list_all elem_ok xs"
      using Cons.IH [of "i + 1" "[]"] e by simp
    moreover have "elem_ok w \<longleftrightarrow> w \<noteq> [] \<and> \<not> (0 < ?d \<and> ?d = length w)"
      using not_all_dots [of w] Cons.prems(2) by (auto simp: elem_ok_def)
    ultimately show ?thesis using True Cons.prems(1) e by auto
  next
    case False
    show ?thesis
    proof (cases "printable c")
      case True
      have "plain_scan lim (i + 1) (length w + 1) (if c = CHR ''.'' then ?d + 1 else ?d) s = Some n \<longleftrightarrow>
          n = i + 1 + length s \<and> n < lim \<and> elem_ok (w @ c # x) \<and> list_all elem_ok xs"
        using Cons.IH [of "i + 1" "w @ [c]"] Cons.prems True e by (cases "c = CHR ''.''") simp_all
      then show ?thesis using False True e by auto
    next
      case np: False
      then show ?thesis using False e by (simp add: elem_ok_def)
    qed
  qed
qed

lemma plain_path:
  "plain_scan lim 0 0 0 (CHR ''/'' # t) =
    (if Suc (length t) < lim \<and> list_all elem_ok (elements t) then Some (Suc (length t)) else None)"
proof -
  obtain x xs where e: "elements t = x # xs" by (cases "elements t") auto
  have "plain_scan lim 0 0 0 (CHR ''/'' # t) = Some n \<longleftrightarrow> n = Suc (length t) \<and> n < lim \<and> list_all elem_ok (elements t)" for n
    using plain_scan_elements [of 1 "[]" lim t n] e by auto
  then show ?thesis by (cases "plain_scan lim 0 0 0 (CHR ''/'' # t)") auto
qed

lemma path_is_plain_abs_iff:
  "path_is_plain_abs s \<longleftrightarrow> (\<exists>t. s = CHR ''/'' # t \<and> length s < SCOPE_MAX \<and> list_all elem_ok (elements t))"
proof -
  have "\<not> list_all elem_ok (elements [])" by (simp add: elem_ok_def)
  then show ?thesis
    by (cases s; cases "tl s") (auto simp: path_is_plain_abs_def plain_path simp del: plain_scan.simps elements.simps split: if_splits)
qed

lemma path_covered:
  assumes "pre = CHR ''/'' # q" and "length pre \<le> 128"
  shows "elev_path_covered_rs path pre \<longleftrightarrow>
    (\<exists>t. path = CHR ''/'' # t \<and> length path < 512 \<and> list_all elem_ok (elements t) \<and> prefix (elements q) (elements t))"
proof (cases "\<exists>t. path = CHR ''/'' # t")
  case False
  then show ?thesis by (cases path) (auto simp: elev_path_covered_rs_def)
next
  case True
  then obtain t where t: "path = CHR ''/'' # t" by blast
  let ?ok = "length path < 512 \<and> list_all elem_ok (elements t)"
  have "plain_scan 512 0 0 0 path = (if ?ok then Some (length path) else None)"
    by (simp add: t plain_path del: plain_scan.simps)
  then have "elev_path_covered_rs path pre \<longleftrightarrow> ?ok \<and> length pre \<le> length path \<and> take (length pre) path = pre \<and>
      (drop (length pre) path = [] \<or> path ! length pre = CHR ''/'')"
    using assms by (auto simp: elev_path_covered_rs_def t Let_def min_def simp del: plain_scan.simps)
  also have "... \<longleftrightarrow> ?ok \<and> (t = q \<or> (\<exists>r. t = q @ CHR ''/'' # r))"
  proof -
    have "length q \<le> length t \<and> take (length q) t = q \<and> (drop (length q) t = [] \<or> t ! length q = CHR ''/'') \<longleftrightarrow>
        t = q \<or> (\<exists>r. t = q @ CHR ''/'' # r)"
    proof
      assume l: "length q \<le> length t \<and> take (length q) t = q \<and> (drop (length q) t = [] \<or> t ! length q = CHR ''/'')"
      then obtain z where z: "t = q @ z" by (metis append_take_drop_id)
      show "t = q \<or> (\<exists>r. t = q @ CHR ''/'' # r)" using l by (cases z) (simp_all add: z nth_append)
    qed auto
    then show ?thesis using assms(1) by (auto simp: t)
  qed
  finally show ?thesis by (simp add: t prefix_elements)
qed

text \<open>C19: the coverage test of elevation, which walks bytes, decides what it should: a path is covered by a directory
  of at most 128 bytes exactly if it is an absolute path of fewer than 512 bytes, each of its elements is printable text that is
  neither empty nor made of dots only, and the elements of the directory are the first elements of the path.\<close>

theorem elev_path_covered_spec:
  assumes "pre = CHR ''/'' # q" and "length pre \<le> 128"
  shows "elev_path_covered_rs path pre \<longleftrightarrow>
    (\<exists>t. path = CHR ''/'' # t \<and> length path < 512 \<and> list_all elem_ok (elements t) \<and> prefix (elements q) (elements t))"
  by (rule path_covered [OF assms])

theorem elev_path_covered_spec_witness:
  "elev_path_covered_rs ''/APPS/FOO'' ELEV_SYS_APPS_DIR \<and> \<not> elev_path_covered_rs ''/APPS/../CONFIG'' ELEV_SYS_APPS_DIR \<and>
   \<not> elev_path_covered_rs ''/APPSTORE'' ELEV_SYS_APPS_DIR"
proof -
  have q: "ELEV_SYS_APPS_DIR = CHR ''/'' # ''APPS''" "length ELEV_SYS_APPS_DIR \<le> 128" by (simp_all add: ELEV_SYS_APPS_DIR_def)
  show ?thesis unfolding elev_path_covered_spec [OF q] by (simp add: elem_ok_def printable_def less_eq_char_def less_char_def)
qed

end
