(* ===== verification/Trust_Elev.thy ===== *)
theory Trust_Elev
  imports Trust_Inherit Trust_Safety Trust_Paths
begin

text \<open>
  Where the elevation of a process and its input credit come from.
\<close>

section \<open>Input credit\<close>

text \<open>The hardware event that credits process \<open>pid\<close> at time \<open>t\<close>.\<close>

definition credited :: "tevent list \<Rightarrow> tevent \<Rightarrow> u32 \<Rightarrow> u64 \<Rightarrow> bool" where
  "credited tr ev pid t \<longleftrightarrow>
     (case t_call ev of
        HwInput h ge \<Rightarrow> credits ge \<and> win_ok h (t_state ev) \<and> uw_owner (user_windows (t_state ev) ! nat h) = pid \<and>
          t = e_now (t_env ev)
      | _ \<Rightarrow> False)"

lemma procs_queue: "procs (user_window_queue_event e h ge hw s) = procs s \<or>
    (win_ok h s \<and> hw \<and> credits ge \<and> procs (user_window_queue_event e h ge hw s) =
       procs (upd_proc (uw_owner (user_windows s ! nat h)) (\<lambda>p. p\<lparr>tp_last_input := e_now e\<rparr>) s))"
  by (simp add: user_window_queue_event_def Let_def fun_eq_iff procs_upd_proc frame)

interpretation input: process_field tp_last_input 0 credited
proof unfold_locales
  fix sh cfg tr s e c r s' pid p'
  assume x: "tcall_exec e c s = (r, s')" and b: "\<not> birth_call c" and p': "procs s' pid = Some p'"
  have s': "s' = snd (tcall_exec e c s)" using x by simp
  show "(\<exists>p. procs s pid = Some p \<and> tp_last_input p = tp_last_input p') \<or>
      credited tr \<lparr>t_state = s, t_env = e, t_call = c, t_ret = r\<rparr> pid (tp_last_input p')"
  proof (cases "writes_fields c")
    case False
    then show ?thesis using field_kept [OF b False, of tp_last_input e s pid p'] p' s' by simp
  next
    case True
    then show ?thesis
    proof (cases c)
      case (HwInput h ge)
      then show ?thesis using p' s' procs_queue [of e h ge True s]
        by (auto simp: procs_upd_proc credited_def split: if_splits)
    next
      case (ElevResolve q a b d)
      have "procs s' = procs s \<or> (\<exists>rp. procs s' = procs (upd_proc rp (grant_elevation e) s))"
        using elev_resolve_procs s' ElevResolve by simp
      then show ?thesis using p' by (auto simp: procs_upd_proc grant_elevation_def split: if_splits)
    next
      case (ElevPermits q path u)
      then show ?thesis using p' s'
        by (auto simp: of_bool_ret_def elev_grant_permits_def procs_upd_proc clear_elevation_def split: if_splits option.splits)
    next
      case (Exit q)
      then show ?thesis using p' s'
        by (auto simp: proc_exit_def cleanup_user_windows_for_process_def procs_upd_proc Let_def split: if_splits)
    next
      case (SetIds q u g)
      then show ?thesis using p' s' by (auto simp: set_ids_def procs_upd_proc split: if_splits)
    qed (simp_all add: writes_fields_def)
  qed
qed (simp_all add: fresh_proc_def)

section \<open>Elevation requests\<close>

text \<open>The event that raised the elevation prompt \<open>g\<close>.\<close>

definition elev_asked :: "tevent \<Rightarrow> elev_req \<Rightarrow> bool" where
  "elev_asked ev g \<longleftrightarrow>
     (case t_call ev of
        ElevRequest q (Some a) \<Rightarrow>
          q = el_pid g \<and> el_opened g = e_now (t_env ev) \<and> t_ret ev = sint (el_seq g) \<and>
          (case procs (t_state ev) q of None \<Rightarrow> False
           | Some p \<Rightarrow> tp_user p \<and> tp_euid p \<noteq> 0 \<and> el_uid g = tp_euid p \<and> users_may_elevate (t_env ev) (tp_euid p) \<and>
               tp_last_input p \<noteq> 0 \<and> e_now (t_env ev) - tp_last_input p \<le> ELEV_INPUT_WINDOW_MS)
      | _ \<Rightarrow> False)"

definition same_request :: "elev_req \<Rightarrow> elev_req \<Rightarrow> bool" where
  "same_request g g' \<longleftrightarrow> el_state g' = CAP_ST_OPEN \<longrightarrow>
     el_state g = CAP_ST_OPEN \<and> el_seq g' = el_seq g \<and> el_pid g' = el_pid g \<and> el_uid g' = el_uid g \<and> el_opened g' = el_opened g"

lemma same_refl [simp]: "same_request g g" by (simp add: same_request_def)
lemma same_trans: "same_request g h \<Longrightarrow> same_request h k \<Longrightarrow> same_request g k" by (auto simp: same_request_def)

lemma same_ops: "same_request (elev s) (elev (elev_watchdog e s))" "same_request (elev s) (elev (snd (elev_attempt_rs q ok s)))"
  "same_request (elev s) (elev (snd (elev_cancel_rs q s)))" "same_request (elev s) (elev (snd (elev_reap_rs q s)))"
  by (auto simp: same_request_def elev_watchdog_def elev_tick_rs_def elev_attempt_rs_def elev_cancel_rs_def elev_reap_rs_def
      Let_def cap_consts split: if_splits)

lemma same_resolve: "same_request (elev s) (elev (snd (sys_elev_resolve e q seq act pw s)))"
proof -
  let ?w = "elev_watchdog e s"
  have w: "same_request (elev s) (elev ?w)" by (rule same_ops)
  have "same_request (elev ?w) (elev (snd (sys_elev_resolve e q seq act pw s))) \<or> snd (sys_elev_resolve e q seq act pw s) = s"
    using same_ops(2,3)
    by (auto simp: sys_elev_resolve_def Let_def frame same_ops split: option.split prod.split dest!: snd_eqI)
      (metis frame_auth(3) same_ops(2) snd_conv)+
  then show ?thesis using same_trans [OF w] by auto
qed

lemma asked_same: "same_request g g' \<Longrightarrow> el_state g' = CAP_ST_OPEN \<Longrightarrow> elev_asked ev g \<Longrightarrow> elev_asked ev g'"
proof -
  assume "same_request g g'" "el_state g' = CAP_ST_OPEN" and a: "elev_asked ev g"
  then have h: "el_seq g' = el_seq g" "el_pid g' = el_pid g" "el_uid g' = el_uid g" "el_opened g' = el_opened g"
    by (simp_all add: same_request_def)
  show "elev_asked ev g'" using a unfolding elev_asked_def h .
qed

lemma elev_watchdog_same: "el_state (elev (elev_watchdog e s)) = CAP_ST_OPEN \<Longrightarrow> elev (elev_watchdog e s) = elev s"
  by (auto simp: elev_watchdog_def elev_tick_rs_def Let_def cap_consts split: if_splits)

lemma request_elev:
  assumes "el_state (elev (snd (sys_elev_request e pid arg s))) = CAP_ST_OPEN"
    and "ev = \<lparr>t_state = s, t_env = e, t_call = ElevRequest pid arg, t_ret = fst (sys_elev_request e pid arg s)\<rparr>"
  shows "elev (snd (sys_elev_request e pid arg s)) = elev s \<or> elev_asked ev (elev (snd (sys_elev_request e pid arg s)))"
proof (cases "procs s pid = None \<or> arg = None")
  case True
  then show ?thesis using elev_watchdog_same [of e s] assms(1) by (auto simp: sys_elev_request_def Let_def split: option.split)
next
  case False
  then obtain p a where pa: "procs s pid = Some p" "arg = Some a" by auto
  show ?thesis
  proof (cases "tp_user p \<and> tp_euid p \<noteq> 0 \<and> users_may_elevate e (tp_euid p) \<and> tp_last_input p \<noteq> 0 \<and>
      e_now e - tp_last_input p \<le> ELEV_INPUT_WINDOW_MS")
    case False
    then show ?thesis using pa by (auto simp: sys_elev_request_def not_less)
  next
    case True
    then have r: "sys_elev_request e pid arg s = elev_open_rs pid (tp_euid p) (e_now e) (cstr (take 63 (er_name a)))
        (cstr (take 31 (er_version a))) (cstr (take 63 (er_source a))) ELEV_SYS_APPS_DIR (elev_watchdog e s)"
      using pa by (auto simp: sys_elev_request_def Let_def)
    show ?thesis
    proof (cases "el_state (elev (elev_watchdog e s)) = CAP_ST_OPEN \<or> pid = 0")
      case True
      then show ?thesis using elev_watchdog_same [of e s] assms(1) by (auto simp: r elev_open_rs_def)
    next
      case False
      then show ?thesis using True pa assms(2) by (simp add: r [unfolded pa(2)] elev_open_rs_def elev_asked_def)
    qed
  qed
qed

lemma history_elev: "history sh cfg tr s \<Longrightarrow> el_state (elev s) = CAP_ST_OPEN \<Longrightarrow> \<exists>e1\<in>set tr. elev_asked e1 (elev s)"
proof (induction rule: history.induct)
  case history_boot
  then show ?case by (simp add: boot_def cap_consts)
next
  case (history_call tr s e c r s')
  have s': "s' = snd (tcall_exec e c s)" and r: "r = fst (tcall_exec e c s)" using history_call.hyps(3) by simp_all
  have keep: "same_request (elev s) (elev s') \<Longrightarrow> ?case"
    using history_call.IH history_call.prems asked_same by (fastforce simp: same_request_def)
  show ?case
  proof (cases "elev_call c")
    case False
    then show ?thesis using exec_elev [OF False, of e s] s' keep by simp
  next
    case True
    then show ?thesis
    proof (cases c)
      case (ElevRequest pid arg)
      have "same_request (elev s) (elev s') \<or> elev_asked \<lparr>t_state = s, t_env = e, t_call = c, t_ret = r\<rparr> (elev s')"
        using request_elev [of e pid arg s, OF _ refl] history_call.prems s' r ElevRequest by auto
      then show ?thesis using keep by auto
    next
      case (ElevStatus q)
      have "same_request (elev s) (elev s')"
        using s' ElevStatus same_ops(1) [of s e] same_trans [OF same_ops(1,4)]
        by (simp add: sys_elev_status_def Let_def)
      then show ?thesis by (rule keep)
    next
      case (ElevView q)
      then show ?thesis using s' same_ops(1) [of s e] by (intro keep) (auto simp: sys_elev_view_def Let_def split: option.split)
    next
      case (ElevResolve q seq act pw)
      then show ?thesis using s' same_resolve by (intro keep) simp
    next
      case Reboot
      then show ?thesis using s' history_call.prems by (simp add: boot_def cap_consts)
    qed (simp_all add: elev_call_def)
  qed
qed

section \<open>Elevation\<close>

definition elev_of :: "tproc \<Rightarrow> (u64 \<times> string list) option" where
  "elev_of p = (if tp_elev_until p = 0 then None else Some (tp_elev_until p, tp_elev_prefix p))"

lemma elev_of_upd: "elev_of (p\<lparr>tp_last_input := t\<rparr>) = elev_of p" "elev_of (p\<lparr>tp_zombie := z\<rparr>) = elev_of p"
  "elev_of (p\<lparr>tp_euid := u, tp_egid := g\<rparr>) = elev_of p" "elev_of (p\<lparr>tp_grants := gs\<rparr>) = elev_of p"
  "elev_of (clear_elevation p) = None"
  by (simp_all add: elev_of_def clear_elevation_def)

text \<open>The event that elevates process \<open>pid\<close>: the compositor submits the password of the account that asked.\<close>

definition elevated :: "tevent list \<Rightarrow> tevent \<Rightarrow> u32 \<Rightarrow> (u64 \<times> string list) option \<Rightarrow> bool" where
  "elevated tr ev pid a \<longleftrightarrow>
     (case t_call ev of
        ElevResolve q seq act pw \<Rightarrow>
          elev_granted (t_env ev) q seq act pw (t_state ev) pid \<and> t_ret ev = 0 \<and>
          a = Some (e_now (t_env ev) + ELEV_GRANT_TTL_MS, [ELEV_SYS_APPS_DIR, ELEV_SYS_MENU_DIR]) \<and>
          (\<exists>e1\<in>set tr. elev_asked e1 (elev (t_state ev)))
      | _ \<Rightarrow> False)"

interpretation elevation: process_field elev_of None elevated
proof unfold_locales
  fix sh cfg tr s e c r s' pid p'
  assume h: "history sh cfg tr s" and x: "tcall_exec e c s = (r, s')" and b: "\<not> birth_call c" and p': "procs s' pid = Some p'"
    and el: "elev_of p' \<noteq> None"
  have s': "s' = snd (tcall_exec e c s)" and r: "r = fst (tcall_exec e c s)" using x by simp_all
  show "(\<exists>p. procs s pid = Some p \<and> elev_of p = elev_of p') \<or>
      elevated tr \<lparr>t_state = s, t_env = e, t_call = c, t_ret = r\<rparr> pid (elev_of p')"
  proof (cases "writes_fields c")
    case False
    have "\<And>p gs. elev_of (p\<lparr>tp_grants := gs\<rparr>) = elev_of p" by (simp add: elev_of_def)
    then show ?thesis using field_kept [OF b False, of elev_of e s pid p'] p' s' by simp
  next
    case True
    then show ?thesis
    proof (cases c)
      case (HwInput h ge)
      then consider "procs s' = procs s" |
          "procs s' = procs (upd_proc (uw_owner (user_windows s ! nat h)) (\<lambda>p. p\<lparr>tp_last_input := e_now e\<rparr>) s)"
        using s' procs_queue [of e h ge True s] by auto
      then show ?thesis using p' by cases (auto simp: procs_upd_proc elev_of_upd split: if_splits)
    next
      case (ElevResolve q seq act pw)
      show ?thesis
      proof (cases rule: elev_resolve_cases [of e q seq act pw s])
        case same
        then show ?thesis using p' s' ElevResolve by simp
      next
        case granted
        show ?thesis
        proof (cases "pid = el_pid (elev s)")
          case False
          then show ?thesis using granted(3) p' s' ElevResolve by (simp add: procs_upd_proc)
        next
          case True
          have "el_state (elev s) = CAP_ST_OPEN" using granted(1) by (simp add: elev_granted_def)
          then have "\<exists>e1\<in>set tr. elev_asked e1 (elev s)" by (rule history_elev [OF h])
          moreover obtain p where "p' = grant_elevation e p"
            using granted(3) p' s' ElevResolve True by (auto simp: procs_upd_proc)
          then have "elev_of p' = Some (e_now e + ELEV_GRANT_TTL_MS, [ELEV_SYS_APPS_DIR, ELEV_SYS_MENU_DIR])"
            using el by (simp add: elev_of_def grant_elevation_def split: if_splits)
          ultimately show ?thesis using granted(1,2) r by (simp add: elevated_def ElevResolve True)
        qed
      qed
    next
      case (ElevPermits q path u)
      then show ?thesis using p' s' el
        by (auto simp: of_bool_ret_def elev_grant_permits_def procs_upd_proc elev_of_upd split: if_splits option.splits)
    next
      case (Exit q)
      then show ?thesis using p' s'
        by (auto simp: proc_exit_def cleanup_user_windows_for_process_def procs_upd_proc Let_def elev_of_upd split: if_splits)
    next
      case (SetIds q u g)
      then show ?thesis using p' s' by (auto simp: set_ids_def procs_upd_proc elev_of_upd split: if_splits)
    qed (simp_all add: writes_fields_def)
  qed
qed (simp_all add: fresh_proc_def elev_of_def)

lemma inherits_prefix: "inherits elevated tr pid a \<Longrightarrow> \<exists>u. a = Some (u, [ELEV_SYS_APPS_DIR, ELEV_SYS_MENU_DIR])"
proof (induction tr arbitrary: pid)
  case (Cons ev tr)
  then consider "elevated tr ev pid a" | q where "inherits elevated tr q a" by (auto split: tcall.splits)
  then show ?case
  proof cases
    case 1
    then show ?thesis by (auto simp: elevated_def split: tcall.splits)
  next
    case (2 q)
    then show ?thesis by (rule Cons.IH)
  qed
qed simp

section \<open>A run\<close>

definition ask_calls :: "(tenv \<times> tcall) list" where
  "ask_calls = start_calls @ [(env_at 2000, ElevRequest 2 (Some \<lparr>er_name = ''Foo'', er_version = ''1'', er_source = ''Store''\<rparr>))]"

definition install_calls :: "(tenv \<times> tcall) list" where
  "install_calls = ask_calls @ [(env_at 3000, ElevResolve 1 1 ELEV_ACT_SUBMIT ''pw''), (env_at 4000, ElevPermits 2 ''/APPS/FOO'' 1000)]"

definition ann_boot :: trust where "ann_boot = boot [''ann'' \<mapsto> \<lparr>sh_fails = 0, sh_until = 0\<rparr>] None"

lemma run_history:
  assumes "set cs \<subseteq> set install_calls"
  shows "history [''ann'' \<mapsto> \<lparr>sh_fails = 0, sh_until = 0\<rparr>] None (fst (trun cs [] ann_boot)) (snd (trun cs [] ann_boot))"
  unfolding ann_boot_def
proof (rule history_trun [OF history.history_boot])
  fix e c t old
  assume "(e, c) \<in> set cs"
  then have "(e, c) \<in> set install_calls" using assms by blast
  then show "e_write e t old = Some t \<or> e_write e t old = old"
    by (auto simp: install_calls_def ask_calls_def start_calls_def env_at_def)
qed

section \<open>Properties\<close>

text \<open>The last step of a history.\<close>

lemma history_last:
  assumes "history sh cfg (ev # tr) s"
  shows "history sh cfg tr (t_state ev)" and "tcall_exec (t_env ev) (t_call ev) (t_state ev) = (t_ret ev, s)"
  using assms by (auto elim: history.cases)

text \<open>C4: a write that is let through by elevation is a write of a process that is, or that was forked from one that
  was, elevated at most three minutes ago by the compositor with the right password of the account that had asked, which may elevate
  and had given input to the asking process; it is done under the effective user of the process, and the path lies element by element
  under one of the two system directories, with no element made of dots only.\<close>

theorem elev_write_backed:
  assumes "history sh cfg (ev # tr) s" and "t_call ev = ElevPermits pid path uid" and "t_ret ev = 1"
  shows "\<exists>p until t. procs (t_state ev) pid = Some p \<and> uid = tp_euid p \<and> e_now (t_env ev) \<le> until \<and>
    inherits elevated tr pid (Some (until, [ELEV_SYS_APPS_DIR, ELEV_SYS_MENU_DIR])) \<and>
    path = CHR ''/'' # t \<and> list_all elem_ok (elements t) \<and>
    (prefix [''APPS''] (elements t) \<or> prefix [''CONFIG'', ''STARTMENU'', ''SYSTEM.D''] (elements t))"
proof -
  let ?s = "t_state ev" and ?e = "t_env ev"
  note h = history_last [OF assms(1)]
  have x: "fst (of_bool_ret (elev_grant_permits ?e pid path uid ?s)) = 1" using h(2) assms(2,3) by simp
  then obtain p where p: "procs ?s pid = Some p" and u: "tp_elev_until p \<noteq> 0" "e_now ?e \<le> tp_elev_until p" "uid = tp_euid p"
    and c: "\<exists>pre\<in>set (tp_elev_prefix p). elev_path_covered_rs path pre"
    by (auto simp: of_bool_ret_def elev_grant_permits_def list_ex_iff not_less split: option.splits if_splits)
  have el: "elev_of p = Some (tp_elev_until p, tp_elev_prefix p)" using u(1) by (simp add: elev_of_def)
  then have i: "inherits elevated tr pid (Some (tp_elev_until p, tp_elev_prefix p))"
    using elevation.inherited [OF h(1) p] by simp
  then have pre: "tp_elev_prefix p = [ELEV_SYS_APPS_DIR, ELEV_SYS_MENU_DIR]" using inherits_prefix by blast
  have dirs: "ELEV_SYS_APPS_DIR = CHR ''/'' # ''APPS''" "ELEV_SYS_MENU_DIR = CHR ''/'' # ''CONFIG/STARTMENU/SYSTEM.D''"
    by (simp_all add: ELEV_SYS_APPS_DIR_def ELEV_SYS_MENU_DIR_def)
  have len: "length ELEV_SYS_APPS_DIR \<le> 128" "length ELEV_SYS_MENU_DIR \<le> 128" by (simp_all add: dirs)
  have "\<exists>t. path = CHR ''/'' # t \<and> list_all elem_ok (elements t) \<and>
      (prefix (elements ''APPS'') (elements t) \<or> prefix (elements ''CONFIG/STARTMENU/SYSTEM.D'') (elements t))"
    using c path_covered [OF dirs(1) len(1), of path] path_covered [OF dirs(2) len(2), of path] by (auto simp: pre)
  moreover have "elements ''APPS'' = [''APPS'']" "elements ''CONFIG/STARTMENU/SYSTEM.D'' = [''CONFIG'', ''STARTMENU'', ''SYSTEM.D'']"
    by simp_all
  ultimately show ?thesis using p u i pre by auto
qed

lemma install_end:
  "case fst (trun install_calls [] ann_boot) of [] \<Rightarrow> False
   | ev # tr \<Rightarrow> t_call ev = ElevPermits 2 ''/APPS/FOO'' 1000 \<and> t_ret ev = 1 \<and> e_now (t_env ev) = 4000"
  by code_simp

theorem elev_write_backed_witness:
  "\<exists>tr until. 4000 \<le> until \<and> tl (fst (trun install_calls [] ann_boot)) = tr \<and>
     inherits elevated tr 2 (Some (until, [ELEV_SYS_APPS_DIR, ELEV_SYS_MENU_DIR]))"
proof -
  obtain ev tr where e: "fst (trun install_calls [] ann_boot) = ev # tr"
    and t: "t_call ev = ElevPermits 2 ''/APPS/FOO'' 1000" "t_ret ev = 1" "e_now (t_env ev) = 4000"
    using install_end by (auto split: list.splits)
  from elev_write_backed [OF run_history [OF subset_refl, unfolded e] t(1,2)] t(3) show ?thesis unfolding e by auto
qed

text \<open>C10: whoever makes a prompt appear, for a capability or for elevation (where none was open, or in the place of one
  that has just expired), has had input of the user: a hardware event
  in a window of the process, or of a process it was forked from, at most ten seconds ago. Injected events, which go through the same
  queues, are never such an event.\<close>

theorem prompt_has_input:
  assumes "history sh cfg (ev # tr) s"
    and "(\<exists>a. t_call ev = CapRequest pid a \<and> is_open s \<and> greq (consent s) \<noteq> greq (consent (t_state ev))) \<or>
      (\<exists>a. t_call ev = ElevRequest pid a \<and> el_state (elev s) = CAP_ST_OPEN \<and> elev s \<noteq> elev (t_state ev))"
  shows "\<exists>t. e_now (t_env ev) - t \<le> 10000 \<and> inherits credited tr pid t"
proof -
  let ?s = "t_state ev" and ?e = "t_env ev"
  note h = history_last [OF assms(1)]
  have "\<exists>p. procs ?s pid = Some p \<and> tp_last_input p \<noteq> 0 \<and> e_now ?e - tp_last_input p \<le> 10000"
    using assms(2)
  proof
    assume "\<exists>a. t_call ev = CapRequest pid a \<and> is_open s \<and> greq (consent s) \<noteq> greq (consent ?s)"
    then obtain a where c: "t_call ev = CapRequest pid a" "is_open s" "greq (consent s) \<noteq> greq (consent ?s)" by blast
    have s: "s = snd (sys_cap_request ?e pid a ?s)" using h(2) c(1) by simp
    show ?thesis
    proof (cases rule: request_cases [of ?e pid a ?s])
      case same
      then have "\<exists>b. raised ?e pid b ?s (fst (sys_cap_request ?e pid a ?s)) (greq (consent s))" using c s by auto
      then show ?thesis by (auto simp: raised_def CAP_INPUT_WINDOW_MS_def split: option.splits)
    next
      case standing
      then show ?thesis using c s by simp
    qed
  next
    assume "\<exists>a. t_call ev = ElevRequest pid a \<and> el_state (elev s) = CAP_ST_OPEN \<and> elev s \<noteq> elev ?s"
    then obtain a where c: "t_call ev = ElevRequest pid a" "el_state (elev s) = CAP_ST_OPEN" "elev s \<noteq> elev ?s" by blast
    have s: "s = snd (sys_elev_request ?e pid a ?s)" "t_ret ev = fst (sys_elev_request ?e pid a ?s)" using h(2) c(1) by simp_all
    have "elev_asked ev (elev s)"
      using request_elev [of ?e pid a ?s ev] c s by (cases ev) auto
    then show ?thesis using c(1) by (auto simp: elev_asked_def ELEV_INPUT_WINDOW_MS_def split: option.splits)
  qed
  then show ?thesis using input.inherited [OF h(1)] by blast
qed

lemma ask_end:
  "case fst (trun ask_calls [] ann_boot) of [] \<Rightarrow> False
   | ev # tr \<Rightarrow> (case t_call ev of ElevRequest q a \<Rightarrow> q = 2 | _ \<Rightarrow> False) \<and> el_state (elev (t_state ev)) \<noteq> CAP_ST_OPEN \<and>
       e_now (t_env ev) = 2000 \<and> el_state (elev (snd (trun ask_calls [] ann_boot))) = CAP_ST_OPEN"
  by code_simp

theorem prompt_has_input_witness:
  "\<exists>t. 2000 - t \<le> 10000 \<and> inherits credited (tl (fst (trun ask_calls [] ann_boot))) 2 t"
proof -
  obtain ev tr a where e: "fst (trun ask_calls [] ann_boot) = ev # tr"
    and t: "t_call ev = ElevRequest 2 a" "el_state (elev (t_state ev)) \<noteq> CAP_ST_OPEN" "e_now (t_env ev) = 2000"
      "el_state (elev (snd (trun ask_calls [] ann_boot))) = CAP_ST_OPEN"
    using ask_end by (auto split: list.splits tcall.splits)
  have "set ask_calls \<subseteq> set install_calls" by (auto simp: install_calls_def)
  moreover have "elev (snd (trun ask_calls [] ann_boot)) \<noteq> elev (t_state ev)" using t(2,4) by metis
  ultimately show ?thesis
    using prompt_has_input [OF run_history [OF \<open>set ask_calls \<subseteq> set install_calls\<close>, unfolded e], of 2] t unfolding e by auto
qed

end
