(* ===== verification/Trust_Checks.thy ===== *)
theory Trust_Checks
  imports Trust_Inherit Trust_Safety
begin

text \<open>
  Properties of single calls: the file of standing consents, injected input, and what a fork does to grants.
\<close>

section \<open>The file of standing consents\<close>

text \<open>C12: saving and loading. From a table of 32 entries that the kernel could have made, a save that reaches a mounted
  disk writes a file below its 4096 bytes, and the next load reads from it exactly those entries, in their order
  from the first slot on, with trailing blanks of a scope cut and an entry that this makes equal to an earlier one
  left out.\<close>

theorem cap_always_save_load:
  assumes "list_all entry_ok (entries (always s))" and "length (always s) = CAP_ALWAYS_MAX"
    and "\<And>d old. e_write e d old = Some d" and "e_mounted e'"
  shows "always (cap_always_load e' (cap_always_save e s)) =
      map Some (firsts (map trimmed (entries (always s)))) @
      replicate (CAP_ALWAYS_MAX - length (firsts (map trimmed (entries (always s))))) None \<and>
    (\<exists>d. capallow (cap_always_save e s) = Some d \<and> length d < CAPALLOW_BUF)"
proof -
  obtain d where d: "cap_always_serialize_rs 4096 (always s) = Some d" "d \<noteq> []" "length d < 4096"
    and p: "cap_always_parse_rs d = map Some (firsts (map trimmed (entries (always s)))) @
      replicate (CAP_ALWAYS_MAX - length (firsts (map trimmed (entries (always s))))) None"
    using parse_serialize [OF assms(1,2)] by blast
  have "capallow (cap_always_save e s) = Some d" using d assms(3) by (simp add: cap_always_save_def CAPALLOW_BUF_def)
  then show ?thesis using d p assms(4) by (simp add: cap_always_load_def CAPALLOW_BUF_def)
qed

definition two_entries :: always_table where
  "two_entries = Some \<lparr>al_uid = 1000, al_cap = CAP_SCREEN_CAPTURE, al_kind = CAP_SCOPE_PATH, al_app = ''SHOT'', al_scope = ''/HOME/A ''\<rparr> # None #
     Some \<lparr>al_uid = 1000, al_cap = CAP_SERIAL_PORT, al_kind = CAP_SCOPE_PORT, al_app = ''TERM'', al_scope = ''ttyS1''\<rparr> # replicate 29 None"

theorem cap_always_save_load_witness:
  "take 3 (always (cap_always_load (env_at 9) (cap_always_save (env_at 8) ((boot Map.empty None)\<lparr>always := two_entries\<rparr>)))) =
    [Some \<lparr>al_uid = 1000, al_cap = 3, al_kind = 1, al_app = ''SHOT'', al_scope = ''/HOME/A''\<rparr>,
     Some \<lparr>al_uid = 1000, al_cap = 6, al_kind = 2, al_app = ''TERM'', al_scope = ''ttyS1''\<rparr>, None]"
proof -
  have e: "entries two_entries = [\<lparr>al_uid = 1000, al_cap = 3, al_kind = 1, al_app = ''SHOT'', al_scope = ''/HOME/A ''\<rparr>,
      \<lparr>al_uid = 1000, al_cap = 6, al_kind = 2, al_app = ''TERM'', al_scope = ''ttyS1''\<rparr>]"
    by (simp add: two_entries_def entries_def cap_consts)
  have "list_all entry_ok (entries two_entries)"
    by (simp add: e entry_ok_def token_ok_def scope_token_ok_def cap_consts less_char_def less_eq_char_def)
  moreover have "length two_entries = CAP_ALWAYS_MAX" by (simp add: two_entries_def CAP_ALWAYS_MAX_def)
  ultimately show ?thesis
    using cap_always_save_load [of "(boot Map.empty None)\<lparr>always := two_entries\<rparr>" "env_at 8" "env_at 9"]
    by (simp add: e env_at_def firsts_def trimmed_def rtrim_def CAP_ALWAYS_MAX_def)
qed

section \<open>Injected input\<close>

definition inject_call :: "tcall \<Rightarrow> (u32 \<times> int) option" where
  "inject_call c = (case c of InjectKey q h k \<Rightarrow> Some (q, h) | InjectKeyUp q h k \<Rightarrow> Some (q, h)
     | InjectMouse q h x y t b \<Rightarrow> Some (q, h) | _ \<Rightarrow> None)"

lemma guard_ok:
  assumes "cap_inject_guard e pid h s = (0, s1)"
  shows "elev_owner_pid_rs (elev s) = 0 \<and> \<not> is_open s \<and> \<not> e_locked e \<and> win_ok h s \<and> \<not> userwin_is_compositor_owned h s \<and>
    user_windows s1 = user_windows s"
  using assms frame_authorize(3) [of e pid "uw_owner (user_windows s ! nat h) = pid" "uw_id (user_windows s ! nat h)" s]
  by (auto simp: cap_inject_guard_def cap_req_busy_rs_def neg_codes split: if_splits)

lemma guard_kept: "map_option tp_last_input (procs (snd (cap_inject_guard e pid h s)) q) = map_option tp_last_input (procs s q)"
  using uses_guard [of s s pid e h] by (auto simp: uses_def procs_upd_grants option.map_comp comp_def)

lemma inject_ret:
  "sys_cap_inject_key e pid h k s0 = (0, s') \<Longrightarrow> \<exists>s1 ge. cap_inject_guard e pid h s0 = (0, s1) \<and> s' = user_window_queue_event e h ge False s1"
  "sys_cap_inject_key_up e pid h k s0 = (0, s') \<Longrightarrow> \<exists>s1 ge. cap_inject_guard e pid h s0 = (0, s1) \<and> s' = user_window_queue_event e h ge False s1"
  "sys_cap_inject_mouse e pid h x y t b s0 = (0, s') \<Longrightarrow> \<exists>s1 ge. cap_inject_guard e pid h s0 = (0, s1) \<and> s' = user_window_queue_event e h ge False s1"
  by (auto simp: sys_cap_inject_key_def sys_cap_inject_key_up_def sys_cap_inject_mouse_def CAP_EARG_def
      split: prod.splits if_splits option.splits)

lemma inject_done:
  assumes "tcall_exec e c s = (0, s')" and "inject_call c = Some (pid, h)"
  obtains s0 s1 ge where "user_windows s0 = user_windows s" and "procs s0 = procs s" and "elev s0 = elev s" and "consent s0 = consent s"
    and "fb s0 = fb s" and "cap_part s0 = cap_part s" and "cap_inject_guard e pid h s0 = (0, s1)" and "s' = user_window_queue_event e h ge False s1"
proof -
  obtain n f where ex: "tcall_exec e c s = gated e pid n f s"
    and f: "\<And>s0 s'. f s0 = (0, s') \<Longrightarrow> \<exists>s1 ge. cap_inject_guard e pid h s0 = (0, s1) \<and> s' = user_window_queue_event e h ge False s1"
  proof (cases c)
    case (InjectKey q k x)
    then show thesis using assms(2) inject_ret(1) by (intro that [of 439 "sys_cap_inject_key e pid h x"]) (simp_all add: inject_call_def)
  next
    case (InjectKeyUp q k x)
    then show thesis using assms(2) inject_ret(2) by (intro that [of 460 "sys_cap_inject_key_up e pid h x"]) (simp_all add: inject_call_def)
  next
    case (InjectMouse q k x y t b)
    then show thesis using assms(2) inject_ret(3) by (intro that [of 440 "sys_cap_inject_mouse e pid h x y t b"]) (simp_all add: inject_call_def)
  qed (use assms(2) in \<open>simp_all add: inject_call_def\<close>)
  obtain r s0 where c: "syscall_cap_check e pid n s = (r, s0)" by (cases "syscall_cap_check e pid n s")
  have s0: "user_windows s0 = user_windows s" "procs s0 = procs s" "elev s0 = elev s" "consent s0 = consent s"
      "fb s0 = fb s" "cap_part s0 = cap_part s"
    using frame_check [of e pid n s] c by (simp_all add: cap_part_def)
  have "f s0 = (0, s')" using assms(1) ex c by (auto simp: gated_def split: if_splits)
  then show thesis using f s0 that by blast
qed

text \<open>C13: an injection that succeeds happened with no prompt on the screen and the session unlocked, into a live
  window that is not the compositor's; exactly one event is queued there, no prompt appears or goes away, and no process gains input
  credit.\<close>

theorem inject_confined:
  assumes "tcall_exec e c s = (0, s')" and "inject_call c = Some (pid, h)"
  shows "elev_owner_pid_rs (elev s) = 0 \<and> \<not> is_open s \<and> \<not> e_locked e \<and> win_ok h s \<and> \<not> userwin_is_compositor_owned h s \<and>
    (\<exists>ge. user_windows s' = (user_windows s)[nat h := uw_enqueue ge (user_windows s ! nat h)]) \<and>
    cap_part s' = cap_part s \<and> elev s' = elev s \<and>
    (\<forall>q. map_option tp_last_input (procs s' q) = map_option tp_last_input (procs s q))"
proof -
  obtain s0 s1 ge where s0: "user_windows s0 = user_windows s" "procs s0 = procs s" "elev s0 = elev s" "consent s0 = consent s"
      "fb s0 = fb s" "cap_part s0 = cap_part s"
    and g: "cap_inject_guard e pid h s0 = (0, s1)" and s': "s' = user_window_queue_event e h ge False s1"
    using inject_done [OF assms] by metis
  have ok: "elev_owner_pid_rs (elev s) = 0" "\<not> is_open s" "\<not> e_locked e" "win_ok h s" "\<not> userwin_is_compositor_owned h s"
      "user_windows s1 = user_windows s"
    using guard_ok [OF g] s0 by (simp_all add: win_ok_def userwin_is_compositor_owned_def)
  have s1: "cap_part s1 = cap_part s" "elev s1 = elev s" using frame_guard [of e pid h s0] g s0 by simp_all
  have "map_option tp_last_input (procs s1 q) = map_option tp_last_input (procs s q)" for q
    using guard_kept [of e pid h s0 q] g s0 by simp
  moreover have "user_windows s' = (user_windows s)[nat h := uw_enqueue ge (user_windows s ! nat h)]"
    using ok(4,6) by (simp add: s' user_window_queue_event_def win_ok_def upd_win_def)
  ultimately show ?thesis using ok s1 by (auto simp: s' frame)
qed

text \<open>A process with a grant to type into its own window.\<close>

definition inject_state :: trust where
  "inject_state = (boot Map.empty None)\<lparr>procs := [2 \<mapsto> (fresh_proc ''/APPS/KEYS'' 1000 1000)\<lparr>tp_grants :=
       \<lparr>gr_cap = CAP_INPUT_INJECT, gr_kind = CAP_SCOPE_WINDOW, gr_expires = 9000, gr_uses = 1, gr_seq = 0, gr_scope = ''self''\<rparr> #
       replicate 7 clear_slot\<rparr>],
     user_windows := new_window 2 1 ''Keys'' zero_window # replicate 15 zero_window\<rparr>"

lemma inject_runs: "fst (tcall_exec (env_at 5000) (InjectKey 2 0 97) inject_state) = 0" by code_simp

theorem inject_confined_witness:
  "\<not> is_open inject_state \<and> win_ok 0 inject_state \<and>
   (\<exists>ge. user_windows (snd (tcall_exec (env_at 5000) (InjectKey 2 0 97) inject_state)) =
      (user_windows inject_state)[0 := uw_enqueue ge (user_windows inject_state ! 0)])"
proof -
  have "tcall_exec (env_at 5000) (InjectKey 2 0 97) inject_state = (0, snd (tcall_exec (env_at 5000) (InjectKey 2 0 97) inject_state))"
    using inject_runs by (metis prod.collapse)
  from inject_confined [OF this, of 2 0] show ?thesis by (simp add: inject_call_def)
qed

section \<open>Fork\<close>

text \<open>C35: a fork copies what a process was allowed, one-use grants included: the child starts with all grants, the
  elevation and the input credit of its parent, and neither a revocation by the parent nor a use by the parent takes
  anything from the child.\<close>

theorem fork_copies_grants:
  assumes "procs s pid = Some p" and "e_slot e" and "e_space e" and "next_pid s \<noteq> pid" and "tcall_exec e (Fork pid) s = (r, s1)"
  shows "r = uint (next_pid s) \<and> grants_of s1 (next_pid s) = tp_grants p \<and>
    (\<exists>q. procs s1 (next_pid s) = Some q \<and> tp_elev_until q = tp_elev_until p \<and> tp_elev_prefix q = tp_elev_prefix p \<and>
       tp_last_input q = tp_last_input p) \<and>
    (\<forall>e' cap. grants_of (snd (tcall_exec e' (CapRevoke pid cap) s1)) (next_pid s) = tp_grants p) \<and>
    (\<forall>e' c. gated_call c = Some pid \<longrightarrow> grants_of (snd (tcall_exec e' c s1)) (next_pid s) = tp_grants p)"
proof -
  let ?q = "next_pid s"
  have f: "r = uint ?q" "procs s1 = (procs s)(?q \<mapsto> p\<lparr>tp_zombie := False\<rparr>)"
    using assms(1,2,3,5) by (auto simp: proc_fork_def)
  then have c: "grants_of s1 ?q = tp_grants p" by (simp add: grants_of_def)
  have other: "grants_of s2 ?q = tp_grants p" if "procs s2 = procs s1 \<or> (\<exists>gs. procs s2 = procs (upd_grants pid gs s1))" for s2
    using that c assms(4) by (auto simp: grants_of_def procs_upd_grants)
  have "grants_of (snd (tcall_exec e' (CapRevoke pid cap) s1)) ?q = tp_grants p" for e' cap
    by (rule other) (auto simp: sys_cap_revoke_def frame split: option.split)
  moreover have "grants_of (snd (tcall_exec e' c s1)) ?q = tp_grants p" if "gated_call c = Some pid" for e' c
    by (rule other) (use exec_uses [OF that, of e' s1] in \<open>auto simp: uses_def\<close>)
  ultimately show ?thesis using f c by simp
qed

theorem fork_copies_grants_witness:
  "grants_of (snd (tcall_exec (env_at 5000) (InjectKey 2 0 97) (snd (tcall_exec (env_at 4000) (Fork 2) inject_state)))) 1 =
    \<lparr>gr_cap = 1, gr_kind = 3, gr_expires = 9000, gr_uses = 1, gr_seq = 0, gr_scope = ''self''\<rparr> # replicate 7 clear_slot"
proof -
  let ?p = "(fresh_proc ''/APPS/KEYS'' 1000 1000)\<lparr>tp_grants :=
       \<lparr>gr_cap = 1, gr_kind = 3, gr_expires = 9000, gr_uses = 1, gr_seq = 0, gr_scope = ''self''\<rparr> # replicate 7 clear_slot\<rparr>"
  have "procs inject_state 2 = Some ?p" "next_pid inject_state = 1"
    by (simp_all add: inject_state_def boot_def cap_consts)
  moreover have "e_slot (env_at 4000)" "e_space (env_at 4000)" by (simp_all add: env_at_def)
  ultimately show ?thesis
    using fork_copies_grants [of inject_state 2 ?p "env_at 4000" "fst (tcall_exec (env_at 4000) (Fork 2) inject_state)"
        "snd (tcall_exec (env_at 4000) (Fork 2) inject_state)"]
    by (simp add: gated_call_def del: tcall_exec.simps)
qed

section \<open>Standing consents give longer grants\<close>

text \<open>A request under a standing consent is not clamped to fifteen minutes.\<close>

lemma autogrant_unclamped:
  assumes "auto_granted e pid a s info"
  shows "gr_expires (grant_of e info) = grant_expiry e (ra_dur a)"
  using assms by (auto simp: auto_granted_def grant_of_def req_info_def)

end
