(* ===== verification/Spec2Isabelle.thy ===== *)
theory Spec2Isabelle
  imports Shm Pipe Msg Futex Cron_Jobs Trust_Elev Trust_Checks
begin

text \<open>
  A verification development for the kernel of MayteraOS (\<open>src/kernel\<close>, C with decision functions in Rust).

  \<^bold>\<open>The program.\<close> MayteraOS is an x86-64 operating system. Its kernel hands out physical page frames, builds the
  page tables of processes, offers them file descriptors, pipes, message channels, shared memory and futexes, runs
  timed jobs, and decides which process may capture the screen, open a serial port, type into a window or install for
  everybody. The development models these services:

  \<^item> \<open>Pmm\<close>: \<open>mm/pmm.c\<close>. A bitmap of page frames with counters and a rotating hint: boot initialisation from the
    firmware's memory map, next-fit allocation of a page, first-fit allocation of runs, freeing, reservation, the
    low-water ladder. State: the record \<open>pmm\<close>, the static variables of the file.
  \<^item> \<open>Vmm\<close>: \<open>mm/vmm.c\<close>. Four-level page tables in a physical memory that is a map from addresses to 64-bit words, with
    the page allocator as part of the state: mapping (splitting of 2 MB leaves included), unmapping, look-ups, demand
    punching, re-protection.
  \<^item> \<open>Pagemap\<close>: the two page loops of \<open>ipc/shm.c\<close> and their interface \<open>page_mapper\<close> to the page tables.
  \<^item> \<open>Shm\<close>: \<open>ipc/shm.c\<close> with the ownership rule of \<open>rustkern/capgate.rs\<close>. Thirty-two regions, their frames and their
    mappings into address spaces; calls are the system calls.
  \<^item> \<open>Vfs\<close>: \<open>fs/vfs.c\<close> and the parts of \<open>proc/process.c\<close> and \<open>proc/syscall.c\<close> that make, copy and
    release descriptor tables. A store of reference-counted open descriptions, a table of descriptors per process slot with
    the flag \<open>in_use\<close>, a vtable per file kind; a use of a freed description is the value \<open>None\<close>. A fork that fails after
    the copy leaves its references behind: \<open>config\<close> counts them as lost (\<open>fork_failure_leaks\<close>). The counts of \<open>fs/vfs.c\<close> are
    plain increments and decrements without a lock, and a lookup takes no reference: the machine of descriptor calls runs one
    call at a time, which is what its invariants are about, while \<open>racing_puts_leak\<close> and \<open>racing_gets_undercount\<close> show what
    two cores can do to one count.
  \<^item> \<open>Pipe\<close>: \<open>fs/pipe.c\<close> and \<open>rustkern/pipewr.rs\<close>, as two file kinds of \<open>Vfs\<close>.
  \<^item> \<open>Msg\<close>: \<open>ipc/msg.c\<close>. Channels, connections with message rings, the name service. Identifiers come from a 32-bit
    counter that wraps: uniqueness is proved below the wrap (\<open>makes_id\<close> counts the calls that use one up), and
    \<open>msg_id_reused\<close> shows what happens at it. Calls run one at a time, sleeping receives excepted.
  \<^item> \<open>Futex\<close>: \<open>sync/futex.c\<close>. Hash buckets, the waiter pool, wait, wake, requeue, the timer sweep, as
    one step and bucket by bucket.
  \<^item> \<open>Cron\<close>, \<open>Cron_Text\<close>, \<open>Cron_Jobs\<close>: \<open>proc/cron.c\<close>. The job table, its file, the worker. \<open>CText\<close> holds C strings and
    decimals, for the two components that keep text files.
  \<^item> \<open>Caps\<close>: \<open>rustkern/caps.rs\<close>. The nouns of capabilities, the eight grants of a process, the one consent request, the
    standing consents and their file. \<open>Caps_Always\<close> proves the round trip of the file.
  \<^item> \<open>Trust\<close>, \<open>Elevate\<close>, \<open>Trust_Calls\<close>: the system calls over these tables (\<open>proc/caps.c\<close>), their consumers
    (\<open>gui/shotq.c\<close>, \<open>sys_serial_open\<close>, the injection calls of \<open>proc/syscall.c\<close>), elevation (\<open>proc/elevate.c\<close>,
    \<open>rustkern/elevate.rs\<close>, \<open>users_authenticate_elev\<close>), the framebuffer latch that makes a process the compositor
    (\<open>rustkern/fbown.rs\<close>, \<open>is_compositor\<close>), and what spawn, fork, execve, exit and reaping do to the fields of
    \<open>process_t\<close> involved, with the failures of spawn and fork; windows are created, destroyed and renamed. State: the record \<open>trust\<close>; \<open>tcall\<close> lists the calls, \<open>history\<close> is the machine they form, with the list of
    its events.
  \<^item> \<open>Trust_Frames\<close>, \<open>Trust_Grants\<close>, \<open>Trust_Account\<close>, \<open>Trust_Inherit\<close>, \<open>Trust_Paths\<close>: what each call leaves alone, what it
    does to grants, and the account of a history: which events gave a process what it holds. \<open>Trust_Safety\<close>, \<open>Trust_Elev\<close>,
    \<open>Trust_Checks\<close> hold the properties.

  \<^bold>\<open>How they interact.\<close> \<open>Vmm\<close> takes table frames from \<open>Pmm\<close>; \<open>Shm\<close> takes the frames of a
  region from \<open>Pmm\<close> through the interface \<open>page_allocator\<close> and maps them through \<open>page_mapper\<close>, of which \<open>Vmm\<close> is the instance; \<open>Pipe\<close> is called
  back by \<open>Vfs\<close> when a description is read, written or released. \<open>Msg\<close>, \<open>Futex\<close> and \<open>Cron\<close> are called by system
  calls and the timer only. A capability call of an application raises a prompt, the compositor reads and answers it,
  the answer writes a grant into the process, and the dispatcher and the gated calls look for it there; elevation has the
  same shape with a password, and its grant is read by the permission check of file writes. Neither prompt opens
  without input credit, which only the event queue of a window gives.

  \<^bold>\<open>How code becomes definitions.\<close> One definition per function, under the function's name, with its guards and early
  returns in the code's order; a loop body that is long has a definition of its own. Static variables are the fields of a
  record that is passed and returned. Integers keep their width as words where wrap-around can matter, and are \<open>nat\<close>
  or \<open>int\<close> with the reduction written out elsewhere. Error codes are the integers the code returns. Pointers are
  \<open>None\<close> for \<open>NULL\<close>, a table index, or an address of an explicit store. Sleeping calls take what other parties do
  meanwhile as an explicit argument (\<open>wakes\<close> in \<open>Pipe\<close>, the interference list of \<open>sys_msg_recv\<close>), or are two steps of
  a step relation (\<open>futex_step\<close>), so that the theorems hold for every interleaving. A lock that is held throughout a
  function makes it one step; where the code takes none, the component says that its calls run one at a time. Code of other files (the user-pointer validator, the FAT driver, the ELF check, the real-time
  clock, the file kinds other than pipes) is an argument, and the facts used of it are hypotheses of the theorem.

  \<^bold>\<open>Loops and bounds.\<close> Loops over tables are \<open>fold\<close> or structural recursion over the table. The loops of
  \<open>pmm_alloc_pages\<close>, which the code writes with 64-bit sums that can wrap, are \<open>function\<close>s with a measure, and the
  search that is not evidently finite is a partial function whose termination is the theorem
  \<open>pmm_alloc_pages_first_fit\<close>. No definition has fuel. The scans of strings recurse on the string; where the code
  stops at a byte count, so does the recursion.

  \<^bold>\<open>What the lemmas show.\<close> For each component: an invariant (\<open>pmm_inv\<close>, \<open>vm_ok\<close>, \<open>shm_inv\<close>, \<open>vfs_inv\<close>, \<open>msg_inv\<close>,
  \<open>futex_ok\<close> and \<open>world_ok\<close>, \<open>table_ok\<close>, \<open>accounted\<close>), that every operation keeps it, and the behaviour of the operations on all
  branches. Then:
  \<^item> specifications that hold for every reachable state: exact reference counts of descriptors (calls one at a
    time), the lifetime of pipes, isolation of shared memory in the window of addresses it is mapped at, no lost wake-up of a futex, no job that runs
    as somebody who did not ask for it, no capability used and no system directory written without a consent that can be
    pointed at in the history, no prompt without input of the user;
  \<^item> refinements: the pipe's ring is a bounded byte queue, a connection's ring is a list of four messages
    (\<open>data_refinement\<close>), a worker round is one simultaneous step of all due jobs;
  \<^item> round trips: allocate and free, send and receive, save and load of the job file and of the standing consents;
  \<^item> error behaviour, where the code leaks, underflows, frees memory that is still mapped, reuses identifiers, or hands
    authority to a forked child.
  Interfaces are locales, each interpreted on the model: \<open>page_allocator\<close> (by \<open>Pmm\<close>, used by \<open>Shm\<close>),
  \<open>page_mapper\<close> (by \<open>Vmm\<close>, used by \<open>Shm\<close>), \<open>file_kind\<close> (by \<open>Pipe\<close>, used by \<open>Vfs\<close>), \<open>data_refinement\<close> (by \<open>Pipe\<close> and \<open>Msg\<close>), \<open>slot_pool\<close> (by the waiter bitmap of
  \<open>Futex\<close>), \<open>process_field\<close> (by the elevation and the input credit of a process in \<open>Trust_Elev\<close>).

  \<^bold>\<open>Not modelled.\<close> Log output, statistics, self-tests and debug detectors of the modelled files, the SMAP brackets around
  user memory, interrupt masking and TLB maintenance (a page-table entry is what the walk reads). Of \<open>mm/vmm.c\<close>: the
  creation, cloning and destruction of whole address spaces, the kernel's own map, PAT. Around capabilities: the journal
  (its sequence number is an argument), the drawing of prompts by the compositor, the geometry of windows, other writers of the
  file of standing consents, which \<open>history\<close> takes to be none; the password check, the user table, the admin group and the
  permission check are arguments. Concurrency inside a descriptor call, of which only the update of one count is
    modelled. Whole subsystems outside the
  development: scheduler and signals, the heap, on-disk file systems, network stack, drivers, graphics and media,
  executable loaders and the DOS and Win16 personalities, boot loader, userland. They are either hardware glue, or
  clients of the services above; the manifest lists them.
\<close>

end
